(* ===== verification/Prelude.thy ===== *)
theory Prelude
  imports "HOL-Library.Word"
begin

text \<open>
  Shared vocabulary of the development: machine integer types, the outcome
  type of kernel code (normal return, panic, sleep, or a loop that did not
  finish within its fuel) with its sequencing operator, little-endian layout of
  integers in byte lists, and byte-addressed memory.

  Kernel code is modelled as functions from a state to an \<open>outcome\<close>.  The
  state is an extensible record: every component adds its own fields, and its
  operations are polymorphic in the rest of the state, so that the operations
  of a lower layer apply unchanged to the state of a higher one.
\<close>

unbundle bit_operations_syntax

type_synonym u8 = "8 word"
type_synonym u16 = "16 word"
type_synonym u32 = "32 word"
type_synonym u64 = "64 word"

named_theorems kdefs \<open>definitions a component's proofs unfold\<close>
named_theorems layout \<open>sizes and offsets of structures\<close>

section \<open>Outcomes of kernel code\<close>

text \<open>Locks are named by the object they are part of.\<close>

datatype lock =
    LKmem | LPid | LProc nat | LTicks | LBcache | LBuf nat | LLog nat
  | LIcache | LInode nat | LFtable | LPipe nat | LCons | LPr | LDisk nat | LBuddy

text \<open>
  The addresses the kernel sleeps on are kept symbolic: a channel names the
  object whose address the source passes to \<open>sleep\<close> and \<open>wakeup\<close>.
\<close>

datatype chan =
    ChanNone
  | ChanProc nat
  | ChanLog
  | ChanBuf nat
  | ChanSleeplock lock
  | ChanPipeRead nat
  | ChanPipeWrite nat
  | ChanCons
  | ChanDiskFree nat
  | ChanTicks

text \<open>
  \<open>Done a s\<close>: the call returned \<open>a\<close> and left the state \<open>s\<close>.
  \<open>Panic msg s\<close>: the kernel called \<open>panic(msg)\<close> and is frozen in state \<open>s\<close>.
  \<open>Sleep c s\<close>: the calling process went to sleep on channel \<open>c\<close>.
  \<open>Loop s\<close>: a loop of the source was cut off by the fuel of the model.
\<close>

datatype ('a, 's) outcome =
    Done 'a 's
  | Panic string 's
  | Sleep chan 's
  | Loop 's

fun bindk :: "('a, 's) outcome \<Rightarrow> ('a \<Rightarrow> 's \<Rightarrow> ('b, 's) outcome) \<Rightarrow> ('b, 's) outcome" where
  "bindk (Done a s) f = f a s"
| "bindk (Panic m s) f = Panic m s"
| "bindk (Sleep c s) f = Sleep c s"
| "bindk (Loop s) f = Loop s"

text \<open>Total correctness: the computation returns, and its result satisfies \<open>P\<close>.\<close>

fun returns :: "('a, 's) outcome \<Rightarrow> ('a \<Rightarrow> 's \<Rightarrow> bool) \<Rightarrow> bool" where
  "returns (Done a s) P = P a s"
| "returns (Panic m s) P = False"
| "returns (Sleep c s) P = False"
| "returns (Loop s) P = False"

text \<open>Partial correctness: whenever the computation returns, \<open>P\<close> holds.\<close>

fun whenever :: "('a, 's) outcome \<Rightarrow> ('a \<Rightarrow> 's \<Rightarrow> bool) \<Rightarrow> bool" where
  "whenever (Done a s) P = P a s"
| "whenever (Panic m s) P = True"
| "whenever (Sleep c s) P = True"
| "whenever (Loop s) P = True"

text \<open>The state in which a computation stopped, however it stopped.\<close>

fun final :: "('a, 's) outcome \<Rightarrow> 's" where
  "final (Done a s) = s"
| "final (Panic m s) = s"
| "final (Sleep c s) = s"
| "final (Loop s) = s"

lemma returns_bindk [simp]:
  "returns (bindk m f) P = returns m (\<lambda>a s. returns (f a s) P)"
  by (cases m) auto

lemma whenever_bindk [simp]:
  "whenever (bindk m f) P = whenever m (\<lambda>a s. whenever (f a s) P)"
  by (cases m) auto

lemma bindk_assoc [simp]:
  "bindk (bindk m f) g = bindk m (\<lambda>a s. bindk (f a s) g)"
  by (cases m) auto

lemma bindk_cong [fundef_cong]:
  assumes "m = m'" and "\<And>a s. m' = Done a s \<Longrightarrow> f a s = g a s"
  shows "bindk m f = bindk m' g"
  using assms by (cases m') auto

lemma bindk_Done_iff:
  "bindk m f = Done b t \<longleftrightarrow> (\<exists>a s. m = Done a s \<and> f a s = Done b t)"
  by (cases m) auto

lemma returns_iff: "returns m P \<longleftrightarrow> (\<exists>a s. m = Done a s \<and> P a s)"
  by (cases m) auto

lemma whenever_iff: "whenever m P \<longleftrightarrow> (\<forall>a s. m = Done a s \<longrightarrow> P a s)"
  by (cases m) auto

lemma returns_mono:
  assumes "returns m P" and "\<And>a s. P a s \<Longrightarrow> Q a s"
  shows "returns m Q"
  using assms by (cases m) auto

lemma whenever_mono:
  assumes "whenever m P" and "\<And>a s. P a s \<Longrightarrow> Q a s"
  shows "whenever m Q"
  using assms by (cases m) auto

lemma returns_conj: "returns m P \<Longrightarrow> returns m Q \<Longrightarrow> returns m (\<lambda>a s. P a s \<and> Q a s)"
  by (cases m) auto

lemma returns_whenever_conj:
  "returns m P \<Longrightarrow> whenever m Q \<Longrightarrow> returns m (\<lambda>a s. P a s \<and> Q a s)"
  by (cases m) auto

lemma whenever_True [simp]: "whenever m (\<lambda>a s. True)"
  by (cases m) auto

lemma returnsE:
  assumes "returns m P"
  obtains a s where "m = Done a s" and "P a s"
  using assms by (cases m) auto

lemma wheneverI: "(\<And>a s. m = Done a s \<Longrightarrow> P a s) \<Longrightarrow> whenever m P"
  by (cases m) auto

lemma whenever_if [simp]:
  "whenever (if b then m else m') P \<longleftrightarrow> (b \<longrightarrow> whenever m P) \<and> (\<not> b \<longrightarrow> whenever m' P)"
  by simp

lemma returns_if [simp]:
  "returns (if b then m else m') P \<longleftrightarrow> (b \<longrightarrow> returns m P) \<and> (\<not> b \<longrightarrow> returns m' P)"
  by simp

section \<open>Little-endian layout\<close>

lemma unat_bounds:
  "unat (a :: u8) < 256"
  "unat (b :: u16) < 65536"
  "unat (c :: u32) < 4294967296"
  "unat (d :: u64) < 18446744073709551616"
  using unsigned_less [of a, where ?'a = nat] unsigned_less [of b, where ?'a = nat]
    unsigned_less [of c, where ?'a = nat] unsigned_less [of d, where ?'a = nat]
  by simp_all

lemma unat_less_2p64: "unat (a :: u32) < 2 ^ 64" "unat (a :: u32) \<le> 2 ^ 64"
  using unat_bounds(3) [of a] by simp_all

lemma unat_ucast_up [simp]:
  "unat (ucast (a :: u32) :: u64) = unat a"
  "unat (ucast (b :: u16) :: u32) = unat b"
  "unat (ucast (c :: u8) :: u32) = unat c"
  "unat (ucast (c :: u8) :: u64) = unat c"
  "unat (ucast (b :: u16) :: u64) = unat b"
  using unat_bounds(1) [of c] unat_bounds(2) [of b] unat_bounds(3) [of a]
  by (simp_all add: unsigned_ucast_eq take_bit_nat_eq_self)

lemma uint_eq_iff [simp]: "uint a = uint b \<longleftrightarrow> a = b" "uint a = 0 \<longleftrightarrow> a = 0"
  by (simp_all add: word_uint_eq_iff)

lemma unat_eq_iff [simp]: "unat a = unat b \<longleftrightarrow> a = b"
  by (simp add: word_unat_eq_iff)

lemma take_drop_take:
  "o' + k \<le> n \<Longrightarrow> take k (drop o' (take n xs)) = take k (drop o' xs)"
  by (simp add: drop_take min_def)

definition le_bytes :: "nat \<Rightarrow> nat \<Rightarrow> u8 list" where
  "le_bytes n v = map (\<lambda>i. of_nat (v div 256 ^ i)) [0..<n]"

primrec le_val :: "u8 list \<Rightarrow> nat" where
  "le_val [] = 0"
| "le_val (b # bs) = unat b + 256 * le_val bs"

lemma length_le_bytes [simp]: "length (le_bytes n v) = n"
  by (simp add: le_bytes_def)

lemma le_bytes_0 [simp]: "le_bytes 0 v = []"
  by (simp add: le_bytes_def)

lemma le_bytes_Suc: "le_bytes (Suc n) v = of_nat v # le_bytes n (v div 256)"
proof -
  have "map (\<lambda>i. of_nat (v div 256 ^ i) :: u8) [1..<Suc n]
      = map (\<lambda>i. of_nat (v div 256 div 256 ^ i)) [0..<n]"
    by (simp add: map_Suc_upt [symmetric] div_mult2_eq del: upt_Suc)
  then show ?thesis
    by (simp add: le_bytes_def upt_conv_Cons del: upt_Suc)
qed

lemma le_val_le_bytes: "le_val (le_bytes n v) = v mod 256 ^ n"
proof (induction n arbitrary: v)
  case 0
  then show ?case by simp
next
  case (Suc n)
  have "le_val (le_bytes (Suc n) v) = v mod 256 + 256 * ((v div 256) mod 256 ^ n)"
    by (simp add: le_bytes_Suc Suc.IH unat_of_nat take_bit_eq_mod)
  also have "\<dots> = v mod 256 ^ Suc n"
    by (simp add: mod_mult2_eq)
  finally show ?case .
qed

lemma le_val_bound: "le_val bs < 256 ^ length bs"
proof (induction bs)
  case Nil
  then show ?case by simp
next
  case (Cons b bs)
  have "unat b < 256" by (rule unat_bounds)
  with Cons show ?case by simp
qed

lemma le_bytes_le_val: "le_bytes (length bs) (le_val bs) = bs"
proof (induction bs)
  case Nil
  then show ?case by simp
next
  case (Cons b bs)
  have ub: "unat b < 256" by (rule unat_bounds)
  have "(of_nat (unat b + 256 * le_val bs) :: u8) = b"
  proof -
    have "(of_nat (unat b + 256 * le_val bs) :: u8) = of_nat (unat b) + of_nat 256 * of_nat (le_val bs)"
      by simp
    also have "(of_nat 256 :: u8) = 0" by simp
    finally show ?thesis by simp
  qed
  moreover have "(unat b + 256 * le_val bs) div 256 = le_val bs"
    using ub by simp
  ultimately show ?case
    using Cons by (simp add: le_bytes_Suc)
qed

text \<open>Integer fields of a structure laid out in a byte list.\<close>

definition get_le :: "nat \<Rightarrow> u8 list \<Rightarrow> nat \<Rightarrow> nat" where
  "get_le n bs off = le_val (take n (drop off bs))"

definition put_le :: "nat \<Rightarrow> u8 list \<Rightarrow> nat \<Rightarrow> nat \<Rightarrow> u8 list" where
  "put_le n bs off v = take off bs @ le_bytes n v @ drop (off + n) bs"

definition get16 :: "u8 list \<Rightarrow> nat \<Rightarrow> u16" where
  "get16 bs off = of_nat (get_le 2 bs off)"

definition put16 :: "u8 list \<Rightarrow> nat \<Rightarrow> u16 \<Rightarrow> u8 list" where
  "put16 bs off w = put_le 2 bs off (unat w)"

definition get32 :: "u8 list \<Rightarrow> nat \<Rightarrow> u32" where
  "get32 bs off = of_nat (get_le 4 bs off)"

definition put32 :: "u8 list \<Rightarrow> nat \<Rightarrow> u32 \<Rightarrow> u8 list" where
  "put32 bs off w = put_le 4 bs off (unat w)"

definition get64 :: "u8 list \<Rightarrow> nat \<Rightarrow> u64" where
  "get64 bs off = of_nat (get_le 8 bs off)"

definition put64 :: "u8 list \<Rightarrow> nat \<Rightarrow> u64 \<Rightarrow> u8 list" where
  "put64 bs off w = put_le 8 bs off (unat w)"

lemma length_put_le [simp]: "off + n \<le> length bs \<Longrightarrow> length (put_le n bs off v) = length bs"
  by (simp add: put_le_def)

lemma get_put_le_same:
  "off + n \<le> length bs \<Longrightarrow> get_le n (put_le n bs off v) off = v mod 256 ^ n"
  by (simp add: get_le_def put_le_def le_val_le_bytes)

lemma take_drop_put_le_before:
  "o' + k \<le> off \<Longrightarrow> off + n \<le> length bs \<Longrightarrow>
   take k (drop o' (put_le n bs off v)) = take k (drop o' bs)"
  by (simp add: put_le_def min_def take_drop_take)

lemma drop_put_le_after:
  "off + n \<le> o' \<Longrightarrow> off + n \<le> length bs \<Longrightarrow> drop o' (put_le n bs off v) = drop o' bs"
  by (simp add: put_le_def)

lemma get_put_le_other:
  assumes "off + n \<le> length bs" and "o' + k \<le> off \<or> off + n \<le> o'"
  shows "get_le k (put_le n bs off v) o' = get_le k bs o'"
  using assms by (auto simp: get_le_def take_drop_put_le_before drop_put_le_after)

lemma put_le_put_le [simp]:
  "off + n \<le> length bs \<Longrightarrow> put_le n (put_le n bs off v) off w = put_le n bs off w"
  by (simp add: put_le_def)

lemma get_put16 [simp]: "off + 2 \<le> length bs \<Longrightarrow> get16 (put16 bs off w) off = w"
  by (simp add: get16_def put16_def get_put_le_same unat_bounds)

lemma get_put32 [simp]: "off + 4 \<le> length bs \<Longrightarrow> get32 (put32 bs off w) off = w"
  by (simp add: get32_def put32_def get_put_le_same unat_bounds)

lemma get_put64 [simp]: "off + 8 \<le> length bs \<Longrightarrow> get64 (put64 bs off w) off = w"
  by (simp add: get64_def put64_def get_put_le_same unat_bounds)

lemma length_put16 [simp]: "off + 2 \<le> length bs \<Longrightarrow> length (put16 bs off w) = length bs"
  by (simp add: put16_def)

lemma length_put32 [simp]: "off + 4 \<le> length bs \<Longrightarrow> length (put32 bs off w) = length bs"
  by (simp add: put32_def)

lemma length_put64 [simp]: "off + 8 \<le> length bs \<Longrightarrow> length (put64 bs off w) = length bs"
  by (simp add: put64_def)

lemma get_put_fields_other [simp]:
  "off + 4 \<le> length bs \<Longrightarrow> o' + 4 \<le> off \<or> off + 4 \<le> o' \<Longrightarrow> get32 (put32 bs off w) o' = get32 bs o'"
  "off + 4 \<le> length bs \<Longrightarrow> o' + 2 \<le> off \<or> off + 4 \<le> o' \<Longrightarrow> get16 (put32 bs off w) o' = get16 bs o'"
  "off + 2 \<le> length bs \<Longrightarrow> o' + 4 \<le> off \<or> off + 2 \<le> o' \<Longrightarrow> get32 (put16 bs off x) o' = get32 bs o'"
  "off + 2 \<le> length bs \<Longrightarrow> o' + 2 \<le> off \<or> off + 2 \<le> o' \<Longrightarrow> get16 (put16 bs off x) o' = get16 bs o'"
  by (auto simp: get32_def put32_def get16_def put16_def get_put_le_other)

text \<open>
  Replacing \<open>length xs\<close> bytes of a buffer at an offset: the effect of
  \<open>memmove\<close> or \<open>memset\<close> into a structure field.
\<close>

definition splice :: "u8 list \<Rightarrow> nat \<Rightarrow> u8 list \<Rightarrow> u8 list" where
  "splice bs off xs = take off bs @ xs @ drop (off + length xs) bs"

definition slice :: "u8 list \<Rightarrow> nat \<Rightarrow> nat \<Rightarrow> u8 list" where
  "slice bs off n = take n (drop off bs)"

lemma length_splice [simp]: "off + length xs \<le> length bs \<Longrightarrow> length (splice bs off xs) = length bs"
  by (simp add: splice_def)

lemma length_slice [simp]: "off + n \<le> length bs \<Longrightarrow> length (slice bs off n) = n"
  by (simp add: slice_def)

lemma slice_splice_same [simp]:
  "off + length xs \<le> length bs \<Longrightarrow> slice (splice bs off xs) off (length xs) = xs"
  by (simp add: slice_def splice_def)

lemma slice_splice_other:
  assumes "off + length xs \<le> length bs" and "o' + n \<le> off \<or> off + length xs \<le> o'"
  shows "slice (splice bs off xs) o' n = slice bs o' n"
  using assms by (auto simp: slice_def splice_def min_def take_drop_take)

lemma nth_splice:
  assumes "off + length xs \<le> length bs" and "i < length bs"
  shows "splice bs off xs ! i =
    (if off \<le> i \<and> i < off + length xs then xs ! (i - off) else bs ! i)"
  using assms by (auto simp: splice_def nth_append min_def)

section \<open>Byte-addressed memory\<close>

text \<open>
  Physical memory, which the kernel maps one to one, is a function from
  64-bit addresses to bytes.  Address arithmetic wraps as it does in C.
\<close>

type_synonym memory = "u64 \<Rightarrow> u8"

definition load_bytes :: "memory \<Rightarrow> u64 \<Rightarrow> nat \<Rightarrow> u8 list" where
  "load_bytes m a n = map (\<lambda>i. m (a + of_nat i)) [0..<n]"

definition store_bytes :: "memory \<Rightarrow> u64 \<Rightarrow> u8 list \<Rightarrow> memory" where
  "store_bytes m a bs = (\<lambda>x. if unat (x - a) < length bs then bs ! unat (x - a) else m x)"

definition load64 :: "memory \<Rightarrow> u64 \<Rightarrow> u64" where
  "load64 m a = of_nat (le_val (load_bytes m a 8))"

definition store64 :: "memory \<Rightarrow> u64 \<Rightarrow> u64 \<Rightarrow> memory" where
  "store64 m a w = store_bytes m a (le_bytes 8 (unat w))"

definition load32 :: "memory \<Rightarrow> u64 \<Rightarrow> u32" where
  "load32 m a = of_nat (le_val (load_bytes m a 4))"

definition store32 :: "memory \<Rightarrow> u64 \<Rightarrow> u32 \<Rightarrow> memory" where
  "store32 m a w = store_bytes m a (le_bytes 4 (unat w))"

text \<open>\<open>in_range a b n\<close>: the byte at \<open>a\<close> lies in the \<open>n\<close> bytes starting at \<open>b\<close>.\<close>

definition in_range :: "u64 \<Rightarrow> u64 \<Rightarrow> nat \<Rightarrow> bool" where
  "in_range a b n \<longleftrightarrow> unat (a - b) < n"

lemma length_load_bytes [simp]: "length (load_bytes m a n) = n"
  by (simp add: load_bytes_def)

lemma nth_load_bytes [simp]: "i < n \<Longrightarrow> load_bytes m a n ! i = m (a + of_nat i)"
  by (simp add: load_bytes_def)

lemma store_bytes_outside [simp]: "\<not> in_range x a (length bs) \<Longrightarrow> store_bytes m a bs x = m x"
  by (simp add: store_bytes_def in_range_def)

lemma store64_outside [simp]: "\<not> in_range x a 8 \<Longrightarrow> store64 m a w x = m x"
  by (simp add: store64_def)

lemma unat_of_nat_u64: "i < 2 ^ 64 \<Longrightarrow> unat (of_nat i :: u64) = i"
  by (simp add: unat_of_nat take_bit_nat_eq_self)

lemma of_nat_unat: "of_nat (unat w) = (w :: 'a::len word)"
  by simp

lemma unat_eq_of_nat_u64: "n < 2 ^ 64 \<Longrightarrow> unat (w :: u64) = n \<longleftrightarrow> w = of_nat n"
  by (metis of_nat_unat unat_of_nat_u64)

lemma load_store_bytes:
  assumes "length bs \<le> 2 ^ 64"
  shows "load_bytes (store_bytes m a bs) a (length bs) = bs"
  using assms by (intro nth_equalityI) (auto simp: store_bytes_def unat_of_nat_u64)

lemma load64_store64_same [simp]: "load64 (store64 m a w) a = w"
proof -
  have "load_bytes (store64 m a w) a 8 = le_bytes 8 (unat w)"
    using load_store_bytes [of "le_bytes 8 (unat w)" m a] by (simp add: store64_def)
  then show ?thesis
    by (simp add: load64_def le_val_le_bytes unat_bounds)
qed

lemma load_bytes_cong:
  assumes "\<And>i. i < n \<Longrightarrow> m (a + of_nat i) = m' (a + of_nat i)"
  shows "load_bytes m a n = load_bytes m' a n"
  using assms by (simp add: load_bytes_def)

lemma load64_cong:
  assumes "\<And>x. in_range x a 8 \<Longrightarrow> m x = m' x"
  shows "load64 m a = load64 m' a"
proof -
  have "load_bytes m a 8 = load_bytes m' a 8"
    by (rule load_bytes_cong) (rule assms, simp add: in_range_def unat_of_nat_u64)
  then show ?thesis by (simp add: load64_def)
qed

lemma in_range_self [simp]: "0 < n \<Longrightarrow> in_range a a n"
  by (simp add: in_range_def)

end
