(* ===== verification/Kstring.thy ===== *)
theory Kstring
  imports Prelude
begin

text \<open>
  \<open>kernel/string.c\<close>: memory and string routines.  \<open>memset\<close>, \<open>memmove\<close>
  and \<open>memcmp\<close> act on the byte-addressed memory; the string routines take a
  \<open>const char*\<close> as the function from offsets to bytes that the pointer gives
  access to, and return the bytes they write to the destination.
\<close>

section \<open>memset, memmove, memcmp\<close>

primrec memset_loop :: "memory \<Rightarrow> u64 \<Rightarrow> u8 \<Rightarrow> nat \<Rightarrow> memory" where
  "memset_loop m dst c 0 = m"
| "memset_loop m dst c (Suc i) = (memset_loop m dst c i)(dst + of_nat i := c)"

definition memset :: "memory \<Rightarrow> u64 \<Rightarrow> u8 \<Rightarrow> u32 \<Rightarrow> memory" where
  "memset m dst c n = memset_loop m dst c (unat n)"

fun copy_up :: "memory \<Rightarrow> u64 \<Rightarrow> u64 \<Rightarrow> nat \<Rightarrow> memory" where
  "copy_up m d s 0 = m"
| "copy_up m d s (Suc n) = copy_up (m(d := m s)) (d + 1) (s + 1) n"

fun copy_down :: "memory \<Rightarrow> u64 \<Rightarrow> u64 \<Rightarrow> nat \<Rightarrow> memory" where
  "copy_down m d s 0 = m"
| "copy_down m d s (Suc n) = copy_down (m(d - 1 := m (s - 1))) (d - 1) (s - 1) n"

definition memmove :: "memory \<Rightarrow> u64 \<Rightarrow> u64 \<Rightarrow> u32 \<Rightarrow> memory" where
  "memmove m dst src n =
    (if src < dst \<and> dst < src + ucast n
     then copy_down m (dst + ucast n) (src + ucast n) (unat n)
     else copy_up m dst src (unat n))"

definition memcpy :: "memory \<Rightarrow> u64 \<Rightarrow> u64 \<Rightarrow> u32 \<Rightarrow> memory" where
  "memcpy m dst src n = memmove m dst src n"

fun memcmp_loop :: "memory \<Rightarrow> u64 \<Rightarrow> u64 \<Rightarrow> nat \<Rightarrow> int" where
  "memcmp_loop m s1 s2 0 = 0"
| "memcmp_loop m s1 s2 (Suc n) =
    (if m s1 \<noteq> m s2 then uint (m s1) - uint (m s2)
     else memcmp_loop m (s1 + 1) (s2 + 1) n)"

definition memcmp :: "memory \<Rightarrow> u64 \<Rightarrow> u64 \<Rightarrow> u32 \<Rightarrow> int" where
  "memcmp m v1 v2 n = memcmp_loop m v1 v2 (unat n)"

section \<open>String routines\<close>

type_synonym cstr = "nat \<Rightarrow> u8"

text \<open>The pointer into a byte array, and the pointer into memory.\<close>

definition arr :: "u8 list \<Rightarrow> cstr" where
  "arr bs i = (if i < length bs then bs ! i else 0)"

definition ptr :: "memory \<Rightarrow> u64 \<Rightarrow> cstr" where
  "ptr m a i = m (a + of_nat i)"

text \<open>The string a pointer denotes when only the first \<open>n\<close> bytes may be read.\<close>

definition cstring :: "nat \<Rightarrow> cstr \<Rightarrow> u8 list" where
  "cstring n p = takeWhile (\<lambda>b. b \<noteq> 0) (map p [0..<n])"

fun strncmp_loop :: "cstr \<Rightarrow> cstr \<Rightarrow> nat \<Rightarrow> nat \<Rightarrow> int" where
  "strncmp_loop p q i 0 = 0"
| "strncmp_loop p q i (Suc n) =
    (if p i \<noteq> 0 \<and> p i = q i then strncmp_loop p q (Suc i) n
     else uint (p i) - uint (q i))"

definition strncmp :: "cstr \<Rightarrow> cstr \<Rightarrow> u32 \<Rightarrow> int" where
  "strncmp p q n = strncmp_loop p q 0 (unat n)"

text \<open>The bounds of \<open>strncpy\<close> and \<open>safestrcpy\<close> are of type \<open>int\<close>: 32 bits, read with their sign.\<close>

fun strncpy_loop :: "cstr \<Rightarrow> nat \<Rightarrow> nat \<Rightarrow> u8 list" where
  "strncpy_loop t i 0 = []"
| "strncpy_loop t i (Suc n) =
    (if t i \<noteq> 0 then t i # strncpy_loop t (Suc i) n
     else 0 # replicate n 0)"

definition strncpy :: "cstr \<Rightarrow> u32 \<Rightarrow> u8 list" where
  "strncpy t n = strncpy_loop t 0 (nat (sint n))"

fun safestrcpy_loop :: "cstr \<Rightarrow> nat \<Rightarrow> nat \<Rightarrow> u8 list" where
  "safestrcpy_loop t i 0 = [0]"
| "safestrcpy_loop t i (Suc n) =
    (if t i \<noteq> 0 then t i # safestrcpy_loop t (Suc i) n
     else [0, 0])"

definition safestrcpy :: "cstr \<Rightarrow> u32 \<Rightarrow> u8 list" where
  "safestrcpy t n = (if sint n \<le> 0 then [] else safestrcpy_loop t 0 (nat (sint n - 1)))"

partial_function (option) strlen_from :: "cstr \<Rightarrow> nat \<Rightarrow> nat option" where
  "strlen_from s n = (if s n \<noteq> 0 then strlen_from s (Suc n) else Some n)"

definition strlen :: "cstr \<Rightarrow> nat option" where
  "strlen s = strlen_from s 0"

section \<open>Properties\<close>

text \<open>The closed form of a filled range; \<open>memset\<close> computes it.\<close>

lemma memset_loop_eq:
  "n \<le> 2 ^ 64 \<Longrightarrow> memset_loop m dst c n = (\<lambda>a. if in_range a dst n then c else m a)"
proof (induction n)
  case 0
  then show ?case by (simp add: in_range_def)
next
  case (Suc n)
  have "in_range a dst (Suc n) \<longleftrightarrow> in_range a dst n \<or> a = dst + of_nat n" for a
  proof -
    have "unat (a - dst) = n \<longleftrightarrow> a - dst = of_nat n"
      using Suc.prems by (simp add: unat_eq_of_nat_u64)
    then show ?thesis
      by (auto simp: in_range_def less_Suc_eq algebra_simps)
  qed
  with Suc show ?case by (auto simp: fun_eq_iff)
qed

lemma memset_eq: "memset m dst c n = (\<lambda>a. if in_range a dst (unat n) then c else m a)"
proof -
  have "unat n \<le> 2 ^ 64" by (rule unat_less_2p64)
  then show ?thesis by (simp add: memset_def memset_loop_eq)
qed


text \<open>
  \<open>copy_up\<close> and \<open>copy_down\<close> each agree with a simultaneous copy as long as
  they never read a byte they have already overwritten.
\<close>

lemma copy_up_eq:
  assumes "unat d + n \<le> 2 ^ 64" and "unat s + n \<le> 2 ^ 64" and "d \<le> s \<or> unat s + n \<le> unat d"
  shows "copy_up m d s n = (\<lambda>a. if in_range a d n then m (s + (a - d)) else m a)"
  using assms
proof (induction n arbitrary: m d s)
  case 0
  then show ?case by (simp add: in_range_def)
next
  case (Suc n)
  show ?case
  proof (cases "n = 0")
    case True
    then show ?thesis
      by (auto simp: fun_eq_iff in_range_def unat_eq_of_nat_u64)
  next
    case False
    have ud: "unat (d + 1) = unat d + 1" and us: "unat (s + 1) = unat s + 1"
      using Suc.prems False by (simp_all add: unat_word_ariths)
    have "copy_up (m(d := m s)) (d + 1) (s + 1) n =
        (\<lambda>a. if in_range a (d + 1) n then (m(d := m s)) (s + 1 + (a - (d + 1))) else (m(d := m s)) a)"
      using Suc.prems ud us by (intro Suc.IH) (auto simp: word_le_nat_alt)
    moreover have "(if in_range a (d + 1) n then (m(d := m s)) (s + 1 + (a - (d + 1))) else (m(d := m s)) a)
        = (if in_range a d (Suc n) then m (s + (a - d)) else m a)" for a
    proof (cases "a = d")
      case True
      then show ?thesis
        using Suc.prems(1) by (auto simp: in_range_def unat_word_ariths)
    next
      case False
      have nz: "a - d \<noteq> 0" using False by simp
      have "a - (d + 1) = (a - d) - 1" by (simp add: algebra_simps)
      then have u: "unat (a - (d + 1)) = unat (a - d) - 1"
        using unat_minus_one [OF nz] by (simp only:)
      have pos: "0 < unat (a - d)"
        using nz by (simp add: unat_gt_0)
      have ir: "in_range a (d + 1) n \<longleftrightarrow> in_range a d (Suc n)"
        using u pos by (simp add: in_range_def) linarith
      have "s + (a - d) \<noteq> d" if "in_range a d (Suc n)"
      proof
        assume eq: "s + (a - d) = d"
        have lt: "unat (a - d) < Suc n" using that by (simp add: in_range_def)
        then have "unat (s + (a - d)) = unat s + unat (a - d)"
          using Suc.prems(2) by (simp add: unat_word_ariths)
        then have "unat d = unat s + unat (a - d)" by (simp only: eq)
        with pos lt Suc.prems(3) show False by (auto simp: word_le_nat_alt)
      qed
      moreover have "s + 1 + (a - (d + 1)) = s + (a - d)" by simp
      ultimately show ?thesis using ir False by auto
    qed
    ultimately show ?thesis by simp
  qed
qed

lemma copy_down_eq:
  assumes "unat d + n \<le> 2 ^ 64" and "unat s + n \<le> 2 ^ 64" and "s < d"
  shows "copy_down m (d + of_nat n) (s + of_nat n) n =
    (\<lambda>a. if in_range a d n then m (s + (a - d)) else m a)"
  using assms
proof (induction n arbitrary: m)
  case 0
  then show ?case by (simp add: in_range_def)
next
  case (Suc n)
  have e: "d + of_nat (Suc n) - 1 = d + of_nat n" "s + of_nat (Suc n) - 1 = s + of_nat n"
    by simp_all
  have un: "unat (of_nat n :: u64) = n" using Suc.prems by (simp add: unat_of_nat_u64)
  let ?m = "m(d + of_nat n := m (s + of_nat n))"
  have "copy_down m (d + of_nat (Suc n)) (s + of_nat (Suc n)) (Suc n)
      = copy_down ?m (d + of_nat n) (s + of_nat n) n"
    using e by simp
  also have "\<dots> = (\<lambda>a. if in_range a d n then ?m (s + (a - d)) else ?m a)"
    using Suc by simp
  also have "\<dots> = (\<lambda>a. if in_range a d (Suc n) then m (s + (a - d)) else m a)"
  proof
    fix a
    have eq: "unat (a - d) = n \<longleftrightarrow> a = d + of_nat n"
      using Suc.prems(1) by (simp add: unat_eq_of_nat_u64 algebra_simps)
    have "s + (a - d) \<noteq> d + of_nat n" if "in_range a d n"
    proof
      assume eq': "s + (a - d) = d + of_nat n"
      have "unat (s + (a - d)) = unat s + unat (a - d)"
        using that Suc.prems(2) by (simp add: in_range_def unat_word_ariths)
      moreover have "unat (d + of_nat n) = unat d + n"
        using Suc.prems(1) un by (simp add: unat_word_ariths)
      ultimately have "unat s + unat (a - d) = unat d + n" by (simp only: eq')
      then show False
        using that Suc.prems(3) by (simp add: in_range_def word_less_nat_alt)
    qed
    then show "(if in_range a d n then ?m (s + (a - d)) else ?m a)
        = (if in_range a d (Suc n) then m (s + (a - d)) else m a)"
      using eq by (auto simp: in_range_def less_Suc_eq)
  qed
  finally show ?case .
qed

lemma memmove_eq:
  assumes "unat dst + unat n < 2 ^ 64" and "unat src + unat n < 2 ^ 64"
  shows "memmove m dst src n =
    (\<lambda>a. if in_range a dst (unat n) then m (src + (a - dst)) else m a)"
proof -
  have ucn: "(ucast n :: u64) = of_nat (unat n)"
    by simp
  have usrc: "unat (src + ucast n) = unat src + unat n"
    using assms(2) by (simp add: unat_word_ariths)
  show ?thesis
  proof (cases "src < dst \<and> dst < src + ucast n")
    case True
    then show ?thesis
      using copy_down_eq [of dst "unat n" src m] assms by (simp add: memmove_def)
  next
    case False
    then have "dst \<le> src \<or> unat src + unat n \<le> unat dst"
      using usrc by (auto simp: word_less_nat_alt word_le_nat_alt)
    with False show ?thesis
      using copy_up_eq [of dst "unat n" src m] assms by (auto simp: memmove_def)
  qed
qed


lemma memmove_bytes:
  assumes "unat dst + unat n < 2 ^ 64" and "unat src + unat n < 2 ^ 64"
  shows "load_bytes (memmove m dst src n) dst (unat n) = load_bytes m src (unat n)"
  using unat_bounds(3) [of n]
  by (intro nth_equalityI) (auto simp: memmove_eq [OF assms] in_range_def unat_of_nat_u64)

lemma memcmp_loop_0_iff:
  "memcmp_loop m a b n = 0 \<longleftrightarrow> (\<forall>i<n. m (a + of_nat i) = m (b + of_nat i))"
proof (induction n arbitrary: a b)
  case 0
  then show ?case by simp
next
  case (Suc n)
  have "(\<forall>i<Suc n. m (a + of_nat i) = m (b + of_nat i)) \<longleftrightarrow>
      m a = m b \<and> (\<forall>i<n. m (a + 1 + of_nat i) = m (b + 1 + of_nat i))"
    by (simp add: All_less_Suc2 add.assoc)
  with Suc show ?case by simp
qed

lemma memcmp_0_iff:
  "memcmp m v1 v2 n = 0 \<longleftrightarrow> load_bytes m v1 (unat n) = load_bytes m v2 (unat n)"
  by (auto simp: memcmp_def memcmp_loop_0_iff list_eq_iff_nth_eq)

lemma cstring_0 [simp]: "cstring 0 p = []"
  by (simp add: cstring_def)

lemma cstring_Suc:
  "cstring (Suc n) p = (if p 0 = 0 then [] else p 0 # cstring n (\<lambda>i. p (Suc i)))"
  by (simp add: cstring_def upt_conv_Cons map_Suc_upt [symmetric] comp_def del: upt_Suc)

lemma cstring_cong: "(\<And>i. i < n \<Longrightarrow> p i = q i) \<Longrightarrow> cstring n p = cstring n q"
  unfolding cstring_def by (intro arg_cong [where f = "takeWhile _"] map_cong) auto

lemma strncmp_loop_0_iff:
  "strncmp_loop p q i n = 0 \<longleftrightarrow>
    cstring n (\<lambda>k. p (i + k)) = cstring n (\<lambda>k. q (i + k))"
  by (induction p q i n rule: strncmp_loop.induct) (auto simp: cstring_Suc)

text \<open>\<open>strncmp\<close> returns 0 exactly when the two strings agree up to \<open>n\<close> bytes.\<close>

lemma strncmp_0_iff: "strncmp p q n = 0 \<longleftrightarrow> cstring (unat n) p = cstring (unat n) q"
  by (simp add: strncmp_def strncmp_loop_0_iff)

lemma length_strncpy_loop [simp]: "length (strncpy_loop t i n) = n"
  by (induction t i n rule: strncpy_loop.induct) auto

lemma length_strncpy [simp]: "length (strncpy t n) = nat (sint n)"
  by (simp add: strncpy_def)

lemma arr_Cons [simp]: "arr (b # bs) (Suc i) = arr bs i" "arr (b # bs) 0 = b"
  by (simp_all add: arr_def)

lemma arr_replicate_0 [simp]: "arr (replicate n 0) i = 0"
  by (simp add: arr_def)

lemma cstring_strncpy_loop:
  "cstring n (arr (strncpy_loop t i n)) = cstring n (\<lambda>k. t (i + k))"
  by (induction t i n rule: strncpy_loop.induct) (auto simp: cstring_Suc)

lemma cstring_strncpy: "cstring (nat (sint n)) (arr (strncpy t n)) = cstring (nat (sint n)) t"
  by (simp add: strncpy_def cstring_strncpy_loop)

lemma strncpy_loop_pads:
  "strncpy_loop t i n = cstring n (\<lambda>k. t (i + k)) @ replicate (n - length (cstring n (\<lambda>k. t (i + k)))) 0"
  by (induction t i n rule: strncpy_loop.induct) (auto simp: cstring_Suc)

lemma nat_sint:
  assumes "0 \<le> sint (n :: u32)"
  shows "nat (sint n) = unat n"
proof -
  have s: "sint n = signed_take_bit 31 (uint n)" by (simp add: sint_uint)
  then have b: "\<not> bit (uint n) 31" using assms by (simp add: signed_take_bit_nonnegative_iff)
  have "uint n < 2 ^ 32" using uint_lt2p [of n] by simp
  then have "uint n = take_bit (Suc 31) (uint n)" by (simp add: take_bit_int_eq_self)
  also have "\<dots> = take_bit 31 (uint n)" unfolding take_bit_Suc_from_most using b by (simp only: if_False of_bool_eq mult_zero_right add_0)
  finally have "sint n = uint n" using s b by (simp add: signed_take_bit_eq_if_positive)
  then show ?thesis by simp
qed

lemma safestrcpy_loop_props:
  "length (safestrcpy_loop t i n) \<le> Suc n \<and>
   takeWhile (\<lambda>b. b \<noteq> 0) (safestrcpy_loop t i n) = cstring n (\<lambda>k. t (i + k)) \<and>
   0 \<in> set (safestrcpy_loop t i n)"
  by (induction t i n rule: safestrcpy_loop.induct) (auto simp: cstring_Suc)

text \<open>
  \<open>safestrcpy\<close> never writes past the destination and always terminates the
  string, which is the longest prefix of the source that fits.
\<close>

lemma safestrcpy_props:
  assumes "0 < sint n"
  shows "length (safestrcpy t n) \<le> nat (sint n)"
    and "takeWhile (\<lambda>b. b \<noteq> 0) (safestrcpy t n) = cstring (nat (sint n - 1)) t"
    and "0 \<in> set (safestrcpy t n)"
  using assms safestrcpy_loop_props [of t 0 "nat (sint n - 1)"]
  by (auto simp: safestrcpy_def)

text \<open>\<open>strlen\<close> returns whenever the string is terminated, and returns its length.\<close>

lemma strlen_from_Some:
  assumes "t k = 0" and "\<And>j. i \<le> j \<Longrightarrow> j < k \<Longrightarrow> t j \<noteq> 0" and "i \<le> k"
  shows "strlen_from t i = Some k"
  using assms(3,2)
proof (induction "k - i" arbitrary: i)
  case 0
  then have "i = k" by simp
  with assms(1) show ?case by (simp add: strlen_from.simps)
next
  case (Suc d)
  then have "t i \<noteq> 0" by simp
  moreover have "strlen_from t (Suc i) = Some k"
    using Suc by (intro Suc.hyps(1)) auto
  ultimately show ?case by (simp add: strlen_from.simps [of t i])
qed

lemma strlen_cstring:
  assumes "0 \<in> set (map t [0..<n])"
  shows "strlen t = Some (length (cstring n t))"
proof -
  let ?k = "length (cstring n t)"
  have "?k < n"
    using assms length_takeWhile_le [of "\<lambda>b. b \<noteq> 0" "map t [0..<n]"]
    by (metis (mono_tags, lifting) cstring_def diff_zero le_neq_implies_less length_map length_upt
        set_takeWhileD takeWhile_eq_take take_all_iff order_refl)
  then have "t ?k = 0"
    using nth_length_takeWhile [of "\<lambda>b. b \<noteq> 0" "map t [0..<n]"] by (simp add: cstring_def)
  moreover have "t j \<noteq> 0" if "j < ?k" for j
    using that \<open>?k < n\<close> nth_mem [of j "cstring n t"] takeWhile_nth [of j "\<lambda>b. b \<noteq> 0" "map t [0..<n]"]
      set_takeWhileD [of _ "\<lambda>b. b \<noteq> 0" "map t [0..<n]"]
    by (fastforce simp: cstring_def)
  ultimately show ?thesis by (simp add: strlen_def strlen_from_Some)
qed

section \<open>Correctness of the copying routines\<close>

text \<open>
  C36: \<open>memmove\<close> copies correctly even when source and destination overlap.  For
  ranges that do not wrap around the address space, the destination afterwards
  holds the bytes the source held before, and no other byte of memory changes.
\<close>

theorem memmove_overlap:
  assumes "unat dst + unat n < 2 ^ 64" and "unat src + unat n < 2 ^ 64"
  shows "load_bytes (memmove m dst src n) dst (unat n) = load_bytes m src (unat n) \<and>
    (\<forall>x. \<not> in_range x dst (unat n) \<longrightarrow> memmove m dst src n x = m x)"
  using memmove_bytes [OF assms] memmove_eq [OF assms] by auto

theorem memmove_overlap_witness:
  "load_bytes (memmove (\<lambda>a. ucast a) 1002 1000 4) 1002 4 = [232, 233, 234, 235] \<and>
   memmove (\<lambda>a. ucast a) 1002 1000 4 1001 = 233"
proof -
  note c = memmove_overlap [of 1002 4 1000 "\<lambda>a. ucast a"]
  have "load_bytes (memmove (\<lambda>a. ucast a) 1002 1000 4) 1002 4 = [232, 233, 234, 235]"
    using c by (simp add: load_bytes_def upt_rec)
  moreover have "\<not> in_range 1001 1002 4"
    by (simp add: in_range_def unsigned_minus_1_eq_mask mask_eq_exp_minus_1)
  ultimately show ?thesis
    using c by simp
qed

text \<open>
  C37: a name of any length written into a fixed-size field by \<open>strncpy\<close>. For a positive bound
  the field holds the name up to its end or to the bound, followed by zeros, is filled completely,
  and compares equal, by \<open>strncmp\<close> with the same bound, to the name it was copied from. The bound
  is a signed 32-bit integer; for 0 and for negative bounds nothing is written.
\<close>

theorem strncpy_strncmp_round_trip:
  "if sint n \<le> 0 then strncpy t n = []
   else length (strncpy t n) = unat n \<and> strncmp (arr (strncpy t n)) t n = 0 \<and>
     strncpy t n = cstring (unat n) t @ replicate (unat n - length (cstring (unat n) t)) 0"
proof (cases "sint n \<le> 0")
  case True
  then show ?thesis by (simp add: strncpy_def)
next
  case False
  then have e: "nat (sint n) = unat n" by (simp add: nat_sint)
  show ?thesis
    using False cstring_strncpy [of n t, unfolded e] strncpy_loop_pads [of t 0 "unat n"]
    by (simp add: strncmp_0_iff e) (simp add: strncpy_def e)
qed

end
