(* ===== verification/Memlayout.thy ===== *)
theory Memlayout
  imports Prelude
begin

text \<open>
  \<open>kernel/riscv.h\<close> and \<open>kernel/memlayout.h\<close>: page arithmetic, page-table
  entries of the Sv39 scheme and the physical memory map.
\<close>

definition PGSIZE :: u64 where "PGSIZE = 4096"
definition PGSHIFT :: nat where "PGSHIFT = 12"

definition PGROUNDUP :: "u64 \<Rightarrow> u64" where
  "PGROUNDUP sz = (sz + PGSIZE - 1) AND NOT (PGSIZE - 1)"

definition PGROUNDDOWN :: "u64 \<Rightarrow> u64" where
  "PGROUNDDOWN a = a AND NOT (PGSIZE - 1)"

definition PTE_V :: u64 where "PTE_V = push_bit 0 1"
definition PTE_R :: u64 where "PTE_R = push_bit 1 1"
definition PTE_W :: u64 where "PTE_W = push_bit 2 1"
definition PTE_X :: u64 where "PTE_X = push_bit 3 1"
definition PTE_U :: u64 where "PTE_U = push_bit 4 1"

definition PA2PTE :: "u64 \<Rightarrow> u64" where
  "PA2PTE pa = push_bit 10 (drop_bit 12 pa)"

definition PTE2PA :: "u64 \<Rightarrow> u64" where
  "PTE2PA pte = push_bit 12 (drop_bit 10 pte)"

definition PTE_FLAGS :: "u64 \<Rightarrow> u64" where
  "PTE_FLAGS pte = pte AND 0x3FF"

definition PXMASK :: u64 where "PXMASK = 0x1FF"

definition PXSHIFT :: "nat \<Rightarrow> nat" where
  "PXSHIFT level = PGSHIFT + 9 * level"

definition PX :: "nat \<Rightarrow> u64 \<Rightarrow> u64" where
  "PX level va = drop_bit (PXSHIFT level) va AND PXMASK"

definition MAXVA :: u64 where "MAXVA = push_bit (9 + 9 + 9 + 12 - 1) 1"

definition KERNBASE :: u64 where "KERNBASE = 0x80000000"
definition PHYSTOP :: u64 where "PHYSTOP = KERNBASE + 128 * 1024 * 1024"
definition TRAMPOLINE :: u64 where "TRAMPOLINE = MAXVA - PGSIZE"
definition TRAPFRAME :: u64 where "TRAPFRAME = TRAMPOLINE - PGSIZE"

definition KSTACK :: "u64 \<Rightarrow> u64" where
  "KSTACK p = TRAMPOLINE - (p + 1) * 2 * PGSIZE"

lemmas page_consts = PGSIZE_def PGSHIFT_def PTE_V_def PTE_R_def PTE_W_def PTE_X_def PTE_U_def
  PXMASK_def PXSHIFT_def MAXVA_def KERNBASE_def PHYSTOP_def TRAMPOLINE_def TRAPFRAME_def

section \<open>Page arithmetic\<close>

definition page_aligned :: "u64 \<Rightarrow> bool" where
  "page_aligned a \<longleftrightarrow> a mod PGSIZE = 0"

lemma and_not_mask_eq: "a AND NOT (mask n) = a - take_bit n (a :: 'a::len word)"
proof -
  have "a AND NOT (mask n) = push_bit n (drop_bit n a)"
    by (rule bit_word_eqI) (auto simp: bit_simps)
  then show ?thesis
    using bits_ident [of n a] by (simp add: eq_diff_eq)
qed

lemma page_mask: "NOT (PGSIZE - 1) = NOT (mask 12)"
  by (simp add: PGSIZE_def mask_eq_exp_minus_1)

lemma PGROUNDDOWN_eq: "PGROUNDDOWN a = a - a mod PGSIZE"
  unfolding PGROUNDDOWN_def page_mask and_not_mask_eq
  by (simp add: take_bit_eq_mod PGSIZE_def)

lemma unat_PGSIZE [simp]: "unat PGSIZE = 4096"
  by (simp add: PGSIZE_def)

lemma unat_mod_PGSIZE [simp]: "unat (a mod PGSIZE) = unat a mod 4096"
  by (simp add: unat_mod)

lemma page_aligned_iff: "page_aligned a \<longleftrightarrow> 4096 dvd unat a"
  by (metis dvd_eq_mod_eq_0 page_aligned_def unat_eq_zero unat_mod_PGSIZE)

lemma unat_PGROUNDDOWN: "unat (PGROUNDDOWN a) = unat a - unat a mod 4096"
  by (simp add: PGROUNDDOWN_eq unat_sub word_le_nat_alt)

lemma PGROUNDDOWN_aligned [simp]: "page_aligned (PGROUNDDOWN a)"
  by (simp add: page_aligned_iff unat_PGROUNDDOWN dvd_minus_mod)

lemma PGROUNDDOWN_le: "PGROUNDDOWN a \<le> a"
  by (simp add: word_le_nat_alt unat_PGROUNDDOWN)

lemma PGROUNDDOWN_id: "page_aligned a \<Longrightarrow> PGROUNDDOWN a = a"
  by (simp add: PGROUNDDOWN_eq page_aligned_def)

lemma PGROUNDUP_alt: "PGROUNDUP sz = PGROUNDDOWN (sz + (PGSIZE - 1))"
  by (simp add: PGROUNDUP_def PGROUNDDOWN_def algebra_simps)

lemma PGROUNDUP_aligned [simp]: "page_aligned (PGROUNDUP a)"
  by (simp add: PGROUNDUP_alt)

lemma unat_PGROUNDUP:
  assumes "unat a + 4095 < 2 ^ 64"
  shows "unat (PGROUNDUP a) = (unat a + 4095) - (unat a + 4095) mod 4096"
  using assms by (simp add: PGROUNDUP_alt unat_PGROUNDDOWN unat_word_ariths PGSIZE_def)

lemma PGROUNDUP_ge:
  assumes "unat a + 4095 < 2 ^ 64"
  shows "unat a \<le> unat (PGROUNDUP a)" and "unat (PGROUNDUP a) < unat a + 4096"
  using assms by (auto simp: unat_PGROUNDUP)

lemma aligned_no_wrap:
  assumes "page_aligned a"
  shows "unat a + 4095 < 2 ^ 64"
proof -
  obtain k where k: "unat a = 4096 * k"
    using assms by (auto simp: page_aligned_iff)
  have "unat a < 18446744073709551616" by (rule unat_bounds)
  with k show ?thesis by simp
qed

lemma PGROUNDUP_id:
  assumes "page_aligned a"
  shows "PGROUNDUP a = a"
proof -
  obtain k where k: "unat a = 4096 * k"
    using assms by (auto simp: page_aligned_iff)
  have "unat (PGROUNDUP a) = unat a"
    using unat_PGROUNDUP [OF aligned_no_wrap [OF assms]] by (simp add: k)
  then show ?thesis by simp
qed

section \<open>Pages as byte ranges\<close>

text \<open>A byte lies in the page at \<open>a\<close> exactly when rounding it down gives \<open>a\<close>.\<close>

lemma page_nat_aux:
  assumes "a \<le> x" and "a = 4096 * k"
  shows "x - a < 4096 \<longleftrightarrow> x - x mod 4096 = (a :: nat)"
proof
  assume "x - a < 4096"
  then have "x div 4096 = k"
    using assms by (intro div_nat_eqI) auto
  then show "x - x mod 4096 = a"
    using assms by (simp add: minus_mod_eq_mult_div)
next
  assume "x - x mod 4096 = a"
  moreover have "x mod 4096 < 4096" by simp
  ultimately show "x - a < 4096" by linarith
qed

lemma in_page_iff:
  assumes "page_aligned a"
  shows "in_range x a 4096 \<longleftrightarrow> PGROUNDDOWN x = a"
proof -
  obtain k where k: "unat a = 4096 * k"
    using assms by (auto simp: page_aligned_iff)
  have no_wrap: "unat a + 4095 < 2 ^ 64" by (rule aligned_no_wrap [OF assms])
  have eq: "PGROUNDDOWN x = a \<longleftrightarrow> unat x - unat x mod 4096 = unat a"
    by (metis unat_PGROUNDDOWN unat_eq_iff)
  show ?thesis
  proof (cases "unat a \<le> unat x")
    case True
    then have "in_range x a 4096 \<longleftrightarrow> unat x - unat a < 4096"
      by (simp add: in_range_def unat_sub word_le_nat_alt)
    also have "\<dots> \<longleftrightarrow> unat x - unat x mod 4096 = unat a"
      using True k by (rule page_nat_aux)
    finally show ?thesis by (simp add: eq)
  next
    case False
    then have "unat (x - a) = unat x + 2 ^ 64 - unat a"
      by (simp add: unat_sub_if')
    then have "\<not> in_range x a 4096"
      using no_wrap by (simp add: in_range_def)
    moreover have "unat x - unat x mod 4096 \<noteq> unat a"
      using False by simp
    ultimately show ?thesis by (simp add: eq)
  qed
qed

lemma in_page_unique:
  "page_aligned a \<Longrightarrow> page_aligned b \<Longrightarrow> in_range x a 4096 \<Longrightarrow> in_range x b 4096 \<Longrightarrow> a = b"
  by (simp add: in_page_iff)

lemma in_range_mono: "in_range x a n \<Longrightarrow> n \<le> k \<Longrightarrow> in_range x a k"
  by (simp add: in_range_def)

text \<open>An aligned eight-byte word at offset \<open>off\<close> of a page stays inside the page.\<close>

lemma word_in_page:
  assumes "page_aligned a" and "off + 8 \<le> 4096" and "in_range x (a + of_nat off) 8"
  shows "in_range x a 4096"
proof -
  have "unat (x - (a + of_nat off)) < 8" using assms(3) by (simp add: in_range_def)
  moreover have "unat (x - a) = unat (x - (a + of_nat off)) + off"
  proof -
    have "x - a = (x - (a + of_nat off)) + of_nat off" by simp
    then have "unat (x - a) = (unat (x - (a + of_nat off)) + off) mod 2 ^ 64"
      using assms(2) by (simp only: unat_word_ariths) (simp add: unat_of_nat_u64)
    then show ?thesis using calculation assms(2) by simp
  qed
  ultimately show ?thesis using assms(2) by (simp add: in_range_def)
qed

end
