(* ===== verification/Spinlock.thy ===== *)
theory Spinlock
  imports Prelude
begin

text \<open>
  \<open>kernel/spinlock.c\<close>, at two levels.

  The multiprocessor level keeps, for every hart, its \<open>struct cpu\<close> and its
  interrupt-enable bit, and, for every lock, its \<open>struct spinlock\<close>.  \<open>acquire\<close>
  and \<open>release\<close> are split at the points where other harts can interleave: before
  each test-and-set, before \<open>lk->cpu\<close> is recorded, and between clearing
  \<open>lk->cpu\<close> and clearing \<open>lk->locked\<close>.

  The hart level is what the rest of the kernel is written against: the list of
  locks the executing hart holds (\<open>held\<close>), with \<open>acquire\<close> and \<open>release\<close> failing
  exactly where the source panics.  The lemmas at the end show that the hart level
  is what a hart observes in every interleaving, and that no two harts hold a lock
  at the same time; this is why the rest of the development treats the critical
  sections of one hart as uninterrupted.
\<close>

section \<open>The hart's view\<close>

record hart =
  held :: "lock list"

definition acquire :: "lock \<Rightarrow> 'z hart_scheme \<Rightarrow> (unit, 'z hart_scheme) outcome" where
  "acquire lk s =
    (if lk \<in> set (held s) then Panic ''acquire'' s else Done () (s\<lparr>held := lk # held s\<rparr>))"

definition release :: "lock \<Rightarrow> 'z hart_scheme \<Rightarrow> (unit, 'z hart_scheme) outcome" where
  "release lk s =
    (if lk \<notin> set (held s) then Panic ''release'' s else Done () (s\<lparr>held := remove1 lk (held s)\<rparr>))"

lemma acquire_free [simp]:
  "lk \<notin> set (held s) \<Longrightarrow> acquire lk s = Done () (s\<lparr>held := lk # held s\<rparr>)"
  by (simp add: acquire_def)

lemma release_top [simp]: "held s = lk # ls \<Longrightarrow> release lk s = Done () (s\<lparr>held := ls\<rparr>)"
  by (simp add: release_def)

lemma release_held:
  "lk \<in> set (held s) \<Longrightarrow> release lk s = Done () (s\<lparr>held := remove1 lk (held s)\<rparr>)"
  by (simp add: release_def)

section \<open>The multiprocessor\<close>

record cpu =
  noff :: int
  intena :: bool

record spinlock =
  locked :: u32
  lk_name :: string
  lk_cpu :: "nat option"
  lk_n :: u32
  lk_nts :: u32

record smp =
  cpus :: "nat \<Rightarrow> cpu"
  sie :: "nat \<Rightarrow> bool"
  spinlocks :: "lock \<Rightarrow> spinlock"
  locks :: "lock list"

definition NLOCK :: nat where "NLOCK = 1000"

text \<open>\<open>upd_lock lk f s\<close> changes the fields of one lock, \<open>upd_cpu\<close> those of one hart.\<close>

definition upd_lock :: "lock \<Rightarrow> (spinlock \<Rightarrow> spinlock) \<Rightarrow> smp \<Rightarrow> smp" where
  "upd_lock lk f s = s\<lparr>spinlocks := (spinlocks s)(lk := f (spinlocks s lk))\<rparr>"

definition upd_cpu :: "nat \<Rightarrow> (cpu \<Rightarrow> cpu) \<Rightarrow> smp \<Rightarrow> smp" where
  "upd_cpu c f s = s\<lparr>cpus := (cpus s)(c := f (cpus s c))\<rparr>"

definition initlock :: "lock \<Rightarrow> string \<Rightarrow> smp \<Rightarrow> (unit, smp) outcome" where
  "initlock lk name s =
    (let s = upd_lock lk (\<lambda>l. l\<lparr>lk_name := name, locked := 0, lk_cpu := None, lk_nts := 0, lk_n := 0\<rparr>) s
     in if NLOCK \<le> length (locks s) then Panic ''initlock'' s
        else Done () (s\<lparr>locks := locks s @ [lk]\<rparr>))"

definition holding :: "nat \<Rightarrow> lock \<Rightarrow> smp \<Rightarrow> bool" where
  "holding c lk s \<longleftrightarrow> locked (spinlocks s lk) \<noteq> 0 \<and> lk_cpu (spinlocks s lk) = Some c"

definition push_off :: "nat \<Rightarrow> smp \<Rightarrow> smp" where
  "push_off c s =
    (let old = sie s c;
         s = (if old then s\<lparr>sie := (sie s)(c := False)\<rparr> else s);
         s = (if noff (cpus s c) = 0 then upd_cpu c (\<lambda>u. u\<lparr>intena := old\<rparr>) s else s)
     in upd_cpu c (\<lambda>u. u\<lparr>noff := noff u + 1\<rparr>) s)"

definition pop_off :: "nat \<Rightarrow> smp \<Rightarrow> (unit, smp) outcome" where
  "pop_off c s =
    (if sie s c then Panic ''pop_off - interruptible'' s
     else if noff (cpus s c) < 1 then Panic ''pop_off'' s
     else
       let s = upd_cpu c (\<lambda>u. u\<lparr>noff := noff u - 1\<rparr>) s
       in Done () (if noff (cpus s c) = 0 \<and> intena (cpus s c)
                   then s\<lparr>sie := (sie s)(c := True)\<rparr> else s))"

definition acquire_begin :: "nat \<Rightarrow> lock \<Rightarrow> smp \<Rightarrow> (unit, smp) outcome" where
  "acquire_begin c lk s =
    (let s = push_off c s in
     if holding c lk s then Panic ''acquire'' s
     else Done () (upd_lock lk (\<lambda>l. l\<lparr>lk_n := lk_n l + 1\<rparr>) s))"

text \<open>One round of the spin loop: whether the swap found the lock free.\<close>

definition acquire_try :: "lock \<Rightarrow> smp \<Rightarrow> bool \<times> smp" where
  "acquire_try lk s =
    (let old = locked (spinlocks s lk);
         s = upd_lock lk (\<lambda>l. l\<lparr>locked := 1\<rparr>) s
     in if old \<noteq> 0 then (False, upd_lock lk (\<lambda>l. l\<lparr>lk_nts := lk_nts l + 1\<rparr>) s) else (True, s))"

definition acquire_end :: "nat \<Rightarrow> lock \<Rightarrow> smp \<Rightarrow> smp" where
  "acquire_end c lk s = upd_lock lk (\<lambda>l. l\<lparr>lk_cpu := Some c\<rparr>) s"

definition release_begin :: "nat \<Rightarrow> lock \<Rightarrow> smp \<Rightarrow> (unit, smp) outcome" where
  "release_begin c lk s =
    (if \<not> holding c lk s then Panic ''release'' s
     else Done () (upd_lock lk (\<lambda>l. l\<lparr>lk_cpu := None\<rparr>) s))"

definition release_end :: "nat \<Rightarrow> lock \<Rightarrow> smp \<Rightarrow> (unit, smp) outcome" where
  "release_end c lk s = pop_off c (upd_lock lk (\<lambda>l. l\<lparr>locked := 0\<rparr>) s)"

section \<open>Interleaved execution\<close>

text \<open>
  Where a hart is: running kernel code outside \<open>acquire\<close> and \<open>release\<close>, spinning,
  after the successful swap, or after \<open>lk->cpu = 0\<close>.  \<open>owned\<close> is the list of locks
  a hart has returned from \<open>acquire\<close> with and not begun to release.
\<close>

datatype hpc = Run | Spin lock | Won lock | Dropped lock

record system =
  sm :: smp
  hpc :: "nat \<Rightarrow> hpc"
  owned :: "nat \<Rightarrow> lock list"

inductive smp_step :: "system \<Rightarrow> system \<Rightarrow> bool" where
  begin_acquire: "hpc \<sigma> c = Run \<Longrightarrow> acquire_begin c lk (sm \<sigma>) = Done () s' \<Longrightarrow>
    smp_step \<sigma> (\<sigma>\<lparr>sm := s', hpc := (hpc \<sigma>)(c := Spin lk)\<rparr>)"
| spin: "hpc \<sigma> c = Spin lk \<Longrightarrow> acquire_try lk (sm \<sigma>) = (False, s') \<Longrightarrow>
    smp_step \<sigma> (\<sigma>\<lparr>sm := s'\<rparr>)"
| win: "hpc \<sigma> c = Spin lk \<Longrightarrow> acquire_try lk (sm \<sigma>) = (True, s') \<Longrightarrow>
    smp_step \<sigma> (\<sigma>\<lparr>sm := s', hpc := (hpc \<sigma>)(c := Won lk)\<rparr>)"
| end_acquire: "hpc \<sigma> c = Won lk \<Longrightarrow>
    smp_step \<sigma> (\<sigma>\<lparr>sm := acquire_end c lk (sm \<sigma>), hpc := (hpc \<sigma>)(c := Run),
      owned := (owned \<sigma>)(c := lk # owned \<sigma> c)\<rparr>)"
| begin_release: "hpc \<sigma> c = Run \<Longrightarrow> release_begin c lk (sm \<sigma>) = Done () s' \<Longrightarrow>
    smp_step \<sigma> (\<sigma>\<lparr>sm := s', hpc := (hpc \<sigma>)(c := Dropped lk),
      owned := (owned \<sigma>)(c := remove1 lk (owned \<sigma> c))\<rparr>)"
| end_release: "hpc \<sigma> c = Dropped lk \<Longrightarrow> release_end c lk (sm \<sigma>) = Done () s' \<Longrightarrow>
    smp_step \<sigma> (\<sigma>\<lparr>sm := s', hpc := (hpc \<sigma>)(c := Run)\<rparr>)"
| set_intr: "hpc \<sigma> c = Run \<Longrightarrow> noff (cpus (sm \<sigma>) c) = 0 \<Longrightarrow>
    smp_step \<sigma> (\<sigma>\<lparr>sm := (sm \<sigma>)\<lparr>sie := (sie (sm \<sigma>))(c := b)\<rparr>\<rparr>)"

definition booted :: "system \<Rightarrow> bool" where
  "booted \<sigma> \<longleftrightarrow> (\<forall>c. hpc \<sigma> c = Run \<and> owned \<sigma> c = [] \<and> noff (cpus (sm \<sigma>) c) = 0)
    \<and> (\<forall>lk. locked (spinlocks (sm \<sigma>) lk) = 0 \<and> lk_cpu (spinlocks (sm \<sigma>) lk) = None)"

inductive reachable :: "system \<Rightarrow> bool" where
  start: "booted \<sigma> \<Longrightarrow> reachable \<sigma>"
| more: "reachable \<sigma> \<Longrightarrow> smp_step \<sigma> \<sigma>' \<Longrightarrow> reachable \<sigma>'"

text \<open>The harts that are past the swap for \<open>lk\<close> and have not cleared \<open>locked\<close>.\<close>

definition owns :: "system \<Rightarrow> lock \<Rightarrow> nat \<Rightarrow> bool" where
  "owns \<sigma> lk c \<longleftrightarrow> lk \<in> set (owned \<sigma> c) \<or> hpc \<sigma> c = Won lk \<or> hpc \<sigma> c = Dropped lk"

text \<open>
  \<open>lock_owner \<sigma> own\<close>: at most one hart owns each lock, namely \<open>own lk\<close>, and the
  fields of the locks and harts agree with it.
\<close>

definition lock_owner :: "system \<Rightarrow> (lock \<Rightarrow> nat option) \<Rightarrow> bool" where
  "lock_owner \<sigma> own \<longleftrightarrow>
    (\<forall>lk c. owns \<sigma> lk c \<longleftrightarrow> own lk = Some c)
    \<and> (\<forall>lk. locked (spinlocks (sm \<sigma>) lk) = 0 \<longleftrightarrow> own lk = None)
    \<and> (\<forall>lk c. lk_cpu (spinlocks (sm \<sigma>) lk) = Some c \<longleftrightarrow> lk \<in> set (owned \<sigma> c))
    \<and> (\<forall>c. distinct (owned \<sigma> c))
    \<and> (\<forall>lk c. hpc \<sigma> c \<in> {Won lk, Dropped lk, Spin lk} \<longrightarrow> lk \<notin> set (owned \<sigma> c))
    \<and> (\<forall>c. noff (cpus (sm \<sigma>) c) = int (length (owned \<sigma> c)) + (if hpc \<sigma> c = Run then 0 else 1))
    \<and> (\<forall>c. noff (cpus (sm \<sigma>) c) \<noteq> 0 \<longrightarrow> \<not> sie (sm \<sigma>) c)"

lemmas smp_defs = acquire_begin_def acquire_try_def acquire_end_def release_begin_def release_end_def
  push_off_def pop_off_def upd_lock_def upd_cpu_def holding_def Let_def

lemma lock_ownerD:
  assumes "lock_owner \<sigma> own"
  shows owns_iff: "owns \<sigma> lk c \<longleftrightarrow> own lk = Some c"
    and locked_iff: "locked (spinlocks (sm \<sigma>) lk) = 0 \<longleftrightarrow> own lk = None"
    and lk_cpu_iff: "lk_cpu (spinlocks (sm \<sigma>) lk) = Some c \<longleftrightarrow> lk \<in> set (owned \<sigma> c)"
    and owned_distinct: "distinct (owned \<sigma> c)"
    and pc_not_owned: "hpc \<sigma> c \<in> {Won lk, Dropped lk, Spin lk} \<Longrightarrow> lk \<notin> set (owned \<sigma> c)"
    and noff_eq: "noff (cpus (sm \<sigma>) c) = int (length (owned \<sigma> c)) + (if hpc \<sigma> c = Run then 0 else 1)"
    and intr_off: "noff (cpus (sm \<sigma>) c) \<noteq> 0 \<Longrightarrow> \<not> sie (sm \<sigma>) c"
  using assms unfolding lock_owner_def by blast+

lemma owned_owner: "lock_owner \<sigma> own \<Longrightarrow> lk \<in> set (owned \<sigma> c) \<Longrightarrow> own lk = Some c"
  by (simp add: owns_iff [symmetric] owns_def)

lemma holding_iff:
  assumes "lock_owner \<sigma> own"
  shows "holding c lk (sm \<sigma>) \<longleftrightarrow> lk \<in> set (owned \<sigma> c)"
  using owned_owner [OF assms, of lk c] by (auto simp: holding_def lock_ownerD(2,3) [OF assms])

text \<open>What each atomic action changes.\<close>

lemma acquire_begin_Done:
  assumes "acquire_begin c lk s = Done () s'"
  shows "\<not> holding c lk s"
    and "locked (spinlocks s' l) = locked (spinlocks s l)"
    and "lk_cpu (spinlocks s' l) = lk_cpu (spinlocks s l)"
    and "noff (cpus s' d) = noff (cpus s d) + (if d = c then 1 else 0)"
    and "sie s' d = (sie s d \<and> d \<noteq> c)"
  using assms by (auto simp: smp_defs split: if_splits)

lemma acquire_try_result:
  assumes "acquire_try lk s = (b, s')"
  shows "b \<longleftrightarrow> locked (spinlocks s lk) = 0"
    and "locked (spinlocks s' l) = (if l = lk then 1 else locked (spinlocks s l))"
    and "lk_cpu (spinlocks s' l) = lk_cpu (spinlocks s l)"
    and "cpus s' = cpus s" and "sie s' = sie s"
  using assms by (auto simp: smp_defs split: if_splits)

lemma acquire_end_effect:
  "locked (spinlocks (acquire_end c lk s) l) = locked (spinlocks s l)"
  "lk_cpu (spinlocks (acquire_end c lk s) l) = (if l = lk then Some c else lk_cpu (spinlocks s l))"
  "cpus (acquire_end c lk s) = cpus s" "sie (acquire_end c lk s) = sie s"
  by (auto simp: smp_defs)

lemma release_begin_Done:
  assumes "release_begin c lk s = Done () s'"
  shows "holding c lk s"
    and "locked (spinlocks s' l) = locked (spinlocks s l)"
    and "lk_cpu (spinlocks s' l) = (if l = lk then None else lk_cpu (spinlocks s l))"
    and "cpus s' = cpus s" and "sie s' = sie s"
  using assms by (auto simp: smp_defs split: if_splits)

lemma release_end_Done:
  assumes "release_end c lk s = Done () s'"
  shows "locked (spinlocks s' l) = (if l = lk then 0 else locked (spinlocks s l))"
    and "lk_cpu (spinlocks s' l) = lk_cpu (spinlocks s l)"
    and "noff (cpus s' d) = noff (cpus s d) - (if d = c then 1 else 0)"
    and "noff (cpus s' d) \<noteq> 0 \<Longrightarrow> sie s' d = sie s d"
    and "d \<noteq> c \<Longrightarrow> sie s' d = sie s d"
  using assms by (auto simp: smp_defs split: if_splits)

text \<open>Every step keeps the invariant.\<close>

lemma lock_owner_begin_acquire:
  assumes inv: "lock_owner \<sigma> own" and pc: "hpc \<sigma> c = Run"
    and acq: "acquire_begin c lk (sm \<sigma>) = Done () s'"
  shows "lock_owner (\<sigma>\<lparr>sm := s', hpc := (hpc \<sigma>)(c := Spin lk)\<rparr>) own"
proof -
  have own: "owns (\<sigma>\<lparr>sm := s', hpc := (hpc \<sigma>)(c := Spin lk)\<rparr>) l d \<longleftrightarrow> owns \<sigma> l d" for l d
    using pc by (auto simp: owns_def)
  have "lk \<notin> set (owned \<sigma> c)"
    using acquire_begin_Done(1) [OF acq] holding_iff [OF inv] by simp
  then show ?thesis
    unfolding lock_owner_def own using pc pc_not_owned [OF inv]
    by (simp add: acquire_begin_Done(2-) [OF acq] lock_ownerD(1-4) [OF inv] noff_eq [OF inv])
      (use noff_eq [OF inv] intr_off [OF inv] in auto)
qed

lemma lock_owner_spin:
  assumes inv: "lock_owner \<sigma> own" and acq: "acquire_try lk (sm \<sigma>) = (False, s')"
  shows "lock_owner (\<sigma>\<lparr>sm := s'\<rparr>) own"
proof -
  have own: "owns (\<sigma>\<lparr>sm := s'\<rparr>) l d \<longleftrightarrow> owns \<sigma> l d" for l d
    by (simp add: owns_def)
  have "own lk \<noteq> None"
    using acquire_try_result(1) [OF acq] locked_iff [OF inv, of lk] by simp
  then show ?thesis
    unfolding lock_owner_def own using pc_not_owned [OF inv] intr_off [OF inv]
    by (simp add: acquire_try_result(2-) [OF acq] lock_ownerD(1-4) [OF inv] noff_eq [OF inv])
qed

lemma lock_owner_win:
  assumes inv: "lock_owner \<sigma> own" and pc: "hpc \<sigma> c = Spin lk"
    and acq: "acquire_try lk (sm \<sigma>) = (True, s')"
  shows "lock_owner (\<sigma>\<lparr>sm := s', hpc := (hpc \<sigma>)(c := Won lk)\<rparr>) (own(lk := Some c))"
proof -
  have free: "own lk = None"
    using acquire_try_result(1) [OF acq] locked_iff [OF inv, of lk] by simp
  have own: "owns (\<sigma>\<lparr>sm := s', hpc := (hpc \<sigma>)(c := Won lk)\<rparr>) l d \<longleftrightarrow> (own(lk := Some c)) l = Some d" for l d
    using pc free owns_iff [OF inv, of lk d] by (auto simp: owns_iff [OF inv, symmetric] owns_def)
  show ?thesis
    unfolding lock_owner_def own using pc pc_not_owned [OF inv] intr_off [OF inv]
    by (simp add: acquire_try_result(2-) [OF acq] lock_ownerD(2-4) [OF inv] noff_eq [OF inv])
qed

lemma lock_owner_end_acquire:
  assumes inv: "lock_owner \<sigma> own" and pc: "hpc \<sigma> c = Won lk"
  shows "lock_owner (\<sigma>\<lparr>sm := acquire_end c lk (sm \<sigma>), hpc := (hpc \<sigma>)(c := Run),
      owned := (owned \<sigma>)(c := lk # owned \<sigma> c)\<rparr>) own" (is "lock_owner ?\<sigma> own")
proof -
  have own: "owns ?\<sigma> l d \<longleftrightarrow> owns \<sigma> l d" for l d
    using pc by (auto simp: owns_def)
  have "own lk = Some c" using pc by (simp add: owns_iff [OF inv, symmetric] owns_def)
  then have "lk \<notin> set (owned \<sigma> d)" for d
    using owned_owner [OF inv, of lk d] pc_not_owned [OF inv, of c lk] pc by auto
  then show ?thesis
    unfolding lock_owner_def own using pc pc_not_owned [OF inv] intr_off [OF inv]
    by (simp add: acquire_end_effect lock_ownerD(1-4) [OF inv] noff_eq [OF inv])
qed

lemma lock_owner_begin_release:
  assumes inv: "lock_owner \<sigma> own" and pc: "hpc \<sigma> c = Run"
    and rel: "release_begin c lk (sm \<sigma>) = Done () s'"
  shows "lock_owner (\<sigma>\<lparr>sm := s', hpc := (hpc \<sigma>)(c := Dropped lk),
      owned := (owned \<sigma>)(c := remove1 lk (owned \<sigma> c))\<rparr>) own" (is "lock_owner ?\<sigma> own")
proof -
  have lk: "lk \<in> set (owned \<sigma> c)"
    using release_begin_Done(1) [OF rel] holding_iff [OF inv] by simp
  have own: "owns ?\<sigma> l d \<longleftrightarrow> owns \<sigma> l d" for l d
    using lk pc owned_distinct [OF inv] by (auto simp: owns_def)
  have only: "lk \<notin> set (owned \<sigma> d)" if "d \<noteq> c" for d
    using owned_owner [OF inv lk] owned_owner [OF inv, of lk d] that by auto
  have len: "int (length (owned \<sigma> c) - Suc 0) + 1 = int (length (owned \<sigma> c))"
    using lk by (cases "owned \<sigma> c") auto
  show ?thesis
    unfolding lock_owner_def own using pc pc_not_owned [OF inv] intr_off [OF inv] lk only len
      owned_distinct [OF inv]
    by (simp add: release_begin_Done(2-) [OF rel] lock_ownerD(1-3) [OF inv] noff_eq [OF inv]
        length_remove1)
qed

lemma lock_owner_end_release:
  assumes inv: "lock_owner \<sigma> own" and pc: "hpc \<sigma> c = Dropped lk"
    and rel: "release_end c lk (sm \<sigma>) = Done () s'"
  shows "lock_owner (\<sigma>\<lparr>sm := s', hpc := (hpc \<sigma>)(c := Run)\<rparr>) (own(lk := None))" (is "lock_owner ?\<sigma> _")
proof -
  have o: "own lk = Some c" using pc by (simp add: owns_iff [OF inv, symmetric] owns_def)
  then have none: "lk \<notin> set (owned \<sigma> d)" "hpc \<sigma> d \<noteq> Won lk" "d \<noteq> c \<Longrightarrow> hpc \<sigma> d \<noteq> Dropped lk" for d
    using owns_iff [OF inv, of lk d] pc_not_owned [OF inv, of c lk] pc by (auto simp: owns_def)
  have own: "owns ?\<sigma> l d \<longleftrightarrow> (own(lk := None)) l = Some d" for l d
    using pc none by (auto simp: owns_iff [OF inv, symmetric] owns_def)
  have "sie s' d = sie (sm \<sigma>) d" if "noff (cpus s' d) \<noteq> 0" for d
    using release_end_Done(4) [OF rel that] .
  then show ?thesis
    unfolding lock_owner_def own using pc pc_not_owned [OF inv] intr_off [OF inv]
    by (auto simp: release_end_Done(1-3) [OF rel] lock_ownerD(2-4) [OF inv] noff_eq [OF inv] none)
qed

lemma lock_owner_step: "smp_step \<sigma> \<sigma>' \<Longrightarrow> \<exists>own. lock_owner \<sigma> own \<Longrightarrow> \<exists>own. lock_owner \<sigma>' own"
proof (induction rule: smp_step.induct)
  case (set_intr \<sigma> c b)
  then show ?case by (auto simp: lock_owner_def owns_def)
qed (blast intro: lock_owner_begin_acquire lock_owner_spin lock_owner_win lock_owner_end_acquire
    lock_owner_begin_release lock_owner_end_release)+

lemma lock_owner_booted: "booted \<sigma> \<Longrightarrow> lock_owner \<sigma> (\<lambda>_. None)"
  by (auto simp: lock_owner_def booted_def owns_def)

lemma lock_owner_reachable: "reachable \<sigma> \<Longrightarrow> \<exists>own. lock_owner \<sigma> own"
  by (induction rule: reachable.induct) (blast intro: lock_owner_booted lock_owner_step)+

text \<open>The machine after boot: every hart outside critical sections, every lock free.\<close>

definition boot_system :: system where
  "boot_system = \<lparr>sm = \<lparr>cpus = \<lambda>_. \<lparr>noff = 0, intena = False\<rparr>, sie = \<lambda>_. True,
      spinlocks = \<lambda>_. \<lparr>locked = 0, lk_name = [], lk_cpu = None, lk_n = 0, lk_nts = 0\<rparr>, locks = []\<rparr>,
    hpc = \<lambda>_. Run, owned = \<lambda>_. []\<rparr>"

lemma push_off_spinlocks [simp]: "spinlocks (push_off c s) = spinlocks s"
  by (simp add: push_off_def upd_cpu_def Let_def)

text \<open>An uncontended \<open>acquire\<close> takes three steps.\<close>

lemma reachable_acquire:
  assumes "reachable \<sigma>" and "hpc \<sigma> c = Run" and "locked (spinlocks (sm \<sigma>) lk) = 0"
  shows "\<exists>\<sigma>'. reachable \<sigma>' \<and> hpc \<sigma>' c = Run \<and> owned \<sigma>' = (owned \<sigma>)(c := lk # owned \<sigma> c)"
proof -
  obtain s1 where s1: "acquire_begin c lk (sm \<sigma>) = Done () s1" "locked (spinlocks s1 lk) = 0"
    using assms(3) by (simp add: acquire_begin_def holding_def upd_lock_def Let_def)
  let ?\<sigma>1 = "\<sigma>\<lparr>sm := s1, hpc := (hpc \<sigma>)(c := Spin lk)\<rparr>"
  obtain s2 where s2: "acquire_try lk (sm ?\<sigma>1) = (True, s2)"
    using s1(2) by (simp add: acquire_try_def Let_def)
  let ?\<sigma>2 = "?\<sigma>1\<lparr>sm := s2, hpc := (hpc ?\<sigma>1)(c := Won lk)\<rparr>"
  let ?\<sigma>3 = "?\<sigma>2\<lparr>sm := acquire_end c lk (sm ?\<sigma>2), hpc := (hpc ?\<sigma>2)(c := Run),
      owned := (owned ?\<sigma>2)(c := lk # owned ?\<sigma>2 c)\<rparr>"
  have "reachable ?\<sigma>1"
    using reachable.more [OF assms(1) smp_step.begin_acquire [OF assms(2) s1(1)]] .
  from reachable.more [OF this smp_step.win [of ?\<sigma>1 c lk, OF _ s2]] have "reachable ?\<sigma>2" by simp
  from reachable.more [OF this smp_step.end_acquire [of ?\<sigma>2 c lk]] have "reachable ?\<sigma>3" by simp
  then show ?thesis by (intro exI [of _ ?\<sigma>3]) simp
qed

lemma reachable_boot: "reachable boot_system"
  by (rule reachable.start) (simp add: booted_def boot_system_def)

section \<open>Properties\<close>

text \<open>
  C12: Mutual exclusion: in every interleaving of the harts' calls, a lock that one
  hart has acquired and not begun to release is not held by another hart.
\<close>

theorem spinlock_mutual_exclusion:
  assumes "reachable \<sigma>" and "lk \<in> set (owned \<sigma> c)" and "lk \<in> set (owned \<sigma> d)"
  shows "c = d"
proof -
  obtain own where "lock_owner \<sigma> own" using lock_owner_reachable [OF assms(1)] ..
  then show ?thesis using owned_owner [of \<sigma> own lk c] owned_owner [of \<sigma> own lk d] assms(2,3) by simp
qed

theorem spinlock_mutual_exclusion_witness:
  "\<exists>\<sigma>. reachable \<sigma> \<and> {d. LKmem \<in> set (owned \<sigma> d)} = {2}"
proof -
  obtain \<sigma> where "reachable \<sigma>" "LKmem \<in> set (owned \<sigma> 2)"
    using reachable_acquire [OF reachable_boot, of 2 LKmem] by (auto simp: boot_system_def)
  then have "{d. LKmem \<in> set (owned \<sigma> d)} = {2}"
    using spinlock_mutual_exclusion [of \<sigma> LKmem 2] by blast
  with \<open>reachable \<sigma>\<close> show ?thesis by blast
qed

text \<open>
  C13: The list of held locks that the rest of the kernel is modelled with is what a
  hart observes: at any point of any interleaving, \<open>acquire\<close> panics exactly on a
  lock of that list and \<open>release\<close> exactly on a lock outside it, \<open>noff\<close> is its
  length, and interrupts are off while it is not empty.
\<close>

theorem hart_view_refines:
  assumes "reachable \<sigma>" and "hpc \<sigma> c = Run"
  shows "((\<exists>s'. acquire_begin c lk (sm \<sigma>) = Done () s') \<longleftrightarrow>
      acquire lk \<lparr>held = owned \<sigma> c\<rparr> = Done () \<lparr>held = lk # owned \<sigma> c\<rparr>) \<and>
    ((\<exists>s'. release_begin c lk (sm \<sigma>) = Done () s') \<longleftrightarrow>
      release lk \<lparr>held = owned \<sigma> c\<rparr> = Done () \<lparr>held = remove1 lk (owned \<sigma> c)\<rparr>) \<and>
    noff (cpus (sm \<sigma>) c) = int (length (owned \<sigma> c)) \<and>
    (owned \<sigma> c \<noteq> [] \<longrightarrow> \<not> sie (sm \<sigma>) c)"
proof -
  obtain own where inv: "lock_owner \<sigma> own" using lock_owner_reachable [OF assms(1)] ..
  have "holding c lk (push_off c (sm \<sigma>)) = holding c lk (sm \<sigma>)"
    by (simp add: holding_def)
  then have "(\<exists>s'. acquire_begin c lk (sm \<sigma>) = Done () s') \<longleftrightarrow> lk \<notin> set (owned \<sigma> c)"
    by (simp add: acquire_begin_def Let_def holding_iff [OF inv])
  moreover have "(\<exists>s'. release_begin c lk (sm \<sigma>) = Done () s') \<longleftrightarrow> lk \<in> set (owned \<sigma> c)"
    by (simp add: release_begin_def holding_iff [OF inv])
  moreover have noff: "noff (cpus (sm \<sigma>) c) = int (length (owned \<sigma> c))"
    using noff_eq [OF inv, of c] assms(2) by simp
  moreover have "\<not> sie (sm \<sigma>) c" if "owned \<sigma> c \<noteq> []"
    using intr_off [OF inv, of c] noff that by simp
  ultimately show ?thesis by (auto simp: acquire_def release_def)
qed

theorem hart_view_refines_witness:
  "\<exists>\<sigma>. reachable \<sigma> \<and> owned \<sigma> 1 = [LBcache] \<and> noff (cpus (sm \<sigma>) 1) = 1 \<and> \<not> sie (sm \<sigma>) 1"
proof -
  obtain \<sigma> where \<sigma>: "reachable \<sigma>" "hpc \<sigma> 1 = Run" "owned \<sigma> 1 = [LBcache]"
    using reachable_acquire [OF reachable_boot, of 1 LBcache] by (auto simp: boot_system_def)
  then show ?thesis using hart_view_refines [OF \<sigma>(1,2)] by auto
qed

text \<open>\<open>n\<close> calls of \<open>pop_off\<close>.\<close>

fun pop_offs :: "nat \<Rightarrow> nat \<Rightarrow> smp \<Rightarrow> (unit, smp) outcome" where
  "pop_offs c 0 s = Done () s"
| "pop_offs c (Suc n) s = bindk (pop_off c s) (\<lambda>_ s. pop_offs c n s)"

lemma push_off_effect:
  "noff (cpus (push_off c s) c) = noff (cpus s c) + 1"
  "intena (cpus (push_off c s) c) = (if noff (cpus s c) = 0 then sie s c else intena (cpus s c))"
  "\<not> sie (push_off c s) c"
  by (auto simp: smp_defs)

lemma push_offs_effect:
  assumes "0 \<le> noff (cpus s c)" and "noff (cpus s c) = 0 \<or> \<not> sie s c"
  shows "noff (cpus ((push_off c ^^ n) s) c) = noff (cpus s c) + int n"
    and "0 < n \<Longrightarrow> \<not> sie ((push_off c ^^ n) s) c"
    and "0 < n \<Longrightarrow> intena (cpus ((push_off c ^^ n) s) c) =
      (if noff (cpus s c) = 0 then sie s c else intena (cpus s c))"
  using assms by (induction n) (auto simp: push_off_effect)

lemma pop_off_effect:
  assumes "0 < noff (cpus s c)" and "\<not> sie s c"
  shows "returns (pop_off c s) (\<lambda>_ s'. noff (cpus s' c) = noff (cpus s c) - 1 \<and>
    intena (cpus s' c) = intena (cpus s c) \<and> sie s' c = (noff (cpus s c) = 1 \<and> intena (cpus s c)))"
  using assms by (auto simp: smp_defs)

lemma pop_offs_effect:
  assumes "int n \<le> noff (cpus s c)" and "0 < n" and "\<not> sie s c"
  shows "returns (pop_offs c n s) (\<lambda>_ s'. noff (cpus s' c) = noff (cpus s c) - int n \<and>
    sie s' c = (noff (cpus s c) = int n \<and> intena (cpus s c)))"
  using assms
proof (induction n arbitrary: s)
  case (Suc n)
  obtain s' where s': "pop_off c s = Done () s'" "noff (cpus s' c) = noff (cpus s c) - 1"
    "intena (cpus s' c) = intena (cpus s c)" "sie s' c = (noff (cpus s c) = 1 \<and> intena (cpus s c))"
    using pop_off_effect [of s c] Suc.prems by (auto simp: returns_iff)
  show ?case
  proof (cases "n = 0")
    case False
    then have "\<not> sie s' c" using s' Suc.prems by auto
    then have "returns (pop_offs c n s') (\<lambda>_ s''. noff (cpus s'' c) = noff (cpus s' c) - int n \<and>
        sie s'' c = (noff (cpus s' c) = int n \<and> intena (cpus s' c)))"
      using Suc.prems s' False by (intro Suc.IH) auto
    then show ?thesis using s' by (auto elim!: returns_mono)
  qed (use s' in auto)
qed simp

text \<open>
  C14: \<open>push_off\<close> and \<open>pop_off\<close> are matched: after any number of \<open>push_off\<close>s
  interrupts are off, and the same number of \<open>pop_off\<close>s returns without a panic
  and restores the nesting depth; when it ends an outermost section, also the
  interrupt state from before the first \<open>push_off\<close>.
\<close>

theorem push_pop_matched:
  assumes "0 \<le> noff (cpus s c)" and "noff (cpus s c) = 0 \<or> \<not> sie s c" and "0 < n"
  shows "\<not> sie ((push_off c ^^ n) s) c \<and>
    returns (pop_offs c n ((push_off c ^^ n) s)) (\<lambda>_ s'.
      noff (cpus s' c) = noff (cpus s c) \<and> sie s' c = sie s c)"
proof
  note push = push_offs_effect [OF assms(1,2)]
  show off: "\<not> sie ((push_off c ^^ n) s) c" using push(2) assms(3) .
  show "returns (pop_offs c n ((push_off c ^^ n) s)) (\<lambda>_ s'.
      noff (cpus s' c) = noff (cpus s c) \<and> sie s' c = sie s c)"
    using pop_offs_effect [of n "(push_off c ^^ n) s" c] off push assms
    by (auto elim!: returns_mono)
qed

theorem push_pop_matched_witness:
  "returns (pop_offs 0 2 (push_off 0 (push_off 0 (sm boot_system)))) (\<lambda>_ s'. sie s' 0)"
  using push_pop_matched [of "sm boot_system" 0 2]
  by (auto simp: boot_system_def numeral_2_eq_2 returns_iff)

end
