(* ===== verification/Kalloc.thy ===== *)
theory Kalloc
  imports Kstring Memlayout Spinlock
begin

text \<open>
  \<open>kernel/kalloc.c\<close>: the physical page allocator.  The free list is threaded
  through the free pages themselves: the first word of a free page is the
  address of the next one, 0 ends the list.  \<open>k_end\<close> is the linker symbol
  \<open>end\<close>.
\<close>

record kmachine = hart +
  mem :: memory
  k_end :: u64
  freelist :: u64

definition kfree :: "u64 \<Rightarrow> 'z kmachine_scheme \<Rightarrow> (unit, 'z kmachine_scheme) outcome" where
  "kfree pa s =
    (if pa mod PGSIZE \<noteq> 0 \<or> pa < k_end s \<or> PHYSTOP \<le> pa
     then Panic ''kfree'' s
     else
       let s = s\<lparr>mem := memset (mem s) pa 1 (ucast PGSIZE)\<rparr> in
       bindk (acquire LKmem s) (\<lambda>_ s.
       let s = s\<lparr>mem := store64 (mem s) pa (freelist s)\<rparr>;
           s = s\<lparr>freelist := pa\<rparr>
       in release LKmem s))"

definition kalloc :: "'z kmachine_scheme \<Rightarrow> (u64, 'z kmachine_scheme) outcome" where
  "kalloc s =
    bindk (acquire LKmem s) (\<lambda>_ s.
    let r = freelist s;
        s = (if r \<noteq> 0 then s\<lparr>freelist := load64 (mem s) r\<rparr> else s)
    in bindk (release LKmem s) (\<lambda>_ s.
    let s = (if r \<noteq> 0 then s\<lparr>mem := memset (mem s) r 5 (ucast PGSIZE)\<rparr> else s)
    in Done r s))"

text \<open>
  The loop of \<open>freerange\<close> runs while \<open>p + PGSIZE <= pa_end\<close>; the fuel is one
  more than the number of pages below \<open>pa_end\<close>.
\<close>

fun freerange_loop :: "nat \<Rightarrow> u64 \<Rightarrow> u64 \<Rightarrow> 'z kmachine_scheme \<Rightarrow> (unit, 'z kmachine_scheme) outcome" where
  "freerange_loop 0 p pa_end s = Loop s"
| "freerange_loop (Suc fuel) p pa_end s =
    (if p + PGSIZE \<le> pa_end
     then bindk (kfree p s) (\<lambda>_ s. freerange_loop fuel (p + PGSIZE) pa_end s)
     else Done () s)"

definition freerange :: "u64 \<Rightarrow> u64 \<Rightarrow> 'z kmachine_scheme \<Rightarrow> (unit, 'z kmachine_scheme) outcome" where
  "freerange pa_start pa_end s =
    freerange_loop (unat pa_end div 4096 + 1) (PGROUNDUP pa_start) pa_end s"

definition kinit :: "'z kmachine_scheme \<Rightarrow> (unit, 'z kmachine_scheme) outcome" where
  "kinit s = freerange (k_end s) PHYSTOP s"

section \<open>The free list as a list of pages\<close>

text \<open>\<open>free_chain m p xs\<close>: following the links from \<open>p\<close> visits the pages \<open>xs\<close> and ends.\<close>

primrec free_chain :: "memory \<Rightarrow> u64 \<Rightarrow> u64 list \<Rightarrow> bool" where
  "free_chain m p [] \<longleftrightarrow> p = 0"
| "free_chain m p (x # xs) \<longleftrightarrow> p = x \<and> p \<noteq> 0 \<and> free_chain m (load64 m p) xs"

definition valid_page :: "'z kmachine_scheme \<Rightarrow> u64 \<Rightarrow> bool" where
  "valid_page s p \<longleftrightarrow> page_aligned p \<and> k_end s \<le> p \<and> p < PHYSTOP"

definition kmem_inv :: "'z kmachine_scheme \<Rightarrow> u64 list \<Rightarrow> bool" where
  "kmem_inv s xs \<longleftrightarrow> LKmem \<notin> set (held s) \<and>
    0 < k_end s \<and> free_chain (mem s) (freelist s) xs \<and> distinct xs \<and> (\<forall>p\<in>set xs. valid_page s p)"

text \<open>The allocator changes the bytes of memory and the head of the free list, nothing else.\<close>

definition kframe :: "'z kmachine_scheme \<Rightarrow> 'z kmachine_scheme \<Rightarrow> bool" where
  "kframe s s' \<longleftrightarrow> (\<exists>m f. s' = s\<lparr>mem := m, freelist := f\<rparr>)"

lemma kframe_refl [simp]: "kframe s s"
proof -
  have "s = s\<lparr>mem := mem s, freelist := freelist s\<rparr>" by simp
  then show ?thesis unfolding kframe_def by blast
qed

lemma kframe_trans: "kframe s s' \<Longrightarrow> kframe s' s'' \<Longrightarrow> kframe s s''"
proof -
  assume "kframe s s'" "kframe s' s''"
  then obtain m f m' f' where "s' = s\<lparr>mem := m, freelist := f\<rparr>" "s'' = s'\<lparr>mem := m', freelist := f'\<rparr>"
    unfolding kframe_def by blast
  then have "s'' = s\<lparr>mem := m', freelist := f'\<rparr>" by simp
  then show ?thesis unfolding kframe_def by blast
qed

lemma kframe_mem [simp]: "kframe s (s\<lparr>mem := m\<rparr>)"
proof -
  have "s\<lparr>mem := m\<rparr> = s\<lparr>mem := m, freelist := freelist s\<rparr>" by simp
  then show ?thesis unfolding kframe_def by blast
qed

lemma kframe_simps:
  assumes "kframe s s'"
  shows "k_end s' = k_end s" "held s' = held s" "kmachine.more s' = kmachine.more s"
    "valid_page s' = valid_page s"
  using assms by (auto simp: kframe_def valid_page_def)

lemma free_chain_cong:
  assumes "\<And>x. x \<in> set xs \<Longrightarrow> load64 m x = load64 m' x"
  shows "free_chain m p xs = free_chain m' p xs"
  using assms by (induction xs arbitrary: p) auto

lemma free_chain_unique: "free_chain m p xs \<Longrightarrow> free_chain m p ys \<Longrightarrow> xs = ys"
proof (induction xs arbitrary: p ys)
  case Nil
  then show ?case by (cases ys) auto
next
  case (Cons x xs)
  then show ?case by (cases ys) auto
qed

text \<open>A write confined to one page leaves the links of every other page alone.\<close>

lemma load64_other_page:
  assumes "page_aligned p" and "page_aligned q" and "p \<noteq> q"
    and "\<And>x. \<not> in_range x q 4096 \<Longrightarrow> m x = m' x"
  shows "load64 m p = load64 m' p"
proof (rule load64_cong)
  fix x assume "in_range x p 8"
  then have "in_range x p 4096" by (rule in_range_mono) simp
  with assms(1-3) have "\<not> in_range x q 4096" using in_page_unique [of p q x] by auto
  then show "m x = m' x" by (rule assms(4))
qed

lemma unat_ucast_PGSIZE [simp]: "unat (ucast PGSIZE :: u32) = 4096"
  by (simp add: PGSIZE_def)

lemma memset_page_outside: "\<not> in_range x p 4096 \<Longrightarrow> memset m p c (ucast PGSIZE) x = m x"
  by (simp add: memset_eq)

lemma store64_page_outside: "\<not> in_range x p 4096 \<Longrightarrow> store64 m p w x = m x"
  by (rule store64_outside) (auto dest: in_range_mono [of x p 8 4096])

lemma valid_page_nonzero: "kmem_inv s xs \<Longrightarrow> valid_page s p \<Longrightarrow> p \<noteq> 0"
  by (auto simp: kmem_inv_def valid_page_def word_le_nat_alt word_less_nat_alt)

lemma kfree_spec:
  assumes inv: "kmem_inv s xs" and p: "valid_page s p" and fresh: "p \<notin> set xs"
  shows "returns (kfree p s) (\<lambda>_ s'. kmem_inv s' (p # xs) \<and> kframe s s' \<and>
    (\<forall>x. \<not> in_range x p 4096 \<longrightarrow> mem s' x = mem s x))"
proof -
  let ?m = "store64 (memset (mem s) p 1 (ucast PGSIZE)) p (freelist s)"
  have out: "?m x = mem s x" if "\<not> in_range x p 4096" for x
    using that by (simp add: store64_page_outside memset_page_outside)
  have pal: "page_aligned q" if "q \<in> set xs" for q
    using inv that by (auto simp: kmem_inv_def valid_page_def)
  have "load64 ?m q = load64 (mem s) q" if "q \<in> set xs" for q
    using that p fresh pal out
    by (intro load64_other_page [of q p]) (auto simp: valid_page_def)
  then have "free_chain ?m (freelist s) xs"
    using inv free_chain_cong [of xs ?m "mem s"] by (simp add: kmem_inv_def)
  moreover have run: "kfree p s = Done () (s\<lparr>mem := ?m, freelist := p\<rparr>)"
    using inv p by (simp add: kfree_def Let_def kmem_inv_def valid_page_def page_aligned_def not_le not_less)
  moreover have "kframe s (s\<lparr>mem := ?m, freelist := p\<rparr>)" unfolding kframe_def by blast
  ultimately show ?thesis
    using inv p fresh valid_page_nonzero [OF inv p] out by (simp add: kmem_inv_def valid_page_def)
qed

lemma kfree_panics:
  "\<not> valid_page s p \<Longrightarrow> kfree p s = Panic ''kfree'' s"
  by (auto simp: kfree_def valid_page_def page_aligned_def not_le not_less)

lemma kalloc_spec:
  assumes inv: "kmem_inv s (p # xs)"
  shows "returns (kalloc s) (\<lambda>r s'. r = p \<and> kmem_inv s' xs \<and> kframe s s' \<and>
    (\<forall>x. in_range x p 4096 \<longrightarrow> mem s' x = 5) \<and>
    (\<forall>x. \<not> in_range x p 4096 \<longrightarrow> mem s' x = mem s x))"
proof -
  let ?m = "memset (mem s) p 5 (ucast PGSIZE)"
  have chain: "freelist s = p" "p \<noteq> 0" "free_chain (mem s) (load64 (mem s) p) xs" "p \<notin> set xs"
    using inv by (auto simp: kmem_inv_def)
  have al: "page_aligned q" if "q \<in> set (p # xs)" for q
    using inv that by (auto simp: kmem_inv_def valid_page_def)
  have "load64 ?m q = load64 (mem s) q" if "q \<in> set xs" for q
    using that chain al by (intro load64_other_page [of q p]) (auto simp: memset_page_outside)
  then have "free_chain ?m (load64 (mem s) p) xs"
    using chain free_chain_cong [of xs ?m "mem s"] by simp
  moreover have run: "kalloc s = Done p (s\<lparr>mem := ?m, freelist := load64 (mem s) p\<rparr>)"
    using inv chain by (simp add: kalloc_def Let_def kmem_inv_def)
  moreover have "kframe s (s\<lparr>mem := ?m, freelist := load64 (mem s) p\<rparr>)"
    unfolding kframe_def by blast
  ultimately show ?thesis
    using inv by (simp add: kmem_inv_def valid_page_def memset_page_outside) (simp add: memset_eq)
qed

lemma kalloc_empty: "kmem_inv s [] \<Longrightarrow> kalloc s = Done 0 s"
  by (simp add: kmem_inv_def kalloc_def)

section \<open>Initialisation\<close>

lemma unat_PHYSTOP [simp]: "unat PHYSTOP = 0x88000000"
  by (simp add: PHYSTOP_def KERNBASE_def)

lemma page_aligned_add: "page_aligned p \<Longrightarrow> page_aligned (p + PGSIZE)"
  by (simp add: page_aligned_iff unat_word_ariths dvd_mod)

lemma aligned_step:
  assumes "page_aligned p" and "page_aligned q" and "unat p < unat q"
  shows "unat p + 4096 \<le> unat q"
proof -
  obtain j k where "unat p = 4096 * j" and "unat q = 4096 * k"
    using assms(1,2) unfolding page_aligned_iff by (auto elim!: dvdE)
  with assms(3) show ?thesis by simp
qed

lemma freerange_loop_spec:
  assumes "kmem_inv s xs" and "page_aligned p" and "k_end s \<le> p"
    and "unat e \<le> unat PHYSTOP" and "unat p < 2 ^ 63"
    and "\<forall>q\<in>set xs. unat q < unat p" and "unat e < unat p + 4096 * fuel" and "0 < fuel"
  shows "returns (freerange_loop fuel p e s) (\<lambda>_ s'. \<exists>ys. kmem_inv s' ys \<and> k_end s' = k_end s \<and>
    set ys = set xs \<union> {q. page_aligned q \<and> p \<le> q \<and> unat q + 4096 \<le> unat e})"
  using assms
proof (induction fuel arbitrary: p s xs)
  case 0
  then show ?case by simp
next
  case (Suc fuel)
  have up: "unat (p + PGSIZE) = unat p + 4096"
    using Suc.prems(5) by (simp add: unat_word_ariths)
  show ?case
  proof (cases "p + PGSIZE \<le> e")
    case False
    then have "{q. page_aligned q \<and> p \<le> q \<and> unat q + 4096 \<le> unat e} = {}"
      using up by (auto simp: word_le_nat_alt)
    with False Suc.prems(1) show ?thesis by auto
  next
    case True
    then have le: "unat p + 4096 \<le> unat e" using up by (simp add: word_le_nat_alt)
    have "valid_page s p"
      using Suc.prems le by (simp add: valid_page_def word_less_nat_alt)
    moreover have "p \<notin> set xs" using Suc.prems(6) by auto
    ultimately have "returns (kfree p s) (\<lambda>_ s'. kmem_inv s' (p # xs) \<and> k_end s' = k_end s)"
      by (auto simp: kframe_simps intro: returns_mono [OF kfree_spec [OF Suc.prems(1)]])
    then obtain s' where k: "kfree p s = Done () s'" "kmem_inv s' (p # xs)" "k_end s' = k_end s"
      by (auto elim: returnsE)
    have "returns (freerange_loop fuel (p + PGSIZE) e s') (\<lambda>_ s''. \<exists>ys. kmem_inv s'' ys \<and>
        k_end s'' = k_end s' \<and>
        set ys = set (p # xs) \<union> {q. page_aligned q \<and> p + PGSIZE \<le> q \<and> unat q + 4096 \<le> unat e})"
      using Suc.prems k up le
      by (intro Suc.IH) (auto simp: page_aligned_add word_le_nat_alt dest: bspec)
    moreover have "set (p # xs) \<union> {q. page_aligned q \<and> p + PGSIZE \<le> q \<and> unat q + 4096 \<le> unat e}
        = set xs \<union> {q. page_aligned q \<and> p \<le> q \<and> unat q + 4096 \<le> unat e}"
    proof -
      have "p \<le> q \<longleftrightarrow> q = p \<or> p + PGSIZE \<le> q" if "page_aligned q" for q
        using aligned_step [OF Suc.prems(2) that] up
        by (auto simp: word_le_nat_alt le_less)
      then show ?thesis using Suc.prems(2) le by auto
    qed
    ultimately show ?thesis
      using True k by (auto elim: returns_mono)
  qed
qed

text \<open>After \<open>kinit\<close> the free list holds every whole page of RAM above the kernel.\<close>

lemma kinit_spec:
  assumes "LKmem \<notin> set (held s)" and "freelist s = 0" and "0 < k_end s" and "k_end s \<le> PHYSTOP"
  shows "returns (kinit s) (\<lambda>_ s'. \<exists>xs. kmem_inv s' xs \<and> set xs = {p. valid_page s p})"
proof -
  let ?p = "PGROUNDUP (k_end s)"
  have nw: "unat (k_end s) + 4095 < 2 ^ 64"
    using assms(4) by (simp add: word_le_nat_alt)
  have ge: "unat (k_end s) \<le> unat ?p" and lt: "unat ?p < unat (k_end s) + 4096"
    using PGROUNDUP_ge [OF nw] by simp_all
  have "returns (freerange_loop (unat PHYSTOP div 4096 + 1) ?p PHYSTOP s) (\<lambda>_ s'. \<exists>ys.
      kmem_inv s' ys \<and> k_end s' = k_end s \<and>
      set ys = set [] \<union> {q. page_aligned q \<and> ?p \<le> q \<and> unat q + 4096 \<le> unat PHYSTOP})"
    using assms ge lt by (intro freerange_loop_spec) (auto simp: kmem_inv_def word_le_nat_alt)
  moreover have "{q. page_aligned q \<and> ?p \<le> q \<and> unat q + 4096 \<le> unat PHYSTOP} = {p. valid_page s p}"
  proof -
    have "page_aligned PHYSTOP" by (simp add: page_aligned_def PHYSTOP_def KERNBASE_def PGSIZE_def)
    then have hi: "unat q + 4096 \<le> unat PHYSTOP \<longleftrightarrow> q < PHYSTOP" if "page_aligned q" for q
      using aligned_step [OF that \<open>page_aligned PHYSTOP\<close>] by (auto simp: word_less_nat_alt)
    have lo: "?p \<le> q \<longleftrightarrow> k_end s \<le> q" if "page_aligned q" for q
    proof
      assume "k_end s \<le> q"
      then have "unat ?p < unat q + 4096" using lt by (simp add: word_le_nat_alt)
      then have "\<not> unat q < unat ?p"
        using aligned_step [OF that PGROUNDUP_aligned [of "k_end s"]] by auto
      then show "?p \<le> q" by (simp add: word_le_nat_alt)
    qed (use ge in \<open>simp add: word_le_nat_alt\<close>)
    show ?thesis
      unfolding valid_page_def using hi lo by blast
  qed
  ultimately show ?thesis
    unfolding kinit_def freerange_def by (elim returns_mono) auto
qed

section \<open>The allocator's interface\<close>

text \<open>
  What the users of physical pages rely on: an allocator hands out a page that
  is not free any more and leaves the other pages alone, and it takes back any
  valid page that is not free already.
\<close>

locale page_allocator =
  fixes alloc :: "'s \<Rightarrow> (u64, 's) outcome"
    and free :: "u64 \<Rightarrow> 's \<Rightarrow> (unit, 's) outcome"
    and inv :: "'s \<Rightarrow> u64 list \<Rightarrow> bool"
    and valid :: "'s \<Rightarrow> u64 \<Rightarrow> bool"
    and bytes :: "'s \<Rightarrow> memory"
  assumes alloc_Nil: "inv s [] \<Longrightarrow> alloc s = Done 0 s"
    and alloc_Cons: "inv s (p # xs) \<Longrightarrow> returns (alloc s) (\<lambda>r s'. r = p \<and> inv s' xs \<and>
      valid s' = valid s \<and> (\<forall>x. \<not> in_range x p 4096 \<longrightarrow> bytes s' x = bytes s x))"
    and free_valid: "inv s xs \<Longrightarrow> valid s p \<Longrightarrow> p \<notin> set xs \<Longrightarrow>
      returns (free p s) (\<lambda>_ s'. inv s' (p # xs) \<and> valid s' = valid s \<and>
        (\<forall>x. \<not> in_range x p 4096 \<longrightarrow> bytes s' x = bytes s x))"
    and inv_distinct: "inv s xs \<Longrightarrow> distinct xs"
    and inv_valid: "inv s xs \<Longrightarrow> p \<in> set xs \<Longrightarrow> valid s p"
    and valid_nonzero: "inv s xs \<Longrightarrow> valid s p \<Longrightarrow> p \<noteq> 0"
begin

lemma alloc_total:
  assumes "inv s xs"
  shows "returns (alloc s) (\<lambda>r s'. (r = 0 \<and> xs = [] \<and> s' = s) \<or>
    (r \<noteq> 0 \<and> valid s r \<and> (\<exists>ys. xs = r # ys \<and> r \<notin> set ys \<and> inv s' ys)))"
proof (cases xs)
  case Nil
  then show ?thesis using assms alloc_Nil by simp
next
  case (Cons p ys)
  then have "p \<noteq> 0" "valid s p" "p \<notin> set ys"
    using assms inv_valid [of s xs p] valid_nonzero [of s xs p] inv_distinct [of s xs] by auto
  then show ?thesis
    using Cons assms by (auto intro: returns_mono [OF alloc_Cons [of s p ys]])
qed

lemma alloc_free_round_trip:
  assumes "inv s (p # xs)"
  shows "returns (bindk (alloc s) free) (\<lambda>_ s'. inv s' (p # xs) \<and>
    (\<forall>x. \<not> in_range x p 4096 \<longrightarrow> bytes s' x = bytes s x))"
proof -
  have p: "valid s p" "p \<notin> set xs"
    using assms inv_valid [of s "p # xs" p] inv_distinct [of s "p # xs"] by auto
  obtain s' where a: "alloc s = Done p s'" "inv s' xs" "valid s' = valid s"
      and m: "\<forall>x. \<not> in_range x p 4096 \<longrightarrow> bytes s' x = bytes s x"
    using alloc_Cons [OF assms] by (auto elim: returnsE)
  have "returns (free p s') (\<lambda>_ t. inv t (p # xs) \<and> valid t = valid s' \<and>
      (\<forall>x. \<not> in_range x p 4096 \<longrightarrow> bytes t x = bytes s' x))"
    using a p by (intro free_valid) simp_all
  then show ?thesis
    using a m by (simp add: returns_iff) auto
qed

end

interpretation kmem_pages: page_allocator kalloc kfree kmem_inv valid_page mem
proof unfold_locales
  fix s :: "'a kmachine_scheme" and p :: u64 and xs
  show "kmem_inv s [] \<Longrightarrow> kalloc s = Done 0 s" by (rule kalloc_empty)
  show "kmem_inv s (p # xs) \<Longrightarrow> returns (kalloc s) (\<lambda>r s'. r = p \<and> kmem_inv s' xs \<and>
      valid_page s' = valid_page s \<and> (\<forall>x. \<not> in_range x p 4096 \<longrightarrow> mem s' x = mem s x))"
    by (rule returns_mono [OF kalloc_spec]) (auto simp: kframe_simps)
  show "kmem_inv s xs \<Longrightarrow> valid_page s p \<Longrightarrow> p \<notin> set xs \<Longrightarrow>
      returns (kfree p s) (\<lambda>_ s'. kmem_inv s' (p # xs) \<and> valid_page s' = valid_page s \<and>
        (\<forall>x. \<not> in_range x p 4096 \<longrightarrow> mem s' x = mem s x))"
    by (rule returns_mono [OF kfree_spec]) (auto simp: kframe_simps)
  show "kmem_inv s xs \<Longrightarrow> valid_page s p \<Longrightarrow> p \<noteq> 0" by (rule valid_page_nonzero)
qed (simp_all add: kmem_inv_def)

section \<open>Correctness of the page allocator\<close>

text \<open>
  C38: after \<open>kinit\<close> the allocator's invariant holds and the free list consists
  of exactly the page-aligned addresses between the end of the kernel and
  \<open>PHYSTOP\<close>; in particular \<open>freerange\<close> terminates and never trips the
  sanity check of \<open>kfree\<close>.
\<close>

theorem kinit_frees_all_ram:
  assumes "LKmem \<notin> set (held s)" and "freelist s = 0" and "0 < k_end s" and "k_end s \<le> PHYSTOP"
  shows "returns (kinit s) (\<lambda>_ s'. \<exists>xs. kmem_inv s' xs \<and> set xs = {p. valid_page s p})"
  using assms by (rule kinit_spec)

theorem kinit_frees_all_ram_witness:
  "returns (kinit \<lparr>held = [], mem = (\<lambda>_. 0), k_end = 0x80027020, freelist = 0\<rparr>)
    (\<lambda>_ s'. \<exists>xs. kmem_inv s' xs \<and>
      set xs = {p. valid_page \<lparr>held = [], mem = (\<lambda>_. 0), k_end = 0x80027020, freelist = 0\<rparr> p})"
  by (rule kinit_frees_all_ram) (simp_all add: PHYSTOP_def KERNBASE_def)

text \<open>
  C39: the page \<open>kalloc\<close> returns is a valid page that was on the free list and
  is not on it any more, so no later call returns it before it is freed; when
  memory is exhausted the result is 0 and nothing changes.
\<close>

theorem kalloc_exclusive:
  assumes "kmem_inv s xs"
  shows "returns (kalloc s) (\<lambda>r s'. (r = 0 \<and> xs = [] \<and> s' = s) \<or>
    (r \<noteq> 0 \<and> valid_page s r \<and> (\<exists>ys. xs = r # ys \<and> r \<notin> set ys \<and> kmem_inv s' ys)))"
  using assms by (rule kmem_pages.alloc_total)

theorem kalloc_exclusive_witness:
  "returns (kalloc \<lparr>held = [], mem = (\<lambda>_. 0), k_end = 0x80027020, freelist = 0x80028000\<rparr>) (\<lambda>r s'.
    (r = 0 \<and> [0x80028000] = ([] :: u64 list) \<and> s' = \<lparr>held = [], mem = (\<lambda>_. 0), k_end = 0x80027020, freelist = 0x80028000\<rparr>) \<or>
    (r \<noteq> 0 \<and> valid_page \<lparr>held = [], mem = (\<lambda>_. 0), k_end = 0x80027020, freelist = 0x80028000\<rparr> r \<and>
      (\<exists>ys. [0x80028000] = r # ys \<and> r \<notin> set ys \<and> kmem_inv s' ys)))"
  by (rule kalloc_exclusive)
    (simp add: kmem_inv_def valid_page_def page_aligned_def load64_def load_bytes_def upt_rec
      PGSIZE_def PHYSTOP_def KERNBASE_def)

text \<open>
  C40: a page that is freed goes back to the free list, for every valid page
  that is not free already; freeing anything else (a misaligned address, an
  address inside the kernel or beyond RAM) panics without touching memory.
\<close>

theorem kfree_returns_page:
  assumes "kmem_inv s xs" and "p \<notin> set xs"
  shows "(valid_page s p \<longrightarrow> returns (kfree p s) (\<lambda>_ s'. kmem_inv s' (p # xs) \<and>
      (\<forall>x. \<not> in_range x p 4096 \<longrightarrow> mem s' x = mem s x))) \<and>
    (\<not> valid_page s p \<longrightarrow> kfree p s = Panic ''kfree'' s)"
  using kfree_spec [OF assms(1) _ assms(2)] kfree_panics [of s p] by (auto elim: returns_mono)

theorem kfree_returns_page_witness:
  "returns (kfree 0x80029000 \<lparr>held = [], mem = (\<lambda>_. 0), k_end = 0x80027020, freelist = 0\<rparr>)
    (\<lambda>_ s'. kmem_inv s' [0x80029000]) \<and>
   kfree 0x80029001 \<lparr>held = [], mem = (\<lambda>_. 0), k_end = 0x80027020, freelist = 0\<rparr> =
    Panic ''kfree'' \<lparr>held = [], mem = (\<lambda>_. 0), k_end = 0x80027020, freelist = 0\<rparr>"
proof -
  let ?s = "\<lparr>held = [], mem = (\<lambda>_. 0), k_end = 0x80027020, freelist = 0\<rparr>"
  have inv: "kmem_inv ?s []"
    by (simp add: kmem_inv_def)
  have "valid_page ?s 0x80029000" "\<not> valid_page ?s 0x80029001"
    by (simp_all add: valid_page_def page_aligned_def PGSIZE_def PHYSTOP_def KERNBASE_def)
  then show ?thesis
    using kfree_returns_page [OF inv, of "0x80029000"] kfree_returns_page [OF inv, of "0x80029001"]
    by (auto elim: returns_mono)
qed

end
