(* ===== verification/Vm.thy ===== *)
theory Vm
  imports Kalloc
begin

text \<open>
  \<open>kernel/vm.c\<close>: Sv39 page tables in physical memory.  A page-table page is 512
  eight-byte entries; \<open>walk\<close> returns the address of the leaf entry (0 for the
  null pointer).  Buffers of the kernel that \<open>copyout\<close>, \<open>copyin\<close> and
  \<open>copyinstr\<close> read or fill are byte lists; user memory is reached through the
  page table.  \<open>k_etext\<close> and \<open>k_trampoline\<close> are linker symbols, \<open>satp\<close> is
  the register \<open>kvminithart\<close> writes.
\<close>

record vmachine = kmachine +
  kernel_pagetable :: u64
  k_etext :: u64
  k_trampoline :: u64
  satp :: u64

section \<open>Walking and mapping\<close>

fun walk_loop :: "nat \<Rightarrow> u64 \<Rightarrow> u64 \<Rightarrow> bool \<Rightarrow> 'z kmachine_scheme \<Rightarrow> (u64, 'z kmachine_scheme) outcome" where
  "walk_loop 0 pagetable va alloc s = Done (pagetable + 8 * PX 0 va) s"
| "walk_loop (Suc l) pagetable va alloc s =
    (let pte = pagetable + 8 * PX (Suc l) va in
     if load64 (mem s) pte AND PTE_V \<noteq> 0
     then walk_loop l (PTE2PA (load64 (mem s) pte)) va alloc s
     else if \<not> alloc then Done 0 s
     else bindk (kalloc s) (\<lambda>page s.
       if page = 0 then Done 0 s
       else
         let s = s\<lparr>mem := memset (mem s) page 0 (ucast PGSIZE)\<rparr>;
             s = s\<lparr>mem := store64 (mem s) pte (PA2PTE page OR PTE_V)\<rparr>
         in walk_loop l page va alloc s))"

definition walk :: "u64 \<Rightarrow> u64 \<Rightarrow> bool \<Rightarrow> 'z kmachine_scheme \<Rightarrow> (u64, 'z kmachine_scheme) outcome" where
  "walk pagetable va alloc s =
    (if MAXVA \<le> va then Panic ''walk'' s else walk_loop 2 pagetable va alloc s)"

definition walkaddr :: "u64 \<Rightarrow> u64 \<Rightarrow> 'z kmachine_scheme \<Rightarrow> (u64, 'z kmachine_scheme) outcome" where
  "walkaddr pagetable va s =
    (if MAXVA \<le> va then Done 0 s
     else bindk (walk pagetable va False s) (\<lambda>pte s.
       if pte = 0 then Done 0 s
       else if load64 (mem s) pte AND PTE_V = 0 then Done 0 s
       else if load64 (mem s) pte AND PTE_U = 0 then Done 0 s
       else Done (PTE2PA (load64 (mem s) pte)) s))"

text \<open>
  The loops of \<open>mappages\<close> and \<open>uvmunmap\<close> stop when \<open>a == last\<close>; both are
  page aligned, so the number of iterations is the number of pages from \<open>a\<close> to
  \<open>last\<close>, which is the fuel.
\<close>

fun mappages_loop :: "nat \<Rightarrow> u64 \<Rightarrow> u64 \<Rightarrow> u64 \<Rightarrow> u64 \<Rightarrow> u64 \<Rightarrow> 'z kmachine_scheme \<Rightarrow> (int, 'z kmachine_scheme) outcome" where
  "mappages_loop 0 pagetable a last' pa perm s = Loop s"
| "mappages_loop (Suc fuel) pagetable a last' pa perm s =
    bindk (walk pagetable a True s) (\<lambda>pte s.
      if pte = 0 then Done (-1) s
      else if load64 (mem s) pte AND PTE_V \<noteq> 0 then Panic ''remap'' s
      else
        let s = s\<lparr>mem := store64 (mem s) pte (PA2PTE pa OR perm OR PTE_V)\<rparr>
        in if a = last' then Done 0 s
           else mappages_loop fuel pagetable (a + PGSIZE) last' (pa + PGSIZE) perm s)"

definition mappages :: "u64 \<Rightarrow> u64 \<Rightarrow> u64 \<Rightarrow> u64 \<Rightarrow> u64 \<Rightarrow> 'z kmachine_scheme \<Rightarrow> (int, 'z kmachine_scheme) outcome" where
  "mappages pagetable va size' pa perm s =
    (let a = PGROUNDDOWN va; last' = PGROUNDDOWN (va + size' - 1)
     in mappages_loop (unat (last' - a) div 4096 + 1) pagetable a last' pa perm s)"

fun uvmunmap_loop :: "nat \<Rightarrow> u64 \<Rightarrow> u64 \<Rightarrow> u64 \<Rightarrow> bool \<Rightarrow> 'z kmachine_scheme \<Rightarrow> (unit, 'z kmachine_scheme) outcome" where
  "uvmunmap_loop 0 pagetable a last' do_free s = Loop s"
| "uvmunmap_loop (Suc fuel) pagetable a last' do_free s =
    bindk (walk pagetable a False s) (\<lambda>pte s.
      if pte = 0 then Panic ''uvmunmap: walk'' s
      else if load64 (mem s) pte AND PTE_V = 0 then Panic ''uvmunmap: not mapped'' s
      else if PTE_FLAGS (load64 (mem s) pte) = PTE_V then Panic ''uvmunmap: not a leaf'' s
      else bindk (if do_free then kfree (PTE2PA (load64 (mem s) pte)) s else Done () s) (\<lambda>_ s.
        let s = s\<lparr>mem := store64 (mem s) pte 0\<rparr>
        in if a = last' then Done () s
           else uvmunmap_loop fuel pagetable (a + PGSIZE) last' do_free s))"

definition uvmunmap :: "u64 \<Rightarrow> u64 \<Rightarrow> u64 \<Rightarrow> bool \<Rightarrow> 'z kmachine_scheme \<Rightarrow> (unit, 'z kmachine_scheme) outcome" where
  "uvmunmap pagetable va size' do_free s =
    (let a = PGROUNDDOWN va; last' = PGROUNDDOWN (va + size' - 1)
     in uvmunmap_loop (unat (last' - a) div 4096 + 1) pagetable a last' do_free s)"

section \<open>The kernel's page table\<close>

definition kvmmap :: "u64 \<Rightarrow> u64 \<Rightarrow> u64 \<Rightarrow> u64 \<Rightarrow> 'z vmachine_scheme \<Rightarrow> (unit, 'z vmachine_scheme) outcome" where
  "kvmmap va pa sz perm s =
    bindk (mappages (kernel_pagetable s) va sz pa perm s) (\<lambda>r s.
      if r \<noteq> 0 then Panic ''kvmmap'' s else Done () s)"

definition UART0 :: u64 where "UART0 = 0x10000000"
definition VIRTION :: "u64 \<Rightarrow> u64" where "VIRTION n = 0x10000000 + (n + 1) * 0x1000"
definition CLINT :: u64 where "CLINT = 0x2000000"
definition PLIC :: u64 where "PLIC = 0x0c000000"

definition kvminit :: "'z vmachine_scheme \<Rightarrow> (unit, 'z vmachine_scheme) outcome" where
  "kvminit s =
    bindk (kalloc s) (\<lambda>page s.
    let s = s\<lparr>kernel_pagetable := page\<rparr>;
        s = s\<lparr>mem := memset (mem s) page 0 (ucast PGSIZE)\<rparr>
    in bindk (kvmmap UART0 UART0 PGSIZE (PTE_R OR PTE_W) s) (\<lambda>_ s.
    bindk (kvmmap (VIRTION 0) (VIRTION 0) PGSIZE (PTE_R OR PTE_W) s) (\<lambda>_ s.
    bindk (kvmmap (VIRTION 1) (VIRTION 1) PGSIZE (PTE_R OR PTE_W) s) (\<lambda>_ s.
    bindk (kvmmap CLINT CLINT 0x10000 (PTE_R OR PTE_W) s) (\<lambda>_ s.
    bindk (kvmmap PLIC PLIC 0x400000 (PTE_R OR PTE_W) s) (\<lambda>_ s.
    bindk (kvmmap KERNBASE KERNBASE (k_etext s - KERNBASE) (PTE_R OR PTE_X) s) (\<lambda>_ s.
    bindk (kvmmap (k_etext s) (k_etext s) (PHYSTOP - k_etext s) (PTE_R OR PTE_W) s) (\<lambda>_ s.
    kvmmap TRAMPOLINE (k_trampoline s) PGSIZE (PTE_R OR PTE_X) s))))))))"

definition MAKE_SATP :: "u64 \<Rightarrow> u64" where
  "MAKE_SATP pagetable = push_bit 60 8 OR drop_bit 12 pagetable"

definition kvminithart :: "'z vmachine_scheme \<Rightarrow> (unit, 'z vmachine_scheme) outcome" where
  "kvminithart s = Done () (s\<lparr>satp := MAKE_SATP (kernel_pagetable s)\<rparr>)"

definition kvmpa :: "u64 \<Rightarrow> 'z vmachine_scheme \<Rightarrow> (u64, 'z vmachine_scheme) outcome" where
  "kvmpa va s =
    (let off = va mod PGSIZE in
     bindk (walk (kernel_pagetable s) va False s) (\<lambda>pte s.
       if pte = 0 then Panic ''kvmpa'' s
       else if load64 (mem s) pte AND PTE_V = 0 then Panic ''kvmpa'' s
       else Done (PTE2PA (load64 (mem s) pte) + off) s))"

section \<open>User page tables\<close>

definition uvmcreate :: "'z kmachine_scheme \<Rightarrow> (u64, 'z kmachine_scheme) outcome" where
  "uvmcreate s =
    bindk (kalloc s) (\<lambda>pagetable s.
      if pagetable = 0 then Panic ''uvmcreate: out of memory'' s
      else Done pagetable (s\<lparr>mem := memset (mem s) pagetable 0 (ucast PGSIZE)\<rparr>))"

definition uvminit :: "u64 \<Rightarrow> u8 list \<Rightarrow> 'z kmachine_scheme \<Rightarrow> (unit, 'z kmachine_scheme) outcome" where
  "uvminit pagetable src s =
    (if 4096 \<le> length src then Panic ''inituvm: more than a page'' s
     else bindk (kalloc s) (\<lambda>page s.
       let s = s\<lparr>mem := memset (mem s) page 0 (ucast PGSIZE)\<rparr>
       in bindk (mappages pagetable 0 PGSIZE page (PTE_W OR PTE_R OR PTE_X OR PTE_U) s) (\<lambda>_ s.
         Done () (s\<lparr>mem := store_bytes (mem s) page src\<rparr>))))"

definition uvmdealloc :: "u64 \<Rightarrow> u64 \<Rightarrow> u64 \<Rightarrow> 'z kmachine_scheme \<Rightarrow> (u64, 'z kmachine_scheme) outcome" where
  "uvmdealloc pagetable oldsz newsz s =
    (if oldsz \<le> newsz then Done oldsz s
     else
       let newup = PGROUNDUP newsz in
       bindk (if newup < PGROUNDUP oldsz then uvmunmap pagetable newup (oldsz - newup) True s
              else Done () s) (\<lambda>_ s. Done newsz s))"

fun uvmalloc_loop :: "nat \<Rightarrow> u64 \<Rightarrow> u64 \<Rightarrow> u64 \<Rightarrow> u64 \<Rightarrow> 'z kmachine_scheme \<Rightarrow> (u64, 'z kmachine_scheme) outcome" where
  "uvmalloc_loop 0 pagetable a oldsz newsz s = Loop s"
| "uvmalloc_loop (Suc fuel) pagetable a oldsz newsz s =
    (if a < newsz then
       bindk (kalloc s) (\<lambda>page s.
         if page = 0 then bindk (uvmdealloc pagetable a oldsz s) (\<lambda>_ s. Done 0 s)
         else
           let s = s\<lparr>mem := memset (mem s) page 0 (ucast PGSIZE)\<rparr>
           in bindk (mappages pagetable a PGSIZE page (PTE_W OR PTE_X OR PTE_R OR PTE_U) s) (\<lambda>r s.
             if r \<noteq> 0 then
               bindk (kfree page s) (\<lambda>_ s.
               bindk (uvmdealloc pagetable a oldsz s) (\<lambda>_ s. Done 0 s))
             else uvmalloc_loop fuel pagetable (a + PGSIZE) oldsz newsz s))
     else Done newsz s)"

definition uvmalloc :: "u64 \<Rightarrow> u64 \<Rightarrow> u64 \<Rightarrow> 'z kmachine_scheme \<Rightarrow> (u64, 'z kmachine_scheme) outcome" where
  "uvmalloc pagetable oldsz newsz s =
    (if newsz < oldsz then Done oldsz s
     else uvmalloc_loop (unat newsz div 4096 + 2) pagetable (PGROUNDUP oldsz) (PGROUNDUP oldsz) newsz s)"

text \<open>
  \<open>freewalk\<close> recurses from a page-table page to the ones below it.  A page table
  has three levels, so three units of fuel are enough for a well-formed one.
\<close>

fun freewalk_loop :: "nat \<Rightarrow> u64 \<Rightarrow> nat list \<Rightarrow> 'z kmachine_scheme \<Rightarrow> (unit, 'z kmachine_scheme) outcome" where
  "freewalk_loop 0 pagetable is s = Loop s"
| "freewalk_loop (Suc fuel) pagetable [] s = kfree pagetable s"
| "freewalk_loop (Suc fuel) pagetable (i # is) s =
    (let pte = load64 (mem s) (pagetable + 8 * of_nat i) in
     if pte AND PTE_V \<noteq> 0 \<and> pte AND (PTE_R OR PTE_W OR PTE_X) = 0 then
       bindk (freewalk_loop fuel (PTE2PA pte) [0..<512] s) (\<lambda>_ s.
         freewalk_loop (Suc fuel) pagetable is
           (s\<lparr>mem := store64 (mem s) (pagetable + 8 * of_nat i) 0\<rparr>))
     else if pte AND PTE_V \<noteq> 0 then Panic ''freewalk: leaf'' s
     else freewalk_loop (Suc fuel) pagetable is s)"

definition freewalk :: "u64 \<Rightarrow> 'z kmachine_scheme \<Rightarrow> (unit, 'z kmachine_scheme) outcome" where
  "freewalk pagetable s = freewalk_loop 3 pagetable [0..<512] s"

definition uvmfree :: "u64 \<Rightarrow> u64 \<Rightarrow> 'z kmachine_scheme \<Rightarrow> (unit, 'z kmachine_scheme) outcome" where
  "uvmfree pagetable sz s =
    bindk (uvmunmap pagetable 0 sz True s) (\<lambda>_ s. freewalk pagetable s)"

fun uvmcopy_loop :: "nat \<Rightarrow> u64 \<Rightarrow> u64 \<Rightarrow> u64 \<Rightarrow> u64 \<Rightarrow> 'z kmachine_scheme \<Rightarrow> (int, 'z kmachine_scheme) outcome" where
  "uvmcopy_loop 0 old new i sz s = Loop s"
| "uvmcopy_loop (Suc fuel) old new i sz s =
    (if i < sz then
       bindk (walk old i False s) (\<lambda>pte s.
         if pte = 0 then Panic ''uvmcopy: pte should exist'' s
         else if load64 (mem s) pte AND PTE_V = 0 then Panic ''uvmcopy: page not present'' s
         else
           let pa = PTE2PA (load64 (mem s) pte); flags = PTE_FLAGS (load64 (mem s) pte)
           in bindk (kalloc s) (\<lambda>page s.
             if page = 0 then bindk (uvmunmap new 0 i True s) (\<lambda>_ s. Done (-1) s)
             else
               let s = s\<lparr>mem := memmove (mem s) page pa (ucast PGSIZE)\<rparr>
               in bindk (mappages new i PGSIZE page flags s) (\<lambda>r s.
                 if r \<noteq> 0 then
                   bindk (kfree page s) (\<lambda>_ s.
                   bindk (uvmunmap new 0 i True s) (\<lambda>_ s. Done (-1) s))
                 else uvmcopy_loop fuel old new (i + PGSIZE) sz s)))
     else Done 0 s)"

definition uvmcopy :: "u64 \<Rightarrow> u64 \<Rightarrow> u64 \<Rightarrow> 'z kmachine_scheme \<Rightarrow> (int, 'z kmachine_scheme) outcome" where
  "uvmcopy old new sz s = uvmcopy_loop (unat sz div 4096 + 2) old new 0 sz s"

definition uvmclear :: "u64 \<Rightarrow> u64 \<Rightarrow> 'z kmachine_scheme \<Rightarrow> (unit, 'z kmachine_scheme) outcome" where
  "uvmclear pagetable va s =
    bindk (walk pagetable va False s) (\<lambda>pte s.
      if pte = 0 then Panic ''uvmclear'' s
      else Done () (s\<lparr>mem := store64 (mem s) pte (load64 (mem s) pte AND NOT PTE_U)\<rparr>))"

section \<open>Copying between kernel and user space\<close>

lemma page_offset: "unat (a - PGROUNDDOWN a) = unat a mod 4096"
  by (simp add: PGROUNDDOWN_eq)

function copyout :: "u64 \<Rightarrow> u64 \<Rightarrow> u8 list \<Rightarrow> 'z kmachine_scheme \<Rightarrow> (int, 'z kmachine_scheme) outcome" where
  "copyout pagetable dstva src s =
    (if length src = 0 then Done 0 s
     else
       let va0 = PGROUNDDOWN dstva in
       bindk (walkaddr pagetable va0 s) (\<lambda>pa0 s.
         if pa0 = 0 then Done (-1) s
         else
           let n = 4096 - unat (dstva - va0);
               n = (if length src < n then length src else n)
           in copyout pagetable (va0 + PGSIZE) (drop n src)
                (s\<lparr>mem := store_bytes (mem s) (pa0 + (dstva - va0)) (take n src)\<rparr>)))"
  by pat_completeness auto
termination
  by (relation "measure (\<lambda>(pt, va, src, s). length src)") (auto simp: page_offset not_less)

text \<open>The second component of the result is what has been written to \<open>dst\<close>.\<close>

function copyin :: "u64 \<Rightarrow> u64 \<Rightarrow> nat \<Rightarrow> 'z kmachine_scheme \<Rightarrow> (int \<times> u8 list, 'z kmachine_scheme) outcome" where
  "copyin pagetable srcva len s =
    (if len = 0 then Done (0, []) s
     else
       let va0 = PGROUNDDOWN srcva in
       bindk (walkaddr pagetable va0 s) (\<lambda>pa0 s.
         if pa0 = 0 then Done (-1, []) s
         else
           let n = 4096 - unat (srcva - va0);
               n = (if len < n then len else n);
               chunk = load_bytes (mem s) (pa0 + (srcva - va0)) n
           in bindk (copyin pagetable (va0 + PGSIZE) (len - n) s) (\<lambda>(r, dst) s.
             Done (r, chunk @ dst) s)))"
  by pat_completeness auto
termination
  by (relation "measure (\<lambda>(pt, va, len, s). len)") (auto simp: page_offset not_less)

text \<open>The inner loop of \<open>copyinstr\<close>: the bytes stored to \<open>dst\<close>, and \<open>got_null\<close>.\<close>

fun copyinstr_page :: "u8 list \<Rightarrow> u8 list \<times> bool" where
  "copyinstr_page [] = ([], False)"
| "copyinstr_page (c # cs) =
    (if c = 0 then ([0], True)
     else let (dst, got_null) = copyinstr_page cs in (c # dst, got_null))"

function copyinstr :: "u64 \<Rightarrow> u64 \<Rightarrow> nat \<Rightarrow> 'z kmachine_scheme \<Rightarrow> (int \<times> u8 list, 'z kmachine_scheme) outcome" where
  "copyinstr pagetable srcva max' s =
    (if max' = 0 then Done (-1, []) s
     else
       let va0 = PGROUNDDOWN srcva in
       bindk (walkaddr pagetable va0 s) (\<lambda>pa0 s.
         if pa0 = 0 then Done (-1, []) s
         else
           let n = 4096 - unat (srcva - va0);
               n = (if max' < n then max' else n);
               (dst, got_null) = copyinstr_page (load_bytes (mem s) (pa0 + (srcva - va0)) n)
           in if got_null then Done (0, dst) s
              else bindk (copyinstr pagetable (va0 + PGSIZE) (max' - n) s) (\<lambda>(r, dst') s.
                Done (r, dst @ dst') s)))"
  by pat_completeness auto
termination
  by (relation "measure (\<lambda>(pt, va, max', s). max')") (auto simp: page_offset not_less)

declare copyout.simps [simp del] copyin.simps [simp del] copyinstr.simps [simp del]

end
