(* ===== verification/Proc.thy ===== *)
theory Proc
  imports Vm
begin

text \<open>
  \<open>kernel/proc.c\<close>, the part that does not need the file system: the process
  table, allocation and release of processes, memory growth, sleeping and waking,
  killing and waiting.  (\<open>fork\<close>, \<open>exit\<close>, \<open>userinit\<close> and \<open>forkret\<close>
  follow in the theory \<open>Process\<close>.)

  A process is named by its index in the table \<open>proc[NPROC]\<close>; \<open>cur\<close> is the
  process running on the executing hart.  Dereferencing a null \<open>myproc()\<close> traps
  in the kernel, which is the panic \<open>kerneltrap\<close>.

  \<open>swtch\<close> leaves the process until it is scheduled again.  What the other
  processes and harts do in between is given by the caller, as a list of
  state transformers, one for each time the process is switched out; when the list
  is used up the process stays asleep, which is the outcome \<open>Sleep\<close>.
\<close>

definition NPROC :: nat where "NPROC = 10"
definition NOFILE :: nat where "NOFILE = 16"

datatype procstate = UNUSED | SLEEPING | RUNNABLE | RUNNING | ZOMBIE

record kcontext =
  ctx_ra :: u64
  ctx_sp :: u64
  ctx_s :: "u64 list"

record proc =
  state :: procstate
  parent :: "nat option"
  chan :: chan
  killed :: bool
  xstate :: u32
  pid :: int
  kstack :: u64
  sz :: u64
  pagetable :: u64
  tf :: u64
  pcontext :: kcontext
  ofile :: "nat option list"
  cwd :: "nat option"
  name :: "u8 list"

record sleeplock =
  slk_locked :: bool
  slk_pid :: int

record pmachine = vmachine +
  procs :: "proc list"
  cur :: "nat option"
  nextpid :: int
  initproc :: "nat option"
  k_forkret :: u64
  sleeplocks :: "lock \<Rightarrow> sleeplock"

type_synonym 'z env = "'z pmachine_scheme \<Rightarrow> 'z pmachine_scheme"

definition upd_proc :: "nat \<Rightarrow> (proc \<Rightarrow> proc) \<Rightarrow> 'z pmachine_scheme \<Rightarrow> 'z pmachine_scheme" where
  "upd_proc i f s = s\<lparr>procs := (procs s)[i := f (procs s ! i)]\<rparr>"

text \<open>\<open>myproc()\<close> followed by a use of the pointer.\<close>

definition myproc :: "'z pmachine_scheme \<Rightarrow> (nat, 'z pmachine_scheme) outcome" where
  "myproc s = (case cur s of None \<Rightarrow> Panic ''kerneltrap'' s | Some p \<Rightarrow> Done p s)"

section \<open>The process table\<close>

fun procinit_loop :: "nat list \<Rightarrow> 'z pmachine_scheme \<Rightarrow> (unit, 'z pmachine_scheme) outcome" where
  "procinit_loop [] s = Done () s"
| "procinit_loop (i # is) s =
    bindk (kalloc s) (\<lambda>pa s.
      if pa = 0 then Panic ''kalloc'' s
      else
        let va = KSTACK (of_nat i) in
        bindk (kvmmap va pa PGSIZE (PTE_R OR PTE_W) s) (\<lambda>_ s.
          procinit_loop is (upd_proc i (\<lambda>p. p\<lparr>kstack := va\<rparr>) s)))"

definition procinit :: "'z pmachine_scheme \<Rightarrow> (unit, 'z pmachine_scheme) outcome" where
  "procinit s = bindk (procinit_loop [0..<NPROC] s) (\<lambda>_ s. kvminithart s)"

definition allocpid :: "'z pmachine_scheme \<Rightarrow> (int, 'z pmachine_scheme) outcome" where
  "allocpid s =
    bindk (acquire LPid s) (\<lambda>_ s.
    let pid' = nextpid s; s = s\<lparr>nextpid := nextpid s + 1\<rparr>
    in bindk (release LPid s) (\<lambda>_ s. Done pid' s))"

definition proc_pagetable :: "nat \<Rightarrow> 'z pmachine_scheme \<Rightarrow> (u64, 'z pmachine_scheme) outcome" where
  "proc_pagetable p s =
    bindk (uvmcreate s) (\<lambda>pt s.
    bindk (mappages pt TRAMPOLINE PGSIZE (k_trampoline s) (PTE_R OR PTE_X) s) (\<lambda>_ s.
    bindk (mappages pt TRAPFRAME PGSIZE (tf (procs s ! p)) (PTE_R OR PTE_W) s) (\<lambda>_ s.
    Done pt s)))"

definition proc_freepagetable :: "u64 \<Rightarrow> u64 \<Rightarrow> 'z pmachine_scheme \<Rightarrow> (unit, 'z pmachine_scheme) outcome" where
  "proc_freepagetable pt sz' s =
    bindk (uvmunmap pt TRAMPOLINE PGSIZE False s) (\<lambda>_ s.
    bindk (uvmunmap pt TRAPFRAME PGSIZE False s) (\<lambda>_ s.
    if 0 < sz' then uvmfree pt sz' s else Done () s))"

text \<open>The scan for an \<open>UNUSED\<close> slot; it returns with the slot's lock held.\<close>

fun allocproc_scan :: "nat list \<Rightarrow> 'z pmachine_scheme \<Rightarrow> (nat option, 'z pmachine_scheme) outcome" where
  "allocproc_scan [] s = Done None s"
| "allocproc_scan (i # is) s =
    bindk (acquire (LProc i) s) (\<lambda>_ s.
      if state (procs s ! i) = UNUSED then Done (Some i) s
      else bindk (release (LProc i) s) (\<lambda>_ s. allocproc_scan is s))"

definition allocproc :: "'z pmachine_scheme \<Rightarrow> (nat option, 'z pmachine_scheme) outcome" where
  "allocproc s =
    bindk (allocproc_scan [0..<NPROC] s) (\<lambda>r s.
    case r of None \<Rightarrow> Done None s
    | Some i \<Rightarrow>
      bindk (allocpid s) (\<lambda>newpid s.
      let s = upd_proc i (\<lambda>p. p\<lparr>pid := newpid\<rparr>) s in
      bindk (kalloc s) (\<lambda>page s.
      let s = upd_proc i (\<lambda>p. p\<lparr>tf := page\<rparr>) s in
      if page = 0 then bindk (release (LProc i) s) (\<lambda>_ s. Done None s)
      else
        bindk (proc_pagetable i s) (\<lambda>pt s.
        let s = upd_proc i (\<lambda>p. p\<lparr>pagetable := pt\<rparr>) s;
            s = upd_proc i (\<lambda>p. p\<lparr>pcontext := \<lparr>ctx_ra = 0, ctx_sp = 0, ctx_s = replicate 12 0\<rparr>\<rparr>) s;
            s = upd_proc i (\<lambda>p. p\<lparr>pcontext := (pcontext p)\<lparr>ctx_ra := k_forkret s\<rparr>\<rparr>) s;
            s = upd_proc i (\<lambda>p. p\<lparr>pcontext := (pcontext p)\<lparr>ctx_sp := kstack p + PGSIZE\<rparr>\<rparr>) s
        in Done (Some i) s))))"

definition freeproc :: "nat \<Rightarrow> 'z pmachine_scheme \<Rightarrow> (unit, 'z pmachine_scheme) outcome" where
  "freeproc i s =
    bindk (if tf (procs s ! i) \<noteq> 0 then kfree (tf (procs s ! i)) s else Done () s) (\<lambda>_ s.
    let s = upd_proc i (\<lambda>p. p\<lparr>tf := 0\<rparr>) s in
    bindk (if pagetable (procs s ! i) \<noteq> 0
           then proc_freepagetable (pagetable (procs s ! i)) (sz (procs s ! i)) s
           else Done () s) (\<lambda>_ s.
    Done () (upd_proc i (\<lambda>p. p\<lparr>pagetable := 0, sz := 0, pid := 0, parent := None,
      name := (name p)[0 := 0], chan := ChanNone, killed := False, xstate := 0, state := UNUSED\<rparr>) s)))"

text \<open>
  \<open>growproc\<close> keeps the size in an \<open>uint\<close>: the old size is truncated to 32 bits,
  \<open>sz + n\<close> wraps at 32 bits, and the result of \<open>uvmalloc\<close> is truncated again.
\<close>

definition growproc :: "u32 \<Rightarrow> 'z pmachine_scheme \<Rightarrow> (int, 'z pmachine_scheme) outcome" where
  "growproc n s =
    bindk (myproc s) (\<lambda>p s.
    let sz' = ucast (sz (procs s ! p)) :: u32; pt = pagetable (procs s ! p) in
    if 0 < sint n then
      bindk (uvmalloc pt (ucast sz') (ucast (sz' + n)) s) (\<lambda>r s.
        let sz' = ucast r :: u32 in
        if sz' = 0 then Done (-1) s
        else Done 0 (upd_proc p (\<lambda>q. q\<lparr>sz := ucast sz'\<rparr>) s))
    else if sint n < 0 then
      bindk (uvmdealloc pt (ucast sz') (ucast (sz' + n)) s) (\<lambda>r s.
        Done 0 (upd_proc p (\<lambda>q. q\<lparr>sz := ucast (ucast r :: u32)\<rparr>) s))
    else Done 0 (upd_proc p (\<lambda>q. q\<lparr>sz := ucast sz'\<rparr>) s))"

section \<open>Scheduling\<close>

text \<open>
  \<open>sched\<close> up to its return: the panics, then \<open>swtch\<close> away, the environment, and
  back.  It returns the rest of the environment list.
\<close>

definition sched :: "'z env list \<Rightarrow> 'z pmachine_scheme \<Rightarrow> ('z env list, 'z pmachine_scheme) outcome" where
  "sched envs s =
    bindk (myproc s) (\<lambda>p s.
      if LProc p \<notin> set (held s) then Panic ''sched p->lock'' s
      else if length (held s) \<noteq> 1 then Panic ''sched locks'' s
      else if state (procs s ! p) = RUNNING then Panic ''sched running'' s
      else case envs of
        [] \<Rightarrow> Sleep (chan (procs s ! p)) s
      | e # es \<Rightarrow> Done es (e s))"

definition yield :: "'z env list \<Rightarrow> 'z pmachine_scheme \<Rightarrow> ('z env list, 'z pmachine_scheme) outcome" where
  "yield envs s =
    bindk (myproc s) (\<lambda>p s.
    bindk (acquire (LProc p) s) (\<lambda>_ s.
    bindk (sched envs (upd_proc p (\<lambda>q. q\<lparr>state := RUNNABLE\<rparr>) s)) (\<lambda>es s.
    bindk (release (LProc p) s) (\<lambda>_ s. Done es s))))"

definition sleep :: "chan \<Rightarrow> lock \<Rightarrow> 'z env list \<Rightarrow> 'z pmachine_scheme \<Rightarrow> ('z env list, 'z pmachine_scheme) outcome" where
  "sleep ch lk envs s =
    bindk (myproc s) (\<lambda>p s.
    bindk (if lk \<noteq> LProc p
           then bindk (acquire (LProc p) s) (\<lambda>_ s. release lk s)
           else Done () s) (\<lambda>_ s.
    let s = upd_proc p (\<lambda>q. q\<lparr>chan := ch, state := SLEEPING\<rparr>) s in
    bindk (sched envs s) (\<lambda>es s.
    let s = upd_proc p (\<lambda>q. q\<lparr>chan := ChanNone\<rparr>) s in
    bindk (if lk \<noteq> LProc p
           then bindk (release (LProc p) s) (\<lambda>_ s. acquire lk s)
           else Done () s) (\<lambda>_ s. Done es s))))"

text \<open>
  One pass of the loop of \<open>scheduler\<close> over the table: \<open>run i\<close> is what process
  \<open>i\<close> does between being switched to and switching back.
\<close>

fun scheduler_pass :: "(nat \<Rightarrow> 'z env) \<Rightarrow> nat list \<Rightarrow> bool \<Rightarrow> 'z pmachine_scheme \<Rightarrow> (bool, 'z pmachine_scheme) outcome" where
  "scheduler_pass run [] found s = Done found s"
| "scheduler_pass run (i # is) found s =
    bindk (acquire (LProc i) s) (\<lambda>_ s.
    let (found, s) =
      (if state (procs s ! i) = RUNNABLE then
         let s = upd_proc i (\<lambda>p. p\<lparr>state := RUNNING\<rparr>) s;
             s = run i (s\<lparr>cur := Some i\<rparr>)
         in (True, s\<lparr>cur := None\<rparr>)
       else (found, s))
    in bindk (release (LProc i) s) (\<lambda>_ s. scheduler_pass run is found s))"

definition scheduler :: "(nat \<Rightarrow> 'z env) \<Rightarrow> 'z pmachine_scheme \<Rightarrow> (bool, 'z pmachine_scheme) outcome" where
  "scheduler run s = scheduler_pass run [0..<NPROC] False (s\<lparr>cur := None\<rparr>)"

fun wakeup_loop :: "chan \<Rightarrow> nat list \<Rightarrow> 'z pmachine_scheme \<Rightarrow> (unit, 'z pmachine_scheme) outcome" where
  "wakeup_loop ch [] s = Done () s"
| "wakeup_loop ch (i # is) s =
    bindk (acquire (LProc i) s) (\<lambda>_ s.
    let s = (if state (procs s ! i) = SLEEPING \<and> chan (procs s ! i) = ch
             then upd_proc i (\<lambda>p. p\<lparr>state := RUNNABLE\<rparr>) s else s)
    in bindk (release (LProc i) s) (\<lambda>_ s. wakeup_loop ch is s))"

definition wakeup :: "chan \<Rightarrow> 'z pmachine_scheme \<Rightarrow> (unit, 'z pmachine_scheme) outcome" where
  "wakeup ch s = wakeup_loop ch [0..<NPROC] s"

definition wakeup1 :: "nat \<Rightarrow> 'z pmachine_scheme \<Rightarrow> (unit, 'z pmachine_scheme) outcome" where
  "wakeup1 p s =
    (if LProc p \<notin> set (held s) then Panic ''wakeup1'' s
     else if chan (procs s ! p) = ChanProc p \<and> state (procs s ! p) = SLEEPING
     then Done () (upd_proc p (\<lambda>q. q\<lparr>state := RUNNABLE\<rparr>) s)
     else Done () s)"

fun kill_loop :: "int \<Rightarrow> nat list \<Rightarrow> 'z pmachine_scheme \<Rightarrow> (int, 'z pmachine_scheme) outcome" where
  "kill_loop pid' [] s = Done (-1) s"
| "kill_loop pid' (i # is) s =
    bindk (acquire (LProc i) s) (\<lambda>_ s.
      if pid (procs s ! i) = pid' then
        let s = upd_proc i (\<lambda>p. p\<lparr>killed := True\<rparr>) s;
            s = (if state (procs s ! i) = SLEEPING
                 then upd_proc i (\<lambda>p. p\<lparr>state := RUNNABLE\<rparr>) s else s)
        in bindk (release (LProc i) s) (\<lambda>_ s. Done 0 s)
      else bindk (release (LProc i) s) (\<lambda>_ s. kill_loop pid' is s))"

definition kill :: "int \<Rightarrow> 'z pmachine_scheme \<Rightarrow> (int, 'z pmachine_scheme) outcome" where
  "kill pid' s = kill_loop pid' [0..<NPROC] s"

section \<open>Parents and children\<close>

fun reparent_loop :: "nat \<Rightarrow> nat list \<Rightarrow> 'z pmachine_scheme \<Rightarrow> (unit, 'z pmachine_scheme) outcome" where
  "reparent_loop p [] s = Done () s"
| "reparent_loop p (i # is) s =
    (if parent (procs s ! i) = Some p then
       bindk (acquire (LProc i) s) (\<lambda>_ s.
       let s = upd_proc i (\<lambda>q. q\<lparr>parent := initproc s\<rparr>) s
       in bindk (release (LProc i) s) (\<lambda>_ s. reparent_loop p is s))
     else reparent_loop p is s)"

definition reparent :: "nat \<Rightarrow> 'z pmachine_scheme \<Rightarrow> (unit, 'z pmachine_scheme) outcome" where
  "reparent p s = reparent_loop p [0..<NPROC] s"

text \<open>
  One scan of \<open>wait\<close>: \<open>Inr r\<close> when it returns \<open>r\<close>, \<open>Inl havekids\<close> when the
  table has been searched without finding a zombie child.
\<close>

fun wait_scan :: "nat \<Rightarrow> u64 \<Rightarrow> nat list \<Rightarrow> bool \<Rightarrow> 'z pmachine_scheme \<Rightarrow> (bool + int, 'z pmachine_scheme) outcome" where
  "wait_scan p addr [] havekids s = Done (Inl havekids) s"
| "wait_scan p addr (i # is) havekids s =
    (if parent (procs s ! i) = Some p then
       bindk (acquire (LProc i) s) (\<lambda>_ s.
         if state (procs s ! i) = ZOMBIE then
           let pid' = pid (procs s ! i) in
           bindk (if addr \<noteq> 0
                  then copyout (pagetable (procs s ! p)) addr (le_bytes 4 (unat (xstate (procs s ! i)))) s
                  else Done 0 s) (\<lambda>r s.
             if r < 0 then
               bindk (release (LProc i) s) (\<lambda>_ s.
               bindk (release (LProc p) s) (\<lambda>_ s. Done (Inr (-1)) s))
             else
               bindk (freeproc i s) (\<lambda>_ s.
               bindk (release (LProc i) s) (\<lambda>_ s.
               bindk (release (LProc p) s) (\<lambda>_ s. Done (Inr pid') s))))
         else bindk (release (LProc i) s) (\<lambda>_ s. wait_scan p addr is True s))
     else wait_scan p addr is havekids s)"

lemma sched_uses_env: "sched envs s = Done es s' \<Longrightarrow> length es < length envs"
  by (auto simp: sched_def bindk_Done_iff split: if_splits list.splits)

lemma sleep_uses_env: "sleep ch lk envs s = Done es s' \<Longrightarrow> length es < length envs"
  by (auto simp: sleep_def bindk_Done_iff Let_def dest: sched_uses_env)

function wait_loop :: "nat \<Rightarrow> u64 \<Rightarrow> 'z env list \<Rightarrow> 'z pmachine_scheme \<Rightarrow> (int, 'z pmachine_scheme) outcome" where
  "wait_loop p addr envs s =
    bindk (wait_scan p addr [0..<NPROC] False s) (\<lambda>r s.
    case r of
      Inr pid' \<Rightarrow> Done pid' s
    | Inl havekids \<Rightarrow>
        if \<not> havekids \<or> killed (procs s ! p) then bindk (release (LProc p) s) (\<lambda>_ s. Done (-1) s)
        else bindk (sleep (ChanProc p) (LProc p) envs s) (\<lambda>es s. wait_loop p addr es s))"
  by pat_completeness auto
termination
  by (relation "measure (\<lambda>(p, addr, envs, s). length envs)") (auto dest: sleep_uses_env)

declare wait_loop.simps [simp del]

definition wait :: "u64 \<Rightarrow> 'z env list \<Rightarrow> 'z pmachine_scheme \<Rightarrow> (int, 'z pmachine_scheme) outcome" where
  "wait addr envs s =
    bindk (myproc s) (\<lambda>p s.
    bindk (acquire (LProc p) s) (\<lambda>_ s. wait_loop p addr envs s))"

section \<open>Copies whose user side is optional\<close>

text \<open>
  \<open>either_copyout\<close> writes to a user address, to kernel memory, or to an object
  local to the caller (which then takes the bytes itself); \<open>either_copyin\<close> reads
  from a user address or from bytes the caller holds.
\<close>

datatype copy_dst = UserDst u64 | KernDst u64 | LocalDst
datatype copy_src = UserSrc u64 | LocalSrc "u8 list"

definition either_copyout :: "copy_dst \<Rightarrow> u8 list \<Rightarrow> 'z pmachine_scheme \<Rightarrow> (int, 'z pmachine_scheme) outcome" where
  "either_copyout dst src s =
    (case dst of
      UserDst va \<Rightarrow> bindk (myproc s) (\<lambda>p s. copyout (pagetable (procs s ! p)) va src s)
    | KernDst a \<Rightarrow> Done 0 (s\<lparr>mem := store_bytes (mem s) a src\<rparr>)
    | LocalDst \<Rightarrow> Done 0 s)"

definition either_copyin :: "copy_src \<Rightarrow> nat \<Rightarrow> 'z pmachine_scheme \<Rightarrow> (int \<times> u8 list, 'z pmachine_scheme) outcome" where
  "either_copyin src len s =
    (case src of
      UserSrc va \<Rightarrow> bindk (myproc s) (\<lambda>p s. copyin (pagetable (procs s ! p)) va len s)
    | LocalSrc bs \<Rightarrow> Done (0, take len bs) s)"

fun dst_advance :: "copy_dst \<Rightarrow> nat \<Rightarrow> copy_dst" where
  "dst_advance (UserDst va) n = UserDst (va + of_nat n)"
| "dst_advance (KernDst a) n = KernDst (a + of_nat n)"
| "dst_advance LocalDst n = LocalDst"

fun src_advance :: "copy_src \<Rightarrow> nat \<Rightarrow> copy_src" where
  "src_advance (UserSrc va) n = UserSrc (va + of_nat n)"
| "src_advance (LocalSrc bs) n = LocalSrc (drop n bs)"

section \<open>Waking up\<close>

text \<open>What \<open>wakeup\<close> does to one entry of the table.\<close>

definition wake :: "chan \<Rightarrow> proc \<Rightarrow> proc" where
  "wake ch p = (if state p = SLEEPING \<and> chan p = ch then p\<lparr>state := RUNNABLE\<rparr> else p)"

definition no_proc_lock :: "'z hart_scheme \<Rightarrow> bool" where
  "no_proc_lock s \<longleftrightarrow> (\<forall>i. LProc i \<notin> set (held s))"

lemma no_proc_lock_simps [simp]:
  "no_proc_lock s \<Longrightarrow> LProc i \<notin> set (held s)"
  "held s = [] \<Longrightarrow> no_proc_lock s"
  by (auto simp: no_proc_lock_def)

lemma wakeup_loop_eq:
  assumes "no_proc_lock s"
  shows "wakeup_loop ch is s = Done () (s\<lparr>procs := fold (\<lambda>i ps. ps[i := wake ch (ps ! i)]) is (procs s)\<rparr>)"
  using assms
proof (induction "is" arbitrary: s)
  case (Cons i "is")
  let ?s = "s\<lparr>procs := (procs s)[i := wake ch (procs s ! i)]\<rparr>"
  have "wakeup_loop ch (i # is) s = wakeup_loop ch is ?s"
    using Cons.prems by (auto simp: upd_proc_def wake_def)
  moreover have "no_proc_lock ?s" using Cons.prems by (simp add: no_proc_lock_def)
  ultimately show ?case using Cons.IH by simp
qed simp

lemma fold_upd_map:
  "n \<le> length xs \<Longrightarrow> fold (\<lambda>i ys. ys[i := f (ys ! i)]) [0..<n] xs = map f (take n xs) @ drop n xs"
proof (induction n)
  case (Suc n)
  then have "xs = take n xs @ xs ! n # drop (Suc n) xs" by (simp add: id_take_nth_drop)
  have "fold (\<lambda>i ys. ys[i := f (ys ! i)]) [0..<Suc n] xs
      = (map f (take n xs) @ drop n xs)[n := f ((map f (take n xs) @ drop n xs) ! n)]"
    using Suc by simp
  also have "\<dots> = map f (take n xs) @ f (xs ! n) # drop (Suc n) xs"
    using Suc.prems by (simp add: list_update_append nth_append Cons_nth_drop_Suc [symmetric])
  also have "\<dots> = map f (take (Suc n) xs) @ drop (Suc n) xs"
    using Suc.prems by (simp add: take_Suc_conv_app_nth)
  finally show ?case .
qed simp

lemma wakeup_eq:
  assumes "no_proc_lock s" and "length (procs s) = NPROC"
  shows "wakeup ch s = Done () (s\<lparr>procs := map (wake ch) (procs s)\<rparr>)"
  using wakeup_loop_eq [OF assms(1), of ch "[0..<NPROC]"] assms(2)
  by (simp add: wakeup_def fold_upd_map)

text \<open>Waking changes nothing of a process but its scheduling state.\<close>

definition same_procs :: "proc list \<Rightarrow> proc list \<Rightarrow> bool" where
  "same_procs ps qs \<longleftrightarrow> map (\<lambda>p. p\<lparr>state := UNUSED\<rparr>) ps = map (\<lambda>p. p\<lparr>state := UNUSED\<rparr>) qs"

lemma same_procs_refl [simp]: "same_procs ps ps"
  by (simp add: same_procs_def)

lemma same_procs_trans: "same_procs ps qs \<Longrightarrow> same_procs qs rs \<Longrightarrow> same_procs ps rs"
  by (simp add: same_procs_def)

lemma same_procs_wake [simp]: "same_procs ps (map (wake ch) ps)"
  by (simp add: same_procs_def wake_def)

lemma same_procs_length: "same_procs ps qs \<Longrightarrow> length qs = length ps"
  unfolding same_procs_def by (metis length_map)

lemma same_procs_nth:
  assumes "same_procs ps qs" and "i < length ps"
  shows "pid (qs ! i) = pid (ps ! i)" and "pagetable (qs ! i) = pagetable (ps ! i)"
    and "killed (qs ! i) = killed (ps ! i)" and "sz (qs ! i) = sz (ps ! i)"
proof -
  have "map (\<lambda>p. p\<lparr>state := UNUSED\<rparr>) qs ! i = map (\<lambda>p. p\<lparr>state := UNUSED\<rparr>) ps ! i"
    using assms(1) by (simp add: same_procs_def)
  then have eq: "(qs ! i)\<lparr>state := UNUSED\<rparr> = (ps ! i)\<lparr>state := UNUSED\<rparr>"
    using assms same_procs_length [OF assms(1)] by simp
  show "pid (qs ! i) = pid (ps ! i)" using arg_cong [OF eq, of pid] by simp
  show "pagetable (qs ! i) = pagetable (ps ! i)" using arg_cong [OF eq, of pagetable] by simp
  show "killed (qs ! i) = killed (ps ! i)" using arg_cong [OF eq, of killed] by simp
  show "sz (qs ! i) = sz (ps ! i)" using arg_cong [OF eq, of sz] by simp
qed

end
