(* ===== verification/Sleeplock.thy ===== *)
theory Sleeplock
  imports Proc
begin

text \<open>
  \<open>kernel/sleeplock.c\<close>.  A sleep lock is named by the spin lock inside it
  (\<open>LBuf i\<close> for a buffer, \<open>LInode i\<close> for an inode), and lives in the state's
  \<open>sleeplocks\<close>.
\<close>

definition upd_sleeplock :: "lock \<Rightarrow> sleeplock \<Rightarrow> 'z pmachine_scheme \<Rightarrow> 'z pmachine_scheme" where
  "upd_sleeplock lk v s = s\<lparr>sleeplocks := (sleeplocks s)(lk := v)\<rparr>"

definition initsleeplock :: "lock \<Rightarrow> 'z pmachine_scheme \<Rightarrow> 'z pmachine_scheme" where
  "initsleeplock lk s = upd_sleeplock lk \<lparr>slk_locked = False, slk_pid = 0\<rparr> s"

function acquiresleep_loop :: "lock \<Rightarrow> 'z env list \<Rightarrow> 'z pmachine_scheme \<Rightarrow> (unit, 'z pmachine_scheme) outcome" where
  "acquiresleep_loop lk envs s =
    (if slk_locked (sleeplocks s lk)
     then bindk (sleep (ChanSleeplock lk) lk envs s) (\<lambda>es s. acquiresleep_loop lk es s)
     else
       let s = upd_sleeplock lk ((sleeplocks s lk)\<lparr>slk_locked := True\<rparr>) s in
       bindk (myproc s) (\<lambda>p s.
       let s = upd_sleeplock lk ((sleeplocks s lk)\<lparr>slk_pid := pid (procs s ! p)\<rparr>) s
       in release lk s))"
  by pat_completeness auto
termination
  by (relation "measure (\<lambda>(lk, envs, s). length envs)") (auto dest: sleep_uses_env)

declare acquiresleep_loop.simps [simp del]

definition acquiresleep :: "lock \<Rightarrow> 'z env list \<Rightarrow> 'z pmachine_scheme \<Rightarrow> (unit, 'z pmachine_scheme) outcome" where
  "acquiresleep lk envs s =
    bindk (acquire lk s) (\<lambda>_ s. acquiresleep_loop lk envs s)"

definition releasesleep :: "lock \<Rightarrow> 'z pmachine_scheme \<Rightarrow> (unit, 'z pmachine_scheme) outcome" where
  "releasesleep lk s =
    bindk (acquire lk s) (\<lambda>_ s.
    let s = upd_sleeplock lk \<lparr>slk_locked = False, slk_pid = 0\<rparr> s in
    bindk (wakeup (ChanSleeplock lk) s) (\<lambda>_ s. release lk s))"

definition holdingsleep :: "lock \<Rightarrow> 'z pmachine_scheme \<Rightarrow> (bool, 'z pmachine_scheme) outcome" where
  "holdingsleep lk s =
    bindk (acquire lk s) (\<lambda>_ s.
    bindk (if slk_locked (sleeplocks s lk)
           then bindk (myproc s) (\<lambda>p s. Done (slk_pid (sleeplocks s lk) = pid (procs s ! p)) s)
           else Done False s) (\<lambda>r s.
    bindk (release lk s) (\<lambda>_ s. Done r s)))"

section \<open>Uncontended sleep locks\<close>

lemma myproc_cur [simp]: "cur s = Some p \<Longrightarrow> myproc s = Done p s"
  by (simp add: myproc_def)

lemma sleeplock_full [simp]:
  "(l :: sleeplock)\<lparr>slk_locked := a, slk_pid := b\<rparr> = \<lparr>slk_locked = a, slk_pid = b\<rparr>"
  by (cases l) simp

lemma acquiresleep_free:
  assumes "lk \<notin> set (held s)" and "\<not> slk_locked (sleeplocks s lk)" and "cur s = Some p"
  shows "acquiresleep lk envs s =
    Done () (upd_sleeplock lk \<lparr>slk_locked = True, slk_pid = pid (procs s ! p)\<rparr> s)"
  using assms by (simp add: acquiresleep_def acquiresleep_loop.simps upd_sleeplock_def Let_def)

lemma acquiresleep_busy:
  assumes "lk \<notin> set (held s)" and "slk_locked (sleeplocks s lk)" and "cur s = Some p"
    and "held s = []" and "lk \<noteq> LProc p" and "p < length (procs s)"
  shows "acquiresleep lk [] s =
    Sleep (ChanSleeplock lk)
      (upd_proc p (\<lambda>q. q\<lparr>chan := ChanSleeplock lk, state := SLEEPING\<rparr>) (s\<lparr>held := [LProc p]\<rparr>))"
  using assms
  by (simp add: acquiresleep_def acquiresleep_loop.simps sleep_def sched_def upd_proc_def release_held Let_def)

lemma holdingsleep_eq:
  assumes "lk \<notin> set (held s)" and "cur s = Some p"
  shows "holdingsleep lk s =
    Done (slk_locked (sleeplocks s lk) \<and> slk_pid (sleeplocks s lk) = pid (procs s ! p)) s"
  using assms by (simp add: holdingsleep_def)

lemma releasesleep_eq:
  assumes "lk \<notin> set (held s)" and "no_proc_lock s" and "length (procs s) = NPROC" and "\<And>i. lk \<noteq> LProc i"
  shows "releasesleep lk s = Done () (s\<lparr>sleeplocks := (sleeplocks s)(lk := \<lparr>slk_locked = False, slk_pid = 0\<rparr>),
    procs := map (wake (ChanSleeplock lk)) (procs s)\<rparr>)"
proof -
  let ?s = "upd_sleeplock lk \<lparr>slk_locked = False, slk_pid = 0\<rparr> (s\<lparr>held := lk # held s\<rparr>)"
  have "no_proc_lock ?s" "length (procs ?s) = NPROC"
    using assms by (auto simp: no_proc_lock_def upd_sleeplock_def)
  from wakeup_eq [OF this, of "ChanSleeplock lk"] show ?thesis
    using assms(1) by (simp add: releasesleep_def upd_sleeplock_def Let_def)
qed

end
