(* ===== verification/Bio.thy ===== *)
theory Bio
  imports Sleeplock
begin

text \<open>
  \<open>kernel/bio.c\<close>: the buffer cache.  The buffers are the entries \<open>0 .. NBUF-1\<close> of
  \<open>bufs\<close>, and entry \<open>NBUF\<close> is the list head; \<open>bprev\<close> and \<open>bnext\<close> hold indices.
  The sleep lock of buffer \<open>b\<close> is \<open>LBuf b\<close>.

  \<open>disk dev blockno\<close> is the content of the disk.  \<open>disk_rw\<close> is what the cache
  relies on of \<open>virtio_disk_rw\<close>: when it returns, the block has been transferred.
  The list \<open>disk_trace\<close> records the block writes in the order in which they reached
  the disk; no code reads it.
\<close>

definition NBUF :: nat where "NBUF = 30"
definition BSIZE :: nat where "BSIZE = 1024"

record buf =
  valid :: bool
  owned_by_disk :: bool
  bdev :: u32
  blockno :: u32
  refcnt :: u32
  bprev :: nat
  bnext :: nat
  bdata :: "u8 list"

record bmachine = pmachine +
  bufs :: "buf list"
  disk :: "u32 \<Rightarrow> u32 \<Rightarrow> u8 list"
  disk_trace :: "(u32 \<times> u32 \<times> u8 list) list"

definition upd_buf :: "nat \<Rightarrow> (buf \<Rightarrow> buf) \<Rightarrow> 'z bmachine_scheme \<Rightarrow> 'z bmachine_scheme" where
  "upd_buf i f s = s\<lparr>bufs := (bufs s)[i := f (bufs s ! i)]\<rparr>"

definition disk_rw :: "u32 \<Rightarrow> nat \<Rightarrow> bool \<Rightarrow> 'z bmachine_scheme \<Rightarrow> (unit, 'z bmachine_scheme) outcome" where
  "disk_rw n b write s =
    (let bn = blockno (bufs s ! b) in
     Done () (if write
       then s\<lparr>disk := (disk s)(n := (disk s n)(bn := bdata (bufs s ! b))),
              disk_trace := disk_trace s @ [(n, bn, bdata (bufs s ! b))]\<rparr>
       else upd_buf b (\<lambda>x. x\<lparr>bdata := disk s n bn\<rparr>) s))"

text \<open>Insert buffer \<open>b\<close> right after the head: the last four assignments of \<open>brelse\<close>.\<close>

definition push_front :: "nat \<Rightarrow> 'z bmachine_scheme \<Rightarrow> 'z bmachine_scheme" where
  "push_front b s =
    (let s = upd_buf b (\<lambda>x. x\<lparr>bnext := bnext (bufs s ! NBUF)\<rparr>) s;
         s = upd_buf b (\<lambda>x. x\<lparr>bprev := NBUF\<rparr>) s;
         s = upd_buf (bnext (bufs s ! NBUF)) (\<lambda>x. x\<lparr>bprev := b\<rparr>) s
     in upd_buf NBUF (\<lambda>x. x\<lparr>bnext := b\<rparr>) s)"

fun binit_loop :: "nat list \<Rightarrow> 'z bmachine_scheme \<Rightarrow> 'z bmachine_scheme" where
  "binit_loop [] s = s"
| "binit_loop (b # bs) s =
    (let s = upd_buf b (\<lambda>x. x\<lparr>bnext := bnext (bufs s ! NBUF)\<rparr>) s;
         s = upd_buf b (\<lambda>x. x\<lparr>bprev := NBUF\<rparr>) s;
         s = initsleeplock (LBuf b) s;
         s = upd_buf (bnext (bufs s ! NBUF)) (\<lambda>x. x\<lparr>bprev := b\<rparr>) s;
         s = upd_buf NBUF (\<lambda>x. x\<lparr>bnext := b\<rparr>) s
     in binit_loop bs s)"

definition binit :: "'z bmachine_scheme \<Rightarrow> 'z bmachine_scheme" where
  "binit s =
    (let s = upd_buf NBUF (\<lambda>x. x\<lparr>bprev := NBUF\<rparr>) s;
         s = upd_buf NBUF (\<lambda>x. x\<lparr>bnext := NBUF\<rparr>) s
     in binit_loop [0..<NBUF] s)"

text \<open>The two searches of \<open>bget\<close>; a list of \<open>NBUF\<close> buffers needs \<open>NBUF + 1\<close> tests.\<close>

fun bget_cached :: "nat \<Rightarrow> u32 \<Rightarrow> u32 \<Rightarrow> nat \<Rightarrow> 'z bmachine_scheme \<Rightarrow> (nat option, 'z bmachine_scheme) outcome" where
  "bget_cached 0 dev bn b s = Loop s"
| "bget_cached (Suc fuel) dev bn b s =
    (if b = NBUF then Done None s
     else if bdev (bufs s ! b) = dev \<and> blockno (bufs s ! b) = bn then Done (Some b) s
     else bget_cached fuel dev bn (bnext (bufs s ! b)) s)"

fun bget_unused :: "nat \<Rightarrow> nat \<Rightarrow> 'z bmachine_scheme \<Rightarrow> (nat option, 'z bmachine_scheme) outcome" where
  "bget_unused 0 b s = Loop s"
| "bget_unused (Suc fuel) b s =
    (if b = NBUF then Done None s
     else if refcnt (bufs s ! b) = 0 then Done (Some b) s
     else bget_unused fuel (bprev (bufs s ! b)) s)"

definition bget :: "u32 \<Rightarrow> u32 \<Rightarrow> 'z bmachine_scheme \<Rightarrow> (nat, 'z bmachine_scheme) outcome" where
  "bget dev bn s =
    bindk (acquire LBcache s) (\<lambda>_ s.
    bindk (bget_cached (NBUF + 1) dev bn (bnext (bufs s ! NBUF)) s) (\<lambda>r s.
    case r of
      Some b \<Rightarrow>
        let s = upd_buf b (\<lambda>x. x\<lparr>refcnt := refcnt x + 1\<rparr>) s in
        bindk (release LBcache s) (\<lambda>_ s.
        bindk (acquiresleep (LBuf b) [] s) (\<lambda>_ s. Done b s))
    | None \<Rightarrow>
        bindk (bget_unused (NBUF + 1) (bprev (bufs s ! NBUF)) s) (\<lambda>r s.
        case r of
          Some b \<Rightarrow>
            let s = upd_buf b (\<lambda>x. x\<lparr>bdev := dev, blockno := bn, valid := False, refcnt := 1\<rparr>) s in
            bindk (release LBcache s) (\<lambda>_ s.
            bindk (acquiresleep (LBuf b) [] s) (\<lambda>_ s. Done b s))
        | None \<Rightarrow> Panic ''bget: no buffers'' s)))"

definition bread :: "u32 \<Rightarrow> u32 \<Rightarrow> 'z bmachine_scheme \<Rightarrow> (nat, 'z bmachine_scheme) outcome" where
  "bread dev bn s =
    bindk (bget dev bn s) (\<lambda>b s.
      if \<not> valid (bufs s ! b) then
        bindk (disk_rw (bdev (bufs s ! b)) b False s) (\<lambda>_ s.
          Done b (upd_buf b (\<lambda>x. x\<lparr>valid := True\<rparr>) s))
      else Done b s)"

definition bwrite :: "nat \<Rightarrow> 'z bmachine_scheme \<Rightarrow> (unit, 'z bmachine_scheme) outcome" where
  "bwrite b s =
    bindk (holdingsleep (LBuf b) s) (\<lambda>h s.
      if \<not> h then Panic ''bwrite'' s
      else disk_rw (bdev (bufs s ! b)) b True s)"

definition brelse :: "nat \<Rightarrow> 'z bmachine_scheme \<Rightarrow> (unit, 'z bmachine_scheme) outcome" where
  "brelse b s =
    bindk (holdingsleep (LBuf b) s) (\<lambda>h s.
      if \<not> h then Panic ''brelse'' s
      else
        bindk (releasesleep (LBuf b) s) (\<lambda>_ s.
        bindk (acquire LBcache s) (\<lambda>_ s.
        let s = upd_buf b (\<lambda>x. x\<lparr>refcnt := refcnt x - 1\<rparr>) s;
            s = (if refcnt (bufs s ! b) = 0 then
                   let s = upd_buf (bnext (bufs s ! b)) (\<lambda>x. x\<lparr>bprev := bprev (bufs s ! b)\<rparr>) s;
                       s = upd_buf (bprev (bufs s ! b)) (\<lambda>x. x\<lparr>bnext := bnext (bufs s ! b)\<rparr>) s
                   in push_front b s
                 else s)
        in release LBcache s)))"

definition bpin :: "nat \<Rightarrow> 'z bmachine_scheme \<Rightarrow> (unit, 'z bmachine_scheme) outcome" where
  "bpin b s =
    bindk (acquire LBcache s) (\<lambda>_ s.
      release LBcache (upd_buf b (\<lambda>x. x\<lparr>refcnt := refcnt x + 1\<rparr>) s))"

definition bunpin :: "nat \<Rightarrow> 'z bmachine_scheme \<Rightarrow> (unit, 'z bmachine_scheme) outcome" where
  "bunpin b s =
    bindk (acquire LBcache s) (\<lambda>_ s.
      release LBcache (upd_buf b (\<lambda>x. x\<lparr>refcnt := refcnt x - 1\<rparr>) s))"

end
