(* ===== verification/Log.thy ===== *)
theory Log
  imports Bio
begin

text \<open>
  \<open>kernel/log.c\<close>: the redo log.  \<open>logs dev\<close> is \<open>log[dev]\<close>; the header of a
  log occupies the first \<open>4 + 4 * LOGSIZE\<close> bytes of its header block.  Header
  entries beyond \<open>LOGSIZE\<close> would be read and written outside of the array, which
  has no meaning in C: the model stops there with \<open>out_of_bounds\<close>.
\<close>

definition MAXOPBLOCKS :: int where "MAXOPBLOCKS = 10"
definition LOGSIZE :: int where "LOGSIZE = MAXOPBLOCKS * 3"

record logheader =
  lh_n :: int
  lh_block :: "u32 list"

record log =
  log_start :: int
  log_size :: int
  outstanding :: int
  committing :: bool
  log_dev :: u32
  lh :: logheader

record lmachine = bmachine +
  logs :: "u32 \<Rightarrow> log"

definition out_of_bounds :: "'s \<Rightarrow> ('a, 's) outcome" where
  "out_of_bounds s = Panic ''undefined behaviour: array index out of bounds'' s"

definition upd_log :: "u32 \<Rightarrow> (log \<Rightarrow> log) \<Rightarrow> 'z lmachine_scheme \<Rightarrow> 'z lmachine_scheme" where
  "upd_log dev f s = s\<lparr>logs := (logs s)(dev := f (logs s dev))\<rparr>"

definition upd_lh :: "u32 \<Rightarrow> (logheader \<Rightarrow> logheader) \<Rightarrow> 'z lmachine_scheme \<Rightarrow> 'z lmachine_scheme" where
  "upd_lh dev f s = upd_log dev (\<lambda>l. l\<lparr>lh := f (lh l)\<rparr>) s"

section \<open>Moving blocks between the log and their homes\<close>

fun install_trans_loop :: "u32 \<Rightarrow> nat list \<Rightarrow> 'z lmachine_scheme \<Rightarrow> (unit, 'z lmachine_scheme) outcome" where
  "install_trans_loop dev [] s = Done () s"
| "install_trans_loop dev (tail # ts) s =
    (if length (lh_block (lh (logs s dev))) \<le> tail then out_of_bounds s
     else
       bindk (bread dev (of_int (log_start (logs s dev) + int tail + 1)) s) (\<lambda>lbuf s.
       bindk (bread dev (lh_block (lh (logs s dev)) ! tail) s) (\<lambda>dbuf s.
       let s = upd_buf dbuf (\<lambda>x. x\<lparr>bdata := bdata (bufs s ! lbuf)\<rparr>) s in
       bindk (bwrite dbuf s) (\<lambda>_ s.
       bindk (bunpin dbuf s) (\<lambda>_ s.
       bindk (brelse lbuf s) (\<lambda>_ s.
       bindk (brelse dbuf s) (\<lambda>_ s.
       install_trans_loop dev ts s)))))))"

definition install_trans :: "u32 \<Rightarrow> 'z lmachine_scheme \<Rightarrow> (unit, 'z lmachine_scheme) outcome" where
  "install_trans dev s = install_trans_loop dev [0..<nat (lh_n (lh (logs s dev)))] s"

fun read_head_loop :: "u32 \<Rightarrow> u8 list \<Rightarrow> nat list \<Rightarrow> 'z lmachine_scheme \<Rightarrow> (unit, 'z lmachine_scheme) outcome" where
  "read_head_loop dev hb [] s = Done () s"
| "read_head_loop dev hb (i # is) s =
    (if length (lh_block (lh (logs s dev))) \<le> i then out_of_bounds s
     else read_head_loop dev hb is
       (upd_lh dev (\<lambda>h. h\<lparr>lh_block := (lh_block h)[i := get32 hb (4 + 4 * i)]\<rparr>) s))"

definition read_head :: "u32 \<Rightarrow> 'z lmachine_scheme \<Rightarrow> (unit, 'z lmachine_scheme) outcome" where
  "read_head dev s =
    bindk (bread dev (of_int (log_start (logs s dev))) s) (\<lambda>b s.
    let hb = bdata (bufs s ! b);
        s = upd_lh dev (\<lambda>h. h\<lparr>lh_n := sint (get32 hb 0)\<rparr>) s
    in bindk (read_head_loop dev hb [0..<nat (lh_n (lh (logs s dev)))] s) (\<lambda>_ s. brelse b s))"

fun write_head_loop :: "u32 \<Rightarrow> nat \<Rightarrow> nat list \<Rightarrow> 'z lmachine_scheme \<Rightarrow> (unit, 'z lmachine_scheme) outcome" where
  "write_head_loop dev b [] s = Done () s"
| "write_head_loop dev b (i # is) s =
    (if length (lh_block (lh (logs s dev))) \<le> i then out_of_bounds s
     else write_head_loop dev b is
       (upd_buf b (\<lambda>x. x\<lparr>bdata := put32 (bdata x) (4 + 4 * i) (lh_block (lh (logs s dev)) ! i)\<rparr>) s))"

definition write_head :: "u32 \<Rightarrow> 'z lmachine_scheme \<Rightarrow> (unit, 'z lmachine_scheme) outcome" where
  "write_head dev s =
    bindk (bread dev (of_int (log_start (logs s dev))) s) (\<lambda>b s.
    let s = upd_buf b (\<lambda>x. x\<lparr>bdata := put32 (bdata x) 0 (of_int (lh_n (lh (logs s dev))))\<rparr>) s
    in bindk (write_head_loop dev b [0..<nat (lh_n (lh (logs s dev)))] s) (\<lambda>_ s.
       bindk (bwrite b s) (\<lambda>_ s. brelse b s)))"

definition recover_from_log :: "u32 \<Rightarrow> 'z lmachine_scheme \<Rightarrow> (unit, 'z lmachine_scheme) outcome" where
  "recover_from_log dev s =
    bindk (read_head dev s) (\<lambda>_ s.
    bindk (install_trans dev s) (\<lambda>_ s.
    write_head dev (upd_lh dev (\<lambda>h. h\<lparr>lh_n := 0\<rparr>) s)))"

text \<open>\<open>initlog\<close> takes \<open>sb->logstart\<close> and \<open>sb->nlog\<close>.\<close>

definition initlog :: "u32 \<Rightarrow> u32 \<Rightarrow> u32 \<Rightarrow> 'z lmachine_scheme \<Rightarrow> (unit, 'z lmachine_scheme) outcome" where
  "initlog dev logstart nlog s =
    (if BSIZE \<le> 4 + 4 * nat LOGSIZE then Panic ''initlog: too big logheader'' s
     else recover_from_log dev
       (upd_log dev (\<lambda>l. l\<lparr>log_start := sint logstart, log_size := sint nlog, log_dev := dev\<rparr>) s))"

section \<open>Transactions\<close>

function begin_op_loop :: "u32 \<Rightarrow> 'z lmachine_ext bmachine_ext env list \<Rightarrow> 'z lmachine_scheme \<Rightarrow> (unit, 'z lmachine_scheme) outcome" where
  "begin_op_loop dev envs s =
    (if committing (logs s dev) then
       bindk (sleep ChanLog (LLog (unat dev)) envs s) (\<lambda>es s. begin_op_loop dev es s)
     else if LOGSIZE < lh_n (lh (logs s dev)) + (outstanding (logs s dev) + 1) * MAXOPBLOCKS then
       bindk (sleep ChanLog (LLog (unat dev)) envs s) (\<lambda>es s. begin_op_loop dev es s)
     else release (LLog (unat dev)) (upd_log dev (\<lambda>l. l\<lparr>outstanding := outstanding l + 1\<rparr>) s))"
  by pat_completeness auto
termination
  by (relation "measure (\<lambda>(dev, envs, s). length envs)") (auto dest: sleep_uses_env)

declare begin_op_loop.simps [simp del]

definition begin_op :: "u32 \<Rightarrow> 'z lmachine_ext bmachine_ext env list \<Rightarrow> 'z lmachine_scheme \<Rightarrow> (unit, 'z lmachine_scheme) outcome" where
  "begin_op dev envs s = bindk (acquire (LLog (unat dev)) s) (\<lambda>_ s. begin_op_loop dev envs s)"

fun write_log_loop :: "u32 \<Rightarrow> nat list \<Rightarrow> 'z lmachine_scheme \<Rightarrow> (unit, 'z lmachine_scheme) outcome" where
  "write_log_loop dev [] s = Done () s"
| "write_log_loop dev (tail # ts) s =
    (if length (lh_block (lh (logs s dev))) \<le> tail then out_of_bounds s
     else
       bindk (bread dev (of_int (log_start (logs s dev) + int tail + 1)) s) (\<lambda>to s.
       bindk (bread dev (lh_block (lh (logs s dev)) ! tail) s) (\<lambda>from' s.
       let s = upd_buf to (\<lambda>x. x\<lparr>bdata := bdata (bufs s ! from')\<rparr>) s in
       bindk (bwrite to s) (\<lambda>_ s.
       bindk (brelse from' s) (\<lambda>_ s.
       bindk (brelse to s) (\<lambda>_ s.
       write_log_loop dev ts s))))))"

definition write_log :: "u32 \<Rightarrow> 'z lmachine_scheme \<Rightarrow> (unit, 'z lmachine_scheme) outcome" where
  "write_log dev s = write_log_loop dev [0..<nat (lh_n (lh (logs s dev)))] s"

definition commit :: "u32 \<Rightarrow> 'z lmachine_scheme \<Rightarrow> (unit, 'z lmachine_scheme) outcome" where
  "commit dev s =
    (if 0 < lh_n (lh (logs s dev)) then
       bindk (write_log dev s) (\<lambda>_ s.
       bindk (write_head dev s) (\<lambda>_ s.
       bindk (install_trans dev s) (\<lambda>_ s.
       write_head dev (upd_lh dev (\<lambda>h. h\<lparr>lh_n := 0\<rparr>) s))))
     else Done () s)"

definition end_op :: "u32 \<Rightarrow> 'z lmachine_scheme \<Rightarrow> (unit, 'z lmachine_scheme) outcome" where
  "end_op dev s =
    bindk (acquire (LLog (unat dev)) s) (\<lambda>_ s.
    let s = upd_log dev (\<lambda>l. l\<lparr>outstanding := outstanding l - 1\<rparr>) s in
    if committing (logs s dev) then Panic ''log[dev].committing'' s
    else
      bindk (if outstanding (logs s dev) = 0
             then Done True (upd_log dev (\<lambda>l. l\<lparr>committing := True\<rparr>) s)
             else bindk (wakeup ChanLog s) (\<lambda>_ s. Done False s)) (\<lambda>do_commit s.
      bindk (release (LLog (unat dev)) s) (\<lambda>_ s.
      if do_commit then
        bindk (commit dev s) (\<lambda>_ s.
        bindk (acquire (LLog (unat dev)) s) (\<lambda>_ s.
        let s = upd_log dev (\<lambda>l. l\<lparr>committing := False\<rparr>) s in
        bindk (wakeup ChanLog s) (\<lambda>_ s. release (LLog (unat dev)) s)))
      else Done () s)))"

text \<open>The search of \<open>log_write\<close> for a slot: the first entry with this block, or \<open>n\<close>.\<close>

fun absorb_slot :: "u32 list \<Rightarrow> u32 \<Rightarrow> nat \<Rightarrow> nat \<Rightarrow> nat" where
  "absorb_slot blocks bn i 0 = i"
| "absorb_slot blocks bn i (Suc k) = (if blocks ! i = bn then i else absorb_slot blocks bn (i + 1) k)"

definition log_write :: "nat \<Rightarrow> 'z lmachine_scheme \<Rightarrow> (unit, 'z lmachine_scheme) outcome" where
  "log_write b s =
    (let dev = bdev (bufs s ! b) in
     if LOGSIZE \<le> lh_n (lh (logs s dev)) \<or> log_size (logs s dev) - 1 \<le> lh_n (lh (logs s dev))
     then Panic ''too big a transaction'' s
     else if outstanding (logs s dev) < 1 then Panic ''log_write outside of trans'' s
     else
       bindk (acquire (LLog (unat dev)) s) (\<lambda>_ s.
       let n = nat (lh_n (lh (logs s dev)));
           i = absorb_slot (lh_block (lh (logs s dev))) (blockno (bufs s ! b)) 0 n;
           s = upd_lh dev (\<lambda>h. h\<lparr>lh_block := (lh_block h)[i := blockno (bufs s ! b)]\<rparr>) s
       in bindk (if i = n
                 then bindk (bpin b s) (\<lambda>_ s. Done () (upd_lh dev (\<lambda>h. h\<lparr>lh_n := lh_n h + 1\<rparr>) s))
                 else Done () s) (\<lambda>_ s.
          release (LLog (unat dev)) s)))"

end
