(* ===== verification/Fs.thy ===== *)
theory Fs
  imports Log
begin

text \<open>
  \<open>kernel/fs.c\<close>, the block and inode layers: the super block, the allocation of
  disk blocks in the free map, the inode cache, and the content of inodes.  An
  inode is named by its index in the cache; its sleep lock is \<open>LInode i\<close>.
  Integers keep the width of the on-disk structures (\<open>short\<close> is a 16-bit word,
  \<open>uint\<close> a 32-bit word).
\<close>

definition FSMAGIC :: u32 where "FSMAGIC = 0x10203040"
definition NDIRECT :: nat where "NDIRECT = 12"
definition NINDIRECT :: nat where "NINDIRECT = BSIZE div 4"
definition MAXFILE :: nat where "MAXFILE = NDIRECT + NINDIRECT"
definition NINODE :: nat where "NINODE = 50"
definition IPB :: nat where "IPB = BSIZE div 64"
definition BPB :: nat where "BPB = BSIZE * 8"
definition ROOTDEV :: u32 where "ROOTDEV = 0"
definition ROOTINO :: u32 where "ROOTINO = 1"
definition T_DIR :: u16 where "T_DIR = 1"
definition T_FILE :: u16 where "T_FILE = 2"
definition T_DEVICE :: u16 where "T_DEVICE = 3"

record superblock =
  sb_magic :: u32
  sb_size :: u32
  sb_nblocks :: u32
  sb_ninodes :: u32
  sb_nlog :: u32
  sb_logstart :: u32
  sb_inodestart :: u32
  sb_bmapstart :: u32

record inode =
  idev :: u32
  inum :: u32
  iref :: int
  ivalid :: bool
  itype :: u16
  imajor :: u16
  iminor :: u16
  inlink :: u16
  isize :: u32
  iaddrs :: "u32 list"

record stat =
  st_dev :: u32
  st_ino :: u32
  st_type :: u16
  st_nlink :: u16
  st_size :: u64

record fmachine = lmachine +
  sb :: superblock
  inodes :: "inode list"

type_synonym 'z fenv = "'z fmachine_ext lmachine_ext bmachine_ext env"

definition upd_inode :: "nat \<Rightarrow> (inode \<Rightarrow> inode) \<Rightarrow> 'z fmachine_scheme \<Rightarrow> 'z fmachine_scheme" where
  "upd_inode i f s = s\<lparr>inodes := (inodes s)[i := f (inodes s ! i)]\<rparr>"

definition upd_data :: "nat \<Rightarrow> (u8 list \<Rightarrow> u8 list) \<Rightarrow> 'z fmachine_scheme \<Rightarrow> 'z fmachine_scheme" where
  "upd_data b f s = upd_buf b (\<lambda>x. x\<lparr>bdata := f (bdata x)\<rparr>) s"

definition IBLOCK :: "u32 \<Rightarrow> superblock \<Rightarrow> u32" where
  "IBLOCK i sb' = i div of_nat IPB + sb_inodestart sb'"

definition BBLOCK :: "u32 \<Rightarrow> superblock \<Rightarrow> u32" where
  "BBLOCK b sb' = b div of_nat BPB + sb_bmapstart sb'"

section \<open>The super block\<close>

definition sb_of_bytes :: "u8 list \<Rightarrow> superblock" where
  "sb_of_bytes d = \<lparr>sb_magic = get32 d 0, sb_size = get32 d 4, sb_nblocks = get32 d 8,
     sb_ninodes = get32 d 12, sb_nlog = get32 d 16, sb_logstart = get32 d 20,
     sb_inodestart = get32 d 24, sb_bmapstart = get32 d 28\<rparr>"

definition readsb :: "u32 \<Rightarrow> 'z fmachine_scheme \<Rightarrow> (unit, 'z fmachine_scheme) outcome" where
  "readsb dev s =
    bindk (bread dev 1 s) (\<lambda>bp s.
      brelse bp (s\<lparr>sb := sb_of_bytes (bdata (bufs s ! bp))\<rparr>))"

definition fsinit :: "u32 \<Rightarrow> 'z fmachine_scheme \<Rightarrow> (unit, 'z fmachine_scheme) outcome" where
  "fsinit dev s =
    bindk (readsb dev s) (\<lambda>_ s.
      if sb_magic (sb s) \<noteq> FSMAGIC then Panic ''invalid file system'' s
      else initlog dev (sb_logstart (sb s)) (sb_nlog (sb s)) s)"

section \<open>Blocks\<close>

definition bzero :: "u32 \<Rightarrow> u32 \<Rightarrow> 'z fmachine_scheme \<Rightarrow> (unit, 'z fmachine_scheme) outcome" where
  "bzero dev bno s =
    bindk (bread dev bno s) (\<lambda>bp s.
    let s = upd_data bp (\<lambda>d. replicate BSIZE 0) s in
    bindk (log_write bp s) (\<lambda>_ s. brelse bp s))"

text \<open>The bit of block \<open>bi\<close> in a block of the free map.\<close>

definition bit_mask :: "nat \<Rightarrow> u8" where
  "bit_mask bi = push_bit (bi mod 8) 1"

text \<open>The inner loop of \<open>balloc\<close>: the first clear bit among \<open>k\<close> bits from \<open>bi\<close>.\<close>

fun balloc_bit :: "u8 list \<Rightarrow> nat \<Rightarrow> nat \<Rightarrow> nat option" where
  "balloc_bit d bi 0 = None"
| "balloc_bit d bi (Suc k) =
    (if d ! (bi div 8) AND bit_mask bi = 0 then Some bi else balloc_bit d (bi + 1) k)"

fun balloc_loop :: "u32 \<Rightarrow> nat list \<Rightarrow> 'z fmachine_scheme \<Rightarrow> (u32, 'z fmachine_scheme) outcome" where
  "balloc_loop dev [] s = Panic ''balloc: out of blocks'' s"
| "balloc_loop dev (b # bs) s =
    bindk (bread dev (BBLOCK (of_nat b) (sb s)) s) (\<lambda>bp s.
    case balloc_bit (bdata (bufs s ! bp)) 0 (min BPB (unat (sb_size (sb s)) - b)) of
      Some bi \<Rightarrow>
        let s = upd_data bp (\<lambda>d. d[bi div 8 := d ! (bi div 8) OR bit_mask bi]) s in
        bindk (log_write bp s) (\<lambda>_ s.
        bindk (brelse bp s) (\<lambda>_ s.
        bindk (bzero dev (of_nat (b + bi)) s) (\<lambda>_ s. Done (of_nat (b + bi)) s)))
    | None \<Rightarrow> bindk (brelse bp s) (\<lambda>_ s. balloc_loop dev bs s))"

text \<open>The values the loop variable \<open>b\<close> takes: the multiples of \<open>BPB\<close> below \<open>sb.size\<close>.\<close>

definition balloc :: "u32 \<Rightarrow> 'z fmachine_scheme \<Rightarrow> (u32, 'z fmachine_scheme) outcome" where
  "balloc dev s =
    balloc_loop dev (map (\<lambda>k. k * BPB) [0..<(unat (sb_size (sb s)) + BPB - 1) div BPB]) s"

definition bfree :: "u32 \<Rightarrow> u32 \<Rightarrow> 'z fmachine_scheme \<Rightarrow> (unit, 'z fmachine_scheme) outcome" where
  "bfree dev b s =
    bindk (bread dev (BBLOCK b (sb s)) s) (\<lambda>bp s.
    let bi = unat b mod BPB in
    if bdata (bufs s ! bp) ! (bi div 8) AND bit_mask bi = 0 then Panic ''freeing free block'' s
    else
      let s = upd_data bp (\<lambda>d. d[bi div 8 := d ! (bi div 8) AND NOT (bit_mask bi)]) s in
      bindk (log_write bp s) (\<lambda>_ s. brelse bp s))"

section \<open>Inodes\<close>

definition iinit :: "'z fmachine_scheme \<Rightarrow> 'z fmachine_scheme" where
  "iinit s = fold (\<lambda>i. initsleeplock (LInode i)) [0..<NINODE] s"

text \<open>The search of \<open>iget\<close>: a cached entry (\<open>Inl\<close>), or the first empty slot.\<close>

fun iget_search :: "u32 \<Rightarrow> u32 \<Rightarrow> nat list \<Rightarrow> nat option \<Rightarrow> 'z fmachine_scheme \<Rightarrow> nat + nat option" where
  "iget_search dev ino [] emp s = Inr emp"
| "iget_search dev ino (i # is) emp s =
    (if 0 < iref (inodes s ! i) \<and> idev (inodes s ! i) = dev \<and> inum (inodes s ! i) = ino then Inl i
     else iget_search dev ino is
       (if emp = None \<and> iref (inodes s ! i) = 0 then Some i else emp) s)"

definition iget :: "u32 \<Rightarrow> u32 \<Rightarrow> 'z fmachine_scheme \<Rightarrow> (nat, 'z fmachine_scheme) outcome" where
  "iget dev ino s =
    bindk (acquire LIcache s) (\<lambda>_ s.
    case iget_search dev ino [0..<NINODE] None s of
      Inl i \<Rightarrow>
        let s = upd_inode i (\<lambda>ip. ip\<lparr>iref := iref ip + 1\<rparr>) s in
        bindk (release LIcache s) (\<lambda>_ s. Done i s)
    | Inr None \<Rightarrow> Panic ''iget: no inodes'' s
    | Inr (Some i) \<Rightarrow>
        let s = upd_inode i (\<lambda>ip. ip\<lparr>idev := dev, inum := ino, iref := 1, ivalid := False\<rparr>) s in
        bindk (release LIcache s) (\<lambda>_ s. Done i s))"

definition idup :: "nat \<Rightarrow> 'z fmachine_scheme \<Rightarrow> (nat, 'z fmachine_scheme) outcome" where
  "idup i s =
    bindk (acquire LIcache s) (\<lambda>_ s.
    let s = upd_inode i (\<lambda>ip. ip\<lparr>iref := iref ip + 1\<rparr>) s in
    bindk (release LIcache s) (\<lambda>_ s. Done i s))"

text \<open>Where the dinode of an inode number lies in its block.\<close>

definition dip_off :: "u32 \<Rightarrow> nat" where
  "dip_off ino = 64 * (unat ino mod IPB)"

fun ialloc_loop :: "u32 \<Rightarrow> u16 \<Rightarrow> nat list \<Rightarrow> 'z fmachine_scheme \<Rightarrow> (nat, 'z fmachine_scheme) outcome" where
  "ialloc_loop dev type [] s = Panic ''ialloc: no inodes'' s"
| "ialloc_loop dev type (k # ks) s =
    (let ino = of_nat k in
     bindk (bread dev (IBLOCK ino (sb s)) s) (\<lambda>bp s.
     if get16 (bdata (bufs s ! bp)) (dip_off ino) = 0 then
       let s = upd_data bp (\<lambda>d. put16 (splice d (dip_off ino) (replicate 64 0)) (dip_off ino) type) s in
       bindk (log_write bp s) (\<lambda>_ s.
       bindk (brelse bp s) (\<lambda>_ s. iget dev ino s))
     else bindk (brelse bp s) (\<lambda>_ s. ialloc_loop dev type ks s)))"

definition ialloc :: "u32 \<Rightarrow> u16 \<Rightarrow> 'z fmachine_scheme \<Rightarrow> (nat, 'z fmachine_scheme) outcome" where
  "ialloc dev type s = ialloc_loop dev type [1..<unat (sb_ninodes (sb s))] s"

text \<open>A dinode's bytes, field by field, and the fields read back.\<close>

definition addrs_bytes :: "u32 list \<Rightarrow> u8 list" where
  "addrs_bytes as = concat (map (\<lambda>a. le_bytes 4 (unat a)) as)"

definition put_dinode :: "inode \<Rightarrow> nat \<Rightarrow> u8 list \<Rightarrow> u8 list" where
  "put_dinode ip off d =
    (let d = put16 d off (itype ip);
         d = put16 d (off + 2) (imajor ip);
         d = put16 d (off + 4) (iminor ip);
         d = put16 d (off + 6) (inlink ip);
         d = put32 d (off + 8) (isize ip)
     in splice d (off + 12) (addrs_bytes (iaddrs ip)))"

definition get_dinode :: "u8 list \<Rightarrow> nat \<Rightarrow> inode \<Rightarrow> inode" where
  "get_dinode d off ip = ip\<lparr>itype := get16 d off, imajor := get16 d (off + 2),
     iminor := get16 d (off + 4), inlink := get16 d (off + 6), isize := get32 d (off + 8),
     iaddrs := map (\<lambda>k. get32 d (off + 12 + 4 * k)) [0..<NDIRECT + 1]\<rparr>"

definition iupdate :: "nat \<Rightarrow> 'z fmachine_scheme \<Rightarrow> (unit, 'z fmachine_scheme) outcome" where
  "iupdate i s =
    bindk (bread (idev (inodes s ! i)) (IBLOCK (inum (inodes s ! i)) (sb s)) s) (\<lambda>bp s.
    let s = upd_data bp (put_dinode (inodes s ! i) (dip_off (inum (inodes s ! i)))) s in
    bindk (log_write bp s) (\<lambda>_ s. brelse bp s))"

definition ilock :: "nat option \<Rightarrow> 'z fmachine_scheme \<Rightarrow> (unit, 'z fmachine_scheme) outcome" where
  "ilock ip s =
    (case ip of None \<Rightarrow> Panic ''ilock'' s
     | Some i \<Rightarrow>
       if iref (inodes s ! i) < 1 then Panic ''ilock'' s
       else
         bindk (acquiresleep (LInode i) [] s) (\<lambda>_ s.
         if \<not> ivalid (inodes s ! i) then
           bindk (bread (idev (inodes s ! i)) (IBLOCK (inum (inodes s ! i)) (sb s)) s) (\<lambda>bp s.
           let s = upd_inode i (get_dinode (bdata (bufs s ! bp)) (dip_off (inum (inodes s ! i)))) s in
           bindk (brelse bp s) (\<lambda>_ s.
           let s = upd_inode i (\<lambda>ip. ip\<lparr>ivalid := True\<rparr>) s in
           if itype (inodes s ! i) = 0 then Panic ''ilock: no type'' s else Done () s))
         else Done () s))"

definition iunlock :: "nat option \<Rightarrow> 'z fmachine_scheme \<Rightarrow> (unit, 'z fmachine_scheme) outcome" where
  "iunlock ip s =
    (case ip of None \<Rightarrow> Panic ''iunlock'' s
     | Some i \<Rightarrow>
       bindk (holdingsleep (LInode i) s) (\<lambda>h s.
         if \<not> h \<or> iref (inodes s ! i) < 1 then Panic ''iunlock'' s
         else releasesleep (LInode i) s))"

section \<open>Inode content\<close>

definition bmap :: "nat \<Rightarrow> u32 \<Rightarrow> 'z fmachine_scheme \<Rightarrow> (u32, 'z fmachine_scheme) outcome" where
  "bmap i bn s =
    (if unat bn < NDIRECT then
       (if iaddrs (inodes s ! i) ! unat bn = 0 then
          bindk (balloc (idev (inodes s ! i)) s) (\<lambda>addr s.
            Done addr (upd_inode i (\<lambda>ip. ip\<lparr>iaddrs := (iaddrs ip)[unat bn := addr]\<rparr>) s))
        else Done (iaddrs (inodes s ! i) ! unat bn) s)
     else
       let bn = bn - of_nat NDIRECT in
       if unat bn < NINDIRECT then
         bindk (if iaddrs (inodes s ! i) ! NDIRECT = 0 then
                  bindk (balloc (idev (inodes s ! i)) s) (\<lambda>addr s.
                    Done addr (upd_inode i (\<lambda>ip. ip\<lparr>iaddrs := (iaddrs ip)[NDIRECT := addr]\<rparr>) s))
                else Done (iaddrs (inodes s ! i) ! NDIRECT) s) (\<lambda>addr s.
         bindk (bread (idev (inodes s ! i)) addr s) (\<lambda>bp s.
         let addr = get32 (bdata (bufs s ! bp)) (4 * unat bn) in
         if addr = 0 then
           bindk (balloc (idev (inodes s ! i)) s) (\<lambda>addr s.
           let s = upd_data bp (\<lambda>d. put32 d (4 * unat bn) addr) s in
           bindk (log_write bp s) (\<lambda>_ s.
           bindk (brelse bp s) (\<lambda>_ s. Done addr s)))
         else bindk (brelse bp s) (\<lambda>_ s. Done addr s)))
       else Panic ''bmap: out of range'' s)"

fun itrunc_direct :: "nat \<Rightarrow> nat list \<Rightarrow> 'z fmachine_scheme \<Rightarrow> (unit, 'z fmachine_scheme) outcome" where
  "itrunc_direct i [] s = Done () s"
| "itrunc_direct i (k # ks) s =
    (if iaddrs (inodes s ! i) ! k \<noteq> 0 then
       bindk (bfree (idev (inodes s ! i)) (iaddrs (inodes s ! i) ! k) s) (\<lambda>_ s.
         itrunc_direct i ks (upd_inode i (\<lambda>ip. ip\<lparr>iaddrs := (iaddrs ip)[k := 0]\<rparr>) s))
     else itrunc_direct i ks s)"

fun itrunc_indirect :: "nat \<Rightarrow> nat \<Rightarrow> nat list \<Rightarrow> 'z fmachine_scheme \<Rightarrow> (unit, 'z fmachine_scheme) outcome" where
  "itrunc_indirect i bp [] s = Done () s"
| "itrunc_indirect i bp (j # js) s =
    (let a = get32 (bdata (bufs s ! bp)) (4 * j) in
     if a \<noteq> 0 then bindk (bfree (idev (inodes s ! i)) a s) (\<lambda>_ s. itrunc_indirect i bp js s)
     else itrunc_indirect i bp js s)"

definition itrunc :: "nat \<Rightarrow> 'z fmachine_scheme \<Rightarrow> (unit, 'z fmachine_scheme) outcome" where
  "itrunc i s =
    bindk (itrunc_direct i [0..<NDIRECT] s) (\<lambda>_ s.
    bindk (if iaddrs (inodes s ! i) ! NDIRECT \<noteq> 0 then
             bindk (bread (idev (inodes s ! i)) (iaddrs (inodes s ! i) ! NDIRECT) s) (\<lambda>bp s.
             bindk (itrunc_indirect i bp [0..<NINDIRECT] s) (\<lambda>_ s.
             bindk (brelse bp s) (\<lambda>_ s.
             bindk (bfree (idev (inodes s ! i)) (iaddrs (inodes s ! i) ! NDIRECT) s) (\<lambda>_ s.
             Done () (upd_inode i (\<lambda>ip. ip\<lparr>iaddrs := (iaddrs ip)[NDIRECT := 0]\<rparr>) s)))))
           else Done () s) (\<lambda>_ s.
    iupdate i (upd_inode i (\<lambda>ip. ip\<lparr>isize := 0\<rparr>) s)))"

definition iput :: "nat \<Rightarrow> 'z fmachine_scheme \<Rightarrow> (unit, 'z fmachine_scheme) outcome" where
  "iput i s =
    bindk (acquire LIcache s) (\<lambda>_ s.
    bindk (if iref (inodes s ! i) = 1 \<and> ivalid (inodes s ! i) \<and> inlink (inodes s ! i) = 0 then
             bindk (acquiresleep (LInode i) [] s) (\<lambda>_ s.
             bindk (release LIcache s) (\<lambda>_ s.
             bindk (itrunc i s) (\<lambda>_ s.
             bindk (iupdate i (upd_inode i (\<lambda>ip. ip\<lparr>itype := 0\<rparr>) s)) (\<lambda>_ s.
             let s = upd_inode i (\<lambda>ip. ip\<lparr>ivalid := False\<rparr>) s in
             bindk (releasesleep (LInode i) s) (\<lambda>_ s. acquire LIcache s)))))
           else Done () s) (\<lambda>_ s.
    release LIcache (upd_inode i (\<lambda>ip. ip\<lparr>iref := iref ip - 1\<rparr>) s)))"

definition iunlockput :: "nat \<Rightarrow> 'z fmachine_scheme \<Rightarrow> (unit, 'z fmachine_scheme) outcome" where
  "iunlockput i s = bindk (iunlock (Some i) s) (\<lambda>_ s. iput i s)"

definition stati :: "nat \<Rightarrow> 'z fmachine_scheme \<Rightarrow> stat" where
  "stati i s = \<lparr>st_dev = idev (inodes s ! i), st_ino = inum (inodes s ! i),
     st_type = itype (inodes s ! i), st_nlink = inlink (inodes s ! i),
     st_size = ucast (isize (inodes s ! i))\<rparr>"

text \<open>
  The loop of \<open>readi\<close>; \<open>k\<close> is \<open>n - tot\<close>.  The result is the bytes delivered
  to \<open>dst\<close>; the loop ends early when the copy fails.
\<close>

function readi_loop :: "nat \<Rightarrow> copy_dst \<Rightarrow> u32 \<Rightarrow> nat \<Rightarrow> 'z fmachine_scheme \<Rightarrow> (u8 list, 'z fmachine_scheme) outcome" where
  "readi_loop i dst off k s =
    (if k = 0 then Done [] s
     else
       bindk (bmap i (off div of_nat BSIZE) s) (\<lambda>addr s.
       bindk (bread (idev (inodes s ! i)) addr s) (\<lambda>bp s.
       let o' = unat off mod BSIZE; m = min k (BSIZE - o');
           src = slice (bdata (bufs s ! bp)) o' m
       in bindk (either_copyout dst src s) (\<lambda>r s.
          if r = -1 then bindk (brelse bp s) (\<lambda>_ s. Done [] s)
          else
            bindk (brelse bp s) (\<lambda>_ s.
            bindk (readi_loop i (dst_advance dst m) (off + of_nat m) (k - m) s) (\<lambda>bs s.
            Done (src @ bs) s))))))"
  by pat_completeness auto
termination
  by (relation "measure (\<lambda>(i, dst, off, k, s). k)") (auto simp: BSIZE_def)

declare readi_loop.simps [simp del]

definition readi :: "nat \<Rightarrow> copy_dst \<Rightarrow> u32 \<Rightarrow> u32 \<Rightarrow> 'z fmachine_scheme \<Rightarrow> (u32 \<times> u8 list, 'z fmachine_scheme) outcome" where
  "readi i dst off n s =
    (let size' = isize (inodes s ! i) in
     if size' < off \<or> off + n < off then Done (-1, []) s
     else
       let n = (if size' < off + n then size' - off else n) in
       bindk (readi_loop i dst off (unat n) s) (\<lambda>bs s. Done (n, bs) s))"

text \<open>The loop of \<open>writei\<close> returns the offset it has reached.\<close>

function writei_loop :: "nat \<Rightarrow> copy_src \<Rightarrow> u32 \<Rightarrow> nat \<Rightarrow> 'z fmachine_scheme \<Rightarrow> (u32, 'z fmachine_scheme) outcome" where
  "writei_loop i src off k s =
    (if k = 0 then Done off s
     else
       bindk (bmap i (off div of_nat BSIZE) s) (\<lambda>addr s.
       bindk (bread (idev (inodes s ! i)) addr s) (\<lambda>bp s.
       let o' = unat off mod BSIZE; m = min k (BSIZE - o')
       in bindk (either_copyin src m s) (\<lambda>(r, bs) s.
          let s = upd_data bp (\<lambda>d. splice d o' bs) s in
          if r = -1 then bindk (brelse bp s) (\<lambda>_ s. Done off s)
          else
            bindk (log_write bp s) (\<lambda>_ s.
            bindk (brelse bp s) (\<lambda>_ s.
            writei_loop i (src_advance src m) (off + of_nat m) (k - m) s))))))"
  by pat_completeness auto
termination
  by (relation "measure (\<lambda>(i, src, off, k, s). k)") (auto simp: BSIZE_def)

declare writei_loop.simps [simp del]

definition writei :: "nat \<Rightarrow> copy_src \<Rightarrow> u32 \<Rightarrow> u32 \<Rightarrow> 'z fmachine_scheme \<Rightarrow> (u32, 'z fmachine_scheme) outcome" where
  "writei i src off n s =
    (if isize (inodes s ! i) < off \<or> off + n < off then Done (-1) s
     else if of_nat (MAXFILE * BSIZE) < off + n then Done (-1) s
     else
       bindk (writei_loop i src off (unat n) s) (\<lambda>off s.
       if 0 < n then
         let s = (if isize (inodes s ! i) < off
                  then upd_inode i (\<lambda>ip. ip\<lparr>isize := off\<rparr>) s else s)
         in bindk (iupdate i s) (\<lambda>_ s. Done n s)
       else Done n s))"

end
