(* ===== verification/Printf.thy ===== *)
theory Printf
  imports Fs
begin

text \<open>
  \<open>kernel/printf.c\<close> and \<open>procdump\<close>: formatted output on the console.  The
  formatting routines are given by the list of characters they hand to \<open>consputc\<close>,
  in order.  \<open>uart_out\<close> is what has been written to the transmit register of the
  UART (the transmitter is taken to become ready, so that \<open>uartputc\<close> returns).
\<close>

record umachine = fmachine +
  uart_out :: "u8 list"
  panicked :: bool
  pr_locking :: bool

definition BACKSPACE :: int where "BACKSPACE = 0x100"

definition uartputc :: "int \<Rightarrow> 'z umachine_scheme \<Rightarrow> (unit, 'z umachine_scheme) outcome" where
  "uartputc c s = Done () (s\<lparr>uart_out := uart_out s @ [of_int c]\<rparr>)"

definition consputc :: "int \<Rightarrow> 'z umachine_scheme \<Rightarrow> (unit, 'z umachine_scheme) outcome" where
  "consputc c s =
    (if panicked s then Loop s
     else if c = BACKSPACE then
       bindk (uartputc 8 s) (\<lambda>_ s. bindk (uartputc 32 s) (\<lambda>_ s. uartputc 8 s))
     else uartputc c s)"

fun consputs :: "u8 list \<Rightarrow> 'z umachine_scheme \<Rightarrow> (unit, 'z umachine_scheme) outcome" where
  "consputs [] s = Done () s"
| "consputs (c # cs) s = bindk (consputc (uint c) s) (\<lambda>_ s. consputs cs s)"

definition digits :: "u8 list" where
  "digits = [48, 49, 50, 51, 52, 53, 54, 55, 56, 57, 97, 98, 99, 100, 101, 102]"

text \<open>
  The \<open>do ... while\<close> loop of \<open>printint\<close>, which stores the least significant digit
  first; a 32-bit number has at most 32 digits.
\<close>

fun printint_digits :: "nat \<Rightarrow> u8 list \<Rightarrow> nat \<Rightarrow> nat \<Rightarrow> u8 list" where
  "printint_digits 0 ds base x = []"
| "printint_digits (Suc fuel) ds base x =
    ds ! (x mod base) # (if x div base \<noteq> 0 then printint_digits fuel ds base (x div base) else [])"

definition printint :: "u32 \<Rightarrow> nat \<Rightarrow> bool \<Rightarrow> u8 list" where
  "printint xx base sign =
    (let sign = (sign \<and> sint xx < 0);
         x = (if sign then - xx else xx);
         buf = printint_digits 32 digits base (unat x);
         buf = (if sign then buf @ [45] else buf)
     in rev buf)"

definition printptr :: "u64 \<Rightarrow> u8 list" where
  "printptr x = [48, 120] @ map (\<lambda>i. digits ! unat (drop_bit 60 (push_bit (4 * i) x))) [0..<16]"

text \<open>The arguments of \<open>printf\<close>, and what it prints; \<open>None\<close> when an argument is missing or of another type.\<close>

datatype varg = ArgInt u32 | ArgPtr u64 | ArgStr "u8 list option"

fun format :: "u8 list \<Rightarrow> varg list \<Rightarrow> u8 list option" where
  "format [] args = Some []"
| "format (c # fmt) args =
    (if c = 0 then Some []
     else if c \<noteq> 37 then map_option (\<lambda>out. c # out) (format fmt args)
     else case fmt of
       [] \<Rightarrow> Some []
     | c # fmt \<Rightarrow>
         if c = 0 then Some []
         else if c = 100 then
           (case args of ArgInt x # args \<Rightarrow> map_option (\<lambda>out. printint x 10 True @ out) (format fmt args)
            | _ \<Rightarrow> None)
         else if c = 120 then
           (case args of ArgInt x # args \<Rightarrow> map_option (\<lambda>out. printint x 16 True @ out) (format fmt args)
            | _ \<Rightarrow> None)
         else if c = 112 then
           (case args of ArgPtr x # args \<Rightarrow> map_option (\<lambda>out. printptr x @ out) (format fmt args)
            | _ \<Rightarrow> None)
         else if c = 115 then
           (case args of
              ArgStr None # args \<Rightarrow>
                map_option (\<lambda>out. [40, 110, 117, 108, 108, 41] @ out) (format fmt args)
            | ArgStr (Some str) # args \<Rightarrow>
                map_option (\<lambda>out. takeWhile (\<lambda>b. b \<noteq> 0) str @ out) (format fmt args)
            | _ \<Rightarrow> None)
         else if c = 37 then map_option (\<lambda>out. 37 # out) (format fmt args)
         else map_option (\<lambda>out. 37 # c # out) (format fmt args))"

definition printf :: "u8 list option \<Rightarrow> varg list \<Rightarrow> 'z umachine_scheme \<Rightarrow> (unit, 'z umachine_scheme) outcome" where
  "printf fmt args s =
    (let locking = pr_locking s in
     bindk (if locking then acquire LPr s else Done () s) (\<lambda>_ s.
     case fmt of
       None \<Rightarrow> Panic ''null fmt'' s
     | Some fmt \<Rightarrow>
         (case format fmt args of
            None \<Rightarrow> out_of_bounds s
          | Some out \<Rightarrow>
              bindk (consputs out s) (\<lambda>_ s.
              if locking then release LPr s else Done () s))))"

definition printfinit :: "'z umachine_scheme \<Rightarrow> 'z umachine_scheme" where
  "printfinit s = s\<lparr>pr_locking := True\<rparr>"

text \<open>ASCII text as bytes.\<close>

definition ascii :: "string \<Rightarrow> u8 list" where
  "ascii = map (\<lambda>c. of_nat (of_char c))"

definition panic :: "u8 list \<Rightarrow> 'z umachine_scheme \<Rightarrow> (unit, 'z umachine_scheme) outcome" where
  "panic msg s =
    (let s = s\<lparr>pr_locking := False\<rparr> in
     bindk (printf (Some (ascii ''PANIC: '')) [] s) (\<lambda>_ s.
     bindk (printf (Some msg) [] s) (\<lambda>_ s.
     bindk (printf (Some [10]) [] s) (\<lambda>_ s.
     bindk (printf (Some (ascii ''HINT: restart xv6 using 'make qemu-gdb', type 'b panic' (to set breakpoint in panic) in the gdb window, followed by 'c' (continue), and when the kernel hits the breakpoint, type 'bt' to get a backtrace'' @ [10])) [] s) (\<lambda>_ s.
     Loop (s\<lparr>panicked := True\<rparr>))))))"

definition state_name :: "procstate \<Rightarrow> u8 list" where
  "state_name st = ascii (case st of UNUSED \<Rightarrow> ''unused'' | SLEEPING \<Rightarrow> ''sleep '' | RUNNABLE \<Rightarrow> ''runble''
     | RUNNING \<Rightarrow> ''run   '' | ZOMBIE \<Rightarrow> ''zombie'')"

fun procdump_loop :: "nat list \<Rightarrow> 'z umachine_scheme \<Rightarrow> (unit, 'z umachine_scheme) outcome" where
  "procdump_loop [] s = Done () s"
| "procdump_loop (i # is) s =
    (let p = procs s ! i in
     if state p = UNUSED then procdump_loop is s
     else
       bindk (printf (Some (ascii ''%d %s %s''))
         [ArgInt (of_int (pid p)), ArgStr (Some (state_name (state p))), ArgStr (Some (name p))] s) (\<lambda>_ s.
       bindk (printf (Some [10]) [] s) (\<lambda>_ s. procdump_loop is s)))"

definition procdump :: "'z umachine_scheme \<Rightarrow> (unit, 'z umachine_scheme) outcome" where
  "procdump s = bindk (printf (Some [10]) [] s) (\<lambda>_ s. procdump_loop [0..<NPROC] s)"

end
