(* ===== verification/Pipe.thy ===== *)
theory Pipe
  imports Printf
begin

text \<open>
  \<open>kernel/pipe.c\<close>.  A \<open>struct pipe\<close> lives in a page from \<open>kalloc\<close>; the model
  keeps its fields in \<open>pipes\<close>, indexed by the address of the page.  \<open>nread\<close> and
  \<open>nwrite\<close> are 32-bit counters that wrap around; the byte of counter value \<open>c\<close>
  is at index \<open>c % PIPESIZE\<close>.
\<close>

definition PIPESIZE :: u32 where "PIPESIZE = 512"

record pipe =
  pdata :: "u8 list"
  nread :: u32
  nwrite :: u32
  readopen :: bool
  writeopen :: bool

record pimachine = umachine +
  pipes :: "u64 \<Rightarrow> pipe"

type_synonym 'z penv = "'z pimachine_ext umachine_ext fenv"

abbreviation pipe_lock :: "u64 \<Rightarrow> lock" where
  "pipe_lock pi \<equiv> LPipe (unat pi)"

abbreviation chan_nread :: "u64 \<Rightarrow> chan" where
  "chan_nread pi \<equiv> ChanPipeRead (unat pi)"

abbreviation chan_nwrite :: "u64 \<Rightarrow> chan" where
  "chan_nwrite pi \<equiv> ChanPipeWrite (unat pi)"

definition upd_pipe :: "u64 \<Rightarrow> (pipe \<Rightarrow> pipe) \<Rightarrow> 'z pimachine_scheme \<Rightarrow> 'z pimachine_scheme" where
  "upd_pipe pi f s = s\<lparr>pipes := (pipes s)(pi := f (pipes s pi))\<rparr>"

definition pipeclose :: "u64 \<Rightarrow> bool \<Rightarrow> 'z pimachine_scheme \<Rightarrow> (unit, 'z pimachine_scheme) outcome" where
  "pipeclose pi writable' s =
    bindk (acquire (pipe_lock pi) s) (\<lambda>_ s.
    bindk (if writable'
           then wakeup (chan_nread pi) (upd_pipe pi (\<lambda>p. p\<lparr>writeopen := False\<rparr>) s)
           else wakeup (chan_nwrite pi) (upd_pipe pi (\<lambda>p. p\<lparr>readopen := False\<rparr>) s)) (\<lambda>_ s.
    if \<not> readopen (pipes s pi) \<and> \<not> writeopen (pipes s pi) then
      bindk (release (pipe_lock pi) s) (\<lambda>_ s. kfree pi s)
    else release (pipe_lock pi) s))"

definition pipe_put :: "u8 \<Rightarrow> pipe \<Rightarrow> pipe" where
  "pipe_put ch p = p\<lparr>pdata := (pdata p)[unat (nwrite p mod PIPESIZE) := ch], nwrite := nwrite p + 1\<rparr>"

function pipewrite_loop :: "u64 \<Rightarrow> nat \<Rightarrow> u64 \<Rightarrow> int \<Rightarrow> int \<Rightarrow> 'z penv list \<Rightarrow> 'z pimachine_scheme \<Rightarrow> (int, 'z pimachine_scheme) outcome" where
  "pipewrite_loop pi pr addr i n envs s =
    (if i < n then
       (if nwrite (pipes s pi) = nread (pipes s pi) + PIPESIZE then
          (if \<not> readopen (pipes s pi) \<or> killed (procs s ! pr) then
             bindk (release (pipe_lock pi) s) (\<lambda>_ s. Done (-1) s)
           else
             bindk (wakeup (chan_nread pi) s) (\<lambda>_ s.
             bindk (sleep (chan_nwrite pi) (pipe_lock pi) envs s) (\<lambda>es s.
             pipewrite_loop pi pr addr i n es s)))
        else
          bindk (copyin (pagetable (procs s ! pr)) (addr + of_int i) 1 s) (\<lambda>(r, bs) s.
            if r = -1 then
              bindk (wakeup (chan_nread pi) s) (\<lambda>_ s.
              bindk (release (pipe_lock pi) s) (\<lambda>_ s. Done n s))
            else pipewrite_loop pi pr addr (i + 1) n envs (upd_pipe pi (pipe_put (hd bs)) s)))
     else
       bindk (wakeup (chan_nread pi) s) (\<lambda>_ s.
       bindk (release (pipe_lock pi) s) (\<lambda>_ s. Done n s)))"
  by pat_completeness auto
termination
  by (relation "measures [\<lambda>(pi, pr, addr, i, n, envs, s). nat (n - i), \<lambda>(pi, pr, addr, i, n, envs, s). length envs]")
    (auto dest: sleep_uses_env)

declare pipewrite_loop.simps [simp del]

definition pipewrite :: "u64 \<Rightarrow> u64 \<Rightarrow> int \<Rightarrow> 'z penv list \<Rightarrow> 'z pimachine_scheme \<Rightarrow> (int, 'z pimachine_scheme) outcome" where
  "pipewrite pi addr n envs s =
    bindk (myproc s) (\<lambda>pr s.
    bindk (acquire (pipe_lock pi) s) (\<lambda>_ s. pipewrite_loop pi pr addr 0 n envs s))"

text \<open>The wait of \<open>piperead\<close>: \<open>False\<close> when the reader was killed.\<close>

function piperead_wait :: "u64 \<Rightarrow> nat \<Rightarrow> 'z penv list \<Rightarrow> 'z pimachine_scheme \<Rightarrow> (bool, 'z pimachine_scheme) outcome" where
  "piperead_wait pi pr envs s =
    (if nread (pipes s pi) = nwrite (pipes s pi) \<and> writeopen (pipes s pi) then
       (if killed (procs s ! pr) then Done False s
        else
          bindk (sleep (chan_nread pi) (pipe_lock pi) envs s) (\<lambda>es s. piperead_wait pi pr es s))
     else Done True s)"
  by pat_completeness auto
termination
  by (relation "measure (\<lambda>(pi, pr, envs, s). length envs)") (auto dest: sleep_uses_env)

declare piperead_wait.simps [simp del]

definition pipe_head :: "pipe \<Rightarrow> u8" where
  "pipe_head p = pdata p ! unat (nread p mod PIPESIZE)"

function piperead_loop :: "u64 \<Rightarrow> nat \<Rightarrow> u64 \<Rightarrow> int \<Rightarrow> int \<Rightarrow> 'z pimachine_scheme \<Rightarrow> (int, 'z pimachine_scheme) outcome" where
  "piperead_loop pi pr addr i n s =
    (if i < n then
       (if nread (pipes s pi) = nwrite (pipes s pi) then Done i s
        else
          let ch = pipe_head (pipes s pi);
              s = upd_pipe pi (\<lambda>p. p\<lparr>nread := nread p + 1\<rparr>) s
          in bindk (copyout (pagetable (procs s ! pr)) (addr + of_int i) [ch] s) (\<lambda>r s.
             if r = -1 then Done i s else piperead_loop pi pr addr (i + 1) n s))
     else Done i s)"
  by pat_completeness auto
termination
  by (relation "measure (\<lambda>(pi, pr, addr, i, n, s). nat (n - i))") auto

declare piperead_loop.simps [simp del]

definition piperead :: "u64 \<Rightarrow> u64 \<Rightarrow> int \<Rightarrow> 'z penv list \<Rightarrow> 'z pimachine_scheme \<Rightarrow> (int, 'z pimachine_scheme) outcome" where
  "piperead pi addr n envs s =
    bindk (myproc s) (\<lambda>pr s.
    bindk (acquire (pipe_lock pi) s) (\<lambda>_ s.
    bindk (piperead_wait pi pr envs s) (\<lambda>ready s.
    if \<not> ready then bindk (release (pipe_lock pi) s) (\<lambda>_ s. Done (-1) s)
    else
      bindk (piperead_loop pi pr addr 0 n s) (\<lambda>i s.
      bindk (wakeup (chan_nwrite pi) s) (\<lambda>_ s.
      bindk (release (pipe_lock pi) s) (\<lambda>_ s. Done i s))))))"

end
