(* ===== verification/Console.thy ===== *)
theory Console
  imports Pipe
begin

text \<open>
  \<open>kernel/console.c\<close>, and the interrupt handler of \<open>kernel/uart.c\<close>: line editing
  on the circular input buffer with its three 32-bit indices, and the console's
  read and write routines.
\<close>

definition INPUT_BUF :: u32 where "INPUT_BUF = 128"

record cmachine = pimachine +
  cons_buf :: "u8 list"
  cons_r :: u32
  cons_w :: u32
  cons_e :: u32

type_synonym 'z cenv = "'z cmachine_ext penv"

text \<open>\<open>C x\<close> in the source: the control character of a letter.\<close>

definition ctrl :: "int \<Rightarrow> int" where "ctrl x = x - 64"

fun consolewrite_loop :: "copy_src \<Rightarrow> nat \<Rightarrow> 'z cmachine_scheme \<Rightarrow> (unit, 'z cmachine_scheme) outcome" where
  "consolewrite_loop src 0 s = Done () s"
| "consolewrite_loop src (Suc k) s =
    bindk (either_copyin src 1 s) (\<lambda>(r, bs) s.
      if r = -1 then Done () s
      else bindk (consputc (uint (hd bs)) s) (\<lambda>_ s. consolewrite_loop (src_advance src 1) k s))"

definition consolewrite :: "copy_src \<Rightarrow> int \<Rightarrow> 'z cmachine_scheme \<Rightarrow> (int, 'z cmachine_scheme) outcome" where
  "consolewrite src n s =
    bindk (acquire LCons s) (\<lambda>_ s.
    bindk (consolewrite_loop src (nat n) s) (\<lambda>_ s.
    bindk (release LCons s) (\<lambda>_ s. Done n s)))"

definition cons_char :: "u32 \<Rightarrow> 'z cmachine_scheme \<Rightarrow> u8" where
  "cons_char i s = cons_buf s ! unat (i mod INPUT_BUF)"

text \<open>\<open>None\<close> when the reader was killed while waiting, otherwise the value of \<open>n\<close> at the end.\<close>

function consoleread_loop :: "int \<Rightarrow> copy_dst \<Rightarrow> int \<Rightarrow> 'z cenv list \<Rightarrow> 'z cmachine_scheme \<Rightarrow> (int option, 'z cmachine_scheme) outcome" where
  "consoleread_loop target dst n envs s =
    (if 0 < n then
       (if cons_r s = cons_w s then
          bindk (myproc s) (\<lambda>p s.
            if killed (procs s ! p) then Done None s
            else bindk (sleep ChanCons LCons envs s) (\<lambda>es s. consoleread_loop target dst n es s))
        else
          let c = cons_char (cons_r s) s;
              s = s\<lparr>cons_r := cons_r s + 1\<rparr>
          in if uint c = ctrl 68 then
               Done (Some n) (if n < target then s\<lparr>cons_r := cons_r s - 1\<rparr> else s)
             else
               bindk (either_copyout dst [c] s) (\<lambda>r s.
                 if r = -1 then Done (Some n) s
                 else if c = 10 then Done (Some (n - 1)) s
                 else consoleread_loop target (dst_advance dst 1) (n - 1) envs s))
     else Done (Some n) s)"
  by pat_completeness auto
termination
  by (relation "measures [\<lambda>(target, dst, n, envs, s). nat n, \<lambda>(target, dst, n, envs, s). length envs]")
    (auto dest: sleep_uses_env)

declare consoleread_loop.simps [simp del]

definition consoleread :: "copy_dst \<Rightarrow> int \<Rightarrow> 'z cenv list \<Rightarrow> 'z cmachine_scheme \<Rightarrow> (int, 'z cmachine_scheme) outcome" where
  "consoleread dst n envs s =
    (let target = n in
     bindk (acquire LCons s) (\<lambda>_ s.
     bindk (consoleread_loop target dst n envs s) (\<lambda>r s.
     bindk (release LCons s) (\<lambda>_ s.
     case r of None \<Rightarrow> Done (-1) s | Some n \<Rightarrow> Done (target - n) s))))"

text \<open>The loop of \<open>^U\<close>: it stops at the latest when \<open>e\<close> has come down to \<open>w\<close>.\<close>

fun kill_line :: "nat \<Rightarrow> 'z cmachine_scheme \<Rightarrow> (unit, 'z cmachine_scheme) outcome" where
  "kill_line 0 s = Loop s"
| "kill_line (Suc fuel) s =
    (if cons_e s \<noteq> cons_w s \<and> cons_char (cons_e s - 1) s \<noteq> 10 then
       bindk (consputc BACKSPACE (s\<lparr>cons_e := cons_e s - 1\<rparr>)) (\<lambda>_ s. kill_line fuel s)
     else Done () s)"

definition consoleintr :: "int \<Rightarrow> 'z cmachine_scheme \<Rightarrow> (unit, 'z cmachine_scheme) outcome" where
  "consoleintr c s =
    bindk (acquire LCons s) (\<lambda>_ s.
    bindk
      (if c = ctrl 80 then procdump s
       else if c = ctrl 85 then kill_line (unat (cons_e s - cons_w s) + 1) s
       else if c = ctrl 72 \<or> c = 0x7f then
         (if cons_e s \<noteq> cons_w s then consputc BACKSPACE (s\<lparr>cons_e := cons_e s - 1\<rparr>) else Done () s)
       else if c \<noteq> 0 \<and> cons_e s - cons_r s < INPUT_BUF then
         let c = (if c = 13 then 10 else c) in
         bindk (consputc c s) (\<lambda>_ s.
         let s = s\<lparr>cons_buf := (cons_buf s)[unat (cons_e s mod INPUT_BUF) := of_int c],
                   cons_e := cons_e s + 1\<rparr>
         in if c = 10 \<or> c = ctrl 68 \<or> cons_e s = cons_r s + INPUT_BUF
            then wakeup ChanCons (s\<lparr>cons_w := cons_e s\<rparr>)
            else Done () s)
       else Done () s) (\<lambda>_ s.
    release LCons s))"

text \<open>\<open>uartintr\<close> hands the waiting input characters to \<open>consoleintr\<close>, one by one.\<close>

fun uartintr :: "u8 list \<Rightarrow> 'z cmachine_scheme \<Rightarrow> (unit, 'z cmachine_scheme) outcome" where
  "uartintr [] s = Done () s"
| "uartintr (c # cs) s = bindk (consoleintr (uint c) s) (\<lambda>_ s. uartintr cs s)"

end
