(* ===== verification/Dir.thy ===== *)
theory Dir
  imports Fs
begin

text \<open>
  \<open>kernel/fs.c\<close>, the directory and path-name layers.  A directory entry is
  sixteen bytes: the inode number, then \<open>DIRSIZ\<close> bytes of name.  A path is the list
  of bytes before its terminating 0, so that \<open>*path == 0\<close> is \<open>path = []\<close>; the
  \<open>name\<close> argument of \<open>skipelem\<close> is a buffer of \<open>DIRSIZ\<close> bytes that it updates.
\<close>

definition DIRSIZ :: nat where "DIRSIZ = 14"

definition namecmp :: "u8 list \<Rightarrow> u8 list \<Rightarrow> int" where
  "namecmp a b = strncmp (arr a) (arr b) (of_nat DIRSIZ)"

definition de_inum :: "u8 list \<Rightarrow> u16" where
  "de_inum de = get16 de 0"

definition de_name :: "u8 list \<Rightarrow> u8 list" where
  "de_name de = slice de 2 DIRSIZ"

definition dirent_bytes :: "u8 list \<Rightarrow> u32 \<Rightarrow> u8 list" where
  "dirent_bytes name' ino = le_bytes 2 (unat (ucast ino :: u16)) @ strncpy (arr name') (of_nat DIRSIZ)"

text \<open>
  The search loop visits the offsets 0, 16, ... below the size; one more round than
  there are entries decides it.
\<close>

fun dirlookup_loop :: "nat \<Rightarrow> nat \<Rightarrow> u8 list \<Rightarrow> u32 \<Rightarrow> 'z fmachine_scheme \<Rightarrow> ((nat \<times> u32) option, 'z fmachine_scheme) outcome" where
  "dirlookup_loop 0 dp name' off s = Loop s"
| "dirlookup_loop (Suc fuel) dp name' off s =
    (if off < isize (inodes s ! dp) then
       bindk (readi dp LocalDst off 16 s) (\<lambda>(r, de) s.
         if r \<noteq> 16 then Panic ''dirlookup read'' s
         else if de_inum de = 0 then dirlookup_loop fuel dp name' (off + 16) s
         else if namecmp name' (de_name de) = 0 then
           bindk (iget (idev (inodes s ! dp)) (ucast (de_inum de)) s) (\<lambda>ip s. Done (Some (ip, off)) s)
         else dirlookup_loop fuel dp name' (off + 16) s)
     else Done None s)"

definition dirlookup :: "nat \<Rightarrow> u8 list \<Rightarrow> 'z fmachine_scheme \<Rightarrow> ((nat \<times> u32) option, 'z fmachine_scheme) outcome" where
  "dirlookup dp name' s =
    (if itype (inodes s ! dp) \<noteq> T_DIR then Panic ''dirlookup not DIR'' s
     else dirlookup_loop (unat (isize (inodes s ! dp)) div 16 + 2) dp name' 0 s)"

text \<open>The offset of the first empty entry, or the end of the directory.\<close>

fun dirlink_slot :: "nat \<Rightarrow> nat \<Rightarrow> u32 \<Rightarrow> 'z fmachine_scheme \<Rightarrow> (u32, 'z fmachine_scheme) outcome" where
  "dirlink_slot 0 dp off s = Loop s"
| "dirlink_slot (Suc fuel) dp off s =
    (if off < isize (inodes s ! dp) then
       bindk (readi dp LocalDst off 16 s) (\<lambda>(r, de) s.
         if r \<noteq> 16 then Panic ''dirlink read'' s
         else if de_inum de = 0 then Done off s
         else dirlink_slot fuel dp (off + 16) s)
     else Done off s)"

definition dirlink :: "nat \<Rightarrow> u8 list \<Rightarrow> u32 \<Rightarrow> 'z fmachine_scheme \<Rightarrow> (int, 'z fmachine_scheme) outcome" where
  "dirlink dp name' ino s =
    bindk (dirlookup dp name' s) (\<lambda>r s.
    case r of
      Some (ip, _) \<Rightarrow> bindk (iput ip s) (\<lambda>_ s. Done (-1) s)
    | None \<Rightarrow>
        bindk (dirlink_slot (unat (isize (inodes s ! dp)) div 16 + 2) dp 0 s) (\<lambda>off s.
        bindk (writei dp (LocalSrc (dirent_bytes name' ino)) off 16 s) (\<lambda>r s.
          if r \<noteq> 16 then Panic ''dirlink'' s else Done 0 s)))"

section \<open>Paths\<close>

definition slash :: u8 where "slash = 47"

definition skipelem :: "u8 list \<Rightarrow> u8 list \<Rightarrow> (u8 list \<times> u8 list) option" where
  "skipelem path name' =
    (let path = dropWhile (\<lambda>c. c = slash) path in
     if path = [] then None
     else
       let elem = takeWhile (\<lambda>c. c \<noteq> slash) path;
           path = dropWhile (\<lambda>c. c \<noteq> slash) path;
           len = length elem;
           name' = (if DIRSIZ \<le> len then splice name' 0 (take DIRSIZ elem)
                    else (splice name' 0 elem)[len := 0])
       in Some (dropWhile (\<lambda>c. c = slash) path, name'))"

lemma skipelem_shorter:
  assumes "skipelem path name' = Some (path', name'')"
  shows "length path' < length path"
proof -
  define p where "p = dropWhile (\<lambda>c. c = slash) path"
  have "p \<noteq> []" and path': "path' = dropWhile (\<lambda>c. c = slash) (dropWhile (\<lambda>c. c \<noteq> slash) p)"
    using assms by (auto simp: skipelem_def Let_def p_def split: if_splits)
  obtain c cs where p: "p = c # cs" using \<open>p \<noteq> []\<close> by (cases p) auto
  then have "c \<noteq> slash" using hd_dropWhile [of "\<lambda>c. c = slash" path] by (auto simp: p_def)
  then have "length path' \<le> length cs"
    unfolding path' p by (simp add: le_trans [OF length_dropWhile_le length_dropWhile_le])
  moreover have "length p \<le> length path" unfolding p_def by (rule length_dropWhile_le)
  ultimately show ?thesis using p by simp
qed

text \<open>The loop of \<open>namex\<close>: the inode reached and the last value of \<open>name\<close>.\<close>

function namex_loop :: "nat \<Rightarrow> u8 list \<Rightarrow> bool \<Rightarrow> u8 list \<Rightarrow> 'z fmachine_scheme \<Rightarrow> (nat option \<times> u8 list, 'z fmachine_scheme) outcome" where
  "namex_loop ip path nameiparent' name' s =
    (case skipelem path name' of
      Some (path, name') \<Rightarrow>
        bindk (ilock (Some ip) s) (\<lambda>_ s.
        if itype (inodes s ! ip) \<noteq> T_DIR then
          bindk (iunlockput ip s) (\<lambda>_ s. Done (None, name') s)
        else if nameiparent' \<and> path = [] then
          bindk (iunlock (Some ip) s) (\<lambda>_ s. Done (Some ip, name') s)
        else
          bindk (dirlookup ip name' s) (\<lambda>r s.
          case r of
            None \<Rightarrow> bindk (iunlockput ip s) (\<lambda>_ s. Done (None, name') s)
          | Some (next', _) \<Rightarrow>
              bindk (iunlockput ip s) (\<lambda>_ s. namex_loop next' path nameiparent' name' s)))
    | None \<Rightarrow>
        if nameiparent' then bindk (iput ip s) (\<lambda>_ s. Done (None, name') s)
        else Done (Some ip, name') s)"
  by pat_completeness auto
termination
  by (relation "measure (\<lambda>(ip, path, np, name', s). length path)") (auto dest: skipelem_shorter)

declare namex_loop.simps [simp del]

definition namex :: "u8 list \<Rightarrow> bool \<Rightarrow> u8 list \<Rightarrow> 'z fmachine_scheme \<Rightarrow> (nat option \<times> u8 list, 'z fmachine_scheme) outcome" where
  "namex path nameiparent' name' s =
    bindk (if path \<noteq> [] \<and> hd path = slash then iget ROOTDEV ROOTINO s
           else
             bindk (myproc s) (\<lambda>p s.
             case cwd (procs s ! p) of
               None \<Rightarrow> Panic ''kerneltrap'' s
             | Some ip \<Rightarrow> idup ip s)) (\<lambda>ip s.
    namex_loop ip path nameiparent' name' s)"

definition namei :: "u8 list \<Rightarrow> 'z fmachine_scheme \<Rightarrow> (nat option, 'z fmachine_scheme) outcome" where
  "namei path s =
    bindk (namex path False (replicate DIRSIZ 0) s) (\<lambda>(ip, _) s. Done ip s)"

definition nameiparent :: "u8 list \<Rightarrow> u8 list \<Rightarrow> 'z fmachine_scheme \<Rightarrow> (nat option \<times> u8 list, 'z fmachine_scheme) outcome" where
  "nameiparent path name' s = namex path True name' s"

end
