(* ===== verification/File.thy ===== *)
theory File
  imports Console Dir
begin

text \<open>
  \<open>kernel/file.c\<close> and \<open>pipealloc\<close>: the table of open files.  A file is named by
  its index in \<open>ftable.file[NFILE]\<close>.  The only device with routines in the device
  switch is the console; \<open>devsw\<close> says which major numbers have been connected.
\<close>

definition NFILE :: nat where "NFILE = 100"
definition NDEV :: int where "NDEV = 10"
definition CONSOLE :: u16 where "CONSOLE = 1"

datatype ftype = FD_NONE | FD_PIPE | FD_INODE | FD_DEVICE
datatype devfn = ConsoleDev

record kfile =
  ftyp :: ftype
  fref :: int
  readable :: bool
  writable :: bool
  fpipe :: u64
  fip :: nat
  foff :: u32
  fmajor :: u16
  fminor :: u16

record kernel = cmachine +
  files :: "kfile list"
  devsw :: "u16 \<Rightarrow> devfn option"
  ticks :: u32

type_synonym 'z kenv = "'z kernel_ext cenv"

definition upd_file :: "nat \<Rightarrow> (kfile \<Rightarrow> kfile) \<Rightarrow> 'z kernel_scheme \<Rightarrow> 'z kernel_scheme" where
  "upd_file i f s = s\<lparr>files := (files s)[i := f (files s ! i)]\<rparr>"

definition consoleinit :: "'z kernel_scheme \<Rightarrow> 'z kernel_scheme" where
  "consoleinit s = s\<lparr>devsw := (devsw s)(CONSOLE := Some ConsoleDev)\<rparr>"

fun filealloc_scan :: "nat list \<Rightarrow> 'z kernel_scheme \<Rightarrow> nat option" where
  "filealloc_scan [] s = None"
| "filealloc_scan (i # is) s = (if fref (files s ! i) = 0 then Some i else filealloc_scan is s)"

definition filealloc :: "'z kernel_scheme \<Rightarrow> (nat option, 'z kernel_scheme) outcome" where
  "filealloc s =
    bindk (acquire LFtable s) (\<lambda>_ s.
    case filealloc_scan [0..<NFILE] s of
      Some i \<Rightarrow>
        let s = upd_file i (\<lambda>f. f\<lparr>fref := 1\<rparr>) s in
        bindk (release LFtable s) (\<lambda>_ s. Done (Some i) s)
    | None \<Rightarrow> bindk (release LFtable s) (\<lambda>_ s. Done None s))"

definition filedup :: "nat \<Rightarrow> 'z kernel_scheme \<Rightarrow> (nat, 'z kernel_scheme) outcome" where
  "filedup i s =
    bindk (acquire LFtable s) (\<lambda>_ s.
      if fref (files s ! i) < 1 then Panic ''filedup'' s
      else
        let s = upd_file i (\<lambda>f. f\<lparr>fref := fref f + 1\<rparr>) s in
        bindk (release LFtable s) (\<lambda>_ s. Done i s))"

definition fileclose :: "nat \<Rightarrow> 'z kernel_scheme \<Rightarrow> (unit, 'z kernel_scheme) outcome" where
  "fileclose i s =
    bindk (acquire LFtable s) (\<lambda>_ s.
      if fref (files s ! i) < 1 then Panic ''fileclose'' s
      else
        let s = upd_file i (\<lambda>f. f\<lparr>fref := fref f - 1\<rparr>) s in
        if 0 < fref (files s ! i) then release LFtable s
        else
          let ff = files s ! i;
              s = upd_file i (\<lambda>f. f\<lparr>fref := 0, ftyp := FD_NONE\<rparr>) s
          in bindk (release LFtable s) (\<lambda>_ s.
             if ftyp ff = FD_PIPE then pipeclose (fpipe ff) (writable ff) s
             else if ftyp ff = FD_INODE \<or> ftyp ff = FD_DEVICE then
               bindk (begin_op (idev (inodes s ! fip ff)) [] s) (\<lambda>_ s.
               bindk (iput (fip ff) s) (\<lambda>_ s.
               end_op (idev (inodes s ! fip ff)) s))
             else Done () s))"

text \<open>The layout of \<open>struct stat\<close>: 24 bytes, all fields naturally aligned.\<close>

definition stat_bytes :: "stat \<Rightarrow> u8 list" where
  "stat_bytes st = le_bytes 4 (unat (st_dev st)) @ le_bytes 4 (unat (st_ino st)) @
     le_bytes 2 (unat (st_type st)) @ le_bytes 2 (unat (st_nlink st)) @ replicate 4 0 @
     le_bytes 8 (unat (st_size st))"

definition filestat :: "nat \<Rightarrow> u64 \<Rightarrow> 'z kernel_scheme \<Rightarrow> (int, 'z kernel_scheme) outcome" where
  "filestat i addr s =
    bindk (myproc s) (\<lambda>p s.
    if ftyp (files s ! i) = FD_INODE \<or> ftyp (files s ! i) = FD_DEVICE then
      bindk (ilock (Some (fip (files s ! i))) s) (\<lambda>_ s.
      let st = stati (fip (files s ! i)) s in
      bindk (iunlock (Some (fip (files s ! i))) s) (\<lambda>_ s.
      bindk (copyout (pagetable (procs s ! p)) addr (stat_bytes st) s) (\<lambda>r s.
      if r < 0 then Done (-1) s else Done 0 s)))
    else Done (-1) s)"

definition fileread :: "nat \<Rightarrow> u64 \<Rightarrow> int \<Rightarrow> 'z kenv list \<Rightarrow> 'z kernel_scheme \<Rightarrow> (int, 'z kernel_scheme) outcome" where
  "fileread i addr n envs s =
    (let f = files s ! i in
     if \<not> readable f then Done (-1) s
     else if ftyp f = FD_PIPE then piperead (fpipe f) addr n envs s
     else if ftyp f = FD_DEVICE then
       (if sint (fmajor f) < 0 \<or> NDEV \<le> sint (fmajor f) then Done (-1) s
        else case devsw s (fmajor f) of
          None \<Rightarrow> Done (-1) s
        | Some ConsoleDev \<Rightarrow> consoleread (UserDst addr) n envs s)
     else if ftyp f = FD_INODE then
       bindk (ilock (Some (fip f)) s) (\<lambda>_ s.
       bindk (readi (fip f) (UserDst addr) (foff (files s ! i)) (of_int n) s) (\<lambda>(r, _) s.
       let s = (if 0 < sint r then upd_file i (\<lambda>f. f\<lparr>foff := foff f + r\<rparr>) s else s) in
       bindk (iunlock (Some (fip f)) s) (\<lambda>_ s. Done (sint r) s)))
     else Panic ''fileread'' s)"

definition filewrite_max :: int where
  "filewrite_max = ((MAXOPBLOCKS - 1 - 1 - 2) div 2) * int BSIZE"

text \<open>The transactions of a write to an inode; the result is the final value of \<open>i\<close>.\<close>

function filewrite_loop :: "nat \<Rightarrow> u64 \<Rightarrow> int \<Rightarrow> int \<Rightarrow> 'z kernel_scheme \<Rightarrow> (int, 'z kernel_scheme) outcome" where
  "filewrite_loop fi addr i n s =
    (if i < n then
       let n1 = (if filewrite_max < n - i then filewrite_max else n - i);
           ip = fip (files s ! fi)
       in bindk (begin_op (idev (inodes s ! ip)) [] s) (\<lambda>_ s.
          bindk (ilock (Some ip) s) (\<lambda>_ s.
          bindk (writei ip (UserSrc (addr + of_int i)) (foff (files s ! fi)) (of_int n1) s) (\<lambda>r s.
          let s = (if 0 < sint r then upd_file fi (\<lambda>f. f\<lparr>foff := foff f + r\<rparr>) s else s) in
          bindk (iunlock (Some ip) s) (\<lambda>_ s.
          bindk (end_op (idev (inodes s ! ip)) s) (\<lambda>_ s.
          if sint r < 0 then Done i s
          else if sint r \<noteq> n1 then Panic ''short filewrite'' s
          else filewrite_loop fi addr (i + n1) n s)))))
     else Done i s)"
  by pat_completeness auto
termination
  by (relation "measure (\<lambda>(fi, addr, i, n, s). nat (n - i))")
    (auto simp: filewrite_max_def MAXOPBLOCKS_def BSIZE_def)

declare filewrite_loop.simps [simp del]

definition filewrite :: "nat \<Rightarrow> u64 \<Rightarrow> int \<Rightarrow> 'z kenv list \<Rightarrow> 'z kernel_scheme \<Rightarrow> (int, 'z kernel_scheme) outcome" where
  "filewrite i addr n envs s =
    (let f = files s ! i in
     if \<not> writable f then Done (-1) s
     else if ftyp f = FD_PIPE then pipewrite (fpipe f) addr n envs s
     else if ftyp f = FD_DEVICE then
       (if sint (fmajor f) < 0 \<or> NDEV \<le> sint (fmajor f) then Done (-1) s
        else case devsw s (fmajor f) of
          None \<Rightarrow> Done (-1) s
        | Some ConsoleDev \<Rightarrow> consolewrite (UserSrc addr) n s)
     else if ftyp f = FD_INODE then
       bindk (filewrite_loop i addr 0 n s) (\<lambda>r s. Done (if r = n then n else -1) s)
     else Panic ''filewrite'' s)"

text \<open>
  \<open>pipealloc\<close>: the two files, or \<open>None\<close> after releasing whatever had been
  obtained.  The fresh \<open>struct pipe\<close> starts with the junk of its page, of which
  only \<open>data\<close> is left.
\<close>

definition pipealloc_bad :: "nat option \<Rightarrow> nat option \<Rightarrow> 'z kernel_scheme \<Rightarrow> ((nat \<times> nat) option, 'z kernel_scheme) outcome" where
  "pipealloc_bad f0 f1 s =
    bindk (case f0 of Some f \<Rightarrow> fileclose f s | None \<Rightarrow> Done () s) (\<lambda>_ s.
    bindk (case f1 of Some f \<Rightarrow> fileclose f s | None \<Rightarrow> Done () s) (\<lambda>_ s.
    Done None s))"

definition pipealloc :: "'z kernel_scheme \<Rightarrow> ((nat \<times> nat) option, 'z kernel_scheme) outcome" where
  "pipealloc s =
    bindk (filealloc s) (\<lambda>f0 s.
    case f0 of None \<Rightarrow> pipealloc_bad None None s
    | Some rfl \<Rightarrow>
      bindk (filealloc s) (\<lambda>f1 s.
      case f1 of None \<Rightarrow> pipealloc_bad (Some rfl) None s
      | Some wfl \<Rightarrow>
        bindk (kalloc s) (\<lambda>pi s.
        if pi = 0 then pipealloc_bad (Some rfl) (Some wfl) s
        else
          let s = s\<lparr>pipes := (pipes s)(pi := \<lparr>pdata = load_bytes (mem s) pi 512, nread = 0, nwrite = 0,
                readopen = True, writeopen = True\<rparr>)\<rparr>;
              s = upd_file rfl (\<lambda>f. f\<lparr>ftyp := FD_PIPE, readable := True, writable := False, fpipe := pi\<rparr>) s;
              s = upd_file wfl (\<lambda>f. f\<lparr>ftyp := FD_PIPE, readable := False, writable := True, fpipe := pi\<rparr>) s
          in Done (Some (rfl, wfl)) s)))"

end
