(* ===== verification/Process.thy ===== *)
theory Process
  imports File
begin

text \<open>
  The rest of \<open>kernel/proc.c\<close>: \<open>userinit\<close>, \<open>fork\<close> and \<open>exit\<close>, which use
  the file system and the file table.  The trapframe of a process is a page of
  memory; the fields are at the offsets of \<open>struct trapframe\<close>.
\<close>

definition tf_kernel_satp :: u64 where "tf_kernel_satp = 0"
definition tf_kernel_sp :: u64 where "tf_kernel_sp = 8"
definition tf_kernel_trap :: u64 where "tf_kernel_trap = 16"
definition tf_epc :: u64 where "tf_epc = 24"
definition tf_kernel_hartid :: u64 where "tf_kernel_hartid = 32"
definition tf_sp :: u64 where "tf_sp = 48"
definition tf_a :: "nat \<Rightarrow> u64" where "tf_a n = 112 + 8 * of_nat n"
definition tf_size :: nat where "tf_size = 288"

definition get_tf :: "nat \<Rightarrow> u64 \<Rightarrow> 'z pmachine_scheme \<Rightarrow> u64" where
  "get_tf p off s = load64 (mem s) (tf (procs s ! p) + off)"

definition set_tf :: "nat \<Rightarrow> u64 \<Rightarrow> u64 \<Rightarrow> 'z pmachine_scheme \<Rightarrow> 'z pmachine_scheme" where
  "set_tf p off v s = s\<lparr>mem := store64 (mem s) (tf (procs s ! p) + off) v\<rparr>"

text \<open>Dereferencing a pointer that may be null.\<close>

definition deref :: "'a option \<Rightarrow> 's \<Rightarrow> ('a, 's) outcome" where
  "deref r s = (case r of None \<Rightarrow> Panic ''kerneltrap'' s | Some x \<Rightarrow> Done x s)"

definition set_name :: "nat \<Rightarrow> u8 list \<Rightarrow> 'z pmachine_scheme \<Rightarrow> 'z pmachine_scheme" where
  "set_name p src s = upd_proc p (\<lambda>q. q\<lparr>name := splice (name q) 0 (safestrcpy (arr src) 16)\<rparr>) s"

definition initcode :: "u8 list" where
  "initcode = [0x17, 0x05, 0x00, 0x00, 0x13, 0x05, 0x05, 0x02,
    0x97, 0x05, 0x00, 0x00, 0x93, 0x85, 0x05, 0x02,
    0x9d, 0x48, 0x73, 0x00, 0x00, 0x00, 0x89, 0x48,
    0x73, 0x00, 0x00, 0x00, 0xef, 0xf0, 0xbf, 0xff,
    0x2f, 0x69, 0x6e, 0x69, 0x74, 0x00, 0x00, 0x01,
    0x20, 0x00, 0x00, 0x00, 0x00, 0x00, 0x00, 0x00,
    0x00, 0x00, 0x00]"

definition userinit :: "'z kernel_scheme \<Rightarrow> (unit, 'z kernel_scheme) outcome" where
  "userinit s =
    bindk (allocproc s) (\<lambda>r s.
    let s = s\<lparr>initproc := r\<rparr> in
    bindk (deref r s) (\<lambda>p s.
    bindk (uvminit (pagetable (procs s ! p)) initcode s) (\<lambda>_ s.
    let s = upd_proc p (\<lambda>q. q\<lparr>sz := PGSIZE\<rparr>) s;
        s = set_tf p tf_epc 0 s;
        s = set_tf p tf_sp PGSIZE s;
        s = set_name p (ascii ''initcode'') s
    in bindk (namei [slash] s) (\<lambda>ip s.
       let s = upd_proc p (\<lambda>q. q\<lparr>cwd := ip\<rparr>) s;
           s = upd_proc p (\<lambda>q. q\<lparr>state := RUNNABLE\<rparr>) s
       in release (LProc p) s))))"

fun fork_files :: "nat \<Rightarrow> nat \<Rightarrow> nat list \<Rightarrow> 'z kernel_scheme \<Rightarrow> (unit, 'z kernel_scheme) outcome" where
  "fork_files p np [] s = Done () s"
| "fork_files p np (i # is) s =
    (case ofile (procs s ! p) ! i of
      None \<Rightarrow> fork_files p np is s
    | Some f \<Rightarrow>
        bindk (filedup f s) (\<lambda>f s.
          fork_files p np is (upd_proc np (\<lambda>q. q\<lparr>ofile := (ofile q)[i := Some f]\<rparr>) s)))"

definition fork :: "'z kernel_scheme \<Rightarrow> (int, 'z kernel_scheme) outcome" where
  "fork s =
    bindk (myproc s) (\<lambda>p s.
    bindk (allocproc s) (\<lambda>r s.
    case r of None \<Rightarrow> Done (-1) s
    | Some np \<Rightarrow>
      bindk (uvmcopy (pagetable (procs s ! p)) (pagetable (procs s ! np)) (sz (procs s ! p)) s) (\<lambda>c s.
      if c < 0 then
        bindk (freeproc np s) (\<lambda>_ s.
        bindk (release (LProc np) s) (\<lambda>_ s. Done (-1) s))
      else
        let s = upd_proc np (\<lambda>q. q\<lparr>sz := sz (procs s ! p)\<rparr>) s;
            s = upd_proc np (\<lambda>q. q\<lparr>parent := Some p\<rparr>) s;
            s = s\<lparr>mem := store_bytes (mem s) (tf (procs s ! np)) (load_bytes (mem s) (tf (procs s ! p)) tf_size)\<rparr>;
            s = set_tf np (tf_a 0) 0 s
        in bindk (fork_files p np [0..<NOFILE] s) (\<lambda>_ s.
           bindk (deref (cwd (procs s ! p)) s) (\<lambda>ip s.
           bindk (idup ip s) (\<lambda>ip s.
           let s = upd_proc np (\<lambda>q. q\<lparr>cwd := Some ip\<rparr>) s;
               s = set_name np (name (procs s ! p)) s;
               pid' = pid (procs s ! np);
               s = upd_proc np (\<lambda>q. q\<lparr>state := RUNNABLE\<rparr>) s
           in bindk (release (LProc np) s) (\<lambda>_ s. Done pid' s)))))))"

fun exit_files :: "nat \<Rightarrow> nat list \<Rightarrow> 'z kernel_scheme \<Rightarrow> (unit, 'z kernel_scheme) outcome" where
  "exit_files p [] s = Done () s"
| "exit_files p (fd # fds) s =
    (case ofile (procs s ! p) ! fd of
      None \<Rightarrow> exit_files p fds s
    | Some f \<Rightarrow>
        bindk (fileclose f s) (\<lambda>_ s.
          exit_files p fds (upd_proc p (\<lambda>q. q\<lparr>ofile := (ofile q)[fd := None]\<rparr>) s)))"

text \<open>\<open>exit\<close> does not return: it ends in \<open>sched\<close> with the process a zombie.\<close>

definition exit :: "u32 \<Rightarrow> 'z kernel_scheme \<Rightarrow> ('a, 'z kernel_scheme) outcome" where
  "exit status s =
    bindk (myproc s) (\<lambda>p s.
    if initproc s = Some p then Panic ''init exiting'' s
    else
      bindk (exit_files p [0..<NOFILE] s) (\<lambda>_ s.
      bindk (begin_op ROOTDEV [] s) (\<lambda>_ s.
      bindk (deref (cwd (procs s ! p)) s) (\<lambda>ip s.
      bindk (iput ip s) (\<lambda>_ s.
      bindk (end_op ROOTDEV s) (\<lambda>_ s.
      let s = upd_proc p (\<lambda>q. q\<lparr>cwd := None\<rparr>) s in
      bindk (deref (initproc s) s) (\<lambda>ini s.
      bindk (acquire (LProc ini) s) (\<lambda>_ s.
      bindk (wakeup1 ini s) (\<lambda>_ s.
      bindk (release (LProc ini) s) (\<lambda>_ s.
      bindk (acquire (LProc p) s) (\<lambda>_ s.
      let original_parent = parent (procs s ! p) in
      bindk (release (LProc p) s) (\<lambda>_ s.
      bindk (deref original_parent s) (\<lambda>pp s.
      bindk (acquire (LProc pp) s) (\<lambda>_ s.
      bindk (acquire (LProc p) s) (\<lambda>_ s.
      bindk (reparent p s) (\<lambda>_ s.
      bindk (wakeup1 pp s) (\<lambda>_ s.
      let s = upd_proc p (\<lambda>q. q\<lparr>xstate := status\<rparr>) s;
          s = upd_proc p (\<lambda>q. q\<lparr>state := ZOMBIE\<rparr>) s
      in bindk (release (LProc pp) s) (\<lambda>_ s.
         bindk (sched [] s) (\<lambda>_ s.
         Panic ''zombie exit'' s)))))))))))))))))))"

end
