(* ===== verification/Exec.thy ===== *)
theory Exec
  imports Process
begin

text \<open>
  \<open>kernel/exec.c\<close>.  The ELF headers are read into local buffers and decoded at the
  offsets of \<open>struct elfhdr\<close> and \<open>struct proghdr\<close>.  \<open>argv\<close> is a list of
  addresses of pages that hold the argument strings.
\<close>

definition ELF_MAGIC :: u32 where "ELF_MAGIC = 0x464C457F"
definition ELF_PROG_LOAD :: u32 where "ELF_PROG_LOAD = 1"
definition MAXARG :: nat where "MAXARG = 32"
definition elfhdr_size :: nat where "elfhdr_size = 64"
definition proghdr_size :: nat where "proghdr_size = 56"

definition elf_magic :: "u8 list \<Rightarrow> u32" where "elf_magic h = get32 h 0"
definition elf_entry :: "u8 list \<Rightarrow> u64" where "elf_entry h = get64 h 24"
definition elf_phoff :: "u8 list \<Rightarrow> u64" where "elf_phoff h = get64 h 32"
definition elf_phnum :: "u8 list \<Rightarrow> u16" where "elf_phnum h = get16 h 56"
definition ph_type :: "u8 list \<Rightarrow> u32" where "ph_type h = get32 h 0"
definition ph_off :: "u8 list \<Rightarrow> u64" where "ph_off h = get64 h 8"
definition ph_vaddr :: "u8 list \<Rightarrow> u64" where "ph_vaddr h = get64 h 16"
definition ph_filesz :: "u8 list \<Rightarrow> u64" where "ph_filesz h = get64 h 32"
definition ph_memsz :: "u8 list \<Rightarrow> u64" where "ph_memsz h = get64 h 40"

fun loadseg_loop :: "nat \<Rightarrow> u64 \<Rightarrow> u64 \<Rightarrow> nat \<Rightarrow> u32 \<Rightarrow> u32 \<Rightarrow> u32 \<Rightarrow> 'z fmachine_scheme \<Rightarrow> (int, 'z fmachine_scheme) outcome" where
  "loadseg_loop 0 pt va ip offset i sz' s = Loop s"
| "loadseg_loop (Suc fuel) pt va ip offset i sz' s =
    (if i < sz' then
       bindk (walkaddr pt (va + ucast i) s) (\<lambda>pa s.
         if pa = 0 then Panic ''loadseg: address should exist'' s
         else
           let n = (if sz' - i < ucast PGSIZE then sz' - i else ucast PGSIZE) in
           bindk (readi ip (KernDst pa) (offset + i) n s) (\<lambda>(r, _) s.
             if r \<noteq> n then Done (-1) s
             else loadseg_loop fuel pt va ip offset (i + ucast PGSIZE) sz' s))
     else Done 0 s)"

definition loadseg :: "u64 \<Rightarrow> u64 \<Rightarrow> nat \<Rightarrow> u32 \<Rightarrow> u32 \<Rightarrow> 'z fmachine_scheme \<Rightarrow> (int, 'z fmachine_scheme) outcome" where
  "loadseg pt va ip offset sz' s =
    (if va mod PGSIZE \<noteq> 0 then Panic ''loadseg: va must be page aligned'' s
     else loadseg_loop (unat sz' div 4096 + 2) pt va ip offset 0 sz' s)"

text \<open>The loop over the program headers: whether it succeeded, and \<open>sz\<close>.\<close>

fun exec_segments :: "u64 \<Rightarrow> nat \<Rightarrow> nat \<Rightarrow> u32 \<Rightarrow> u64 \<Rightarrow> 'z fmachine_scheme \<Rightarrow> (bool \<times> u64, 'z fmachine_scheme) outcome" where
  "exec_segments pt ip 0 off sz' s = Done (True, sz') s"
| "exec_segments pt ip (Suc k) off sz' s =
    bindk (readi ip LocalDst off (of_nat proghdr_size) s) (\<lambda>(r, ph) s.
      if r \<noteq> of_nat proghdr_size then Done (False, sz') s
      else if ph_type ph \<noteq> ELF_PROG_LOAD then exec_segments pt ip k (off + of_nat proghdr_size) sz' s
      else if ph_memsz ph < ph_filesz ph then Done (False, sz') s
      else if ph_vaddr ph + ph_memsz ph < ph_vaddr ph then Done (False, sz') s
      else
        bindk (uvmalloc pt sz' (ph_vaddr ph + ph_memsz ph) s) (\<lambda>sz' s.
          if sz' = 0 then Done (False, sz') s
          else if ph_vaddr ph mod PGSIZE \<noteq> 0 then Done (False, sz') s
          else
            bindk (loadseg pt (ph_vaddr ph) ip (ucast (ph_off ph)) (ucast (ph_filesz ph)) s) (\<lambda>r s.
              if r < 0 then Done (False, sz') s
              else exec_segments pt ip k (off + of_nat proghdr_size) sz' s)))"

text \<open>The label \<open>bad\<close>: \<open>pt\<close> and \<open>ip\<close> are what has been obtained so far.\<close>

definition exec_bad :: "u64 \<Rightarrow> u64 \<Rightarrow> nat option \<Rightarrow> 'z kernel_scheme \<Rightarrow> (int, 'z kernel_scheme) outcome" where
  "exec_bad pt sz' ip s =
    bindk (if pt \<noteq> 0 then proc_freepagetable pt sz' s else Done () s) (\<lambda>_ s.
    bindk (case ip of
             None \<Rightarrow> Done () s
           | Some i \<Rightarrow> bindk (iunlockput i s) (\<lambda>_ s. end_op ROOTDEV s)) (\<lambda>_ s.
    Done (-1) s))"

text \<open>The string in the page at \<open>a\<close>.\<close>

definition arg_string :: "u64 \<Rightarrow> 'z kmachine_scheme \<Rightarrow> u8 list" where
  "arg_string a s = cstring 4096 (ptr (mem s) a)"

text \<open>Push the argument strings: \<open>None\<close> for \<open>goto bad\<close>, or \<open>sp\<close> and \<open>ustack\<close>.\<close>

fun exec_args :: "u64 \<Rightarrow> u64 \<Rightarrow> u64 list \<Rightarrow> u64 \<Rightarrow> u64 list \<Rightarrow> 'z kmachine_scheme \<Rightarrow> ((u64 \<times> u64 list) option, 'z kmachine_scheme) outcome" where
  "exec_args pt stackbase [] sp ustack s = Done (Some (sp, ustack)) s"
| "exec_args pt stackbase (a # as) sp ustack s =
    (if MAXARG \<le> length ustack then Done None s
     else
       let str = arg_string a s;
           sp = sp - (of_nat (length str) + 1);
           sp = sp - sp mod 16
       in if sp < stackbase then Done None s
          else
            bindk (copyout pt sp (str @ [0]) s) (\<lambda>r s.
              if r < 0 then Done None s
              else exec_args pt stackbase as sp (ustack @ [sp]) s))"

text \<open>The part of a path after its last slash.\<close>

definition last_elem :: "u8 list \<Rightarrow> u8 list" where
  "last_elem path = rev (takeWhile (\<lambda>c. c \<noteq> slash) (rev path))"

definition exec_commit :: "nat \<Rightarrow> u8 list \<Rightarrow> u8 list \<Rightarrow> u64 \<Rightarrow> u64 \<Rightarrow> u64 \<Rightarrow> u64 \<Rightarrow> nat \<Rightarrow> 'z kernel_scheme \<Rightarrow> (int, 'z kernel_scheme) outcome" where
  "exec_commit p path elf pt sz' oldsz sp argc s =
    (let s = set_tf p (tf_a 1) sp s;
         s = set_name p (last_elem path) s;
         oldpt = pagetable (procs s ! p);
         s = upd_proc p (\<lambda>q. q\<lparr>pagetable := pt\<rparr>) s;
         s = upd_proc p (\<lambda>q. q\<lparr>sz := sz'\<rparr>) s;
         s = set_tf p tf_epc (elf_entry elf) s;
         s = set_tf p tf_sp sp s
     in bindk (proc_freepagetable oldpt oldsz s) (\<lambda>_ s. Done (int argc) s))"

definition exec_stack :: "nat \<Rightarrow> u8 list \<Rightarrow> u64 list \<Rightarrow> u8 list \<Rightarrow> u64 \<Rightarrow> u64 \<Rightarrow> 'z kernel_scheme \<Rightarrow> (int, 'z kernel_scheme) outcome" where
  "exec_stack p path argv elf pt sz' s =
    (let oldsz = sz (procs s ! p);
         sz' = PGROUNDUP sz'
     in bindk (uvmalloc pt sz' (sz' + 2 * PGSIZE) s) (\<lambda>sz' s.
        if sz' = 0 then exec_bad pt sz' None s
        else
          bindk (uvmclear pt (sz' - 2 * PGSIZE) s) (\<lambda>_ s.
          let stackbase = sz' - PGSIZE in
          bindk (exec_args pt stackbase argv sz' [] s) (\<lambda>r s.
          case r of None \<Rightarrow> exec_bad pt sz' None s
          | Some (sp, ustack) \<Rightarrow>
              let argc = length ustack;
                  ustack = ustack @ [0];
                  sp = sp - (of_nat argc + 1) * 8;
                  sp = sp - sp mod 16
              in if sp < stackbase then exec_bad pt sz' None s
                 else
                   bindk (copyout pt sp (concat (map (\<lambda>v. le_bytes 8 (unat v)) ustack)) s) (\<lambda>r s.
                   if r < 0 then exec_bad pt sz' None s
                   else exec_commit p path elf pt sz' oldsz sp argc s)))))"

definition exec :: "u8 list \<Rightarrow> u64 list \<Rightarrow> 'z kernel_scheme \<Rightarrow> (int, 'z kernel_scheme) outcome" where
  "exec path argv s =
    bindk (myproc s) (\<lambda>p s.
    bindk (begin_op ROOTDEV [] s) (\<lambda>_ s.
    bindk (namei path s) (\<lambda>r s.
    case r of None \<Rightarrow> bindk (end_op ROOTDEV s) (\<lambda>_ s. Done (-1) s)
    | Some ip \<Rightarrow>
      bindk (ilock (Some ip) s) (\<lambda>_ s.
      bindk (readi ip LocalDst 0 (of_nat elfhdr_size) s) (\<lambda>(r, elf) s.
      if r \<noteq> of_nat elfhdr_size then exec_bad 0 0 (Some ip) s
      else if elf_magic elf \<noteq> ELF_MAGIC then exec_bad 0 0 (Some ip) s
      else
        bindk (proc_pagetable p s) (\<lambda>pt s.
        if pt = 0 then exec_bad 0 0 (Some ip) s
        else
          bindk (exec_segments pt ip (unat (elf_phnum elf)) (ucast (elf_phoff elf)) 0 s) (\<lambda>(ok, sz') s.
          if \<not> ok then exec_bad pt sz' (Some ip) s
          else
            bindk (iunlockput ip s) (\<lambda>_ s.
            bindk (end_op ROOTDEV s) (\<lambda>_ s.
            exec_stack p path argv elf pt sz' s)))))))))"

end
