(* ===== verification/Sysarg.thy ===== *)
theory Sysarg
  imports Exec
begin

text \<open>
  \<open>kernel/syscall.c\<close>, the fetching of arguments, and \<open>kernel/sysproc.c\<close>.  A
  string argument is given by the bytes before its terminating 0; the first
  component of the result of \<open>fetchstr\<close> and \<open>argstr\<close> is the returned length, or
  -1.  The value of a system call is the 64-bit word that goes to register a0.
\<close>

definition MAXPATH :: nat where "MAXPATH = 128"

definition fetchaddr :: "u64 \<Rightarrow> 'z pmachine_scheme \<Rightarrow> (u64 option, 'z pmachine_scheme) outcome" where
  "fetchaddr addr s =
    bindk (myproc s) (\<lambda>p s.
      if sz (procs s ! p) \<le> addr \<or> sz (procs s ! p) < addr + 8 then Done None s
      else
        bindk (copyin (pagetable (procs s ! p)) addr 8 s) (\<lambda>(r, bs) s.
          if r \<noteq> 0 then Done None s else Done (Some (of_nat (le_val bs))) s))"

definition fetchstr :: "u64 \<Rightarrow> nat \<Rightarrow> 'z pmachine_scheme \<Rightarrow> (int \<times> u8 list, 'z pmachine_scheme) outcome" where
  "fetchstr addr max' s =
    bindk (myproc s) (\<lambda>p s.
    bindk (copyinstr (pagetable (procs s ! p)) addr max' s) (\<lambda>(err, buf) s.
      if err < 0 then Done (err, buf) s
      else
        let str = takeWhile (\<lambda>c. c \<noteq> 0) buf
        in Done (int (length str), str) s))"

definition argraw :: "nat \<Rightarrow> 'z pmachine_scheme \<Rightarrow> (u64, 'z pmachine_scheme) outcome" where
  "argraw n s =
    bindk (myproc s) (\<lambda>p s.
      if n \<le> 5 then Done (get_tf p (tf_a n) s) s else Panic ''argraw'' s)"

definition argint :: "nat \<Rightarrow> 'z pmachine_scheme \<Rightarrow> (u32, 'z pmachine_scheme) outcome" where
  "argint n s = bindk (argraw n s) (\<lambda>v s. Done (ucast v) s)"

definition argaddr :: "nat \<Rightarrow> 'z pmachine_scheme \<Rightarrow> (u64, 'z pmachine_scheme) outcome" where
  "argaddr n s = argraw n s"

definition argstr :: "nat \<Rightarrow> nat \<Rightarrow> 'z pmachine_scheme \<Rightarrow> (int \<times> u8 list, 'z pmachine_scheme) outcome" where
  "argstr n max' s = bindk (argaddr n s) (\<lambda>addr s. fetchstr addr max' s)"

section \<open>Process system calls\<close>

definition sys_exit :: "'z kernel_scheme \<Rightarrow> (u64, 'z kernel_scheme) outcome" where
  "sys_exit s = bindk (argint 0 s) (\<lambda>n s. exit n s)"

definition sys_getpid :: "'z pmachine_scheme \<Rightarrow> (u64, 'z pmachine_scheme) outcome" where
  "sys_getpid s = bindk (myproc s) (\<lambda>p s. Done (of_int (pid (procs s ! p))) s)"

definition sys_fork :: "'z kernel_scheme \<Rightarrow> (u64, 'z kernel_scheme) outcome" where
  "sys_fork s = bindk (fork s) (\<lambda>r s. Done (of_int r) s)"

definition sys_wait :: "'z env list \<Rightarrow> 'z pmachine_scheme \<Rightarrow> (u64, 'z pmachine_scheme) outcome" where
  "sys_wait envs s =
    bindk (argaddr 0 s) (\<lambda>a s. bindk (wait a envs s) (\<lambda>r s. Done (of_int r) s))"

definition sys_sbrk :: "'z pmachine_scheme \<Rightarrow> (u64, 'z pmachine_scheme) outcome" where
  "sys_sbrk s =
    bindk (argint 0 s) (\<lambda>n s.
    bindk (myproc s) (\<lambda>p s.
    let addr = ucast (sz (procs s ! p)) :: u32 in
    bindk (growproc n s) (\<lambda>r s.
      if r < 0 then Done (-1) s else Done (scast addr) s)))"

text \<open>The loop of \<open>sys_sleep\<close>; \<open>ticks - ticks0 < n\<close> compares unsigned numbers.\<close>

function sys_sleep_loop :: "u32 \<Rightarrow> u32 \<Rightarrow> 'z kenv list \<Rightarrow> 'z kernel_scheme \<Rightarrow> (u64, 'z kernel_scheme) outcome" where
  "sys_sleep_loop n ticks0 envs s =
    (if ticks s - ticks0 < n then
       bindk (myproc s) (\<lambda>p s.
         if killed (procs s ! p) then bindk (release LTicks s) (\<lambda>_ s. Done (-1) s)
         else bindk (sleep ChanTicks LTicks envs s) (\<lambda>es s. sys_sleep_loop n ticks0 es s))
     else bindk (release LTicks s) (\<lambda>_ s. Done 0 s))"
  by pat_completeness auto
termination
  by (relation "measure (\<lambda>(n, t0, envs, s). length envs)") (auto dest: sleep_uses_env)

declare sys_sleep_loop.simps [simp del]

definition sys_sleep :: "'z kenv list \<Rightarrow> 'z kernel_scheme \<Rightarrow> (u64, 'z kernel_scheme) outcome" where
  "sys_sleep envs s =
    bindk (argint 0 s) (\<lambda>n s.
    bindk (acquire LTicks s) (\<lambda>_ s. sys_sleep_loop n (ticks s) envs s))"

definition sys_kill :: "'z pmachine_scheme \<Rightarrow> (u64, 'z pmachine_scheme) outcome" where
  "sys_kill s =
    bindk (argint 0 s) (\<lambda>pid' s. bindk (kill (sint pid') s) (\<lambda>r s. Done (of_int r) s))"

definition sys_uptime :: "'z kernel_scheme \<Rightarrow> (u64, 'z kernel_scheme) outcome" where
  "sys_uptime s =
    bindk (acquire LTicks s) (\<lambda>_ s.
    let xticks = ticks s in
    bindk (release LTicks s) (\<lambda>_ s. Done (ucast xticks) s))"

end
