(* ===== verification/Sysfile.thy ===== *)
theory Sysfile
  imports Sysarg
begin

text \<open>\<open>kernel/sysfile.c\<close>: the file-system calls.\<close>

definition O_RDONLY :: u32 where "O_RDONLY = 0x000"
definition O_WRONLY :: u32 where "O_WRONLY = 0x001"
definition O_RDWR :: u32 where "O_RDWR = 0x002"
definition O_CREATE :: u32 where "O_CREATE = 0x200"

section \<open>Descriptors\<close>

definition argfd :: "nat \<Rightarrow> 'z kernel_scheme \<Rightarrow> ((nat \<times> nat) option, 'z kernel_scheme) outcome" where
  "argfd n s =
    bindk (argint n s) (\<lambda>fd s.
    bindk (myproc s) (\<lambda>p s.
      if sint fd < 0 \<or> int NOFILE \<le> sint fd then Done None s
      else case ofile (procs s ! p) ! unat fd of
        None \<Rightarrow> Done None s
      | Some f \<Rightarrow> Done (Some (unat fd, f)) s))"

fun fdalloc_scan :: "nat option list \<Rightarrow> nat list \<Rightarrow> nat option" where
  "fdalloc_scan of' [] = None"
| "fdalloc_scan of' (fd # fds) = (if of' ! fd = None then Some fd else fdalloc_scan of' fds)"

definition fdalloc :: "nat \<Rightarrow> 'z kernel_scheme \<Rightarrow> (int, 'z kernel_scheme) outcome" where
  "fdalloc f s =
    bindk (myproc s) (\<lambda>p s.
    case fdalloc_scan (ofile (procs s ! p)) [0..<NOFILE] of
      None \<Rightarrow> Done (-1) s
    | Some fd \<Rightarrow> Done (int fd) (upd_proc p (\<lambda>q. q\<lparr>ofile := (ofile q)[fd := Some f]\<rparr>) s))"

definition sys_dup :: "'z kernel_scheme \<Rightarrow> (u64, 'z kernel_scheme) outcome" where
  "sys_dup s =
    bindk (argfd 0 s) (\<lambda>r s.
    case r of None \<Rightarrow> Done (-1) s
    | Some (_, f) \<Rightarrow>
      bindk (fdalloc f s) (\<lambda>fd s.
        if fd < 0 then Done (-1) s
        else bindk (filedup f s) (\<lambda>_ s. Done (of_int fd) s)))"

definition sys_read :: "'z kenv list \<Rightarrow> 'z kernel_scheme \<Rightarrow> (u64, 'z kernel_scheme) outcome" where
  "sys_read envs s =
    bindk (argfd 0 s) (\<lambda>r s.
    case r of None \<Rightarrow> Done (-1) s
    | Some (_, f) \<Rightarrow>
      bindk (argint 2 s) (\<lambda>n s.
      bindk (argaddr 1 s) (\<lambda>p s.
      bindk (fileread f p (sint n) envs s) (\<lambda>r s. Done (of_int r) s))))"

definition sys_write :: "'z kenv list \<Rightarrow> 'z kernel_scheme \<Rightarrow> (u64, 'z kernel_scheme) outcome" where
  "sys_write envs s =
    bindk (argfd 0 s) (\<lambda>r s.
    case r of None \<Rightarrow> Done (-1) s
    | Some (_, f) \<Rightarrow>
      bindk (argint 2 s) (\<lambda>n s.
      bindk (argaddr 1 s) (\<lambda>p s.
      bindk (filewrite f p (sint n) envs s) (\<lambda>r s. Done (of_int r) s))))"

definition sys_close :: "'z kernel_scheme \<Rightarrow> (u64, 'z kernel_scheme) outcome" where
  "sys_close s =
    bindk (argfd 0 s) (\<lambda>r s.
    case r of None \<Rightarrow> Done (-1) s
    | Some (fd, f) \<Rightarrow>
      bindk (myproc s) (\<lambda>p s.
      bindk (fileclose f (upd_proc p (\<lambda>q. q\<lparr>ofile := (ofile q)[fd := None]\<rparr>) s)) (\<lambda>_ s. Done 0 s)))"

definition sys_fstat :: "'z kernel_scheme \<Rightarrow> (u64, 'z kernel_scheme) outcome" where
  "sys_fstat s =
    bindk (argfd 0 s) (\<lambda>r s.
    case r of None \<Rightarrow> Done (-1) s
    | Some (_, f) \<Rightarrow>
      bindk (argaddr 1 s) (\<lambda>st s.
      bindk (filestat f st s) (\<lambda>r s. Done (of_int r) s)))"

section \<open>Links\<close>

text \<open>End the transaction and fail.\<close>

definition fail_op :: "'z kernel_scheme \<Rightarrow> (u64, 'z kernel_scheme) outcome" where
  "fail_op s = bindk (end_op ROOTDEV s) (\<lambda>_ s. Done (-1) s)"

definition link_bad :: "nat \<Rightarrow> 'z kernel_scheme \<Rightarrow> (u64, 'z kernel_scheme) outcome" where
  "link_bad ip s =
    bindk (ilock (Some ip) s) (\<lambda>_ s.
    bindk (iupdate ip (upd_inode ip (\<lambda>x. x\<lparr>inlink := inlink x - 1\<rparr>) s)) (\<lambda>_ s.
    bindk (iunlockput ip s) (\<lambda>_ s. fail_op s)))"

definition sys_link :: "'z kernel_scheme \<Rightarrow> (u64, 'z kernel_scheme) outcome" where
  "sys_link s =
    bindk (argstr 0 MAXPATH s) (\<lambda>(r, old) s.
    if r < 0 then Done (-1) s
    else bindk (argstr 1 MAXPATH s) (\<lambda>(r, new) s.
    if r < 0 then Done (-1) s
    else
      bindk (begin_op ROOTDEV [] s) (\<lambda>_ s.
      bindk (namei old s) (\<lambda>r s.
      case r of None \<Rightarrow> fail_op s
      | Some ip \<Rightarrow>
        bindk (ilock (Some ip) s) (\<lambda>_ s.
        if itype (inodes s ! ip) = T_DIR then bindk (iunlockput ip s) (\<lambda>_ s. fail_op s)
        else
          bindk (iupdate ip (upd_inode ip (\<lambda>x. x\<lparr>inlink := inlink x + 1\<rparr>) s)) (\<lambda>_ s.
          bindk (iunlock (Some ip) s) (\<lambda>_ s.
          bindk (nameiparent new (replicate DIRSIZ 0) s) (\<lambda>(r, name') s.
          case r of None \<Rightarrow> link_bad ip s
          | Some dp \<Rightarrow>
            bindk (ilock (Some dp) s) (\<lambda>_ s.
            bindk (if idev (inodes s ! dp) \<noteq> idev (inodes s ! ip) then Done (-1) s
                   else dirlink dp name' (inum (inodes s ! ip)) s) (\<lambda>r s.
            if r < 0 then bindk (iunlockput dp s) (\<lambda>_ s. link_bad ip s)
            else
              bindk (iunlockput dp s) (\<lambda>_ s.
              bindk (iput ip s) (\<lambda>_ s.
              bindk (end_op ROOTDEV s) (\<lambda>_ s. Done 0 s)))))))))))))"

fun isdirempty_loop :: "nat \<Rightarrow> nat \<Rightarrow> u32 \<Rightarrow> 'z fmachine_scheme \<Rightarrow> (bool, 'z fmachine_scheme) outcome" where
  "isdirempty_loop 0 dp off s = Loop s"
| "isdirempty_loop (Suc fuel) dp off s =
    (if off < isize (inodes s ! dp) then
       bindk (readi dp LocalDst off 16 s) (\<lambda>(r, de) s.
         if r \<noteq> 16 then Panic ''isdirempty: readi'' s
         else if de_inum de \<noteq> 0 then Done False s
         else isdirempty_loop fuel dp (off + 16) s)
     else Done True s)"

definition isdirempty :: "nat \<Rightarrow> 'z fmachine_scheme \<Rightarrow> (bool, 'z fmachine_scheme) outcome" where
  "isdirempty dp s = isdirempty_loop (unat (isize (inodes s ! dp)) div 16 + 2) dp 32 s"

definition unlink_bad :: "nat \<Rightarrow> 'z kernel_scheme \<Rightarrow> (u64, 'z kernel_scheme) outcome" where
  "unlink_bad dp s = bindk (iunlockput dp s) (\<lambda>_ s. fail_op s)"

definition sys_unlink :: "'z kernel_scheme \<Rightarrow> (u64, 'z kernel_scheme) outcome" where
  "sys_unlink s =
    bindk (argstr 0 MAXPATH s) (\<lambda>(r, path) s.
    if r < 0 then Done (-1) s
    else
      bindk (begin_op ROOTDEV [] s) (\<lambda>_ s.
      bindk (nameiparent path (replicate DIRSIZ 0) s) (\<lambda>(r, name') s.
      case r of None \<Rightarrow> fail_op s
      | Some dp \<Rightarrow>
        bindk (ilock (Some dp) s) (\<lambda>_ s.
        if namecmp name' [46] = 0 \<or> namecmp name' [46, 46] = 0 then unlink_bad dp s
        else
          bindk (dirlookup dp name' s) (\<lambda>r s.
          case r of None \<Rightarrow> unlink_bad dp s
          | Some (ip, off) \<Rightarrow>
            bindk (ilock (Some ip) s) (\<lambda>_ s.
            if sint (inlink (inodes s ! ip)) < 1 then Panic ''unlink: nlink < 1'' s
            else
              bindk (if itype (inodes s ! ip) = T_DIR then isdirempty ip s else Done True s) (\<lambda>e s.
              if \<not> e then bindk (iunlockput ip s) (\<lambda>_ s. unlink_bad dp s)
              else
                bindk (writei dp (LocalSrc (replicate 16 0)) off 16 s) (\<lambda>r s.
                if r \<noteq> 16 then Panic ''unlink: writei'' s
                else
                  bindk (if itype (inodes s ! ip) = T_DIR
                         then iupdate dp (upd_inode dp (\<lambda>x. x\<lparr>inlink := inlink x - 1\<rparr>) s)
                         else Done () s) (\<lambda>_ s.
                  bindk (iunlockput dp s) (\<lambda>_ s.
                  bindk (iupdate ip (upd_inode ip (\<lambda>x. x\<lparr>inlink := inlink x - 1\<rparr>) s)) (\<lambda>_ s.
                  bindk (iunlockput ip s) (\<lambda>_ s.
                  bindk (end_op ROOTDEV s) (\<lambda>_ s. Done 0 s)))))))))))))"

section \<open>Creating and opening\<close>

text \<open>
  \<open>create\<close> returns the inode locked, or \<open>None\<close>.  \<open>ialloc\<close> never returns a null
  pointer (it panics instead), so the panic \<open>create: ialloc\<close> is unreachable and has
  no branch here.
\<close>

definition create :: "u8 list \<Rightarrow> u16 \<Rightarrow> u16 \<Rightarrow> u16 \<Rightarrow> 'z kernel_scheme \<Rightarrow> (nat option, 'z kernel_scheme) outcome" where
  "create path type major' minor' s =
    bindk (nameiparent path (replicate DIRSIZ 0) s) (\<lambda>(r, name') s.
    case r of None \<Rightarrow> Done None s
    | Some dp \<Rightarrow>
      bindk (ilock (Some dp) s) (\<lambda>_ s.
      bindk (dirlookup dp name' s) (\<lambda>r s.
      case r of
        Some (ip, _) \<Rightarrow>
          bindk (iunlockput dp s) (\<lambda>_ s.
          bindk (ilock (Some ip) s) (\<lambda>_ s.
          if type = T_FILE \<and> (itype (inodes s ! ip) = T_FILE \<or> itype (inodes s ! ip) = T_DEVICE)
          then Done (Some ip) s
          else bindk (iunlockput ip s) (\<lambda>_ s. Done None s)))
      | None \<Rightarrow>
          bindk (ialloc (idev (inodes s ! dp)) type s) (\<lambda>ip s.
          bindk (ilock (Some ip) s) (\<lambda>_ s.
          bindk (iupdate ip (upd_inode ip (\<lambda>x. x\<lparr>imajor := major', iminor := minor', inlink := 1\<rparr>) s)) (\<lambda>_ s.
          bindk (if type = T_DIR then
                   bindk (iupdate dp (upd_inode dp (\<lambda>x. x\<lparr>inlink := inlink x + 1\<rparr>) s)) (\<lambda>_ s.
                   bindk (dirlink ip [46] (inum (inodes s ! ip)) s) (\<lambda>r s.
                   if r < 0 then Panic ''create dots'' s
                   else
                     bindk (dirlink ip [46, 46] (inum (inodes s ! dp)) s) (\<lambda>r s.
                     if r < 0 then Panic ''create dots'' s else Done () s)))
                 else Done () s) (\<lambda>_ s.
          bindk (dirlink dp name' (inum (inodes s ! ip)) s) (\<lambda>r s.
          if r < 0 then Panic ''create: dirlink'' s
          else bindk (iunlockput dp s) (\<lambda>_ s. Done (Some ip) s)))))))))"

definition open_fail :: "nat \<Rightarrow> 'z kernel_scheme \<Rightarrow> (u64, 'z kernel_scheme) outcome" where
  "open_fail ip s = bindk (iunlockput ip s) (\<lambda>_ s. fail_op s)"

text \<open>\<open>sys_open\<close> from the check of the device number on; \<open>ip\<close> is locked.\<close>

definition open_inode :: "nat \<Rightarrow> u32 \<Rightarrow> 'z kernel_scheme \<Rightarrow> (u64, 'z kernel_scheme) outcome" where
  "open_inode ip omode s =
    (if itype (inodes s ! ip) = T_DEVICE \<and>
        (sint (imajor (inodes s ! ip)) < 0 \<or> NDEV \<le> sint (imajor (inodes s ! ip)))
     then open_fail ip s
     else
       bindk (filealloc s) (\<lambda>r s.
       case r of None \<Rightarrow> open_fail ip s
       | Some f \<Rightarrow>
         bindk (fdalloc f s) (\<lambda>fd s.
         if fd < 0 then bindk (fileclose f s) (\<lambda>_ s. open_fail ip s)
         else
           let x = inodes s ! ip;
               s = (if itype x = T_DEVICE
                    then upd_file f (\<lambda>y. y\<lparr>ftyp := FD_DEVICE, fmajor := imajor x, fminor := iminor x\<rparr>) s
                    else upd_file f (\<lambda>y. y\<lparr>ftyp := FD_INODE\<rparr>) s);
               s = upd_file f (\<lambda>y. y\<lparr>fip := ip, foff := 0, readable := (omode AND O_WRONLY = 0),
                     writable := (omode AND O_WRONLY \<noteq> 0 \<or> omode AND O_RDWR \<noteq> 0)\<rparr>) s
           in bindk (iunlock (Some ip) s) (\<lambda>_ s.
              bindk (end_op ROOTDEV s) (\<lambda>_ s. Done (of_int fd) s)))))"

definition sys_open :: "'z kernel_scheme \<Rightarrow> (u64, 'z kernel_scheme) outcome" where
  "sys_open s =
    bindk (argstr 0 MAXPATH s) (\<lambda>(n, path) s.
    if n < 0 then Done (-1) s
    else
      bindk (argint 1 s) (\<lambda>omode s.
      bindk (begin_op ROOTDEV [] s) (\<lambda>_ s.
      if omode AND O_CREATE \<noteq> 0 then
        bindk (create path T_FILE 0 0 s) (\<lambda>r s.
        case r of None \<Rightarrow> fail_op s | Some ip \<Rightarrow> open_inode ip omode s)
      else
        bindk (namei path s) (\<lambda>r s.
        case r of None \<Rightarrow> fail_op s
        | Some ip \<Rightarrow>
          bindk (ilock (Some ip) s) (\<lambda>_ s.
          if itype (inodes s ! ip) = T_DIR \<and> omode \<noteq> O_RDONLY then open_fail ip s
          else open_inode ip omode s)))))"

definition sys_mkdir :: "'z kernel_scheme \<Rightarrow> (u64, 'z kernel_scheme) outcome" where
  "sys_mkdir s =
    bindk (begin_op ROOTDEV [] s) (\<lambda>_ s.
    bindk (argstr 0 MAXPATH s) (\<lambda>(n, path) s.
    if n < 0 then fail_op s
    else
      bindk (create path T_DIR 0 0 s) (\<lambda>r s.
      case r of None \<Rightarrow> fail_op s
      | Some ip \<Rightarrow>
        bindk (iunlockput ip s) (\<lambda>_ s.
        bindk (end_op ROOTDEV s) (\<lambda>_ s. Done 0 s)))))"

definition sys_mknod :: "'z kernel_scheme \<Rightarrow> (u64, 'z kernel_scheme) outcome" where
  "sys_mknod s =
    bindk (begin_op ROOTDEV [] s) (\<lambda>_ s.
    bindk (argstr 0 MAXPATH s) (\<lambda>(n, path) s.
    if n < 0 then fail_op s
    else
      bindk (argint 1 s) (\<lambda>major' s.
      bindk (argint 2 s) (\<lambda>minor' s.
      bindk (create path T_DEVICE (ucast major') (ucast minor') s) (\<lambda>r s.
      case r of None \<Rightarrow> fail_op s
      | Some ip \<Rightarrow>
        bindk (iunlockput ip s) (\<lambda>_ s.
        bindk (end_op ROOTDEV s) (\<lambda>_ s. Done 0 s)))))))"

definition sys_chdir :: "'z kernel_scheme \<Rightarrow> (u64, 'z kernel_scheme) outcome" where
  "sys_chdir s =
    bindk (myproc s) (\<lambda>p s.
    bindk (begin_op ROOTDEV [] s) (\<lambda>_ s.
    bindk (argstr 0 MAXPATH s) (\<lambda>(n, path) s.
    if n < 0 then fail_op s
    else
      bindk (namei path s) (\<lambda>r s.
      case r of None \<Rightarrow> fail_op s
      | Some ip \<Rightarrow>
        bindk (ilock (Some ip) s) (\<lambda>_ s.
        if itype (inodes s ! ip) \<noteq> T_DIR then bindk (iunlockput ip s) (\<lambda>_ s. fail_op s)
        else
          bindk (iunlock (Some ip) s) (\<lambda>_ s.
          bindk (deref (cwd (procs s ! p)) s) (\<lambda>old s.
          bindk (iput old s) (\<lambda>_ s.
          bindk (end_op ROOTDEV s) (\<lambda>_ s.
          Done 0 (upd_proc p (\<lambda>q. q\<lparr>cwd := Some ip\<rparr>) s))))))))))"

section \<open>Programs and pipes\<close>

fun kfree_all :: "u64 list \<Rightarrow> 'z kmachine_scheme \<Rightarrow> (unit, 'z kmachine_scheme) outcome" where
  "kfree_all [] s = Done () s"
| "kfree_all (a # as) s = bindk (kfree a s) (\<lambda>_ s. kfree_all as s)"

text \<open>
  The argument loop of \<open>sys_exec\<close>; \<open>argv\<close> collects the pages, and the flag says
  whether the terminating null pointer was reached.
\<close>

fun exec_fetch :: "nat \<Rightarrow> u64 \<Rightarrow> u64 list \<Rightarrow> 'z pmachine_scheme \<Rightarrow> (bool \<times> u64 list, 'z pmachine_scheme) outcome" where
  "exec_fetch 0 uargv argv s = Done (False, argv) s"
| "exec_fetch (Suc k) uargv argv s =
    bindk (fetchaddr (uargv + 8 * of_nat (length argv)) s) (\<lambda>r s.
    case r of None \<Rightarrow> Done (False, argv) s
    | Some uarg \<Rightarrow>
      if uarg = 0 then Done (True, argv) s
      else
        bindk (kalloc s) (\<lambda>page s.
        if page = 0 then Panic ''sys_exec kalloc'' s
        else
          bindk (myproc s) (\<lambda>p s.
          bindk (copyinstr (pagetable (procs s ! p)) uarg 4096 s) (\<lambda>(err, buf) s.
          let s = s\<lparr>mem := store_bytes (mem s) page buf\<rparr> in
          if err < 0 then Done (False, argv @ [page]) s
          else exec_fetch k uargv (argv @ [page]) s))))"

definition sys_exec :: "'z kernel_scheme \<Rightarrow> (u64, 'z kernel_scheme) outcome" where
  "sys_exec s =
    bindk (argstr 0 MAXPATH s) (\<lambda>(n, path) s.
    if n < 0 then Done (-1) s
    else
      bindk (argaddr 1 s) (\<lambda>uargv s.
      bindk (exec_fetch MAXARG uargv [] s) (\<lambda>(ok, argv) s.
      if \<not> ok then bindk (kfree_all argv s) (\<lambda>_ s. Done (-1) s)
      else
        bindk (exec path argv s) (\<lambda>ret s.
        bindk (kfree_all argv s) (\<lambda>_ s. Done (of_int ret) s)))))"

definition clear_fd :: "nat \<Rightarrow> int \<Rightarrow> 'z kernel_scheme \<Rightarrow> 'z kernel_scheme" where
  "clear_fd p fd s = upd_proc p (\<lambda>q. q\<lparr>ofile := (ofile q)[nat fd := None]\<rparr>) s"

definition sys_pipe :: "'z kernel_scheme \<Rightarrow> (u64, 'z kernel_scheme) outcome" where
  "sys_pipe s =
    bindk (myproc s) (\<lambda>p s.
    bindk (argaddr 0 s) (\<lambda>fdarray s.
    bindk (pipealloc s) (\<lambda>r s.
    case r of None \<Rightarrow> Done (-1) s
    | Some (rfl, wfl) \<Rightarrow>
      bindk (fdalloc rfl s) (\<lambda>fd0 s.
      bindk (if fd0 < 0 then Done (-1) s else fdalloc wfl s) (\<lambda>fd1 s.
      if fd0 < 0 \<or> fd1 < 0 then
        let s = (if 0 \<le> fd0 then clear_fd p fd0 s else s) in
        bindk (fileclose rfl s) (\<lambda>_ s.
        bindk (fileclose wfl s) (\<lambda>_ s. Done (-1) s))
      else
        bindk (copyout (pagetable (procs s ! p)) fdarray (le_bytes 4 (nat fd0)) s) (\<lambda>r s.
        bindk (if r < 0 then Done (-1) s
               else copyout (pagetable (procs s ! p)) (fdarray + 4) (le_bytes 4 (nat fd1)) s) (\<lambda>r s.
        if r < 0 then
          let s = clear_fd p fd1 (clear_fd p fd0 s) in
          bindk (fileclose rfl s) (\<lambda>_ s.
          bindk (fileclose wfl s) (\<lambda>_ s. Done (-1) s))
        else Done 0 s)))))))"

end
