(* ===== verification/Trap.thy ===== *)
theory Trap
  imports Sysfile
begin

text \<open>
  \<open>kernel/trap.c\<close>, the dispatcher of \<open>kernel/syscall.c\<close>, \<open>kernel/plic.c\<close>,
  \<open>forkret\<close> and the boot sequence of \<open>kernel/main.c\<close>.  The state has the
  supervisor registers of the hart, the registers of the interrupt controller, and
  the input waiting in the UART.  The disk's interrupt handler, the disk's
  initialisation and the lock statistics work on state of their own (theories
  \<open>Virtio\<close> and \<open>Spinlock\<close>) and are arguments here.
\<close>

record hmachine = kernel +
  sstatus :: u64
  sepc :: u64
  scause :: u64
  stval :: u64
  stvec :: u64
  sip :: u64
  hartid :: u64
  plic :: "u64 \<Rightarrow> u32"
  uart_in :: "u8 list"
  first :: bool
  k_usertrap :: u64
  k_kernelvec :: u64
  k_uservec :: u64
  k_userret :: u64

type_synonym 'z henv = "'z hmachine_ext kenv"

definition SSTATUS_SPP :: u64 where "SSTATUS_SPP = push_bit 8 1"
definition SSTATUS_SPIE :: u64 where "SSTATUS_SPIE = push_bit 5 1"
definition SSTATUS_SIE :: u64 where "SSTATUS_SIE = push_bit 1 1"
definition UART0_IRQ :: u32 where "UART0_IRQ = 10"
definition VIRTIO0_IRQ :: u32 where "VIRTIO0_IRQ = 1"
definition VIRTIO1_IRQ :: u32 where "VIRTIO1_IRQ = 2"

definition intr_on :: "'z hmachine_scheme \<Rightarrow> 'z hmachine_scheme" where
  "intr_on s = s\<lparr>sstatus := sstatus s OR SSTATUS_SIE\<rparr>"

definition intr_off :: "'z hmachine_scheme \<Rightarrow> 'z hmachine_scheme" where
  "intr_off s = s\<lparr>sstatus := sstatus s AND NOT SSTATUS_SIE\<rparr>"

definition intr_get :: "'z hmachine_scheme \<Rightarrow> bool" where
  "intr_get s \<longleftrightarrow> sstatus s AND SSTATUS_SIE \<noteq> 0"

section \<open>The interrupt controller\<close>

definition PLIC_SENABLE :: "u64 \<Rightarrow> u64" where "PLIC_SENABLE hart = PLIC + 0x2080 + hart * 0x100"
definition PLIC_SPRIORITY :: "u64 \<Rightarrow> u64" where "PLIC_SPRIORITY hart = PLIC + 0x201000 + hart * 0x2000"
definition PLIC_SCLAIM :: "u64 \<Rightarrow> u64" where "PLIC_SCLAIM hart = PLIC + 0x201004 + hart * 0x2000"

definition plicinit :: "'z hmachine_scheme \<Rightarrow> 'z hmachine_scheme" where
  "plicinit s = s\<lparr>plic := (plic s)(PLIC + ucast UART0_IRQ * 4 := 1, PLIC + ucast VIRTIO0_IRQ * 4 := 1)\<rparr>"

definition plicinithart :: "'z hmachine_scheme \<Rightarrow> 'z hmachine_scheme" where
  "plicinithart s = s\<lparr>plic := (plic s)(
     PLIC_SENABLE (hartid s) := push_bit (unat UART0_IRQ) 1 OR push_bit (unat VIRTIO0_IRQ) 1,
     PLIC_SPRIORITY (hartid s) := 0)\<rparr>"

definition plic_claim :: "'z hmachine_scheme \<Rightarrow> u32" where
  "plic_claim s = plic s (PLIC_SCLAIM (hartid s))"

definition plic_complete :: "u32 \<Rightarrow> 'z hmachine_scheme \<Rightarrow> 'z hmachine_scheme" where
  "plic_complete irq s = s\<lparr>plic := (plic s)(PLIC_SCLAIM (hartid s) := irq)\<rparr>"

section \<open>System calls\<close>

datatype sysno =
    SYS_fork | SYS_exit | SYS_wait | SYS_pipe | SYS_read | SYS_kill | SYS_exec | SYS_fstat
  | SYS_chdir | SYS_dup | SYS_getpid | SYS_sbrk | SYS_sleep | SYS_uptime | SYS_open | SYS_write
  | SYS_mknod | SYS_unlink | SYS_link | SYS_mkdir | SYS_close | SYS_ntas

text \<open>The table \<open>syscalls\<close>, in the order of the numbers 1, 2, ...\<close>

definition syscalls :: "sysno list" where
  "syscalls = [SYS_fork, SYS_exit, SYS_wait, SYS_pipe, SYS_read, SYS_kill, SYS_exec, SYS_fstat,
     SYS_chdir, SYS_dup, SYS_getpid, SYS_sbrk, SYS_sleep, SYS_uptime, SYS_open, SYS_write,
     SYS_mknod, SYS_unlink, SYS_link, SYS_mkdir, SYS_close, SYS_ntas]"

fun run_syscall :: "('z kernel_scheme \<Rightarrow> (u64, 'z kernel_scheme) outcome) \<Rightarrow> sysno \<Rightarrow> 'z kenv list \<Rightarrow>
    'z kernel_scheme \<Rightarrow> (u64, 'z kernel_scheme) outcome" where
  "run_syscall ntas SYS_fork envs s = sys_fork s"
| "run_syscall ntas SYS_exit envs s = sys_exit s"
| "run_syscall ntas SYS_wait envs s = sys_wait envs s"
| "run_syscall ntas SYS_pipe envs s = sys_pipe s"
| "run_syscall ntas SYS_read envs s = sys_read envs s"
| "run_syscall ntas SYS_kill envs s = sys_kill s"
| "run_syscall ntas SYS_exec envs s = sys_exec s"
| "run_syscall ntas SYS_fstat envs s = sys_fstat s"
| "run_syscall ntas SYS_chdir envs s = sys_chdir s"
| "run_syscall ntas SYS_dup envs s = sys_dup s"
| "run_syscall ntas SYS_getpid envs s = sys_getpid s"
| "run_syscall ntas SYS_sbrk envs s = sys_sbrk s"
| "run_syscall ntas SYS_sleep envs s = sys_sleep envs s"
| "run_syscall ntas SYS_uptime envs s = sys_uptime s"
| "run_syscall ntas SYS_open envs s = sys_open s"
| "run_syscall ntas SYS_write envs s = sys_write envs s"
| "run_syscall ntas SYS_mknod envs s = sys_mknod s"
| "run_syscall ntas SYS_unlink envs s = sys_unlink s"
| "run_syscall ntas SYS_link envs s = sys_link s"
| "run_syscall ntas SYS_mkdir envs s = sys_mkdir s"
| "run_syscall ntas SYS_close envs s = sys_close s"
| "run_syscall ntas SYS_ntas envs s = ntas s"

definition syscall :: "('z kernel_scheme \<Rightarrow> (u64, 'z kernel_scheme) outcome) \<Rightarrow> 'z kenv list \<Rightarrow>
    'z kernel_scheme \<Rightarrow> (unit, 'z kernel_scheme) outcome" where
  "syscall ntas envs s =
    bindk (myproc s) (\<lambda>p s.
    let num = sint (ucast (get_tf p (tf_a 7) s) :: u32) in
    if 0 < num \<and> num < int (length syscalls) + 1 then
      bindk (run_syscall ntas (syscalls ! (nat num - 1)) envs s) (\<lambda>r s.
        Done () (set_tf p (tf_a 0) r s))
    else
      bindk (printf (Some (ascii ''%d %s: unknown sys call %d'' @ [10]))
        [ArgInt (of_int (pid (procs s ! p))), ArgStr (Some (name (procs s ! p))), ArgInt (of_int num)] s) (\<lambda>_ s.
      Done () (set_tf p (tf_a 0) (-1) s)))"

section \<open>Traps\<close>

definition trapinithart :: "'z hmachine_scheme \<Rightarrow> 'z hmachine_scheme" where
  "trapinithart s = s\<lparr>stvec := k_kernelvec s\<rparr>"

definition clockintr :: "'z kernel_scheme \<Rightarrow> (unit, 'z kernel_scheme) outcome" where
  "clockintr s =
    bindk (acquire LTicks s) (\<lambda>_ s.
    let s = s\<lparr>ticks := ticks s + 1\<rparr> in
    bindk (wakeup ChanTicks s) (\<lambda>_ s. release LTicks s))"

definition devintr :: "(nat \<Rightarrow> 'z hmachine_scheme \<Rightarrow> (unit, 'z hmachine_scheme) outcome) \<Rightarrow>
    'z hmachine_scheme \<Rightarrow> (int, 'z hmachine_scheme) outcome" where
  "devintr disk_intr s =
    (if scause s AND 0x8000000000000000 \<noteq> 0 \<and> scause s AND 0xff = 9 then
       let irq = plic_claim s in
       bindk (if irq = UART0_IRQ then uartintr (uart_in s) (s\<lparr>uart_in := []\<rparr>)
              else if irq = VIRTIO0_IRQ \<or> irq = VIRTIO1_IRQ then disk_intr (unat (irq - VIRTIO0_IRQ)) s
              else Done () s) (\<lambda>_ s.
       Done 1 (if irq \<noteq> 0 then plic_complete irq s else s))
     else if scause s = 0x8000000000000001 then
       bindk (if hartid s = 0 then clockintr s else Done () s) (\<lambda>_ s.
       Done 2 (s\<lparr>sip := sip s AND NOT 2\<rparr>))
     else Done 0 s)"

text \<open>The result of \<open>usertrapret\<close> is the two arguments it jumps to \<open>userret\<close> with.\<close>

definition usertrapret :: "'z hmachine_scheme \<Rightarrow> (u64 \<times> u64, 'z hmachine_scheme) outcome" where
  "usertrapret s =
    bindk (myproc s) (\<lambda>p s.
    let s = intr_off s;
        s = s\<lparr>stvec := TRAMPOLINE + (k_uservec s - k_trampoline s)\<rparr>;
        s = set_tf p tf_kernel_satp (satp s) s;
        s = set_tf p tf_kernel_sp (kstack (procs s ! p) + PGSIZE) s;
        s = set_tf p tf_kernel_trap (k_usertrap s) s;
        s = set_tf p tf_kernel_hartid (hartid s) s;
        s = s\<lparr>sstatus := (sstatus s AND NOT SSTATUS_SPP) OR SSTATUS_SPIE\<rparr>;
        s = s\<lparr>sepc := get_tf p tf_epc s\<rparr>
    in Done (TRAPFRAME, MAKE_SATP (pagetable (procs s ! p))) s)"

definition intr_desc :: "string list" where
  "intr_desc = [''user software interrupt'', ''supervisor software interrupt'',
     ''<reserved for future standard use>'', ''<reserved for future standard use>'',
     ''user timer interrupt'', ''supervisor timer interrupt'',
     ''<reserved for future standard use>'', ''<reserved for future standard use>'',
     ''user external interrupt'', ''supervisor external interrupt''] @
     replicate 6 ''<reserved for future standard use>''"

definition nointr_desc :: "string list" where
  "nointr_desc = [''instruction address misaligned'', ''instruction access fault'',
     ''illegal instruction'', ''breakpoint'', ''load address misaligned'', ''load access fault'',
     ''store/AMO address misaligned'', ''store/AMO access fault'', ''environment call from U-mode'',
     ''environment call from S-mode'', ''<reserved for future standard use>'',
     ''<reserved for future standard use>'', ''instruction page fault'', ''load page fault'',
     ''<reserved for future standard use>'', ''store/AMO page fault'']"

definition scause_desc :: "u64 \<Rightarrow> string" where
  "scause_desc stval' =
    (let interrupt = stval' AND 0x8000000000000000;
         code = unat (stval' AND NOT 0x8000000000000000)
     in if interrupt \<noteq> 0 then
          (if code < length intr_desc then intr_desc ! code else ''<reserved for platform use>'')
        else if code < length nointr_desc then nointr_desc ! code
        else if code \<le> 23 then ''<reserved for future standard use>''
        else if code \<le> 31 then ''<reserved for custom use>''
        else if code \<le> 47 then ''<reserved for future standard use>''
        else if code \<le> 63 then ''<reserved for custom use>''
        else ''<reserved for future standard use>'')"

definition usertrap :: "(nat \<Rightarrow> 'z hmachine_scheme \<Rightarrow> (unit, 'z hmachine_scheme) outcome) \<Rightarrow>
    ('z hmachine_scheme \<Rightarrow> (u64, 'z hmachine_scheme) outcome) \<Rightarrow> 'z henv list \<Rightarrow> 'z henv list \<Rightarrow>
    'z hmachine_scheme \<Rightarrow> (u64 \<times> u64, 'z hmachine_scheme) outcome" where
  "usertrap disk_intr ntas envs yenvs s =
    (if sstatus s AND SSTATUS_SPP \<noteq> 0 then Panic ''usertrap: not from user mode'' s
     else
       let s = s\<lparr>stvec := k_kernelvec s\<rparr> in
       bindk (myproc s) (\<lambda>p s.
       let s = set_tf p tf_epc (sepc s) s in
       bindk
         (if scause s = 8 then
            bindk (if killed (procs s ! p) then exit (-1) s else Done () s) (\<lambda>_ s.
            let s = set_tf p tf_epc (get_tf p tf_epc s + 4) s;
                s = intr_on s
            in bindk (syscall ntas envs s) (\<lambda>_ s. Done 0 s))
          else
            bindk (devintr disk_intr s) (\<lambda>which s.
            if which \<noteq> 0 then Done which s
            else
              bindk (printf (Some (ascii ''usertrap(): unexpected scause %p (%s) pid=%d'' @ [10]))
                [ArgPtr (scause s), ArgStr (Some (ascii (scause_desc (scause s)))),
                 ArgInt (of_int (pid (procs s ! p)))] s) (\<lambda>_ s.
              bindk (printf (Some (ascii ''            sepc=%p stval=%p'' @ [10]))
                [ArgPtr (sepc s), ArgPtr (stval s)] s) (\<lambda>_ s.
              Done 0 (upd_proc p (\<lambda>q. q\<lparr>killed := True\<rparr>) s))))) (\<lambda>which_dev s.
       bindk (if killed (procs s ! p) then exit (-1) s else Done () s) (\<lambda>_ s.
       bindk (if which_dev = 2 then yield yenvs s else Done [] s) (\<lambda>_ s.
       usertrapret s)))))"

definition kerneltrap :: "(nat \<Rightarrow> 'z hmachine_scheme \<Rightarrow> (unit, 'z hmachine_scheme) outcome) \<Rightarrow>
    'z henv list \<Rightarrow> 'z hmachine_scheme \<Rightarrow> (unit, 'z hmachine_scheme) outcome" where
  "kerneltrap disk_intr yenvs s =
    (let sepc' = sepc s; sstatus' = sstatus s; scause' = scause s in
     if sstatus' AND SSTATUS_SPP = 0 then Panic ''kerneltrap: not from supervisor mode'' s
     else if intr_get s then Panic ''kerneltrap: interrupts enabled'' s
     else
       bindk (devintr disk_intr s) (\<lambda>which_dev s.
       if which_dev = 0 then
         bindk (printf (Some (ascii ''scause %p (%s)'' @ [10]))
           [ArgPtr scause', ArgStr (Some (ascii (scause_desc scause')))] s) (\<lambda>_ s.
         bindk (printf (Some (ascii ''sepc=%p stval=%p'' @ [10])) [ArgPtr (sepc s), ArgPtr (stval s)] s) (\<lambda>_ s.
         Panic ''kerneltrap'' s))
       else
         bindk (if which_dev = 2 then
                  (case cur s of
                    None \<Rightarrow> Done [] s
                  | Some p \<Rightarrow> if state (procs s ! p) = RUNNING then yield yenvs s else Done [] s)
                else Done [] s) (\<lambda>_ s.
         Done () (s\<lparr>sepc := sepc', sstatus := sstatus'\<rparr>))))"

definition forkret :: "'z hmachine_scheme \<Rightarrow> (u64 \<times> u64, 'z hmachine_scheme) outcome" where
  "forkret s =
    bindk (myproc s) (\<lambda>p s.
    bindk (release (LProc p) s) (\<lambda>_ s.
    bindk (if first s then fsinit ROOTDEV (s\<lparr>first := False\<rparr>) else Done () s) (\<lambda>_ s.
    usertrapret s)))"

section \<open>Boot\<close>

text \<open>The boot sequence of hart 0, up to \<open>scheduler\<close>.\<close>

definition main_boot :: "('z hmachine_scheme \<Rightarrow> (unit, 'z hmachine_scheme) outcome) \<Rightarrow>
    'z hmachine_scheme \<Rightarrow> (unit, 'z hmachine_scheme) outcome" where
  "main_boot virtio_disk_init s =
    (let s = consoleinit s; s = printfinit s in
     bindk (printf (Some [10]) [] s) (\<lambda>_ s.
     bindk (printf (Some (ascii ''xv6 kernel is booting'' @ [10])) [] s) (\<lambda>_ s.
     bindk (printf (Some [10]) [] s) (\<lambda>_ s.
     bindk (kinit s) (\<lambda>_ s.
     bindk (kvminit s) (\<lambda>_ s.
     bindk (kvminithart s) (\<lambda>_ s.
     bindk (procinit s) (\<lambda>_ s.
     let s = trapinithart s; s = plicinit s; s = plicinithart s; s = binit s; s = iinit s
     in bindk (virtio_disk_init s) (\<lambda>_ s. userinit s)))))))))"

end
