(* ===== verification/Dll.thy ===== *)
theory Dll
  imports Prelude
begin

text \<open>
  Circular doubly linked lists, given by their \<open>next\<close> and \<open>prev\<close> functions: the
  LRU list of the buffer cache and the lists of \<open>kernel/list.c\<close>.
\<close>

text \<open>\<open>path f a xs b\<close>: following \<open>f\<close> from \<open>a\<close> visits \<open>xs\<close> and then reaches \<open>b\<close>.\<close>

primrec path :: "('n \<Rightarrow> 'n) \<Rightarrow> 'n \<Rightarrow> 'n list \<Rightarrow> 'n \<Rightarrow> bool" where
  "path f a [] b \<longleftrightarrow> f a = b"
| "path f a (x # xs) b \<longleftrightarrow> f a = x \<and> path f x xs b"

definition dll :: "('n \<Rightarrow> 'n) \<Rightarrow> ('n \<Rightarrow> 'n) \<Rightarrow> 'n \<Rightarrow> 'n list \<Rightarrow> bool" where
  "dll nxt prv h xs \<longleftrightarrow> distinct (h # xs) \<and> path nxt h xs h \<and> path prv h (rev xs) h"

lemma path_append [simp]: "path f a (xs @ x # ys) b \<longleftrightarrow> path f a xs x \<and> path f x ys b"
  by (induction xs arbitrary: a) auto

lemma path_cong:
  assumes "\<And>x. x \<in> set (a # xs) \<Longrightarrow> f x = g x"
  shows "path f a xs b = path g a xs b"
  using assms by (induction xs arbitrary: a) auto

lemma path_upd [simp]: "x \<noteq> a \<Longrightarrow> x \<notin> set xs \<Longrightarrow> path (f(x := y)) a xs b = path f a xs b"
  by (rule path_cong) auto

lemma path_last: "path f a xs b \<Longrightarrow> f (last (a # xs)) = b"
  by (induction xs arbitrary: a) auto

lemma path_redirect:
  assumes "path f a xs b" and "distinct (a # xs)"
  shows "path (f(last (a # xs) := c)) a xs c"
  using assms
proof (induction xs arbitrary: a)
  case (Cons x xs)
  have "last (x # xs) \<in> set (x # xs)" by (rule last_in_set) simp
  then have "a \<noteq> last (x # xs)" using Cons.prems(2) by auto
  then show ?case using Cons by auto
qed simp

text \<open>Splicing a node out of a path.\<close>

lemma path_splice:
  assumes "path f a xs b" and "path f b ys c" and "distinct (a # xs @ b # ys)"
  shows "path (f(last (a # xs) := f b)) a (xs @ ys) c"
proof -
  let ?p = "last (a # xs)"
  have p: "?p \<in> set (a # xs)" by (rule last_in_set) simp
  have 1: "path (f(?p := f b)) a xs (f b)"
    using assms by (intro path_redirect) auto
  show ?thesis
  proof (cases ys)
    case Nil
    then show ?thesis using 1 assms(2) by simp
  next
    case (Cons y zs)
    then have "path f y zs c" "f b = y" using assms(2) by auto
    moreover have "?p \<noteq> y" "?p \<notin> set zs" using p assms(3) Cons by auto
    ultimately show ?thesis using 1 Cons by (simp del: last.simps)
  qed
qed

lemma dll_links:
  assumes "dll nxt prv h (xs @ b # ys)"
  shows "nxt b = hd (ys @ [h])" and "prv b = last (h # xs)"
proof -
  have n: "path nxt b ys h" and p: "path prv b (rev xs) h"
    using assms by (auto simp: dll_def)
  show "nxt b = hd (ys @ [h])" using n by (cases ys) auto
  show "prv b = last (h # xs)" using p by (cases xs rule: rev_cases) auto
qed

lemma dll_remove:
  assumes "dll nxt prv h (xs @ b # ys)"
  shows "dll (nxt(prv b := nxt b)) (prv(nxt b := prv b)) h (xs @ ys)"
proof -
  note d = assms[unfolded dll_def]
  have "last (h # rev ys) = nxt b"
    using dll_links(1) [OF assms] by (cases ys) auto
  moreover have "path (nxt(last (h # xs) := nxt b)) h (xs @ ys) h"
    using d by (intro path_splice) auto
  moreover have "path (prv(last (h # rev ys) := prv b)) h (rev ys @ rev xs) h"
    using d by (intro path_splice) auto
  ultimately show ?thesis
    using d dll_links(2) [OF assms] by (simp add: dll_def)
qed

lemma dll_insert:
  assumes "dll nxt prv h xs" and "b \<noteq> h" and "b \<notin> set xs"
  shows "dll (nxt(b := nxt h, h := b)) (prv(b := h, nxt h := b)) h (b # xs)"
proof (cases xs)
  case Nil
  then show ?thesis using assms by (auto simp: dll_def)
next
  case (Cons x ys)
  then have d: "nxt h = x" "path nxt x ys h" "path prv h (rev ys) x" "prv x = h"
    "distinct (h # b # x # ys)"
    using assms by (auto simp: dll_def)
  then have "path (prv(b := h, x := b)) h (rev ys) x" by (subst path_upd, force, force)+
  then show ?thesis using d Cons by (auto simp: dll_def)
qed

lemma dll_empty: "nxt h = h \<Longrightarrow> prv h = h \<Longrightarrow> dll nxt prv h []"
  by (simp add: dll_def)

lemma dll_cong:
  assumes "\<And>x. x \<in> set (h # xs) \<Longrightarrow> nxt x = nxt' x" and "\<And>x. x \<in> set (h # xs) \<Longrightarrow> prv x = prv' x"
  shows "dll nxt prv h xs = dll nxt' prv' h xs"
  using path_cong [of h xs nxt nxt' h] path_cong [of h "rev xs" prv prv' h] assms
  by (auto simp: dll_def)

text \<open>Walking the list: a search along \<open>next\<close> or \<open>prev\<close> is a search in the list.\<close>

fun search :: "nat \<Rightarrow> ('n \<Rightarrow> 'n) \<Rightarrow> ('n \<Rightarrow> bool) \<Rightarrow> 'n \<Rightarrow> 'n \<Rightarrow> 'n option option" where
  "search 0 f P h b = None"
| "search (Suc fuel) f P h b =
    (if b = h then Some None else if P b then Some (Some b) else search fuel f P h (f b))"

lemma search_path:
  assumes "path f a xs h" and "distinct (h # xs)" and "length xs < fuel"
  shows "search fuel f P h (f a) = Some (find P xs)"
  using assms
proof (induction xs arbitrary: a fuel)
  case Nil
  then show ?case by (cases fuel) auto
next
  case (Cons x xs)
  then obtain k where "fuel = Suc k" by (cases fuel) auto
  then show ?case using Cons by auto
qed

lemma search_next: "dll nxt prv h xs \<Longrightarrow> length xs < fuel \<Longrightarrow> search fuel nxt P h (nxt h) = Some (find P xs)"
  by (rule search_path) (auto simp: dll_def)

lemma search_prev: "dll nxt prv h xs \<Longrightarrow> length xs < fuel \<Longrightarrow> search fuel prv P h (prv h) = Some (find P (rev xs))"
  by (rule search_path) (auto simp: dll_def)

end
