(* ===== verification/Bcache.thy ===== *)
theory Bcache
  imports Bio Dll
begin

text \<open>
  Correctness of the buffer cache.  The invariant \<open>binv s H\<close> says that the LRU
  list is a well-formed circular list of all buffers, that a buffer which is in use
  or holds data is the first one of its block in that list (so a search finds it),
  that a valid buffer without references agrees with the disk, and that the buffers
  locked by the running process are those in \<open>H\<close>.

  The state is seen through two functions of the block \<open>k\<close> (a pair of device and
  block number): \<open>view s k\<close> is the content that \<open>bread\<close> delivers, and
  \<open>rc s k\<close> is the reference count of the block.
\<close>

section \<open>Normal form of updates\<close>

text \<open>Updates of different fields are kept in the order of the fields.\<close>

lemma buf_upd_order [simp]:
  "b\<lparr>bdev := v1, valid := v0\<rparr> = b\<lparr>valid := v0, bdev := v1\<rparr>"
  "b\<lparr>blockno := v2, valid := v0\<rparr> = b\<lparr>valid := v0, blockno := v2\<rparr>"
  "b\<lparr>refcnt := v3, valid := v0\<rparr> = b\<lparr>valid := v0, refcnt := v3\<rparr>"
  "b\<lparr>bprev := v4, valid := v0\<rparr> = b\<lparr>valid := v0, bprev := v4\<rparr>"
  "b\<lparr>bnext := v5, valid := v0\<rparr> = b\<lparr>valid := v0, bnext := v5\<rparr>"
  "b\<lparr>bdata := v6, valid := v0\<rparr> = b\<lparr>valid := v0, bdata := v6\<rparr>"
  "b\<lparr>blockno := v2, bdev := v1\<rparr> = b\<lparr>bdev := v1, blockno := v2\<rparr>"
  "b\<lparr>refcnt := v3, bdev := v1\<rparr> = b\<lparr>bdev := v1, refcnt := v3\<rparr>"
  "b\<lparr>bprev := v4, bdev := v1\<rparr> = b\<lparr>bdev := v1, bprev := v4\<rparr>"
  "b\<lparr>bnext := v5, bdev := v1\<rparr> = b\<lparr>bdev := v1, bnext := v5\<rparr>"
  "b\<lparr>bdata := v6, bdev := v1\<rparr> = b\<lparr>bdev := v1, bdata := v6\<rparr>"
  "b\<lparr>refcnt := v3, blockno := v2\<rparr> = b\<lparr>blockno := v2, refcnt := v3\<rparr>"
  "b\<lparr>bprev := v4, blockno := v2\<rparr> = b\<lparr>blockno := v2, bprev := v4\<rparr>"
  "b\<lparr>bnext := v5, blockno := v2\<rparr> = b\<lparr>blockno := v2, bnext := v5\<rparr>"
  "b\<lparr>bdata := v6, blockno := v2\<rparr> = b\<lparr>blockno := v2, bdata := v6\<rparr>"
  "b\<lparr>bprev := v4, refcnt := v3\<rparr> = b\<lparr>refcnt := v3, bprev := v4\<rparr>"
  "b\<lparr>bnext := v5, refcnt := v3\<rparr> = b\<lparr>refcnt := v3, bnext := v5\<rparr>"
  "b\<lparr>bdata := v6, refcnt := v3\<rparr> = b\<lparr>refcnt := v3, bdata := v6\<rparr>"
  "b\<lparr>bnext := v5, bprev := v4\<rparr> = b\<lparr>bprev := v4, bnext := v5\<rparr>"
  "b\<lparr>bdata := v6, bprev := v4\<rparr> = b\<lparr>bprev := v4, bdata := v6\<rparr>"
  "b\<lparr>bdata := v6, bnext := v5\<rparr> = b\<lparr>bnext := v5, bdata := v6\<rparr>"
  by simp_all

lemma bmachine_upd_order [simp]:
  fixes s :: "'z bmachine_scheme"
  shows
  "s\<lparr>procs := v1, held := v0\<rparr> = s\<lparr>held := v0, procs := v1\<rparr>"
  "s\<lparr>sleeplocks := v2, held := v0\<rparr> = s\<lparr>held := v0, sleeplocks := v2\<rparr>"
  "s\<lparr>bufs := v3, held := v0\<rparr> = s\<lparr>held := v0, bufs := v3\<rparr>"
  "s\<lparr>disk := v4, held := v0\<rparr> = s\<lparr>held := v0, disk := v4\<rparr>"
  "s\<lparr>disk_trace := v5, held := v0\<rparr> = s\<lparr>held := v0, disk_trace := v5\<rparr>"
  "s\<lparr>sleeplocks := v2, procs := v1\<rparr> = s\<lparr>procs := v1, sleeplocks := v2\<rparr>"
  "s\<lparr>bufs := v3, procs := v1\<rparr> = s\<lparr>procs := v1, bufs := v3\<rparr>"
  "s\<lparr>disk := v4, procs := v1\<rparr> = s\<lparr>procs := v1, disk := v4\<rparr>"
  "s\<lparr>disk_trace := v5, procs := v1\<rparr> = s\<lparr>procs := v1, disk_trace := v5\<rparr>"
  "s\<lparr>bufs := v3, sleeplocks := v2\<rparr> = s\<lparr>sleeplocks := v2, bufs := v3\<rparr>"
  "s\<lparr>disk := v4, sleeplocks := v2\<rparr> = s\<lparr>sleeplocks := v2, disk := v4\<rparr>"
  "s\<lparr>disk_trace := v5, sleeplocks := v2\<rparr> = s\<lparr>sleeplocks := v2, disk_trace := v5\<rparr>"
  "s\<lparr>disk := v4, bufs := v3\<rparr> = s\<lparr>bufs := v3, disk := v4\<rparr>"
  "s\<lparr>disk_trace := v5, bufs := v3\<rparr> = s\<lparr>bufs := v3, disk_trace := v5\<rparr>"
  "s\<lparr>disk_trace := v5, disk := v4\<rparr> = s\<lparr>disk := v4, disk_trace := v5\<rparr>"
  by simp_all

lemma held_nil_id [simp]: "held s = [] \<Longrightarrow> s\<lparr>held := []\<rparr> = s"
  by (rule hart.equality) simp_all

lemma buf_valid_id [simp]: "valid b \<Longrightarrow> b\<lparr>valid := True\<rparr> = b"
  by (rule buf.equality) simp_all

declare bget_cached.simps [simp del] bget_unused.simps [simp del] search.simps [simp del]

type_synonym bkey = "u32 \<times> u32"

definition key :: "buf \<Rightarrow> bkey" where
  "key x = (bdev x, blockno x)"

lemma key_upd [simp]:
  "key (x\<lparr>valid := v\<rparr>) = key x" "key (x\<lparr>refcnt := r\<rparr>) = key x" "key (x\<lparr>bdata := d\<rparr>) = key x"
  "key (x\<lparr>bprev := i\<rparr>) = key x" "key (x\<lparr>bnext := i\<rparr>) = key x"
  by (simp_all add: key_def)

definition live :: "buf \<Rightarrow> bool" where
  "live x \<longleftrightarrow> valid x \<or> refcnt x \<noteq> 0"

definition cache_ok :: "buf list \<Rightarrow> nat list \<Rightarrow> bool" where
  "cache_ok bs order \<longleftrightarrow>
    length bs = NBUF + 1 \<and> set order = {0..<NBUF} \<and>
    dll (\<lambda>i. bnext (bs ! i)) (\<lambda>i. bprev (bs ! i)) NBUF order \<and>
    (\<forall>i<NBUF. live (bs ! i) \<longrightarrow> find (\<lambda>j. key (bs ! j) = key (bs ! i)) order = Some i)"

definition bview :: "buf list \<Rightarrow> (u32 \<Rightarrow> u32 \<Rightarrow> u8 list) \<Rightarrow> bkey \<Rightarrow> u8 list" where
  "bview bs dsk k =
    (case find (\<lambda>i. valid (bs ! i) \<and> key (bs ! i) = k) [0..<NBUF] of
      Some i \<Rightarrow> bdata (bs ! i) | None \<Rightarrow> dsk (fst k) (snd k))"

definition brc :: "buf list \<Rightarrow> bkey \<Rightarrow> u32" where
  "brc bs k =
    (case find (\<lambda>i. refcnt (bs ! i) \<noteq> 0 \<and> key (bs ! i) = k) [0..<NBUF] of
      Some i \<Rightarrow> refcnt (bs ! i) | None \<Rightarrow> 0)"

section \<open>Lemmas on the buffer array\<close>

lemma find_None_upt: "find P [0..<n] = None \<longleftrightarrow> (\<forall>i<n. \<not> P i)"
  unfolding find_None_iff by auto

lemma find_upt_unique:
  assumes "i < n" and "P i" and "\<And>j. j < n \<Longrightarrow> P j \<Longrightarrow> j = i"
  shows "find P [0..<n] = Some i"
proof (cases "find P [0..<n]")
  case None
  then show ?thesis using assms(1,2) by (simp add: find_None_upt)
next
  case (Some j)
  then have "j < n" "P j" unfolding find_Some_iff by auto
  then show ?thesis using Some assms(3) [of j] by simp
qed

lemma find_in_set: "find P xs = Some b \<Longrightarrow> b \<in> set xs \<and> P b"
  by (induction xs) (auto split: if_splits)

lemma find_self: "b \<in> set xs \<Longrightarrow> find (\<lambda>j. j = b) xs = Some b"
  by (induction xs) auto

lemma find_filter_upd:
  assumes "find P xs = Some i" and "\<And>j. j \<noteq> b \<Longrightarrow> Q j = P j" and "\<not> Q b" and "i \<noteq> b"
  shows "find Q xs = Some i"
  using assms(1)
proof (induction xs)
  case (Cons x xs)
  show ?case
  proof (cases "x = b")
    case True
    then show ?thesis using Cons assms(2-4) by (auto split: if_splits)
  next
    case False
    then show ?thesis using Cons assms(2) by (auto split: if_splits)
  qed
qed simp

lemma live_unique:
  assumes "cache_ok bs order" "i < NBUF" "j < NBUF" "live (bs ! i)" "live (bs ! j)" "key (bs ! i) = key (bs ! j)"
  shows "i = j"
proof -
  have "find (\<lambda>k. key (bs ! k) = key (bs ! i)) order = Some i"
    "find (\<lambda>k. key (bs ! k) = key (bs ! j)) order = Some j"
    using assms(1-5) unfolding cache_ok_def by blast+
  then have "Some i = Some j" unfolding assms(6) by simp
  then show ?thesis by simp
qed

lemma bview_hit:
  assumes "cache_ok bs order" "i < NBUF" "valid (bs ! i)" "key (bs ! i) = k"
  shows "bview bs dsk k = bdata (bs ! i)"
proof -
  have "j = i" if "j < NBUF" "valid (bs ! j) \<and> key (bs ! j) = k" for j
    using live_unique [OF assms(1), of j i] that assms(2-4) by (simp add: live_def)
  then have "find (\<lambda>i. valid (bs ! i) \<and> key (bs ! i) = k) [0..<NBUF] = Some i"
    using assms(2-4) by (intro find_upt_unique) blast+
  then show ?thesis by (simp add: bview_def)
qed

lemma bview_miss:
  assumes "\<And>i. i < NBUF \<Longrightarrow> valid (bs ! i) \<Longrightarrow> key (bs ! i) \<noteq> k"
  shows "bview bs dsk k = dsk (fst k) (snd k)"
proof -
  have "find (\<lambda>i. valid (bs ! i) \<and> key (bs ! i) = k) [0..<NBUF] = None"
    using assms by (auto simp: find_None_upt)
  then show ?thesis by (simp add: bview_def)
qed

lemma brc_hit:
  assumes "cache_ok bs order" "i < NBUF" "refcnt (bs ! i) \<noteq> 0" "key (bs ! i) = k"
  shows "brc bs k = refcnt (bs ! i)"
proof -
  have "j = i" if "j < NBUF" "refcnt (bs ! j) \<noteq> 0 \<and> key (bs ! j) = k" for j
    using live_unique [OF assms(1), of j i] that assms(2-4) by (simp add: live_def)
  then have "find (\<lambda>i. refcnt (bs ! i) \<noteq> 0 \<and> key (bs ! i) = k) [0..<NBUF] = Some i"
    using assms(2-4) by (intro find_upt_unique) blast+
  then show ?thesis by (simp add: brc_def)
qed

lemma brc_miss:
  assumes "\<And>i. i < NBUF \<Longrightarrow> refcnt (bs ! i) \<noteq> 0 \<Longrightarrow> key (bs ! i) \<noteq> k"
  shows "brc bs k = 0"
proof -
  have "find (\<lambda>i. refcnt (bs ! i) \<noteq> 0 \<and> key (bs ! i) = k) [0..<NBUF] = None"
    using assms by (auto simp: find_None_upt)
  then show ?thesis by (simp add: brc_def)
qed

lemma cache_ok_upd:
  assumes ok: "cache_ok bs order" and b: "b < NBUF"
    and links: "bnext x = bnext (bs ! b)" "bprev x = bprev (bs ! b)"
    and key: "key x = key (bs ! b) \<or> (\<forall>i<NBUF. i \<noteq> b \<longrightarrow> key (bs ! i) \<noteq> key x)"
    and first: "live x \<Longrightarrow> find (\<lambda>j. key (bs[b := x] ! j) = key x) order = Some b"
  shows "cache_ok (bs[b := x]) order"
proof -
  have len: "length bs = NBUF + 1" and ord: "set order = {0..<NBUF}"
    using ok by (auto simp: cache_ok_def)
  have "dll (\<lambda>i. bnext (bs[b := x] ! i)) (\<lambda>i. bprev (bs[b := x] ! i)) NBUF order"
    using ok links len b unfolding cache_ok_def
    by (subst dll_cong [of _ _ _ "\<lambda>i. bnext (bs ! i)" _ "\<lambda>i. bprev (bs ! i)"])
      (auto simp: nth_list_update)
  moreover have "find (\<lambda>j. key (bs[b := x] ! j) = key (bs[b := x] ! i)) order = Some i"
    if i: "i < NBUF" and l: "live (bs[b := x] ! i)" for i
  proof (cases "i = b")
    case True
    then show ?thesis using l first b len by simp
  next
    case False
    then have old: "find (\<lambda>j. key (bs ! j) = key (bs ! i)) order = Some i"
      using ok i l by (simp add: cache_ok_def)
    show ?thesis
    proof (cases "key x = key (bs ! b)")
      case True
      then have "key (bs[b := x] ! j) = key (bs ! j)" for j
        using b len by (cases "j = b") auto
      then show ?thesis using old by simp
    next
      case k: False
      then have "key (bs ! i) \<noteq> key x" using key False i by auto
      then show ?thesis
        using find_filter_upd [OF old, of b "\<lambda>j. key (bs[b := x] ! j) = key (bs[b := x] ! i)"]
          False b len by auto
    qed
  qed
  ultimately show ?thesis using len ord by (simp add: cache_ok_def)
qed

text \<open>How the two views change when one buffer changes.\<close>

lemma bview_upd:
  assumes ok: "cache_ok bs order" and ok': "cache_ok (bs[b := x]) order" and b: "b < NBUF"
  shows "bview (bs[b := x]) dsk k =
    (if valid x \<and> key x = k then bdata x
     else if valid (bs ! b) \<and> key (bs ! b) = k then dsk (fst k) (snd k)
     else bview bs dsk k)"
proof -
  have len: "b < length bs" using ok b by (simp add: cache_ok_def)
  consider (new) "valid x \<and> key x = k" | (old) "\<not> (valid x \<and> key x = k)" "valid (bs ! b) \<and> key (bs ! b) = k"
    | (other) "\<not> (valid x \<and> key x = k)" "\<not> (valid (bs ! b) \<and> key (bs ! b) = k)" by blast
  then show ?thesis
  proof cases
    case new
    then show ?thesis using bview_hit [OF ok' b, of k dsk] len by simp
  next
    case old
    have "\<not> (valid (bs[b := x] ! i) \<and> key (bs[b := x] ! i) = k)" if "i < NBUF" for i
      using old live_unique [OF ok that b] len by (cases "i = b") (auto simp: live_def)
    then show ?thesis using old bview_miss [of "bs[b := x]" k dsk] by auto
  next
    case other
    let ?P = "\<lambda>i. valid (bs ! i) \<and> key (bs ! i) = k"
    have P: "(\<lambda>i. valid (bs[b := x] ! i) \<and> key (bs[b := x] ! i) = k) = ?P"
      using other len by (intro ext) (case_tac "i = b", auto)
    have D: "bdata (bs[b := x] ! i) = bdata (bs ! i)" if "?P i" for i
      using other(2) len that by (cases "i = b") auto
    have "bview (bs[b := x]) dsk k = bview bs dsk k"
    proof (cases "find ?P [0..<NBUF]")
      case None
      then show ?thesis by (simp only: bview_def P option.case)
    next
      case (Some i)
      then have "?P i" unfolding find_Some_iff by blast
      from D [OF this] show ?thesis by (simp only: bview_def P Some option.case)
    qed
    then show ?thesis using other by auto
  qed
qed

lemma brc_upd:
  assumes ok: "cache_ok bs order" and ok': "cache_ok (bs[b := x]) order" and b: "b < NBUF"
  shows "brc (bs[b := x]) k =
    (if refcnt x \<noteq> 0 \<and> key x = k then refcnt x
     else if refcnt (bs ! b) \<noteq> 0 \<and> key (bs ! b) = k then 0
     else brc bs k)"
proof -
  have len: "b < length bs" using ok b by (simp add: cache_ok_def)
  consider (new) "refcnt x \<noteq> 0 \<and> key x = k"
    | (old) "\<not> (refcnt x \<noteq> 0 \<and> key x = k)" "refcnt (bs ! b) \<noteq> 0 \<and> key (bs ! b) = k"
    | (other) "\<not> (refcnt x \<noteq> 0 \<and> key x = k)" "\<not> (refcnt (bs ! b) \<noteq> 0 \<and> key (bs ! b) = k)" by blast
  then show ?thesis
  proof cases
    case new
    then show ?thesis using brc_hit [OF ok' b, of k] len by simp
  next
    case old
    have "\<not> (refcnt (bs[b := x] ! i) \<noteq> 0 \<and> key (bs[b := x] ! i) = k)" if "i < NBUF" for i
      using old live_unique [OF ok that b] len by (cases "i = b") (auto simp: live_def)
    then show ?thesis using old brc_miss [of "bs[b := x]" k] by auto
  next
    case other
    let ?P = "\<lambda>i. refcnt (bs ! i) \<noteq> 0 \<and> key (bs ! i) = k"
    have P: "(\<lambda>i. refcnt (bs[b := x] ! i) \<noteq> 0 \<and> key (bs[b := x] ! i) = k) = ?P"
      using other len by (intro ext) (case_tac "i = b", auto)
    have D: "refcnt (bs[b := x] ! i) = refcnt (bs ! i)" if "?P i" for i
      using other(2) len that by (cases "i = b") auto
    have "brc (bs[b := x]) k = brc bs k"
    proof (cases "find ?P [0..<NBUF]")
      case None
      then show ?thesis by (simp only: brc_def P option.case)
    next
      case (Some i)
      then have "?P i" unfolding find_Some_iff by blast
      from D [OF this] show ?thesis by (simp only: brc_def P Some option.case)
    qed
    then show ?thesis using other by auto
  qed
qed

section \<open>The invariant\<close>

definition bcore :: "buf list \<Rightarrow> (u32 \<Rightarrow> u32 \<Rightarrow> u8 list) \<Rightarrow> (lock \<Rightarrow> sleeplock) \<Rightarrow> int \<Rightarrow> (nat \<times> bkey) list \<Rightarrow> bool" where
  "bcore bs dsk sl me H \<longleftrightarrow>
    (\<exists>order. cache_ok bs order) \<and>
    (\<forall>i<NBUF. valid (bs ! i) \<longrightarrow> refcnt (bs ! i) = 0 \<longrightarrow> bdata (bs ! i) = dsk (bdev (bs ! i)) (blockno (bs ! i))) \<and>
    (\<forall>i<NBUF. valid (bs ! i) \<longrightarrow> length (bdata (bs ! i)) = BSIZE) \<and>
    (\<forall>d b. length (dsk d b) = BSIZE) \<and>
    distinct (map fst H) \<and>
    (\<forall>b k. (b, k) \<in> set H \<longrightarrow> b < NBUF \<and> valid (bs ! b) \<and> key (bs ! b) = k) \<and>
    (\<forall>i<NBUF. slk_locked (sl (LBuf i)) \<longleftrightarrow> i \<in> fst ` set H) \<and>
    (\<forall>i\<in>fst ` set H. slk_pid (sl (LBuf i)) = me)"

definition binv :: "'z bmachine_scheme \<Rightarrow> (nat \<times> bkey) list \<Rightarrow> bool" where
  "binv s H \<longleftrightarrow> length (procs s) = NPROC \<and>
    (\<exists>p<NPROC. cur s = Some p \<and> bcore (bufs s) (disk s) (sleeplocks s) (pid (procs s ! p)) H)"

definition view :: "'z bmachine_scheme \<Rightarrow> bkey \<Rightarrow> u8 list" where
  "view s = bview (bufs s) (disk s)"

definition rc :: "'z bmachine_scheme \<Rightarrow> bkey \<Rightarrow> u32" where
  "rc s = brc (bufs s)"

text \<open>What the cache may change of the state.\<close>

definition bframe :: "'z bmachine_scheme \<Rightarrow> 'z bmachine_scheme \<Rightarrow> bool" where
  "bframe s s' \<longleftrightarrow> (\<exists>ps sl bs d tr.
    s' = s\<lparr>procs := ps, sleeplocks := sl, bufs := bs, disk := d, disk_trace := tr\<rparr> \<and>
    same_procs (procs s) ps \<and> (\<forall>lk. (\<forall>b. lk \<noteq> LBuf b) \<longrightarrow> sl lk = sleeplocks s lk))"

lemma bframe_refl [simp]: "bframe s s"
proof -
  have "s = s\<lparr>procs := procs s, sleeplocks := sleeplocks s, bufs := bufs s, disk := disk s, disk_trace := disk_trace s\<rparr>"
    by simp
  then show ?thesis unfolding bframe_def by (metis same_procs_refl)
qed

lemma bframe_trans:
  assumes "bframe s s'" and "bframe s' s''"
  shows "bframe s s''"
proof -
  obtain ps sl bs d tr where 1: "s' = s\<lparr>procs := ps, sleeplocks := sl, bufs := bs, disk := d, disk_trace := tr\<rparr>"
      "same_procs (procs s) ps" "\<forall>lk. (\<forall>b. lk \<noteq> LBuf b) \<longrightarrow> sl lk = sleeplocks s lk"
    using assms(1) unfolding bframe_def by blast
  obtain ps' sl' bs' d' tr' where 2: "s'' = s'\<lparr>procs := ps', sleeplocks := sl', bufs := bs', disk := d', disk_trace := tr'\<rparr>"
      "same_procs (procs s') ps'" "\<forall>lk. (\<forall>b. lk \<noteq> LBuf b) \<longrightarrow> sl' lk = sleeplocks s' lk"
    using assms(2) unfolding bframe_def by blast
  have "s'' = s\<lparr>procs := ps', sleeplocks := sl', bufs := bs', disk := d', disk_trace := tr'\<rparr>"
    using 1(1) 2(1) by simp
  moreover have "same_procs (procs s) ps'"
    using 1(1) 2(2) same_procs_trans [OF 1(2), of ps'] by simp
  moreover have "\<forall>lk. (\<forall>b. lk \<noteq> LBuf b) \<longrightarrow> sl' lk = sleeplocks s lk"
    using 1(1,3) 2(3) by simp
  ultimately show ?thesis unfolding bframe_def by blast
qed

lemma bframe_upd:
  assumes "same_procs (procs s) ps" and "\<And>lk. (\<And>b. lk \<noteq> LBuf b) \<Longrightarrow> sl lk = sleeplocks s lk"
  shows "bframe s (s\<lparr>procs := ps, sleeplocks := sl, bufs := bs, disk := d, disk_trace := tr\<rparr>)"
  using assms unfolding bframe_def by blast

lemma bframe_fields:
  assumes "bframe s s'"
  shows "held s' = held s" "mem s' = mem s" "cur s' = cur s" "same_procs (procs s) (procs s')"
    "bmachine.more s' = bmachine.more s"
  using assms unfolding bframe_def by auto

lemma bcore_upd:
  assumes core: "bcore bs dsk sl me H" and b: "b < NBUF"
    and ok: "cache_ok (bs[b := x]) order"
    and clean: "valid x \<Longrightarrow> refcnt x = 0 \<Longrightarrow> bdata x = dsk (bdev x) (blockno x)"
    and len: "valid x \<Longrightarrow> length (bdata x) = BSIZE"
    and held: "\<And>k. (b, k) \<in> set H \<Longrightarrow> valid x \<and> key x = k"
  shows "bcore (bs[b := x]) dsk sl me H"
proof -
  have lb: "b < length bs" using ok b by (simp add: cache_ok_def)
  then have nth: "bs[b := x] ! i = (if i = b then x else bs ! i)" for i
    by (cases "i = b") auto
  show ?thesis
    using core ok clean len held unfolding bcore_def nth by auto
qed

lemma bget_cached_search:
  "bget_cached fuel dev bn b s =
    (case search fuel (\<lambda>i. bnext (bufs s ! i)) (\<lambda>i. key (bufs s ! i) = (dev, bn)) NBUF b of
      None \<Rightarrow> Loop s | Some r \<Rightarrow> Done r s)"
  by (induction fuel arbitrary: b) (auto simp: key_def bget_cached.simps search.simps)

lemma bget_unused_search:
  "bget_unused fuel b s =
    (case search fuel (\<lambda>i. bprev (bufs s ! i)) (\<lambda>i. refcnt (bufs s ! i) = 0) NBUF b of
      None \<Rightarrow> Loop s | Some r \<Rightarrow> Done r s)"
  by (induction fuel arbitrary: b) (auto simp: bget_unused.simps search.simps)

lemma cache_okD:
  assumes "cache_ok bs order"
  shows "length bs = NBUF + 1" "set order = {0..<NBUF}" "distinct order"
    "dll (\<lambda>i. bnext (bs ! i)) (\<lambda>i. bprev (bs ! i)) NBUF order"
  using assms unfolding cache_ok_def dll_def by simp_all

lemma cache_ok_length: "cache_ok bs order \<Longrightarrow> length order = NBUF"
  using distinct_card [of order] by (simp add: cache_okD)

lemma bget_cached_find:
  assumes "cache_ok (bufs s) order"
  shows "bget_cached (NBUF + 1) dev bn (bnext (bufs s ! NBUF)) s = Done (find (\<lambda>i. key (bufs s ! i) = (dev, bn)) order) s"
proof -
  have "search (NBUF + 1) (\<lambda>i. bnext (bufs s ! i)) (\<lambda>i. key (bufs s ! i) = (dev, bn)) NBUF (bnext (bufs s ! NBUF))
      = Some (find (\<lambda>i. key (bufs s ! i) = (dev, bn)) order)"
    using cache_okD(4) [OF assms] cache_ok_length [OF assms] by (intro search_next) simp_all
  then show ?thesis by (simp only: bget_cached_search option.case)
qed

lemma bget_unused_find:
  assumes "cache_ok (bufs s) order"
  shows "bget_unused (NBUF + 1) (bprev (bufs s ! NBUF)) s = Done (find (\<lambda>i. refcnt (bufs s ! i) = 0) (rev order)) s"
proof -
  have "search (NBUF + 1) (\<lambda>i. bprev (bufs s ! i)) (\<lambda>i. refcnt (bufs s ! i) = 0) NBUF (bprev (bufs s ! NBUF))
      = Some (find (\<lambda>i. refcnt (bufs s ! i) = 0) (rev order))"
    using cache_okD(4) [OF assms] cache_ok_length [OF assms] by (intro search_prev) simp_all
  then show ?thesis by (simp only: bget_unused_search option.case)
qed

section \<open>The operations of the cache\<close>

definition busy :: "'z bmachine_scheme \<Rightarrow> bkey set" where
  "busy s = {k. rc s k \<noteq> 0}"

lemma bcoreD:
  assumes "bcore bs dsk sl me H"
  obtains order where "cache_ok bs order"
proof -
  have "\<exists>order. cache_ok bs order" using assms by (simp only: bcore_def)
  then show ?thesis using that by blast
qed

lemma bcore_heldD:
  assumes "bcore bs dsk sl me H" and "(b, k) \<in> set H"
  shows "b < NBUF" "valid (bs ! b)" "key (bs ! b) = k" "slk_locked (sl (LBuf b))" "slk_pid (sl (LBuf b)) = me"
proof -
  have "\<forall>b k. (b, k) \<in> set H \<longrightarrow> b < NBUF \<and> valid (bs ! b) \<and> key (bs ! b) = k"
    and locked: "\<forall>i<NBUF. slk_locked (sl (LBuf i)) \<longleftrightarrow> i \<in> fst ` set H"
    and pids: "\<forall>i\<in>fst ` set H. slk_pid (sl (LBuf i)) = me"
    using assms(1) unfolding bcore_def by - (elim conjE, assumption)+
  then show *: "b < NBUF" "valid (bs ! b)" "key (bs ! b) = k" using assms(2) by blast+
  have "fst (b, k) \<in> fst ` set H" using assms(2) by (rule imageI)
  then have b: "b \<in> fst ` set H" by simp
  show "slk_locked (sl (LBuf b))" using locked *(1) b by blast
  show "slk_pid (sl (LBuf b)) = me" using pids b by blast
qed

lemma bcore_unlocked:
  "bcore bs dsk sl me H \<Longrightarrow> b < NBUF \<Longrightarrow> b \<notin> fst ` set H \<Longrightarrow> \<not> slk_locked (sl (LBuf b))"
  by (simp add: bcore_def)

lemma bcore_clean:
  "bcore bs dsk sl me H \<Longrightarrow> i < NBUF \<Longrightarrow> valid (bs ! i) \<Longrightarrow> refcnt (bs ! i) = 0 \<Longrightarrow>
    bdata (bs ! i) = dsk (bdev (bs ! i)) (blockno (bs ! i))"
  by (simp add: bcore_def)

lemma bcore_length:
  "bcore bs dsk sl me H \<Longrightarrow> i < NBUF \<Longrightarrow> valid (bs ! i) \<Longrightarrow> length (bdata (bs ! i)) = BSIZE"
  "bcore bs dsk sl me H \<Longrightarrow> length (dsk d b) = BSIZE"
  by (simp_all add: bcore_def)

lemma bcore_lock:
  assumes core: "bcore bs dsk sl me H" and b: "b < NBUF" "b \<notin> fst ` set H" "valid (bs ! b)"
  shows "bcore bs dsk (sl(LBuf b := \<lparr>slk_locked = True, slk_pid = me\<rparr>)) me ((b, key (bs ! b)) # H)"
proof -
  have "b \<notin> set (map fst H)" using b(2) by simp
  then show ?thesis using core b(1,3) unfolding bcore_def by auto
qed

lemma busy_room:
  assumes core: "bcore (bufs s) dsk sl me H" and few: "card (busy s) < NBUF"
  shows "\<exists>i<NBUF. refcnt (bufs s ! i) = 0"
proof (rule ccontr)
  assume no: "\<not> (\<exists>i<NBUF. refcnt (bufs s ! i) = 0)"
  obtain order where ok: "cache_ok (bufs s) order" using core by (rule bcoreD)
  let ?K = "\<lambda>i. key (bufs s ! i)"
  have "inj_on ?K {0..<NBUF}"
  proof (rule inj_onI)
    fix i j assume "i \<in> {0..<NBUF}" "j \<in> {0..<NBUF}" "?K i = ?K j"
    then show "i = j" using no by (intro live_unique [OF ok]) (auto simp: live_def)
  qed
  moreover have "?K ` {0..<NBUF} = busy s"
  proof
    show "?K ` {0..<NBUF} \<subseteq> busy s"
    proof
      fix k assume "k \<in> ?K ` {0..<NBUF}"
      then obtain i where "i < NBUF" "k = ?K i" by auto
      then show "k \<in> busy s" using no brc_hit [OF ok, of i k] by (simp add: busy_def rc_def)
    qed
    show "busy s \<subseteq> ?K ` {0..<NBUF}"
    proof
      fix k assume "k \<in> busy s"
      then have "\<not> (\<forall>i<NBUF. refcnt (bufs s ! i) \<noteq> 0 \<longrightarrow> key (bufs s ! i) \<noteq> k)"
        using brc_miss [of "bufs s" k] by (auto simp: busy_def rc_def)
      then show "k \<in> ?K ` {0..<NBUF}" by auto
    qed
  qed
  ultimately have "card (busy s) = NBUF" using card_image [of ?K "{0..<NBUF}"] by simp
  then show False using few by simp
qed

text \<open>The buffer that caches a block with references is found, and it is the only one.\<close>

lemma rc_buffer:
  assumes ok: "cache_ok bs order" and b: "b < NBUF" "key (bs ! b) = k" "valid (bs ! b) \<or> refcnt (bs ! b) \<noteq> 0"
  shows "brc bs k = refcnt (bs ! b)"
proof (cases "refcnt (bs ! b) = 0")
  case True
  have "\<not> (refcnt (bs ! i) \<noteq> 0 \<and> key (bs ! i) = k)" if "i < NBUF" for i
    using live_unique [OF ok that b(1)] b True by (auto simp: live_def)
  then show ?thesis using True brc_miss [of bs k] by auto
next
  case False
  then show ?thesis using brc_hit [OF ok b(1)] b(2) by simp
qed

lemma bread_hit_run:
  assumes "cache_ok (bufs s) order" "find (\<lambda>i. key (bufs s ! i) = (dev, bn)) order = Some b"
    and "b < NBUF" "\<not> slk_locked (sleeplocks s (LBuf b))" "cur s = Some p" "held s = []"
  shows "bread dev bn s = Done b (s\<lparr>
    bufs := (bufs s)[b := (bufs s ! b)\<lparr>refcnt := refcnt (bufs s ! b) + 1, valid := True,
      bdata := (if valid (bufs s ! b) then bdata (bufs s ! b) else disk s dev bn)\<rparr>],
    sleeplocks := (sleeplocks s)(LBuf b := \<lparr>slk_locked = True, slk_pid = pid (procs s ! p)\<rparr>)\<rparr>)"
proof -
  have len: "b < length (bufs s)" using cache_okD(1) [OF assms(1)] assms(3) by simp
  have k: "bdev (bufs s ! b) = dev" "blockno (bufs s ! b) = bn"
    using assms(2) unfolding find_Some_iff by (auto simp: key_def)
  let ?s1 = "s\<lparr>held := [LBcache]\<rparr>"
  have "bget_cached (NBUF + 1) dev bn (bnext (bufs ?s1 ! NBUF)) ?s1 = Done (Some b) ?s1"
    using bget_cached_find [of ?s1 order dev bn] assms(1,2) by simp
  then have "bget dev bn s = Done b (s\<lparr>bufs := (bufs s)[b := (bufs s ! b)\<lparr>refcnt := refcnt (bufs s ! b) + 1\<rparr>],
      sleeplocks := (sleeplocks s)(LBuf b := \<lparr>slk_locked = True, slk_pid = pid (procs s ! p)\<rparr>)\<rparr>)"
    using assms(4-6) by (simp add: bget_def upd_buf_def Let_def acquiresleep_free upd_sleeplock_def)
  then show ?thesis
    using len k by (simp add: bread_def disk_rw_def upd_buf_def Let_def)
qed

lemma bread_miss_run:
  assumes "cache_ok (bufs s) order" "find (\<lambda>i. key (bufs s ! i) = (dev, bn)) order = None"
    and "find (\<lambda>i. refcnt (bufs s ! i) = 0) (rev order) = Some b"
    and "b < NBUF" "\<not> slk_locked (sleeplocks s (LBuf b))" "cur s = Some p" "held s = []"
  shows "bread dev bn s = Done b (s\<lparr>
    bufs := (bufs s)[b := (bufs s ! b)\<lparr>bdev := dev, blockno := bn, refcnt := 1, valid := True, bdata := disk s dev bn\<rparr>],
    sleeplocks := (sleeplocks s)(LBuf b := \<lparr>slk_locked = True, slk_pid = pid (procs s ! p)\<rparr>)\<rparr>)"
proof -
  have len: "b < length (bufs s)" using cache_okD(1) [OF assms(1)] assms(4) by simp
  let ?s1 = "s\<lparr>held := [LBcache]\<rparr>"
  have "bget_cached (NBUF + 1) dev bn (bnext (bufs ?s1 ! NBUF)) ?s1 = Done None ?s1"
    using bget_cached_find [of ?s1 order dev bn] assms(1,2) by simp
  moreover have "bget_unused (NBUF + 1) (bprev (bufs ?s1 ! NBUF)) ?s1 = Done (Some b) ?s1"
    using bget_unused_find [of ?s1 order] assms(1,3) by simp
  ultimately have "bget dev bn s = Done b (s\<lparr>bufs := (bufs s)[b := (bufs s ! b)\<lparr>bdev := dev, blockno := bn, valid := False, refcnt := 1\<rparr>],
      sleeplocks := (sleeplocks s)(LBuf b := \<lparr>slk_locked = True, slk_pid = pid (procs s ! p)\<rparr>)\<rparr>)"
    using assms(5-7) by (simp add: bget_def upd_buf_def Let_def acquiresleep_free upd_sleeplock_def)
  then show ?thesis
    using len by (simp add: bread_def disk_rw_def upd_buf_def Let_def)
qed

text \<open>The first buffer of a block in the list decides what the cache knows about the block.\<close>

lemma find_order:
  assumes "cache_ok bs order" and "find P order = Some b"
  shows "b < NBUF" "P b"
  using find_in_set [OF assms(2)] cache_okD(2) [OF assms(1)] by auto

lemma find_order_None:
  assumes "cache_ok bs order" and "find P order = None" and "i < NBUF"
  shows "\<not> P i"
  using assms(2,3) cache_okD(2) [OF assms(1)] unfolding find_None_iff by auto

lemma first_buffer:
  assumes ok: "cache_ok bs order" and f: "find (\<lambda>i. key (bs ! i) = k) order = Some b"
  shows "brc bs k = refcnt (bs ! b)"
    and "bview bs dsk k = (if valid (bs ! b) then bdata (bs ! b) else dsk (fst k) (snd k))"
proof -
  note b = find_order [OF ok f]
  have only: "i = b" if "i < NBUF" "live (bs ! i)" "key (bs ! i) = k" for i
  proof -
    have "find (\<lambda>j. key (bs ! j) = key (bs ! i)) order = Some i"
      using ok that(1,2) by (simp add: cache_ok_def)
    then show "i = b" using f that(3) by simp
  qed
  show "brc bs k = refcnt (bs ! b)"
  proof (cases "live (bs ! b)")
    case True
    then show ?thesis using rc_buffer [OF ok b(1)] b(2) by (simp add: live_def)
  next
    case False
    then have "refcnt (bs ! i) = 0" if "i < NBUF" "key (bs ! i) = k" for i
      using only [OF that(1)] that(2) by (auto simp: live_def)
    then show ?thesis using brc_miss [of bs k] False by (auto simp: live_def)
  qed
  show "bview bs dsk k = (if valid (bs ! b) then bdata (bs ! b) else dsk (fst k) (snd k))"
  proof (cases "valid (bs ! b)")
    case True
    then show ?thesis using bview_hit [OF ok b(1)] b(2) by simp
  next
    case False
    then have "\<not> valid (bs ! i)" if "i < NBUF" "key (bs ! i) = k" for i
      using only [OF that(1)] that(2) by (auto simp: live_def)
    then show ?thesis using bview_miss [of bs k dsk] False by auto
  qed
qed

text \<open>The effect of giving buffer \<open>b\<close> to block \<open>k\<close> with one more reference.\<close>

lemma take_buffer:
  assumes core: "bcore bs dsk sl me H" and ok: "cache_ok bs order" and ok': "cache_ok (bs[b := x]) order"
    and b: "b < NBUF" "b \<notin> fst ` set H"
    and x: "key x = k" "valid x" "bdata x = bview bs dsk k" "refcnt x = brc bs k + 1" "refcnt x \<noteq> 0"
    and old: "key (bs ! b) = k \<or> refcnt (bs ! b) = 0"
  shows "bcore (bs[b := x]) dsk (sl(LBuf b := \<lparr>slk_locked = True, slk_pid = me\<rparr>)) me ((b, k) # H)"
    and "bview (bs[b := x]) dsk = bview bs dsk"
    and "brc (bs[b := x]) = (brc bs)(k := brc bs k + 1)"
proof -
  have len: "b < length bs" using cache_okD(1) [OF ok] b(1) by simp
  have "length (bview bs dsk k) = BSIZE"
  proof (cases "find (\<lambda>i. valid (bs ! i) \<and> key (bs ! i) = k) [0..<NBUF]")
    case (Some i)
    then have "i < NBUF" "valid (bs ! i)" unfolding find_Some_iff by auto
    then show ?thesis using bcore_length(1) [OF core] Some by (simp add: bview_def)
  qed (simp add: bview_def bcore_length(2) [OF core])
  then have c: "bcore (bs[b := x]) dsk sl me H"
    using b x by (intro bcore_upd [OF core b(1) ok']) (auto simp: image_iff)
  show "bcore (bs[b := x]) dsk (sl(LBuf b := \<lparr>slk_locked = True, slk_pid = me\<rparr>)) me ((b, k) # H)"
    using bcore_lock [OF c b] x len by simp
  show "bview (bs[b := x]) dsk = bview bs dsk"
  proof
    fix k'
    have "bview bs dsk k' = dsk (fst k') (snd k')" if "valid (bs ! b)" "key (bs ! b) = k'" "k' \<noteq> k"
      using bview_hit [OF ok b(1) that(1,2), of dsk] bcore_clean [OF core b(1) that(1)] old that
      by (auto simp: key_def)
    then show "bview (bs[b := x]) dsk k' = bview bs dsk k'"
      using x by (auto simp: bview_upd [OF ok ok' b(1)])
  qed
  show "brc (bs[b := x]) = (brc bs)(k := brc bs k + 1)"
    using x old by (intro ext) (auto simp: brc_upd [OF ok ok' b(1)])
qed

text \<open>\<open>bread\<close> returns the content of the block, locked, and adds a reference.\<close>

definition bread_post :: "'z bmachine_scheme \<Rightarrow> bkey \<Rightarrow> (nat \<times> bkey) list \<Rightarrow> nat \<Rightarrow> 'z bmachine_scheme \<Rightarrow> bool" where
  "bread_post s k H b s' \<longleftrightarrow> binv s' ((b, k) # H) \<and> bframe s s' \<and> view s' = view s \<and>
    rc s' = (rc s)(k := rc s k + 1) \<and> disk s' = disk s \<and> disk_trace s' = disk_trace s"

lemma take_buffer_post:
  assumes inv: "binv s H" and p: "cur s = Some p" and ok: "cache_ok (bufs s) order"
    and ok': "cache_ok ((bufs s)[b := x]) order"
    and b: "b < NBUF" "b \<notin> fst ` set H"
    and x: "key x = k" "valid x" "bdata x = view s k" "refcnt x = rc s k + 1" "refcnt x \<noteq> 0"
    and old: "key (bufs s ! b) = k \<or> refcnt (bufs s ! b) = 0"
  shows "bread_post s k H b (s\<lparr>bufs := (bufs s)[b := x],
    sleeplocks := (sleeplocks s)(LBuf b := \<lparr>slk_locked = True, slk_pid = pid (procs s ! p)\<rparr>)\<rparr>)"
proof -
  have core: "p < NPROC" "length (procs s) = NPROC" "bcore (bufs s) (disk s) (sleeplocks s) (pid (procs s ! p)) H"
    using inv p by (auto simp: binv_def)
  note t = take_buffer [OF core(3) ok ok' b x(1,2) x(3) [unfolded view_def] x(4) [unfolded rc_def] x(5) old]
  let ?s = "s\<lparr>bufs := (bufs s)[b := x],
    sleeplocks := (sleeplocks s)(LBuf b := \<lparr>slk_locked = True, slk_pid = pid (procs s ! p)\<rparr>)\<rparr>"
  have "bframe s ?s"
    using bframe_upd [where s = s and ps = "procs s" and sl = "sleeplocks ?s" and bs = "bufs ?s"
      and d = "disk s" and tr = "disk_trace s"] by simp
  moreover have "binv ?s ((b, k) # H)" using t(1) core(1,2) p by (simp add: binv_def)
  moreover have "view ?s = view s" "rc ?s = (rc s)(k := rc s k + 1)"
    using t(2,3) by (simp_all add: view_def rc_def)
  ultimately show ?thesis by (simp only: bread_post_def) simp
qed

lemma bread_hit:
  assumes inv: "binv s H" and p: "cur s = Some p" and h: "held s = []" and ok: "cache_ok (bufs s) order"
    and f: "find (\<lambda>i. key (bufs s ! i) = (dev, bn)) order = Some b" and out: "b \<notin> fst ` set H"
    and wrap: "rc s (dev, bn) + 1 \<noteq> 0"
  shows "returns (bread dev bn s) (bread_post s (dev, bn) H)"
proof -
  let ?bs = "bufs s"
  have core: "bcore ?bs (disk s) (sleeplocks s) (pid (procs s ! p)) H" using inv p by (auto simp: binv_def)
  note b = find_order [OF ok f] and fb = first_buffer [OF ok f]
  define x where "x = (?bs ! b)\<lparr>refcnt := refcnt (?bs ! b) + 1, valid := True,
    bdata := (if valid (?bs ! b) then bdata (?bs ! b) else disk s dev bn)\<rparr>"
  have kx: "key x = key (?bs ! b)" and x: "valid x" "bnext x = bnext (?bs ! b)" "bprev x = bprev (?bs ! b)"
    by (simp_all add: x_def)
  have "key (?bs[b := x] ! j) = key (?bs ! j)" for j
    using b(1) cache_okD(1) [OF ok] kx by (cases "j = b") simp_all
  then have "find (\<lambda>j. key (?bs[b := x] ! j) = key x) order = Some b"
    unfolding kx b(2) using f by simp
  then have ok': "cache_ok (?bs[b := x]) order"
    by (intro cache_ok_upd [OF ok b(1)]) (simp_all add: kx x)
  have d: "bdata x = view s (dev, bn)" using fb(2) [of "disk s"] by (simp add: view_def x_def)
  have r: "refcnt x = rc s (dev, bn) + 1" using fb(1) by (simp add: rc_def x_def)
  have "bread dev bn s = Done b (s\<lparr>bufs := ?bs[b := x], sleeplocks :=
      (sleeplocks s)(LBuf b := \<lparr>slk_locked = True, slk_pid = pid (procs s ! p)\<rparr>)\<rparr>)"
    unfolding x_def by (rule bread_hit_run [OF ok f b(1) bcore_unlocked [OF core b(1) out] p h])
  moreover have "bread_post s (dev, bn) H b (s\<lparr>bufs := ?bs[b := x], sleeplocks :=
      (sleeplocks s)(LBuf b := \<lparr>slk_locked = True, slk_pid = pid (procs s ! p)\<rparr>)\<rparr>)"
    by (rule take_buffer_post [OF inv p ok ok' b(1) out _ _ d r]) (simp_all add: r wrap kx x b(2))
  ultimately show ?thesis by (simp only: returns.simps)
qed

lemma bread_miss:
  assumes inv: "binv s H" and p: "cur s = Some p" and h: "held s = []" and ok: "cache_ok (bufs s) order"
    and f: "find (\<lambda>i. key (bufs s ! i) = (dev, bn)) order = None"
    and u: "find (\<lambda>i. refcnt (bufs s ! i) = 0) (rev order) = Some b" and out: "b \<notin> fst ` set H"
  shows "returns (bread dev bn s) (bread_post s (dev, bn) H)"
proof -
  let ?bs = "bufs s"
  have core: "bcore ?bs (disk s) (sleeplocks s) (pid (procs s ! p)) H" using inv p by (auto simp: binv_def)
  have b: "b < NBUF" "refcnt (?bs ! b) = 0"
    using find_in_set [OF u] cache_okD(2) [OF ok] by auto
  note none = find_order_None [OF ok f]
  define x where "x = (?bs ! b)\<lparr>bdev := dev, blockno := bn, refcnt := 1, valid := True, bdata := disk s dev bn\<rparr>"
  have kx: "key x = (dev, bn)" and x: "valid x" "refcnt x = 1" "bnext x = bnext (?bs ! b)" "bprev x = bprev (?bs ! b)"
    by (simp_all add: x_def key_def)
  have "b \<in> set order" using b(1) cache_okD(2) [OF ok] by simp
  moreover have "(key (?bs[b := x] ! j) = key x) = (j = b)" if "j \<in> set order" for j
    using that none [of j] b(1) cache_okD(1,2) [OF ok] kx by (cases "j = b") auto
  ultimately have "find (\<lambda>j. key (?bs[b := x] ! j) = key x) order = Some b"
    by (simp add: find_self cong: find_cong)
  then have ok': "cache_ok (?bs[b := x]) order"
    using none by (intro cache_ok_upd [OF ok b(1)]) (auto simp: kx x)
  have d: "bdata x = view s (dev, bn)" using bview_miss [of ?bs "(dev, bn)" "disk s"] none by (simp add: view_def x_def)
  have r: "refcnt x = rc s (dev, bn) + 1" using brc_miss [of ?bs "(dev, bn)"] none by (simp add: rc_def x)
  have "bread dev bn s = Done b (s\<lparr>bufs := ?bs[b := x], sleeplocks :=
      (sleeplocks s)(LBuf b := \<lparr>slk_locked = True, slk_pid = pid (procs s ! p)\<rparr>)\<rparr>)"
    unfolding x_def by (rule bread_miss_run [OF ok f u b(1) bcore_unlocked [OF core b(1) out] p h])
  moreover have "bread_post s (dev, bn) H b (s\<lparr>bufs := ?bs[b := x], sleeplocks :=
      (sleeplocks s)(LBuf b := \<lparr>slk_locked = True, slk_pid = pid (procs s ! p)\<rparr>)\<rparr>)"
    by (rule take_buffer_post [OF inv p ok ok' b(1) out kx _ d r]) (simp_all add: b(2) x)
  ultimately show ?thesis by (simp only: returns.simps)
qed

lemma bread_spec:
  assumes inv: "binv s H" and h: "held s = []" and new: "\<And>b. (b, (dev, bn)) \<notin> set H"
    and pinned: "\<And>b k. (b, k) \<in> set H \<Longrightarrow> rc s k \<noteq> 0"
    and wrap: "rc s (dev, bn) + 1 \<noteq> 0"
    and room: "rc s (dev, bn) \<noteq> 0 \<or> card (busy s) < NBUF"
  shows "returns (bread dev bn s) (bread_post s (dev, bn) H)"
proof -
  let ?k = "(dev, bn)" and ?bs = "bufs s"
  obtain p where p: "cur s = Some p" "bcore ?bs (disk s) (sleeplocks s) (pid (procs s ! p)) H"
    using inv by (auto simp: binv_def)
  obtain order where ok: "cache_ok ?bs order" using p(2) by (rule bcoreD)
  have out: "b \<notin> fst ` set H" if "b < NBUF" "key (?bs ! b) = ?k \<or> refcnt (?bs ! b) = 0" for b
  proof
    assume "b \<in> fst ` set H"
    then obtain k where k: "(b, k) \<in> set H" by auto
    note hd = bcore_heldD [OF p(2) k]
    show False using that(2) new [of b] k hd(3) pinned [OF k] rc_buffer [OF ok hd(1,3)] hd(2)
      by (auto simp: rc_def)
  qed
  show ?thesis
  proof (cases "find (\<lambda>i. key (?bs ! i) = ?k) order")
    case (Some b)
    then show ?thesis using find_order [OF ok Some] out [of b] wrap by (intro bread_hit [OF inv p(1) h ok]) auto
  next
    case None
    have "brc ?bs ?k = 0" using find_order_None [OF ok None] by (intro brc_miss) auto
    then obtain i where "i < NBUF" "refcnt (?bs ! i) = 0" using room busy_room [OF p(2)] by (auto simp: rc_def)
    then have "find (\<lambda>i. refcnt (?bs ! i) = 0) (rev order) \<noteq> None"
      using cache_okD(2) [OF ok] unfolding find_None_iff by auto
    then obtain b where u: "find (\<lambda>i. refcnt (?bs ! i) = 0) (rev order) = Some b" by auto
    then have "b < NBUF" "refcnt (?bs ! b) = 0"
      using find_in_set [OF u] cache_okD(2) [OF ok] by auto
    then show ?thesis using out [of b] by (intro bread_miss [OF inv p(1) h ok None u]) auto
  qed
qed

text \<open>Changing a held buffer without moving it.\<close>

lemma binvE:
  assumes "binv s H"
  obtains p order where "p < NPROC" "cur s = Some p" "length (procs s) = NPROC" "cache_ok (bufs s) order"
    "bcore (bufs s) (disk s) (sleeplocks s) (pid (procs s ! p)) H"
proof -
  obtain p where p: "p < NPROC" "cur s = Some p" "length (procs s) = NPROC"
      "bcore (bufs s) (disk s) (sleeplocks s) (pid (procs s ! p)) H"
    using assms unfolding binv_def by blast
  then show ?thesis using bcoreD [OF p(4)] that by blast
qed

lemma cache_ok_keep:
  assumes ok: "cache_ok bs order" and b: "b < NBUF" "live (bs ! b)"
    and x: "bnext x = bnext (bs ! b)" "bprev x = bprev (bs ! b)" "key x = key (bs ! b)"
  shows "cache_ok (bs[b := x]) order"
proof -
  have "key (bs[b := x] ! j) = key (bs ! j)" for j
    using b(1) cache_okD(1) [OF ok] x(3) by (cases "j = b") simp_all
  moreover have "find (\<lambda>j. key (bs ! j) = key (bs ! b)) order = Some b"
    using ok b by (simp add: cache_ok_def)
  ultimately show ?thesis using x by (intro cache_ok_upd [OF ok b(1)]) simp_all
qed

lemma held_view: "binv s H \<Longrightarrow> (b, k) \<in> set H \<Longrightarrow> bdata (bufs s ! b) = view s k"
  by (elim binvE) (metis view_def bview_hit bcore_heldD(1,2,3))

lemma held_key: "binv s H \<Longrightarrow> (b, k) \<in> set H \<Longrightarrow> bdev (bufs s ! b) = fst k \<and> blockno (bufs s ! b) = snd k"
  by (elim binvE) (auto dest: bcore_heldD(3) simp: key_def)

lemma held_rc: "binv s H \<Longrightarrow> (b, k) \<in> set H \<Longrightarrow> refcnt (bufs s ! b) = rc s k"
  by (elim binvE) (metis rc_def rc_buffer bcore_heldD(1,2,3))

lemma held_bound: "binv s H \<Longrightarrow> (b, k) \<in> set H \<Longrightarrow> b < NBUF \<and> b < length (bufs s)"
  by (elim binvE) (auto simp: cache_okD dest: bcore_heldD(1))

lemma view_length: "binv s H \<Longrightarrow> length (view s k) = BSIZE"
proof (elim binvE)
  fix p order
  assume core: "bcore (bufs s) (disk s) (sleeplocks s) (pid (procs s ! p)) H"
  show ?thesis
  proof (cases "find (\<lambda>i. valid (bufs s ! i) \<and> key (bufs s ! i) = k) [0..<NBUF]")
    case (Some i)
    then show ?thesis using bcore_length(1) [OF core] find_in_set [OF Some] by (simp add: view_def bview_def)
  qed (simp add: view_def bview_def bcore_length(2) [OF core])
qed

lemma change_held:
  assumes inv: "binv s H" and b: "(b, k) \<in> set H"
    and x: "bnext x = bnext (bufs s ! b)" "bprev x = bprev (bufs s ! b)" "key x = k" "valid x" "length (bdata x) = BSIZE"
    and clean: "refcnt x = 0 \<Longrightarrow> bdata x = disk s (fst k) (snd k)"
  shows "binv (s\<lparr>bufs := (bufs s)[b := x]\<rparr>) H"
    and "bframe s (s\<lparr>bufs := (bufs s)[b := x]\<rparr>)"
    and "view (s\<lparr>bufs := (bufs s)[b := x]\<rparr>) = (view s)(k := bdata x)"
    and "rc (s\<lparr>bufs := (bufs s)[b := x]\<rparr>) = (rc s)(k := refcnt x)"
proof -
  obtain p order where p: "p < NPROC" "cur s = Some p" "length (procs s) = NPROC" and ok: "cache_ok (bufs s) order"
    and core: "bcore (bufs s) (disk s) (sleeplocks s) (pid (procs s ! p)) H"
    using inv by (rule binvE)
  note hb = bcore_heldD [OF core b]
  have ok': "cache_ok ((bufs s)[b := x]) order"
    using hb x by (intro cache_ok_keep [OF ok]) (simp_all add: live_def)
  have H: "(b, k') \<in> set H \<Longrightarrow> key x = k'" for k' using bcore_heldD(3) [OF core] hb(3) x(3) by auto
  have "fst k = bdev x" "snd k = blockno x" using x(3) by (auto simp: key_def)
  then have "bcore ((bufs s)[b := x]) (disk s) (sleeplocks s) (pid (procs s ! p)) H"
    using x(4,5) clean H by (intro bcore_upd [OF core hb(1) ok']) simp_all
  then show "binv (s\<lparr>bufs := (bufs s)[b := x]\<rparr>) H" using p by (simp add: binv_def)
  show "bframe s (s\<lparr>bufs := (bufs s)[b := x]\<rparr>)"
    using bframe_upd [where s = s and ps = "procs s" and sl = "sleeplocks s" and bs = "(bufs s)[b := x]"
      and d = "disk s" and tr = "disk_trace s"] by simp
  show "view (s\<lparr>bufs := (bufs s)[b := x]\<rparr>) = (view s)(k := bdata x)"
    using hb x by (intro ext) (simp add: view_def bview_upd [OF ok ok' hb(1)])
  show "rc (s\<lparr>bufs := (bufs s)[b := x]\<rparr>) = (rc s)(k := refcnt x)"
    using hb x rc_buffer [OF ok hb(1,3)]
    by (intro ext) (auto simp: rc_def brc_upd [OF ok ok' hb(1)])
qed

lemma holding_held:
  assumes "binv s H" "(b, k) \<in> set H" "held s = []"
  shows "holdingsleep (LBuf b) s = Done True s"
  using assms by (elim binvE) (simp add: holdingsleep_eq bcore_heldD)

text \<open>\<open>bwrite\<close> brings the disk up to the content of the block.\<close>

definition bwrite_post :: "'z bmachine_scheme \<Rightarrow> bkey \<Rightarrow> (nat \<times> bkey) list \<Rightarrow> 'z bmachine_scheme \<Rightarrow> bool" where
  "bwrite_post s k H s' \<longleftrightarrow> binv s' H \<and> bframe s s' \<and> view s' = view s \<and> rc s' = rc s \<and>
    disk s' = (disk s)(fst k := (disk s (fst k))(snd k := view s k)) \<and>
    disk_trace s' = disk_trace s @ [(fst k, snd k, view s k)]"

lemma bview_disk:
  assumes "cache_ok bs order" "b < NBUF" "valid (bs ! b)" "key (bs ! b) = k"
  shows "bview bs (dsk(fst k := (dsk (fst k))(snd k := v))) = bview bs dsk"
proof
  fix k'
  show "bview bs (dsk(fst k := (dsk (fst k))(snd k := v))) k' = bview bs dsk k'"
  proof (cases "k' = k")
    case True
    then show ?thesis using bview_hit [OF assms] by simp
  next
    case False
    then have "fst k' \<noteq> fst k \<or> snd k' \<noteq> snd k" by (auto simp: prod_eq_iff)
    then have "(dsk(fst k := (dsk (fst k))(snd k := v))) (fst k') (snd k') = dsk (fst k') (snd k')" by auto
    then show ?thesis by (simp only: bview_def)
  qed
qed

lemma bcore_disk:
  assumes core: "bcore bs dsk sl me H" and ok: "cache_ok bs order" and b: "(b, k) \<in> set H"
  shows "bcore bs (dsk(fst k := (dsk (fst k))(snd k := bdata (bs ! b)))) sl me H"
proof -
  note hb = bcore_heldD [OF core b]
  let ?d = "dsk(fst k := (dsk (fst k))(snd k := bdata (bs ! b)))"
  have "bdata (bs ! i) = ?d (bdev (bs ! i)) (blockno (bs ! i))"
    if i: "i < NBUF" "valid (bs ! i)" "refcnt (bs ! i) = 0" for i
  proof (cases "key (bs ! i) = k")
    case True
    then have "i = b" using live_unique [OF ok i(1) hb(1)] i hb by (simp add: live_def)
    then show ?thesis using True by (auto simp: key_def)
  next
    case False
    then show ?thesis using bcore_clean [OF core i] by (auto simp: key_def)
  qed
  then have "\<forall>i<NBUF. valid (bs ! i) \<longrightarrow> refcnt (bs ! i) = 0 \<longrightarrow> bdata (bs ! i) = ?d (bdev (bs ! i)) (blockno (bs ! i))"
    by blast
  moreover have "\<forall>d n. length (?d d n) = BSIZE"
    using bcore_length(1) [OF core hb(1,2)] bcore_length(2) [OF core] by simp
  ultimately show ?thesis using core unfolding bcore_def by (elim conjE, intro conjI) assumption+
qed

lemma bwrite_spec:
  assumes inv: "binv s H" and b: "(b, k) \<in> set H" and h: "held s = []"
  shows "returns (bwrite b s) (\<lambda>_. bwrite_post s k H)"
proof -
  obtain p order where p: "p < NPROC" "cur s = Some p" "length (procs s) = NPROC" and ok: "cache_ok (bufs s) order"
    and core: "bcore (bufs s) (disk s) (sleeplocks s) (pid (procs s ! p)) H"
    using inv by (rule binvE)
  note hb = bcore_heldD [OF core b]
  let ?d = "(disk s)(fst k := (disk s (fst k))(snd k := bdata (bufs s ! b)))"
  let ?s = "s\<lparr>disk := ?d, disk_trace := disk_trace s @ [(fst k, snd k, bdata (bufs s ! b))]\<rparr>"
  have "bwrite b s = Done () ?s"
    using holding_held [OF inv b h] held_key [OF inv b] by (simp add: bwrite_def disk_rw_def Let_def)
  moreover have "binv ?s H" using bcore_disk [OF core ok b] p by (simp add: binv_def)
  moreover have "bframe s ?s"
    using bframe_upd [where s = s and ps = "procs s" and sl = "sleeplocks s" and bs = "bufs s"
      and d = "disk ?s" and tr = "disk_trace ?s"] by simp
  moreover have "view ?s = view s" "rc ?s = rc s"
    using bview_disk [OF ok hb(1-3)] by (simp_all add: view_def rc_def)
  ultimately show ?thesis using held_view [OF inv b] by (simp add: bwrite_post_def)
qed

text \<open>\<open>bpin\<close> and \<open>bunpin\<close> only count.\<close>

definition count_post :: "'z bmachine_scheme \<Rightarrow> bkey \<Rightarrow> u32 \<Rightarrow> (nat \<times> bkey) list \<Rightarrow> 'z bmachine_scheme \<Rightarrow> bool" where
  "count_post s k r H s' \<longleftrightarrow> binv s' H \<and> bframe s s' \<and> view s' = view s \<and> rc s' = (rc s)(k := r) \<and>
    disk s' = disk s \<and> disk_trace s' = disk_trace s"

lemma count_held:
  assumes inv: "binv s H" and b: "(b, k) \<in> set H"
    and clean: "r = 0 \<Longrightarrow> view s k = disk s (fst k) (snd k)"
  shows "count_post s k r H (s\<lparr>bufs := (bufs s)[b := (bufs s ! b)\<lparr>refcnt := r\<rparr>]\<rparr>)"
proof -
  have k: "key (bufs s ! b) = k" "valid (bufs s ! b)"
    using inv b by (auto elim!: binvE dest: bcore_heldD(2,3))
  note d = held_view [OF inv b]
  have l: "length (bdata (bufs s ! b)) = BSIZE" unfolding d by (rule view_length [OF inv])
  have "r = 0 \<Longrightarrow> bdata (bufs s ! b) = disk s (fst k) (snd k)" using clean d by simp
  then show ?thesis
    using change_held [OF inv b, of "(bufs s ! b)\<lparr>refcnt := r\<rparr>"] k l d by (simp add: count_post_def)
qed

lemma bpin_spec:
  assumes inv: "binv s H" and b: "(b, k) \<in> set H" and h: "held s = []"
    and clean: "rc s k + 1 = 0 \<Longrightarrow> view s k = disk s (fst k) (snd k)"
  shows "returns (bpin b s) (\<lambda>_. count_post s k (rc s k + 1) H)"
  using count_held [OF inv b, of "rc s k + 1"] clean h held_rc [OF inv b]
  by (simp add: bpin_def upd_buf_def)

lemma bunpin_spec:
  assumes inv: "binv s H" and b: "(b, k) \<in> set H" and h: "held s = []"
    and clean: "rc s k - 1 = 0 \<Longrightarrow> view s k = disk s (fst k) (snd k)"
  shows "returns (bunpin b s) (\<lambda>_. count_post s k (rc s k - 1) H)"
  using count_held [OF inv b, of "rc s k - 1"] clean h held_rc [OF inv b]
  by (simp add: bunpin_def upd_buf_def)

subsection \<open>Releasing a buffer\<close>

text \<open>Two arrays of buffers that differ only in their links.\<close>

definition relinked :: "buf list \<Rightarrow> buf list \<Rightarrow> bool" where
  "relinked bs bs' \<longleftrightarrow> length bs' = length bs \<and>
    (\<forall>i. valid (bs' ! i) = valid (bs ! i) \<and> key (bs' ! i) = key (bs ! i) \<and> refcnt (bs' ! i) = refcnt (bs ! i) \<and>
      bdata (bs' ! i) = bdata (bs ! i))"

lemma relinked_refl [simp]: "relinked bs bs"
  by (simp add: relinked_def)

lemma relinked_upd:
  assumes "relinked bs bs'" and "j < length bs'"
  shows "relinked bs (bs'[j := (bs' ! j)\<lparr>bprev := v\<rparr>])" "relinked bs (bs'[j := (bs' ! j)\<lparr>bnext := v\<rparr>])"
  using assms by (auto simp: relinked_def nth_list_update)

lemma relinked_view:
  assumes "relinked bs bs'"
  shows "bview bs' dsk = bview bs dsk" "brc bs' = brc bs"
  using assms unfolding relinked_def bview_def brc_def by (auto split: option.split)

lemma relinked_core:
  assumes "relinked bs bs'" and "bcore bs dsk sl me H" and "cache_ok bs' order"
  shows "bcore bs' dsk sl me H"
proof -
  have "valid (bs' ! i) = valid (bs ! i)" "key (bs' ! i) = key (bs ! i)" "refcnt (bs' ! i) = refcnt (bs ! i)"
      "bdata (bs' ! i) = bdata (bs ! i)" for i
    using assms(1) by (auto simp: relinked_def)
  moreover from this(2) have "bdev (bs' ! i) = bdev (bs ! i)" "blockno (bs' ! i) = blockno (bs ! i)" for i
    by (auto simp: key_def)
  ultimately show ?thesis using assms(2,3) unfolding bcore_def by auto
qed

text \<open>The state of the links after the assignments of \<open>brelse\<close>.\<close>

definition links :: "buf list \<Rightarrow> (nat \<Rightarrow> nat) \<times> (nat \<Rightarrow> nat)" where
  "links bs = (\<lambda>i. bnext (bs ! i), \<lambda>i. bprev (bs ! i))"

lemma links_upd:
  assumes "j < length bs"
  shows "links (bs[j := (bs ! j)\<lparr>bprev := v\<rparr>]) = (fst (links bs), (snd (links bs))(j := v))"
    and "links (bs[j := (bs ! j)\<lparr>bnext := v\<rparr>]) = ((fst (links bs))(j := v), snd (links bs))"
  using assms by (auto simp: links_def nth_list_update fun_eq_iff)

definition unlink_buf :: "nat \<Rightarrow> buf list \<Rightarrow> buf list" where
  "unlink_buf b bs =
    (let bs = bs[bnext (bs ! b) := (bs ! bnext (bs ! b))\<lparr>bprev := bprev (bs ! b)\<rparr>]
     in bs[bprev (bs ! b) := (bs ! bprev (bs ! b))\<lparr>bnext := bnext (bs ! b)\<rparr>])"

definition front_buf :: "nat \<Rightarrow> buf list \<Rightarrow> buf list" where
  "front_buf b bs =
    (let bs = bs[b := (bs ! b)\<lparr>bnext := bnext (bs ! NBUF)\<rparr>];
         bs = bs[b := (bs ! b)\<lparr>bprev := NBUF\<rparr>];
         bs = bs[bnext (bs ! NBUF) := (bs ! bnext (bs ! NBUF))\<lparr>bprev := b\<rparr>]
     in bs[NBUF := (bs ! NBUF)\<lparr>bnext := b\<rparr>])"

lemma push_front_bufs: "push_front b s = s\<lparr>bufs := front_buf b (bufs s)\<rparr>"
  by (simp add: push_front_def front_buf_def upd_buf_def Let_def)

lemma dll_range:
  assumes "dll nxt prv h xs" and "x \<in> set (h # xs)"
  shows "nxt x \<in> set (h # xs)" "prv x \<in> set (h # xs)"
proof -
  have go: "f x \<in> set (b # ys)" if "path f a ys b" "x \<in> set (a # ys)" for f ys a and b :: 'a
    using that by (induction ys arbitrary: a) auto
  show "nxt x \<in> set (h # xs)" "prv x \<in> set (h # xs)"
    using go [of nxt h xs h] go [of prv h "rev xs" h] assms by (auto simp: dll_def)
qed

lemma front_buf_spec:
  assumes d: "dll (fst (links bs)) (snd (links bs)) NBUF xs" and len: "length bs = NBUF + 1"
    and xs: "set xs \<subseteq> {0..<NBUF}" and b: "b < NBUF" "b \<notin> set xs"
  shows "relinked bs (front_buf b bs)"
    and "dll (fst (links (front_buf b bs))) (snd (links (front_buf b bs))) NBUF (b # xs)"
proof -
  let ?n = "fst (links bs) NBUF"
  have n: "?n < length bs" "?n \<noteq> b" using dll_range(1) [OF d, of NBUF] len xs b by auto
  define bs1 where "bs1 = bs[b := (bs ! b)\<lparr>bnext := ?n\<rparr>]"
  define bs2 where "bs2 = bs1[b := (bs1 ! b)\<lparr>bprev := NBUF\<rparr>]"
  define bs3 where "bs3 = bs2[?n := (bs2 ! ?n)\<lparr>bprev := b\<rparr>]"
  have l: "length bs1 = length bs" "length bs2 = length bs" "length bs3 = length bs"
    by (simp_all add: bs1_def bs2_def bs3_def)
  have bn: "b < length bs" "NBUF < length bs" "b \<noteq> NBUF" using b len by auto
  have "bnext (bs2 ! NBUF) = ?n" using bn by (simp add: bs1_def bs2_def links_def)
  then have f: "front_buf b bs = bs3[NBUF := (bs3 ! NBUF)\<lparr>bnext := b\<rparr>]"
    by (simp add: front_buf_def Let_def bs3_def bs2_def bs1_def links_def)
  have r1: "relinked bs bs1" unfolding bs1_def by (rule relinked_upd) (simp_all add: bn)
  have r2: "relinked bs bs2" unfolding bs2_def by (rule relinked_upd [OF r1]) (simp add: bn l)
  have r3: "relinked bs bs3" unfolding bs3_def by (rule relinked_upd [OF r2]) (simp add: n l)
  show "relinked bs (front_buf b bs)" unfolding f by (rule relinked_upd [OF r3]) (simp add: bn l)
  have ln: "links bs1 = ((fst (links bs))(b := ?n), snd (links bs))"
    "links bs2 = (fst (links bs1), (snd (links bs1))(b := NBUF))"
    "links bs3 = (fst (links bs2), (snd (links bs2))(?n := b))"
    unfolding bs1_def bs2_def bs3_def using n bn by (simp_all only: links_upd length_list_update)
  have "links (front_buf b bs) = ((fst (links bs))(b := ?n, NBUF := b), (snd (links bs))(b := NBUF, ?n := b))"
    unfolding f using bn l by (simp add: links_upd ln)
  then show "dll (fst (links (front_buf b bs))) (snd (links (front_buf b bs))) NBUF (b # xs)"
    using dll_insert [OF d, of b] b bn by simp
qed

lemma unlink_buf_spec:
  assumes d: "dll (fst (links bs)) (snd (links bs)) NBUF (xs @ b # ys)" and len: "length bs = NBUF + 1"
    and xs: "set (xs @ b # ys) \<subseteq> {0..<NBUF}"
  shows "relinked bs (unlink_buf b bs)"
    and "dll (fst (links (unlink_buf b bs))) (snd (links (unlink_buf b bs))) NBUF (xs @ ys)"
proof -
  let ?n = "fst (links bs) b" and ?p = "snd (links bs) b"
  have dist: "distinct (NBUF # xs @ b # ys)" using d by (simp add: dll_def)
  have "?n \<in> set (ys @ [NBUF])" "?p \<in> set (NBUF # xs)"
    using dll_links [OF d] hd_in_set [of "ys @ [NBUF]"] last_in_set [of "NBUF # xs"] by simp_all
  then have n: "?n < length bs" "?n \<noteq> b" "?p < length bs" "?p \<noteq> b"
    using dist len xs by auto
  define bs1 where "bs1 = bs[?n := (bs ! ?n)\<lparr>bprev := ?p\<rparr>]"
  have l: "length bs1 = length bs" by (simp add: bs1_def)
  have "bs1 ! b = bs ! b" using n by (simp add: bs1_def)
  then have u: "unlink_buf b bs = bs1[?p := (bs1 ! ?p)\<lparr>bnext := ?n\<rparr>]"
    by (simp add: unlink_buf_def Let_def bs1_def links_def)
  have r1: "relinked bs bs1" unfolding bs1_def by (rule relinked_upd) (simp_all add: n)
  show "relinked bs (unlink_buf b bs)" unfolding u by (rule relinked_upd [OF r1]) (simp add: n l)
  have "links bs1 = (fst (links bs), (snd (links bs))(?n := ?p))"
    unfolding bs1_def using n by (simp only: links_upd)
  then have "links (unlink_buf b bs) = ((fst (links bs))(?p := ?n), (snd (links bs))(?n := ?p))"
    unfolding u using n l by (simp add: links_upd)
  then show "dll (fst (links (unlink_buf b bs))) (snd (links (unlink_buf b bs))) NBUF (xs @ ys)"
    using dll_remove [OF d] by simp
qed

lemma relinked_trans: "relinked bs bs' \<Longrightarrow> relinked bs' bs'' \<Longrightarrow> relinked bs bs''"
  by (simp add: relinked_def)

text \<open>Moving a buffer to the front of the LRU list.\<close>

lemma find_move_front:
  assumes "find P (xs @ b # ys) = Some i" and "P b \<Longrightarrow> i = b"
  shows "find P (b # xs @ ys) = Some i"
proof (cases "P b")
  case False
  then have "find P (xs @ b # ys) = find P (xs @ ys)" by (induction xs) auto
  then show ?thesis using assms(1) False by simp
qed (use assms(2) in simp)

lemma move_front:
  assumes ok: "cache_ok bs order" and b: "b < NBUF" "live (bs ! b)"
  shows "relinked bs (front_buf b (unlink_buf b bs))"
    and "\<exists>order'. cache_ok (front_buf b (unlink_buf b bs)) order'"
proof -
  have "b \<in> set order" using b(1) cache_okD(2) [OF ok] by simp
  then obtain xs ys where o: "order = xs @ b # ys" using split_list by fast
  have set: "set (xs @ b # ys) = {0..<NBUF}" using cache_okD(2) [OF ok] o by simp
  have d: "dll (fst (links bs)) (snd (links bs)) NBUF (xs @ b # ys)"
    using cache_okD(4) [OF ok] o by (simp add: links_def)
  have dist: "distinct (xs @ b # ys)" using cache_okD(3) [OF ok] o by simp
  note len = cache_okD(1) [OF ok]
  note u = unlink_buf_spec [OF d len equalityD1 [OF set]]
  have l1: "length (unlink_buf b bs) = NBUF + 1" using u(1) len by (simp add: relinked_def)
  have sub: "set (xs @ ys) \<subseteq> {0..<NBUF}" "b \<notin> set (xs @ ys)" using set dist by auto
  note f = front_buf_spec [OF u(2) l1 sub(1) b(1) sub(2)]
  show r: "relinked bs (front_buf b (unlink_buf b bs))" by (rule relinked_trans [OF u(1) f(1)])
  let ?bs = "front_buf b (unlink_buf b bs)"
  have same: "key (?bs ! i) = key (bs ! i)" "live (?bs ! i) = live (bs ! i)" for i
    using r by (simp_all add: relinked_def live_def)
  have "find (\<lambda>j. key (bs ! j) = key (bs ! i)) (b # xs @ ys) = Some i" if i: "i < NBUF" "live (bs ! i)" for i
  proof (rule find_move_front)
    show "find (\<lambda>j. key (bs ! j) = key (bs ! i)) (xs @ b # ys) = Some i"
      using ok i unfolding cache_ok_def o by blast
    show "i = b" if "key (bs ! b) = key (bs ! i)" using live_unique [OF ok i(1) b(1) i(2) b(2)] that by simp
  qed
  then have "cache_ok ?bs (b # xs @ ys)"
    unfolding cache_ok_def same using f(2) r len set by (auto simp: relinked_def links_def)
  then show "\<exists>order'. cache_ok ?bs order'" by blast
qed

lemma same_procs_cur:
  assumes "p < NPROC" "length (procs s) = NPROC" "same_procs (procs s) ps"
  shows "length ps = NPROC" "pid (ps ! p) = pid (procs s ! p)"
  using assms same_procs_length [of "procs s" ps] same_procs_nth [of "procs s" ps p] by simp_all

text \<open>Giving up the sleep lock of a buffer.\<close>

definition unheld :: "nat \<Rightarrow> (nat \<times> bkey) list \<Rightarrow> (nat \<times> bkey) list" where
  "unheld b H = filter (\<lambda>e. fst e \<noteq> b) H"

lemma bcore_unlock:
  assumes core: "bcore bs dsk sl me H"
  shows "bcore bs dsk (sl(LBuf b := \<lparr>slk_locked = False, slk_pid = 0\<rparr>)) me (unheld b H)"
proof -
  have "fst ` set (unheld b H) = fst ` set H - {b}" by (auto simp: unheld_def)
  moreover have "distinct (map fst H) \<Longrightarrow> distinct (map fst (unheld b H))"
    by (simp add: unheld_def distinct_map_filter)
  moreover have "set (unheld b H) \<subseteq> set H" by (auto simp: unheld_def)
  ultimately show ?thesis using core unfolding bcore_def by auto
qed

definition brelse_post :: "'z bmachine_scheme \<Rightarrow> nat \<Rightarrow> bkey \<Rightarrow> (nat \<times> bkey) list \<Rightarrow> 'z bmachine_scheme \<Rightarrow> bool" where
  "brelse_post s b k H s' \<longleftrightarrow> count_post s k (rc s k - 1) (unheld b H) s'"

lemma brelse_run:
  assumes inv: "binv s H" and b: "(b, k) \<in> set H" and h: "held s = []"
  shows "brelse b s = Done () (
    let s1 = s\<lparr>sleeplocks := (sleeplocks s)(LBuf b := \<lparr>slk_locked = False, slk_pid = 0\<rparr>),
               procs := map (wake (ChanSleeplock (LBuf b))) (procs s)\<rparr>;
        bs = (bufs s)[b := (bufs s ! b)\<lparr>refcnt := rc s k - 1\<rparr>]
    in s1\<lparr>bufs := (if rc s k - 1 = 0 then front_buf b (unlink_buf b bs) else bs)\<rparr>)"
proof -
  have len: "length (procs s) = NPROC" using inv by (rule binvE)
  let ?s1 = "s\<lparr>sleeplocks := (sleeplocks s)(LBuf b := \<lparr>slk_locked = False, slk_pid = 0\<rparr>),
    procs := map (wake (ChanSleeplock (LBuf b))) (procs s)\<rparr>"
  have rel: "releasesleep (LBuf b) s = Done () ?s1"
    using h len by (intro releasesleep_eq) simp_all
  show ?thesis
    using holding_held [OF inv b h] rel h held_rc [OF inv b] held_bound [OF inv b]
    by (simp add: brelse_def push_front_bufs unlink_buf_def upd_buf_def Let_def)
qed

lemma brelse_spec:
  assumes inv: "binv s H" and b: "(b, k) \<in> set H" and h: "held s = []"
    and clean: "rc s k - 1 = 0 \<Longrightarrow> view s k = disk s (fst k) (snd k)"
  shows "returns (brelse b s) (\<lambda>_. brelse_post s b k H)"
proof -
  let ?bs = "(bufs s)[b := (bufs s ! b)\<lparr>refcnt := rc s k - 1\<rparr>]"
  define bs' where "bs' = (if rc s k - 1 = 0 then front_buf b (unlink_buf b ?bs) else ?bs)"
  let ?sl = "(sleeplocks s)(LBuf b := \<lparr>slk_locked = False, slk_pid = 0\<rparr>)"
  let ?ps = "map (wake (ChanSleeplock (LBuf b))) (procs s)"
  have c: "count_post s k (rc s k - 1) H (s\<lparr>bufs := ?bs\<rparr>)"
    using clean by (intro count_held [OF inv b]) simp
  then have inv1: "binv (s\<lparr>bufs := ?bs\<rparr>) H" and v: "bview ?bs (disk s) = view s" "brc ?bs = (rc s)(k := rc s k - 1)"
    by (simp_all add: count_post_def view_def rc_def)
  obtain p order where p: "p < NPROC" "cur s = Some p" "length (procs s) = NPROC" and ok: "cache_ok ?bs order"
    and core: "bcore ?bs (disk s) (sleeplocks s) (pid (procs s ! p)) H"
    using inv1 by (rule binvE) simp
  note hb = bcore_heldD [OF core b]
  obtain order' where ok': "cache_ok bs' order'" and rl: "relinked ?bs bs'"
    using ok move_front [OF ok hb(1)] hb(2) by (cases "rc s k - 1 = 0") (auto simp: live_def bs'_def)
  have sp: "same_procs (procs s) ?ps" by simp
  note pc = same_procs_cur [OF p(1,3) sp]
  let ?s' = "s\<lparr>sleeplocks := ?sl, procs := ?ps, bufs := bs'\<rparr>"
  have "bcore bs' (disk s) ?sl (pid (procs s ! p)) (unheld b H)"
    by (rule bcore_unlock [OF relinked_core [OF rl core ok']])
  then have "binv ?s' (unheld b H)" using p pc by (simp add: binv_def)
  moreover have "bframe s ?s'"
    using bframe_upd [where s = s and ps = ?ps and sl = ?sl and bs = bs' and d = "disk s" and tr = "disk_trace s"] sp
    by simp
  moreover have "view ?s' = view s" "rc ?s' = (rc s)(k := rc s k - 1)"
    using relinked_view [OF rl] v by (simp_all add: view_def rc_def)
  ultimately show ?thesis
    unfolding brelse_run [OF inv b h] Let_def bs'_def [symmetric] by (simp add: brelse_post_def count_post_def)
qed

subsection \<open>Writing to a held buffer\<close>

definition write_post :: "'z bmachine_scheme \<Rightarrow> bkey \<Rightarrow> u8 list \<Rightarrow> (nat \<times> bkey) list \<Rightarrow> 'z bmachine_scheme \<Rightarrow> bool" where
  "write_post s k d H s' \<longleftrightarrow> binv s' H \<and> bframe s s' \<and> view s' = (view s)(k := d) \<and> rc s' = rc s \<and>
    disk s' = disk s \<and> disk_trace s' = disk_trace s"

lemma write_held:
  assumes inv: "binv s H" and b: "(b, k) \<in> set H" and rc: "rc s k \<noteq> 0" and len: "length (f (bufs s ! b)) = BSIZE"
  shows "write_post s k (f (bufs s ! b)) H (upd_buf b (\<lambda>x. x\<lparr>bdata := f x\<rparr>) s)"
proof -
  have k: "key (bufs s ! b) = k" "valid (bufs s ! b)"
    using inv b by (auto elim!: binvE dest: bcore_heldD(2,3))
  show ?thesis
    using change_held [OF inv b, of "(bufs s ! b)\<lparr>bdata := f (bufs s ! b)\<rparr>"] k len rc held_rc [OF inv b]
    by (simp add: write_post_def upd_buf_def)
qed

text \<open>A block without references is clean.\<close>

lemma idle_clean:
  assumes inv: "binv s H" and rc: "rc s k = 0"
  shows "view s k = disk s (fst k) (snd k)"
proof -
  obtain p order where ok: "cache_ok (bufs s) order"
    and core: "bcore (bufs s) (disk s) (sleeplocks s) (pid (procs s ! p)) H"
    using inv by (rule binvE)
  show ?thesis
  proof (cases "\<exists>i<NBUF. valid (bufs s ! i) \<and> key (bufs s ! i) = k")
    case True
    then obtain i where i: "i < NBUF" "valid (bufs s ! i)" "key (bufs s ! i) = k" by blast
    then have "refcnt (bufs s ! i) = 0" using rc rc_buffer [OF ok i(1,3)] by (simp add: rc_def)
    then show ?thesis
      using bview_hit [OF ok i, of "disk s"] bcore_clean [OF core i(1,2)] i(3) by (auto simp: view_def key_def)
  next
    case False
    then show ?thesis using bview_miss [of "bufs s" k "disk s"] by (auto simp: view_def)
  qed
qed

section \<open>Initialisation\<close>

lemma binit_loop_push:
  "binit_loop (b # bs) s = binit_loop bs (initsleeplock (LBuf b) (push_front b s))"
  by (simp add: push_front_def initsleeplock_def upd_sleeplock_def upd_buf_def Let_def)

lemma binit_loop_links:
  assumes "dll (fst (links (bufs s))) (snd (links (bufs s))) NBUF xs" "length (bufs s) = NBUF + 1"
    and "set xs \<subseteq> {0..<NBUF}" "set bs \<subseteq> {0..<NBUF}" "distinct (bs @ xs)"
  shows "relinked (bufs s) (bufs (binit_loop bs s)) \<and>
    dll (fst (links (bufs (binit_loop bs s)))) (snd (links (bufs (binit_loop bs s)))) NBUF (rev bs @ xs) \<and>
    sleeplocks (binit_loop bs s) = (\<lambda>lk. if lk \<in> LBuf ` set bs then \<lparr>slk_locked = False, slk_pid = 0\<rparr> else sleeplocks s lk)"
  using assms
proof (induction bs arbitrary: s xs)
  case (Cons b bs)
  let ?s = "initsleeplock (LBuf b) (push_front b s)"
  have bs: "bufs ?s = front_buf b (bufs s)" by (simp add: push_front_bufs initsleeplock_def upd_sleeplock_def)
  note f = front_buf_spec [OF Cons.prems(1-3), of b]
  have l: "length (front_buf b (bufs s)) = NBUF + 1" using f(1) Cons.prems by (simp add: relinked_def)
  have "relinked (bufs ?s) (bufs (binit_loop bs ?s)) \<and>
    dll (fst (links (bufs (binit_loop bs ?s)))) (snd (links (bufs (binit_loop bs ?s)))) NBUF (rev bs @ b # xs) \<and>
    sleeplocks (binit_loop bs ?s) = (\<lambda>lk. if lk \<in> LBuf ` set bs then \<lparr>slk_locked = False, slk_pid = 0\<rparr> else sleeplocks ?s lk)"
    using f(2) l Cons.prems by (intro Cons.IH) (auto simp: bs)
  moreover have "relinked (bufs s) (bufs ?s)" using f(1) Cons.prems by (simp add: bs)
  moreover have "sleeplocks ?s = (sleeplocks s)(LBuf b := \<lparr>slk_locked = False, slk_pid = 0\<rparr>)"
    by (simp add: push_front_bufs initsleeplock_def upd_sleeplock_def)
  ultimately show ?case
    unfolding binit_loop_push by (auto intro: relinked_trans simp: fun_eq_iff)
qed (simp add: fun_eq_iff)

lemma binit_core:
  assumes len: "length (bufs s) = NBUF + 1" and idle: "\<And>i. i < NBUF \<Longrightarrow> \<not> live (bufs s ! i)"
    and dsk: "\<And>d b. length (dsk d b) = BSIZE"
  shows "bcore (bufs (binit s)) dsk (sleeplocks (binit s)) me []"
proof -
  define s0 where "s0 = upd_buf NBUF (\<lambda>x. x\<lparr>bnext := NBUF\<rparr>) (upd_buf NBUF (\<lambda>x. x\<lparr>bprev := NBUF\<rparr>) s)"
  have l0: "length (bufs s0) = NBUF + 1" using len by (simp add: s0_def upd_buf_def)
  have "dll (fst (links (bufs s0))) (snd (links (bufs s0))) NBUF []"
    using len by (intro dll_empty) (simp_all add: s0_def upd_buf_def links_def)
  from binit_loop_links [OF this l0, of "[0..<NBUF]"]
  have r: "relinked (bufs s0) (bufs (binit s))"
    and d: "dll (fst (links (bufs (binit s)))) (snd (links (bufs (binit s)))) NBUF (rev [0..<NBUF])"
    and sl: "sleeplocks (binit s) = (\<lambda>lk. if lk \<in> LBuf ` {0..<NBUF} then \<lparr>slk_locked = False, slk_pid = 0\<rparr> else sleeplocks s0 lk)"
    by (simp_all add: binit_def s0_def Let_def)
  have "\<not> live (bufs (binit s) ! i)" if "i < NBUF" for i
    using r idle [OF that] that by (simp add: relinked_def live_def s0_def upd_buf_def)
  moreover from this have "cache_ok (bufs (binit s)) (rev [0..<NBUF])"
    using r l0 d by (auto simp: cache_ok_def links_def relinked_def)
  ultimately show ?thesis using dsk sl unfolding bcore_def by (auto simp: live_def)
qed

text \<open>The machine after \<open>binit\<close> on zeroed memory, with process 0 running.\<close>

definition zero_proc :: proc where
  "zero_proc = \<lparr>state = UNUSED, parent = None, chan = ChanNone, killed = False, xstate = 0, pid = 0, kstack = 0,
    sz = 0, pagetable = 0, tf = 0, pcontext = \<lparr>ctx_ra = 0, ctx_sp = 0, ctx_s = replicate 12 0\<rparr>,
    ofile = replicate NOFILE None, cwd = None, name = replicate 16 0\<rparr>"

definition zero_buf :: buf where
  "zero_buf = \<lparr>valid = False, owned_by_disk = False, bdev = 0, blockno = 0, refcnt = 0, bprev = 0, bnext = 0,
    bdata = replicate BSIZE 0\<rparr>"

definition boot :: "(u32 \<Rightarrow> u32 \<Rightarrow> u8 list) \<Rightarrow> 'z \<Rightarrow> 'z bmachine_scheme" where
  "boot dsk m = binit \<lparr>held = [], mem = (\<lambda>_. 0), k_end = 0x80027020, freelist = 0,
    kernel_pagetable = 0, k_etext = 0x80007000, k_trampoline = 0x80006000, satp = 0,
    procs = replicate NPROC zero_proc, cur = Some 0, nextpid = 1, initproc = None, k_forkret = 0x80001000,
    sleeplocks = (\<lambda>_. \<lparr>slk_locked = False, slk_pid = 0\<rparr>),
    bufs = replicate (NBUF + 1) zero_buf, disk = dsk, disk_trace = [], \<dots> = m\<rparr>"

lemma zero_bufs [simp]: "i < NBUF \<Longrightarrow> \<not> live (replicate (NBUF + 1) zero_buf ! i)"
  by (subst nth_replicate) (simp_all add: live_def zero_buf_def)

lemma binit_loop_frame:
  "cur (binit_loop bs s) = cur s" "procs (binit_loop bs s) = procs s" "held (binit_loop bs s) = held s"
  "disk (binit_loop bs s) = disk s" "disk_trace (binit_loop bs s) = disk_trace s" 
  "bmachine.more (binit_loop bs s) = bmachine.more s"
  by (induction bs arbitrary: s) (simp_all add: upd_buf_def initsleeplock_def upd_sleeplock_def Let_def)

lemma boot_fields [simp]:
  "cur (boot dsk m) = Some 0" "procs (boot dsk m) = replicate NPROC zero_proc" "held (boot dsk m) = []"
  "disk (boot dsk m) = dsk" "disk_trace (boot dsk m) = []" "bmachine.more (boot dsk m) = m"
  by (simp_all add: boot_def binit_def binit_loop_frame upd_buf_def Let_def)

lemma boot_binv:
  assumes "\<And>d b. length (dsk d b) = BSIZE"
  shows "binv (boot dsk m) []"
proof -
  have "bcore (bufs (boot dsk m)) dsk (sleeplocks (boot dsk m)) 0 []"
    unfolding boot_def using assms zero_bufs by (intro binit_core) (simp_all del: replicate.simps)
  then show ?thesis by (simp add: binv_def NPROC_def zero_proc_def)
qed

lemma binit_unused:
  assumes len: "length (bufs s) = NBUF + 1" and idle: "\<And>i. i < NBUF \<Longrightarrow> \<not> live (bufs s ! i)"
  shows "i < NBUF \<Longrightarrow> \<not> live (bufs (binit s) ! i)"
proof -
  let ?s = "upd_buf NBUF (\<lambda>x. x\<lparr>bnext := NBUF\<rparr>) (upd_buf NBUF (\<lambda>x. x\<lparr>bprev := NBUF\<rparr>) s)"
  have l0: "length (bufs ?s) = NBUF + 1" using len by (simp add: upd_buf_def)
  have "dll (fst (links (bufs ?s))) (snd (links (bufs ?s))) NBUF []"
    using len by (intro dll_empty) (simp_all add: upd_buf_def links_def)
  from binit_loop_links [OF this l0, of "[0..<NBUF]"]
  have "relinked (bufs ?s) (bufs (binit s))" by (simp add: binit_def Let_def)
  then show "i < NBUF \<Longrightarrow> \<not> live (bufs (binit s) ! i)"
    using idle [of i] by (simp add: relinked_def live_def upd_buf_def)
qed

lemma boot_rc [simp]: "rc (boot dsk m) k = 0" "view (boot dsk m) k = dsk (fst k) (snd k)" "busy (boot dsk m) = {}"
proof -
  have idle: "\<not> live (bufs (boot dsk m) ! i)" if "i < NBUF" for i
    unfolding boot_def using that zero_bufs by (intro binit_unused) (simp_all del: replicate.simps)
  show r: "rc (boot dsk m) k = 0" for k
    using idle brc_miss [of "bufs (boot dsk m)" k] by (auto simp: rc_def live_def)
  show "view (boot dsk m) k = dsk (fst k) (snd k)"
    using idle bview_miss [of "bufs (boot dsk m)" k dsk] by (auto simp: view_def live_def)
  show "busy (boot dsk m) = {}" by (simp add: busy_def r)
qed

section \<open>Properties\<close>

text \<open>
  C10: \<open>bread\<close> finds the block in the cache or recycles the least recently used
  buffer without references, and in both cases returns, with the buffer locked, the
  content the block has for the rest of the kernel.  The call adds one reference,
  keeps the LRU list and the one-buffer-per-block invariant, writes nothing to the
  disk, and changes the content of no other block.  It needs a buffer without
  references when the block is not referenced yet.
\<close>

theorem bread_delivers_block:
  assumes "binv s H" and "held s = []" and "\<And>b. (b, (dev, bn)) \<notin> set H"
    and "\<And>b k. (b, k) \<in> set H \<Longrightarrow> rc s k \<noteq> 0" and "rc s (dev, bn) + 1 \<noteq> 0"
    and "rc s (dev, bn) \<noteq> 0 \<or> card (busy s) < NBUF"
  shows "returns (bread dev bn s) (\<lambda>b s'. bdata (bufs s' ! b) = view s (dev, bn) \<and>
    binv s' ((b, (dev, bn)) # H) \<and> view s' = view s \<and> rc s' = (rc s)((dev, bn) := rc s (dev, bn) + 1) \<and>
    disk s' = disk s \<and> held s' = [])"
proof (rule returns_mono [OF bread_spec [OF assms]])
  fix b s' assume "bread_post s (dev, bn) H b s'"
  then show "bdata (bufs s' ! b) = view s (dev, bn) \<and> binv s' ((b, (dev, bn)) # H) \<and> view s' = view s \<and>
      rc s' = (rc s)((dev, bn) := rc s (dev, bn) + 1) \<and> disk s' = disk s \<and> held s' = []"
    using held_view [of s' "(b, (dev, bn)) # H" b "(dev, bn)"] bframe_fields(1) [of s s'] assms(2)
    by (simp add: bread_post_def)
qed

theorem bread_delivers_block_witness:
  "returns (bread 1 7 (boot (\<lambda>d b. replicate BSIZE (ucast b)) ())) (\<lambda>b s'.
    bdata (bufs s' ! b) = replicate BSIZE 7 \<and> binv s' [(b, (1, 7))] \<and> rc s' (1, 7) = 1)"
proof -
  let ?s = "boot (\<lambda>d b. replicate BSIZE (ucast b)) ()"
  have "returns (bread 1 7 ?s) (\<lambda>b s'. bdata (bufs s' ! b) = view ?s (1, 7) \<and>
    binv s' ((b, (1, 7)) # []) \<and> view s' = view ?s \<and> rc s' = (rc ?s)((1, 7) := rc ?s (1, 7) + 1) \<and>
    disk s' = disk ?s \<and> held s' = [])"
    by (rule bread_delivers_block) (simp_all add: boot_binv NBUF_def)
  then show ?thesis by (rule returns_mono) simp
qed

text \<open>
  C11: releasing a held buffer gives the lock and one reference back, keeps the
  invariant of the cache (the buffer moves to the front of the LRU list when the last
  reference is gone), and changes neither the content of any block nor the disk.  The
  last reference may only be dropped when the disk has the content of the block.
\<close>

theorem brelse_keeps_cache:
  assumes "binv s H" and "(b, k) \<in> set H" and "held s = []"
    and "rc s k - 1 = 0 \<Longrightarrow> view s k = disk s (fst k) (snd k)"
  shows "returns (brelse b s) (\<lambda>_ s'. binv s' (unheld b H) \<and> view s' = view s \<and>
    rc s' = (rc s)(k := rc s k - 1) \<and> disk s' = disk s)"
proof (rule returns_mono [OF brelse_spec [OF assms]])
  fix u s' assume "brelse_post s b k H s'"
  then show "binv s' (unheld b H) \<and> view s' = view s \<and> rc s' = (rc s)(k := rc s k - 1) \<and> disk s' = disk s"
    unfolding brelse_post_def count_post_def by blast
qed

theorem brelse_keeps_cache_witness:
  "returns (bindk (bread 1 7 (boot (\<lambda>d b. replicate BSIZE (ucast b)) ())) brelse) (\<lambda>_ s'. binv s' [] \<and> rc s' (1, 7) = 0)"
proof -
  let ?s = "boot (\<lambda>d b. replicate BSIZE (ucast b)) ()"
  have "returns (bread 1 7 ?s) (bread_post ?s (1, 7) [])"
    by (rule bread_spec) (simp_all add: boot_binv NBUF_def)
  then show ?thesis unfolding returns_bindk
  proof (rule returns_mono)
    fix b s assume "bread_post ?s (1, 7) [] b s"
    then have p: "binv s [(b, (1, 7))]" "held s = []" "rc s (1, 7) = 1" "view s = view ?s" "disk s = disk ?s"
      using bframe_fields(1) [of ?s s] by (simp_all add: bread_post_def)
    have "returns (brelse b s) (\<lambda>_ s'. binv s' (unheld b [(b, (1, 7))]) \<and> view s' = view s \<and>
      rc s' = (rc s)((1, 7) := rc s (1, 7) - 1) \<and> disk s' = disk s)"
      using p by (intro brelse_keeps_cache) simp_all
    then show "returns (brelse b s) (\<lambda>_ s'. binv s' [] \<and> rc s' (1, 7) = 0)"
      by (rule returns_mono) (simp add: unheld_def p)
  qed
qed

end
