(* ===== verification/Journal.thy ===== *)
theory Journal
  imports Prelude
begin

text \<open>
  The crash-safety argument of a redo log on an abstract disk.  The locale
  \<open>journal\<close> asks for a header block that can be encoded and decoded and for log
  blocks apart from it, and shows that whatever prefix of the writes of a commit
  reaches the disk, recovery yields the disk from before the transaction or the one
  after it.  The theory of \<open>kernel/log.c\<close> interprets it.
\<close>

section \<open>Writes to a disk\<close>

definition apply_writes :: "('a \<times> 'b) list \<Rightarrow> ('a \<Rightarrow> 'b) \<Rightarrow> 'a \<Rightarrow> 'b" where
  "apply_writes ws d = fold (\<lambda>(a, v) d. d(a := v)) ws d"

lemma apply_writes_simps [simp]:
  "apply_writes [] d = d"
  "apply_writes ((a, v) # ws) d = apply_writes ws (d(a := v))"
  "apply_writes (ws @ vs) d = apply_writes vs (apply_writes ws d)"
  by (simp_all add: apply_writes_def)

lemma apply_writes_other: "a \<notin> fst ` set ws \<Longrightarrow> apply_writes ws d a = d a"
  by (induction ws arbitrary: d) auto

lemma apply_writes_zip:
  assumes "distinct as" and "i < length as" and "length vs = length as"
  shows "apply_writes (zip as vs) d (as ! i) = vs ! i"
  using assms
proof (induction as arbitrary: vs d i)
  case (Cons a as)
  then obtain v ws where vs: "vs = v # ws" by (cases vs) auto
  show ?case
  proof (cases i)
    case 0
    have "a \<notin> fst ` set (zip as ws)" using Cons.prems(1) by (auto dest: set_zip_leftD)
    then show ?thesis using 0 vs by (simp add: apply_writes_other)
  next
    case (Suc j)
    then show ?thesis using Cons vs by simp
  qed
qed simp

lemma zip_keys: "fst ` set (zip as vs) \<subseteq> set as"
  by (auto dest: set_zip_leftD)

lemma apply_writes_zip_other: "a \<notin> set as \<Longrightarrow> apply_writes (zip as vs) d a = d a"
  using zip_keys [of as vs] by (intro apply_writes_other) blast

lemma take_zip_keys: "fst ` set (take k (zip as vs)) \<subseteq> set as"
  using zip_keys [of as vs] set_take_subset [of k "zip as vs"] by blast

text \<open>Two disks agree once the same blocks have been written, wherever they agreed before.\<close>

lemma apply_writes_agree:
  assumes "a \<notin> set as \<Longrightarrow> d a = d' a" and "distinct as" and "length vs = length as"
  shows "apply_writes (zip as vs) d a = apply_writes (zip as vs) d' a"
proof (cases "a \<in> set as")
  case True
  then obtain i where "i < length as" "a = as ! i" by (metis in_set_conv_nth)
  then show ?thesis using assms(2,3) by (simp add: apply_writes_zip)
next
  case False
  then have "a \<notin> fst ` set (zip as vs)" using zip_keys by fast
  then show ?thesis using assms(1) False by (simp add: apply_writes_other)
qed

section \<open>The writes of a transaction\<close>

text \<open>
  \<open>hdr\<close> is the address of the header block and \<open>slot i\<close> the address of log block
  \<open>i\<close>.  A commit writes the log blocks, the header, the home blocks, and the header
  again; a recovery copies the log blocks to the homes the header names and then
  writes an empty header.
\<close>

definition commit_writes :: "('a list \<Rightarrow> 'b \<Rightarrow> 'b) \<Rightarrow> 'a \<Rightarrow> (nat \<Rightarrow> 'a) \<Rightarrow> 'a list \<Rightarrow> 'b list \<Rightarrow> 'b \<Rightarrow> ('a \<times> 'b) list" where
  "commit_writes encode hdr slot hs vs hb =
    zip (map slot [0..<length hs]) vs @ [(hdr, encode hs hb)] @ zip hs vs @ [(hdr, encode [] (encode hs hb))]"

definition recovery_writes :: "('a list \<Rightarrow> 'b \<Rightarrow> 'b) \<Rightarrow> ('b \<Rightarrow> 'a list) \<Rightarrow> 'a \<Rightarrow> (nat \<Rightarrow> 'a) \<Rightarrow> ('a \<Rightarrow> 'b) \<Rightarrow> ('a \<times> 'b) list" where
  "recovery_writes encode decode hdr slot d =
    (let hs = decode (d hdr) in zip hs (map (\<lambda>i. d (slot i)) [0..<length hs]) @ [(hdr, encode [] (d hdr))])"

definition recovered :: "('a list \<Rightarrow> 'b \<Rightarrow> 'b) \<Rightarrow> ('b \<Rightarrow> 'a list) \<Rightarrow> 'a \<Rightarrow> (nat \<Rightarrow> 'a) \<Rightarrow> ('a \<Rightarrow> 'b) \<Rightarrow> 'a \<Rightarrow> 'b" where
  "recovered encode decode hdr slot d = apply_writes (recovery_writes encode decode hdr slot d) d"

locale journal =
  fixes encode :: "'a list \<Rightarrow> 'b \<Rightarrow> 'b" and decode :: "'b \<Rightarrow> 'a list" and wf_block :: "'b \<Rightarrow> bool" and cap :: nat
    and hdr :: 'a and slot :: "nat \<Rightarrow> 'a"
  assumes decode_encode: "wf_block b \<Longrightarrow> length hs \<le> cap \<Longrightarrow> decode (encode hs b) = hs"
    and wf_encode: "wf_block b \<Longrightarrow> length hs \<le> cap \<Longrightarrow> wf_block (encode hs b)"
    and slot_inj: "i < cap \<Longrightarrow> j < cap \<Longrightarrow> slot i = slot j \<Longrightarrow> i = j"
    and slot_hdr: "i < cap \<Longrightarrow> slot i \<noteq> hdr"
begin

definition area :: "'a set" where
  "area = insert hdr (slot ` {0..<cap})"

definition homes_ok :: "'a list \<Rightarrow> bool" where
  "homes_ok hs \<longleftrightarrow> distinct hs \<and> length hs \<le> cap \<and> set hs \<inter> area = {}"

lemma slots:
  assumes "homes_ok hs"
  shows "distinct (map slot [0..<length hs]) \<and> hdr \<notin> set (map slot [0..<length hs]) \<and>
    set (map slot [0..<length hs]) \<subseteq> area"
proof (intro conjI)
  have cap: "length hs \<le> cap" using assms by (simp add: homes_ok_def)
  then have "inj_on slot {0..<length hs}" by (intro inj_onI slot_inj) auto
  then show "distinct (map slot [0..<length hs])" by (simp add: distinct_map)
  show "hdr \<notin> set (map slot [0..<length hs])"
  proof
    assume "hdr \<in> set (map slot [0..<length hs])"
    then obtain i where "i < length hs" "hdr = slot i" by auto
    then show False using slot_hdr [of i] cap by simp
  qed
  show "set (map slot [0..<length hs]) \<subseteq> area" using cap by (auto simp: area_def)
qed

lemma homes_area: "homes_ok hs \<Longrightarrow> a \<in> area \<Longrightarrow> a \<notin> set hs"
  by (auto simp: homes_ok_def)

lemma hdr_area [simp]: "hdr \<in> area"
  by (simp add: area_def)

lemma slot_area: "i < cap \<Longrightarrow> slot i \<in> area"
  by (simp add: area_def)

text \<open>A disk whose header is empty is left alone outside the log.\<close>

lemma recovered_idle:
  assumes "decode (d hdr) = []" and "a \<notin> area"
  shows "recovered encode decode hdr slot d a = d a"
  using assms by (auto simp: recovered_def recovery_writes_def area_def)

text \<open>A disk whose header names \<open>hs\<close> gets the content of the log blocks.\<close>

lemma recovered_full:
  assumes "decode (d hdr) = hs" and "homes_ok hs" and "\<And>i. i < length hs \<Longrightarrow> d (slot i) = vs ! i"
    and "length vs = length hs" and "a \<notin> area"
  shows "recovered encode decode hdr slot d a = apply_writes (zip hs vs) d a"
proof -
  have "map (\<lambda>i. d (slot i)) [0..<length hs] = vs"
    using assms(3,4) by (intro nth_equalityI) auto
  moreover have "a \<noteq> hdr" using assms(5) by (auto simp: area_def)
  ultimately show ?thesis using assms(1) by (simp add: recovered_def recovery_writes_def)
qed

lemma crash_before:
  assumes "decode (d hdr) = []" and "homes_ok hs" and "length vs = length hs" and "a \<notin> area" and "k \<le> length hs"
  shows "recovered encode decode hdr slot (apply_writes (take k (commit_writes encode hdr slot hs vs (d hdr))) d) a = d a"
proof -
  let ?z = "zip (map slot [0..<length hs]) vs"
  have t: "take k (commit_writes encode hdr slot hs vs (d hdr)) = take k ?z"
    using assms(3,5) by (simp add: commit_writes_def)
  note sl = slots [OF assms(2)]
  have keys: "fst ` set (take k ?z) \<subseteq> set (map slot [0..<length hs])" by (rule take_zip_keys)
  have "hdr \<notin> fst ` set (take k ?z)" "a \<notin> fst ` set (take k ?z)" using keys sl assms(4) by blast+
  then show ?thesis using recovered_idle [of "apply_writes (take k ?z) d" a] assms(1,4)
    by (simp add: t apply_writes_other)
qed

lemma logged:
  assumes "homes_ok hs" and "length vs = length hs" and "i < length hs"
  shows "apply_writes (zip (map slot [0..<length hs]) vs) d (slot i) = vs ! i"
  using apply_writes_zip [of "map slot [0..<length hs]" i vs d] slots [OF assms(1)] assms(2,3) by simp

lemma crash_after:
  assumes wf: "wf_block (d hdr)" and ok: "homes_ok hs" and len: "length vs = length hs" and a: "a \<notin> area"
    and k: "length hs < k"
  shows "recovered encode decode hdr slot (apply_writes (take k (commit_writes encode hdr slot hs vs (d hdr))) d) a
    = apply_writes (zip hs vs) d a"
proof -
  define e where "e = (apply_writes (zip (map slot [0..<length hs]) vs) d)(hdr := encode hs (d hdr))"
  define j where "j = k - length hs - 1"
  have cap: "length hs \<le> cap" using ok by (simp add: homes_ok_def)
  have dec: "decode (encode hs (d hdr)) = hs" "wf_block (encode hs (d hdr))"
    using decode_encode wf_encode wf cap by auto
  note sl = slots [OF ok]
  have ea: "e a = d a"
    using a sl zip_keys [of "map slot [0..<length hs]" vs] by (auto simp: e_def intro!: apply_writes_other)
  have es: "e (slot i) = vs ! i" if "i < length hs" for i
    using logged [OF ok len that] slot_hdr [of i] cap that by (simp add: e_def)
  have "distinct hs" using ok by (simp add: homes_ok_def)
  note agree = apply_writes_agree [OF _ this len, of a]
  have t: "apply_writes (take k (commit_writes encode hdr slot hs vs (d hdr))) d =
      apply_writes (take j (zip hs vs @ [(hdr, encode [] (encode hs (d hdr)))])) e"
    using k len by (simp add: commit_writes_def j_def e_def take_Cons' min_def)
  show ?thesis
  proof (cases "j \<le> length hs")
    case True
    let ?z = "take j (zip hs vs)"
    have off: "b \<notin> fst ` set ?z" if "b \<in> area" for b
      using take_zip_keys [of j hs vs] homes_area [OF ok that] by auto
    have "recovered encode decode hdr slot (apply_writes ?z e) a = apply_writes (zip hs vs) (apply_writes ?z e) a"
      using es dec cap by (intro recovered_full [OF _ ok _ len a]) (auto simp: apply_writes_other off slot_area e_def)
    also have "\<dots> = apply_writes (zip hs vs) d a"
      using take_zip_keys [of j hs vs] ea by (intro agree) (metis apply_writes_other subsetD)
    finally show ?thesis using True len unfolding t by simp
  next
    case False
    let ?f = "(apply_writes (zip hs vs) e)(hdr := encode [] (encode hs (d hdr)))"
    have "decode (?f hdr) = []" using decode_encode [OF dec(2), of "[]"] by simp
    from recovered_idle [of ?f a, OF this a] have "recovered encode decode hdr slot ?f a = apply_writes (zip hs vs) e a"
      using a by (auto simp: area_def)
    also have "\<dots> = apply_writes (zip hs vs) d a" using ea by (intro agree) auto
    finally show ?thesis using False len unfolding t by simp
  qed
qed

text \<open>Outside of the log, a commit writes the home blocks.\<close>

lemma commit_effect:
  assumes ok: "homes_ok hs" and len: "length vs = length hs" and a: "a \<notin> area"
  shows "apply_writes (commit_writes encode hdr slot hs vs hb) d a = apply_writes (zip hs vs) d a"
proof -
  have "a \<noteq> hdr" "a \<notin> set (map slot [0..<length hs])" using a slots [OF ok] by auto
  moreover have "distinct hs" using ok by (simp add: homes_ok_def)
  ultimately show ?thesis
    using apply_writes_agree [of a hs "(apply_writes (zip (map slot [0..<length hs]) vs) d)(hdr := encode hs hb)" d vs] len
    by (simp add: commit_writes_def apply_writes_zip_other)
qed

text \<open>
  Every prefix of the writes of a commit recovers to the old disk or to the new one:
  the write of the header is the commit point.
\<close>

theorem crash_atomic:
  assumes "wf_block (d hdr)" and "decode (d hdr) = []" and "homes_ok hs" and "length vs = length hs" and "a \<notin> area"
  shows "recovered encode decode hdr slot (apply_writes (take k (commit_writes encode hdr slot hs vs (d hdr))) d) a
    = (if k \<le> length hs then d a else apply_writes (zip hs vs) d a)"
  using crash_before [of d hs vs a k] crash_after [of d hs vs a k] assms by simp

text \<open>A crash during recovery is repaired by the next recovery.\<close>

theorem recovery_idempotent:
  assumes wf: "wf_block (d hdr)" and ok: "homes_ok (decode (d hdr))" and a: "a \<notin> area"
  shows "recovered encode decode hdr slot (apply_writes (take k (recovery_writes encode decode hdr slot d)) d) a
    = recovered encode decode hdr slot d a"
proof -
  define hs vs where "hs = decode (d hdr)" and "vs = map (\<lambda>i. d (slot i)) [0..<length hs]"
  have len: "length vs = length hs" and dist: "distinct hs" and cap: "length hs \<le> cap"
    using ok by (auto simp: vs_def hs_def homes_ok_def)
  have ok': "homes_ok hs" using ok by (simp add: hs_def)
  have full: "recovered encode decode hdr slot d a = apply_writes (zip hs vs) d a"
    using ok' len a by (intro recovered_full) (auto simp: hs_def vs_def)
  show ?thesis
  proof (cases "k \<le> length hs")
    case True
    let ?z = "take k (zip hs vs)"
    have off: "b \<notin> fst ` set ?z" if "b \<in> area" for b
      using take_zip_keys [of k hs vs] homes_area [OF ok' that] by auto
    have same: "apply_writes ?z d b = d b" if "b \<in> area" for b by (rule apply_writes_other [OF off [OF that]])
    have "recovered encode decode hdr slot (apply_writes ?z d) a = apply_writes (zip hs vs) (apply_writes ?z d) a"
    proof (rule recovered_full [OF _ ok' _ len a])
      show "decode (apply_writes ?z d hdr) = hs" by (simp only: same hdr_area) (simp only: hs_def)
      show "apply_writes ?z d (slot i) = vs ! i" if "i < length hs" for i
        using that cap same [OF slot_area, of i] by (simp add: vs_def)
    qed
    also have "\<dots> = apply_writes (zip hs vs) d a"
      using take_zip_keys [of k hs vs] by (intro apply_writes_agree [OF _ dist len]) (metis apply_writes_other subsetD)
    finally show ?thesis using True len full by (simp add: recovery_writes_def Let_def hs_def [symmetric] vs_def [symmetric])
  next
    case False
    let ?f = "(apply_writes (zip hs vs) d)(hdr := encode [] (d hdr))"
    have "decode (?f hdr) = []" using decode_encode [OF wf, of "[]"] by simp
    from recovered_idle [of ?f a, OF this a] have "recovered encode decode hdr slot ?f a = apply_writes (zip hs vs) d a"
      using a by (auto simp: area_def)
    then show ?thesis using False len full by (simp add: recovery_writes_def Let_def hs_def [symmetric] vs_def [symmetric])
  qed
qed

end

end
