(* ===== verification/Commit.thy ===== *)
theory Commit
  imports Log Bcache Journal
begin

text \<open>
  Crash safety of \<open>kernel/log.c\<close>: \<open>commit\<close> and \<open>recover_from_log\<close>, run through the
  buffer cache, write to the disk exactly the blocks that the abstract argument of
  the journal asks for, in that order.
\<close>

section \<open>The log header\<close>

definition put_header :: "u32 list \<Rightarrow> u8 list \<Rightarrow> u8 list" where
  "put_header hs d = fold (\<lambda>i d. put32 d (4 + 4 * i) (hs ! i)) [0..<length hs] (put32 d 0 (of_nat (length hs)))"

definition header_blocks :: "u8 list \<Rightarrow> u32 list" where
  "header_blocks d = map (\<lambda>i. get32 d (4 + 4 * i)) [0..<nat (sint (get32 d 0))]"

lemma put_entries:
  assumes "4 + 4 * n \<le> length d"
  shows "length (fold (\<lambda>i d. put32 d (4 + 4 * i) (hs ! i)) [0..<n] d) = length d"
    and "get32 (fold (\<lambda>i d. put32 d (4 + 4 * i) (hs ! i)) [0..<n] d) 0 = get32 d 0"
    and "j < n \<Longrightarrow> get32 (fold (\<lambda>i d. put32 d (4 + 4 * i) (hs ! i)) [0..<n] d) (4 + 4 * j) = hs ! j"
  using assms by (induction n arbitrary: j) (auto simp: less_Suc_eq)

lemma header_fits: "length hs \<le> 30 \<Longrightarrow> 4 + 4 * length hs \<le> BSIZE"
  by (simp add: BSIZE_def)

lemma sint_of_nat_small: "n \<le> 30 \<Longrightarrow> sint (of_nat n :: u32) = int n"
  by (simp add: signed_of_nat signed_take_bit_int_eq_self)

lemma put_header_length [simp]: "length d = BSIZE \<Longrightarrow> length hs \<le> 30 \<Longrightarrow> length (put_header hs d) = BSIZE"
  unfolding put_header_def by (subst put_entries) (simp_all add: header_fits BSIZE_def)

lemma header_put:
  assumes "length d = BSIZE" and "length hs \<le> 30"
  shows "header_blocks (put_header hs d) = hs"
proof -
  let ?d = "put32 d 0 (of_nat (length hs))"
  have l: "length ?d = BSIZE" using assms(1) by (simp add: BSIZE_def)
  have "4 + 4 * length hs \<le> length ?d" using header_fits [OF assms(2)] l by simp
  note e = put_entries [OF this]
  have "get32 (put_header hs d) 0 = of_nat (length hs)"
    using assms(1) e(2) by (simp add: put_header_def BSIZE_def)
  moreover have "get32 (put_header hs d) (4 + 4 * j) = hs ! j" if "j < length hs" for j
    using e(3) [OF that] by (simp add: put_header_def)
  ultimately show ?thesis
    using assms(2) by (intro nth_equalityI) (simp_all add: header_blocks_def sint_of_nat_small)
qed

section \<open>The log area\<close>

text \<open>
  The log occupies \<open>nlog = LOGSIZE\<close> blocks from \<open>logstart\<close> on: its header and 29 log blocks. The next
  block is the first one of the inodes.
\<close>

definition log_hdr :: "int \<Rightarrow> u32" where
  "log_hdr start = of_int start"

definition log_slot :: "int \<Rightarrow> nat \<Rightarrow> u32" where
  "log_slot start i = of_int (start + int i + 1)"

lemma log_slot_offset: "log_slot start i = log_hdr start + of_nat (i + 1)"
  by (simp add: log_slot_def log_hdr_def)

lemma of_nat_small_inj: "i \<le> 30 \<Longrightarrow> j \<le> 30 \<Longrightarrow> (of_nat i :: u32) = of_nat j \<Longrightarrow> i = j"
  by (drule arg_cong [where f = unat]) (simp add: unat_of_nat)

interpretation lg: journal put_header header_blocks "\<lambda>b. length b = BSIZE" 29 "log_hdr start" "log_slot start" for start
proof
  show "header_blocks (put_header hs b) = hs" if "length b = BSIZE" "length hs \<le> 29" for b hs
    using that by (intro header_put) simp_all
  show "length (put_header hs b) = BSIZE" if "length b = BSIZE" "length hs \<le> 29" for b hs
    using that by simp
  show "i = j" if "i < 29" "j < 29" "log_slot start i = log_slot start j" for i j
  proof -
    have "of_nat (i + 1) = (of_nat (j + 1) :: u32)"
      using that(3) unfolding log_slot_offset by (simp only: add_left_cancel)
    then have "i + 1 = j + 1" using that(1,2) by (intro of_nat_small_inj) simp_all
    then show ?thesis by simp
  qed
  show "log_slot start i \<noteq> log_hdr start" if "i < 29" for i
  proof
    assume "log_slot start i = log_hdr start"
    then have "log_hdr start + of_nat (i + 1) = log_hdr start + of_nat 0" unfolding log_slot_offset by simp
    then have "of_nat (i + 1) = (of_nat 0 :: u32)" by (rule add_left_imp_eq)
    then have "i + 1 = 0" by (rule of_nat_small_inj [rotated 2]) (use that in simp_all)
    then show False by simp
  qed
qed

section \<open>Running the cache\<close>

text \<open>
  \<open>cpost s0 H v r d tr s\<close>: a run that started in \<open>s0\<close> has reached \<open>s\<close>, with the
  buffers \<open>H\<close> held, block contents \<open>v\<close>, reference counts \<open>r\<close>, disk \<open>d\<close> and
  write trace \<open>tr\<close>.  There is one rule per operation.
\<close>

definition cpost :: "'z bmachine_scheme \<Rightarrow> (nat \<times> bkey) list \<Rightarrow> (bkey \<Rightarrow> u8 list) \<Rightarrow> (bkey \<Rightarrow> u32) \<Rightarrow>
    (u32 \<Rightarrow> u32 \<Rightarrow> u8 list) \<Rightarrow> (u32 \<times> u32 \<times> u8 list) list \<Rightarrow> 'z bmachine_scheme \<Rightarrow> bool" where
  "cpost s0 H v r d tr s \<longleftrightarrow> binv s H \<and> held s = [] \<and> bframe s0 s \<and> view s = v \<and> rc s = r \<and> disk s = d \<and> disk_trace s = tr"

lemma cpost_start: "binv s H \<Longrightarrow> held s = [] \<Longrightarrow> cpost s H (view s) (rc s) (disk s) (disk_trace s) s"
  by (simp add: cpost_def)

lemma cpostD:
  assumes "cpost s0 H v r d tr s"
  shows "binv s H" "held s = []" "bframe s0 s" "view s = v" "rc s = r" "disk s = d" "disk_trace s = tr"
  using assms by (simp_all add: cpost_def)

lemma cpost_step:
  assumes "cpost s0 H v r d tr s" and "binv s' H'" "bframe s s'" "view s' = v'" "rc s' = r'" "disk s' = d'" "disk_trace s' = tr'"
  shows "cpost s0 H' v' r' d' tr' s'"
  using assms bframe_trans [of s0 s s'] bframe_fields(1) [of s s'] by (simp add: cpost_def)

definition nbusy :: "(bkey \<Rightarrow> u32) \<Rightarrow> nat" where
  "nbusy r = card {k. r k \<noteq> 0}"

lemma bread_run:
  assumes c: "cpost s0 H v r d tr s" and "\<And>b. (b, (dev, bn)) \<notin> set H" and "\<And>b k. (b, k) \<in> set H \<Longrightarrow> r k \<noteq> 0"
    and "r (dev, bn) + 1 \<noteq> 0" and "r (dev, bn) \<noteq> 0 \<or> nbusy r < NBUF"
  obtains b s' where "bread dev bn s = Done b s'"
    "cpost s0 ((b, (dev, bn)) # H) v (r((dev, bn) := r (dev, bn) + 1)) d tr s'"
proof -
  have "returns (bread dev bn s) (bread_post s (dev, bn) H)"
    using assms cpostD [OF c] by (intro bread_spec) (auto simp: busy_def nbusy_def)
  then obtain b s' where e: "bread dev bn s = Done b s'" and p: "bread_post s (dev, bn) H b s'"
    by (auto simp: returns_iff)
  have "cpost s0 ((b, (dev, bn)) # H) v (r((dev, bn) := r (dev, bn) + 1)) d tr s'"
    using p cpostD [OF c] by (intro cpost_step [OF c]) (simp_all add: bread_post_def)
  with e show ?thesis by (rule that)
qed

lemma bwrite_run:
  assumes c: "cpost s0 H v r d tr s" and b: "(b, (dev, bn)) \<in> set H"
  obtains s' where "bwrite b s = Done () s'"
    "cpost s0 H v r (d(dev := (d dev)(bn := v (dev, bn)))) (tr @ [(dev, bn, v (dev, bn))]) s'"
proof -
  have "returns (bwrite b s) (\<lambda>_. bwrite_post s (dev, bn) H)"
    using b cpostD [OF c] by (intro bwrite_spec) auto
  then obtain s' where e: "bwrite b s = Done () s'" and p: "bwrite_post s (dev, bn) H s'"
    by (auto simp: returns_iff)
  have "cpost s0 H v r (d(dev := (d dev)(bn := v (dev, bn)))) (tr @ [(dev, bn, v (dev, bn))]) s'"
    using p cpostD [OF c] by (intro cpost_step [OF c]) (simp_all add: bwrite_post_def)
  with e show ?thesis by (rule that)
qed

lemma bpin_run:
  assumes c: "cpost s0 H v r d tr s" and b: "(b, k) \<in> set H" and "r k + 1 \<noteq> 0"
  obtains s' where "bpin b s = Done () s'" "cpost s0 H v (r(k := r k + 1)) d tr s'"
proof -
  have "returns (bpin b s) (\<lambda>_. count_post s k (rc s k + 1) H)"
    using assms cpostD [OF c] by (intro bpin_spec) auto
  then obtain s' where e: "bpin b s = Done () s'" and p: "count_post s k (rc s k + 1) H s'"
    by (auto simp: returns_iff)
  have "cpost s0 H v (r(k := r k + 1)) d tr s'"
    using p cpostD [OF c] by (intro cpost_step [OF c]) (simp_all add: count_post_def)
  with e show ?thesis by (rule that)
qed

lemma bunpin_run:
  assumes c: "cpost s0 H v r d tr s" and b: "(b, k) \<in> set H" and "r k - 1 = 0 \<Longrightarrow> v k = d (fst k) (snd k)"
  obtains s' where "bunpin b s = Done () s'" "cpost s0 H v (r(k := r k - 1)) d tr s'"
proof -
  have "returns (bunpin b s) (\<lambda>_. count_post s k (rc s k - 1) H)"
    using assms cpostD [OF c] by (intro bunpin_spec) auto
  then obtain s' where e: "bunpin b s = Done () s'" and p: "count_post s k (rc s k - 1) H s'"
    by (auto simp: returns_iff)
  have "cpost s0 H v (r(k := r k - 1)) d tr s'"
    using p cpostD [OF c] by (intro cpost_step [OF c]) (simp_all add: count_post_def)
  with e show ?thesis by (rule that)
qed

lemma brelse_run':
  assumes c: "cpost s0 H v r d tr s" and b: "(b, k) \<in> set H" and "r k - 1 = 0 \<Longrightarrow> v k = d (fst k) (snd k)"
  obtains s' where "brelse b s = Done () s'" "cpost s0 (unheld b H) v (r(k := r k - 1)) d tr s'"
proof -
  have "returns (brelse b s) (\<lambda>_. brelse_post s b k H)"
    using assms cpostD [OF c] by (intro brelse_spec) auto
  then obtain s' where e: "brelse b s = Done () s'" and p: "brelse_post s b k H s'"
    by (auto simp: returns_iff)
  have "cpost s0 (unheld b H) v (r(k := r k - 1)) d tr s'"
    using p cpostD [OF c] by (intro cpost_step [OF c]) (simp_all add: count_post_def brelse_post_def)
  with e show ?thesis by (rule that)
qed

lemma write_run:
  assumes c: "cpost s0 H v r d tr s" and b: "(b, k) \<in> set H" and "r k \<noteq> 0" and x: "f (bufs s ! b) = x" "length x = BSIZE"
  shows "cpost s0 H (v(k := x)) r d tr (upd_buf b (\<lambda>y. y\<lparr>bdata := f y\<rparr>) s)"
proof -
  have "write_post s k (f (bufs s ! b)) H (upd_buf b (\<lambda>y. y\<lparr>bdata := f y\<rparr>) s)"
    using assms cpostD [OF c] by (intro write_held) auto
  then show ?thesis using x cpostD [OF c] by (intro cpost_step [OF c]) (simp_all add: write_post_def)
qed

lemma data_run: "cpost s0 H v r d tr s \<Longrightarrow> (b, k) \<in> set H \<Longrightarrow> bdata (bufs s ! b) = v k"
  using held_view cpostD by metis

lemma length_run: "cpost s0 H v r d tr s \<Longrightarrow> length (v k) = BSIZE"
  using view_length cpostD by metis

lemma clean_run: "cpost s0 H v r d tr s \<Longrightarrow> r k = 0 \<Longrightarrow> v k = d (fst k) (snd k)"
  using idle_clean cpostD by metis

lemma bframe_logs: "bframe s s' \<Longrightarrow> logs s' = logs s"
  unfolding bframe_def by auto

lemma logs_run: "cpost s0 H v r d tr s \<Longrightarrow> logs s = logs s0"
  using bframe_logs cpostD(3) by metis

lemma logs_upd_buf [simp]: "logs (upd_buf b f s) = logs s"
  by (simp add: upd_buf_def)

lemma distinct_run: "cpost s0 H v r d tr s \<Longrightarrow> distinct (map fst H)"
  by (drule cpostD(1), erule binvE) (simp add: bcore_def)

lemma nbusy_upd: "nbusy (r(x := y)) \<le> nbusy r + 1"
proof -
  have s: "{k. (r(x := y)) k \<noteq> 0} \<subseteq> insert x {k. r k \<noteq> 0}" by auto
  show ?thesis
  proof (cases "finite {k. r k \<noteq> 0}")
    case True
    then have "card {k. (r(x := y)) k \<noteq> 0} \<le> card (insert x {k. r k \<noteq> 0})" using s by (intro card_mono) auto
    also have "\<dots> \<le> card {k. r k \<noteq> 0} + 1" using True by (simp add: card_insert_if)
    finally show ?thesis by (simp only: nbusy_def)
  next
    case False
    have "{k. r k \<noteq> 0} \<subseteq> insert x {k. (r(x := y)) k \<noteq> 0}" by auto
    then have "infinite {k. (r(x := y)) k \<noteq> 0}" using False finite_subset by blast
    then show ?thesis by (simp add: nbusy_def)
  qed
qed

section \<open>Copying blocks to the log and home\<close>

definition put_block :: "u32 \<Rightarrow> u32 \<Rightarrow> u8 list \<Rightarrow> (u32 \<Rightarrow> u32 \<Rightarrow> u8 list) \<Rightarrow> u32 \<Rightarrow> u32 \<Rightarrow> u8 list" where
  "put_block dev bn x d = d(dev := (d dev)(bn := x))"

lemma put_block_apply: "put_block dev bn x d dev' bn' = (if dev' = dev \<and> bn' = bn then x else d dev' bn')"
  by (simp add: put_block_def)

lemma write_log_step:
  fixes s :: "'z lmachine_scheme"
  assumes c: "cpost s0 [] v r d tr s" and l: "logs s0 dev = l" and t: "t < length (lh_block (lh l))"
    and bn: "log_slot (log_start l) t = lb" "lh_block (lh l) ! t = hb" "lb \<noteq> hb"
    and r: "r (dev, lb) = 0" "r (dev, hb) \<noteq> 0" "r (dev, hb) + 1 \<noteq> 0" and room: "nbusy r < NBUF"
  obtains s' where "write_log_loop dev (t # ts) s = write_log_loop dev ts s'"
    "cpost s0 [] (v((dev, lb) := v (dev, hb))) r (put_block dev lb (v (dev, hb)) d) (tr @ [(dev, lb, v (dev, hb))]) s'"
proof -
  let ?l = "(dev, lb)" and ?h = "(dev, hb)"
  have lb: "of_int (log_start l) + of_nat t + 1 = lb" using bn(1) by (simp add: log_slot_def)
  obtain b1 s1 where e1: "bread dev lb s = Done b1 s1" and c1: "cpost s0 [(b1, ?l)] v (r(?l := 1)) d tr s1"
    using bread_run [OF c, of dev lb] r(1) room by auto
  let ?r = "(r(?l := 1))(?h := r ?h + 1)"
  obtain b2 s2 where e2: "bread dev hb s1 = Done b2 s2" and c2: "cpost s0 [(b2, ?h), (b1, ?l)] v ?r d tr s2"
    using bread_run [OF c1, of dev hb] r(2,3) bn(3) by auto
  have ne: "b1 \<noteq> b2" using distinct_run [OF c2] by auto
  have d2: "bdata (bufs s2 ! b2) = v ?h" "length (v ?h) = BSIZE"
    using data_run [OF c2] length_run [OF c2] by simp_all
  let ?s3 = "upd_buf b1 (\<lambda>x. x\<lparr>bdata := bdata (bufs s2 ! b2)\<rparr>) s2"
  have c3: "cpost s0 [(b2, ?h), (b1, ?l)] (v(?l := v ?h)) ?r d tr ?s3"
    using d2 r bn(3) by (intro write_run [OF c2]) simp_all
  obtain s4 where e4: "bwrite b1 ?s3 = Done () s4"
    and c4: "cpost s0 [(b2, ?h), (b1, ?l)] (v(?l := v ?h)) ?r (put_block dev lb (v ?h) d) (tr @ [(dev, lb, v ?h)]) s4"
    using bwrite_run [OF c3, of b1 dev lb] by (auto simp: put_block_def)
  obtain s5 where e5: "brelse b2 s4 = Done () s5"
    and c5: "cpost s0 [(b1, ?l)] (v(?l := v ?h)) (?r(?h := r ?h)) (put_block dev lb (v ?h) d) (tr @ [(dev, lb, v ?h)]) s5"
    using brelse_run' [OF c4, of b2 ?h] r(2) ne by (auto simp: unheld_def)
  obtain s6 where e6: "brelse b1 s5 = Done () s6"
    and c6: "cpost s0 [] (v(?l := v ?h)) (?r(?h := r ?h, ?l := 0)) (put_block dev lb (v ?h) d) (tr @ [(dev, lb, v ?h)]) s6"
    using brelse_run' [OF c5, of b1 ?l] bn(3) by (auto simp: unheld_def put_block_apply)
  have "?r(?h := r ?h, ?l := 0) = r" using r(1) bn(3) by auto
  then have "cpost s0 [] (v(?l := v ?h)) r (put_block dev lb (v ?h) d) (tr @ [(dev, lb, v ?h)]) s6" using c6 by simp
  moreover have "write_log_loop dev (t # ts) s = write_log_loop dev ts s6"
    using t logs_run [OF c] logs_run [OF c1] l bn(2) by (simp add: lb e1 e2 e4 e5 e6 Let_def)
  ultimately show ?thesis by (rule that [rotated])
qed

text \<open>
  One round of \<open>install_trans\<close> copies a log block home and drops one reference to the
  home block: the pin of \<open>log_write\<close> during a commit.  During recovery there is no
  such reference, and the count goes from 0 to its largest value.
\<close>

lemma install_step:
  fixes s :: "'z lmachine_scheme"
  assumes c: "cpost s0 [] v r d tr s" and l: "logs s0 dev = l" and t: "t < length (lh_block (lh l))"
    and bn: "log_slot (log_start l) t = lb" "lh_block (lh l) ! t = hb" "lb \<noteq> hb"
    and r: "r (dev, lb) = 0" "r (dev, hb) + 1 \<noteq> 0"
    and room: "nbusy r + (if r (dev, hb) = 0 then 1 else 0) < NBUF"
  obtains s' where "install_trans_loop dev (t # ts) s = install_trans_loop dev ts s'"
    "cpost s0 [] (v((dev, hb) := v (dev, lb))) (r((dev, hb) := r (dev, hb) - 1))
      (put_block dev hb (v (dev, lb)) d) (tr @ [(dev, hb, v (dev, lb))]) s'"
proof -
  let ?l = "(dev, lb)" and ?h = "(dev, hb)"
  have lb: "of_int (log_start l) + of_nat t + 1 = lb" using bn(1) by (simp add: log_slot_def)
  obtain b1 s1 where e1: "bread dev lb s = Done b1 s1" and c1: "cpost s0 [(b1, ?l)] v (r(?l := 1)) d tr s1"
    using bread_run [OF c, of dev lb] r(1) room by auto
  let ?r = "(r(?l := 1))(?h := r ?h + 1)"
  have "r ?h \<noteq> 0 \<or> nbusy (r(?l := 1)) < NBUF" using room nbusy_upd [of r ?l 1] by (auto split: if_splits)
  then obtain b2 s2 where e2: "bread dev hb s1 = Done b2 s2" and c2: "cpost s0 [(b2, ?h), (b1, ?l)] v ?r d tr s2"
    using bread_run [OF c1, of dev hb] r(2) bn(3) by auto
  have ne: "b1 \<noteq> b2" using distinct_run [OF c2] by auto
  have d2: "bdata (bufs s2 ! b1) = v ?l" "length (v ?l) = BSIZE"
    using data_run [OF c2] length_run [OF c2] by simp_all
  let ?s3 = "upd_buf b2 (\<lambda>x. x\<lparr>bdata := bdata (bufs s2 ! b1)\<rparr>) s2" and ?v = "v(?h := v ?l)"
  have c3: "cpost s0 [(b2, ?h), (b1, ?l)] ?v ?r d tr ?s3"
    using d2 r(2) by (intro write_run [OF c2]) simp_all
  let ?d = "put_block dev hb (v ?l) d" and ?t = "tr @ [(dev, hb, v ?l)]"
  obtain s4 where e4: "bwrite b2 ?s3 = Done () s4" and c4: "cpost s0 [(b2, ?h), (b1, ?l)] ?v ?r ?d ?t s4"
    using bwrite_run [OF c3, of b2 dev hb] by (auto simp: put_block_def)
  obtain s5 where e5: "bunpin b2 s4 = Done () s5"
    and c5: "cpost s0 [(b2, ?h), (b1, ?l)] ?v (?r(?h := r ?h)) ?d ?t s5"
    using bunpin_run [OF c4, of b2 ?h] by (auto simp: put_block_apply)
  have cl: "?v ?l = ?d dev lb" using clean_run [OF c r(1)] bn(3) by (simp add: put_block_apply)
  obtain s6 where e6: "brelse b1 s5 = Done () s6"
    and c6: "cpost s0 [(b2, ?h)] ?v (?r(?h := r ?h, ?l := 0)) ?d ?t s6"
    using brelse_run' [OF c5, of b1 ?l] cl bn(3) ne by (auto simp: unheld_def)
  obtain s7 where e7: "brelse b2 s6 = Done () s7"
    and c7: "cpost s0 [] ?v (?r(?h := r ?h, ?l := 0, ?h := r ?h - 1)) ?d ?t s7"
    using brelse_run' [OF c6, of b2 ?h] bn(3) by (auto simp: unheld_def put_block_apply)
  have "?r(?h := r ?h, ?l := 0, ?h := r ?h - 1) = r(?h := r ?h - 1)" using r(1) bn(3) by auto
  then have "cpost s0 [] ?v (r(?h := r ?h - 1)) ?d ?t s7" using c7 by simp
  moreover have "install_trans_loop dev (t # ts) s = install_trans_loop dev ts s7"
    using t logs_run [OF c] logs_run [OF c1] l bn(2) by (simp add: lb e1 e2 e4 e5 e6 e7 Let_def)
  ultimately show ?thesis by (rule that [rotated])
qed

text \<open>The header block.\<close>

lemma write_head_entries:
  fixes s :: "'z lmachine_scheme"
  assumes "cpost s0 H v r d tr s" and "(b, k) \<in> set H" and "r k \<noteq> 0" and "logs s0 dev = l"
    and "n \<le> length (lh_block (lh l))" and "n \<le> 30"
  shows "\<exists>s'. write_head_loop dev b [0..<n] s = Done () s' \<and>
    cpost s0 H (v(k := fold (\<lambda>i d. put32 d (4 + 4 * i) (lh_block (lh l) ! i)) [0..<n] (v k))) r d tr s'"
proof -
  have loop_append: "write_head_loop dev b (xs @ ys) s = bindk (write_head_loop dev b xs s) (\<lambda>_. write_head_loop dev b ys)"
    for xs ys and s :: "'z lmachine_scheme" by (induction xs arbitrary: s) (auto simp: out_of_bounds_def)
  show ?thesis
    using assms(5,6)
  proof (induction n)
    case 0
    then show ?case using assms(1) by simp
  next
    case (Suc n)
    let ?x = "fold (\<lambda>i d. put32 d (4 + 4 * i) (lh_block (lh l) ! i)) [0..<n] (v k)"
    obtain s' where s': "write_head_loop dev b [0..<n] s = Done () s'" and c: "cpost s0 H (v(k := ?x)) r d tr s'"
      using Suc.IH Suc_leD [OF Suc.prems(1)] Suc_leD [OF Suc.prems(2)] by blast
    have x: "bdata (bufs s' ! b) = ?x" "length ?x = BSIZE"
      using data_run [OF c assms(2)] length_run [OF c, of k] by simp_all
    have c': "cpost s0 H ((v(k := ?x))(k := put32 ?x (4 + 4 * n) (lh_block (lh l) ! n))) r d tr
        (upd_buf b (\<lambda>x. x\<lparr>bdata := put32 (bdata x) (4 + 4 * n) (lh_block (lh l) ! n)\<rparr>) s')"
      using x Suc.prems by (intro write_run [OF c assms(2,3)]) (simp_all add: BSIZE_def)
    have eq: "fold (\<lambda>i d. put32 d (4 + 4 * i) (lh_block (lh l) ! i)) [0..<Suc n] (v k) =
        put32 ?x (4 + 4 * n) (lh_block (lh l) ! n)" by simp
    have "write_head_loop dev b [0..<Suc n] s =
        Done () (upd_buf b (\<lambda>x. x\<lparr>bdata := put32 (bdata x) (4 + 4 * n) (lh_block (lh l) ! n)\<rparr>) s')"
      using s' Suc.prems logs_run [OF c] assms(4) by (simp add: loop_append)
    then show ?case using c' unfolding eq fun_upd_upd by blast
  qed
qed

definition hdr_homes :: "log \<Rightarrow> u32 list" where
  "hdr_homes l = take (nat (lh_n (lh l))) (lh_block (lh l))"

lemma write_head_step:
  fixes s :: "'z lmachine_scheme"
  assumes c: "cpost s0 [] v r d tr s" and l: "logs s0 dev = l" and n: "0 \<le> lh_n (lh l)" "lh_n (lh l) \<le> 30"
    "lh_n (lh l) \<le> int (length (lh_block (lh l)))"
    and h: "log_hdr (log_start l) = hb" and r: "r (dev, hb) = 0" and room: "nbusy r < NBUF"
    and x: "x = put_header (hdr_homes l) (v (dev, hb))"
  obtains s' where "write_head dev s = Done () s'"
    "cpost s0 [] (v((dev, hb) := x)) r (put_block dev hb x d) (tr @ [(dev, hb, x)]) s'"
proof -
  let ?h = "(dev, hb)" and ?n = "nat (lh_n (lh l))"
  have hb: "of_int (log_start l) = hb" using h by (simp add: log_hdr_def)
  obtain b s1 where e1: "bread dev hb s = Done b s1" and c1: "cpost s0 [(b, ?h)] v (r(?h := 1)) d tr s1"
    using bread_run [OF c, of dev hb] r room by auto
  let ?x = "put32 (v ?h) 0 (of_int (lh_n (lh l)))"
  let ?s2 = "upd_buf b (\<lambda>x. x\<lparr>bdata := put32 (bdata x) 0 (of_int (lh_n (lh l)))\<rparr>) s1"
  have "bdata (bufs s1 ! b) = v ?h" "length (v ?h) = BSIZE" using data_run [OF c1] length_run [OF c1] by simp_all
  then have c2: "cpost s0 [(b, ?h)] (v(?h := ?x)) (r(?h := 1)) d tr ?s2"
    by (intro write_run [OF c1]) (simp_all add: BSIZE_def)
  have hl: "length (hdr_homes l) = ?n" using n by (simp add: hdr_homes_def)
  have "fold (\<lambda>i d. put32 d (4 + 4 * i) (lh_block (lh l) ! i)) [0..<?n] ?x = x"
    unfolding x put_header_def hl using n(1) by (intro fold_cong) (simp_all add: hdr_homes_def)
  then obtain s3 where e3: "write_head_loop dev b [0..<?n] ?s2 = Done () s3"
    and c3: "cpost s0 [(b, ?h)] (v(?h := x)) (r(?h := 1)) d tr s3"
    using write_head_entries [OF c2, of b ?h dev l ?n] l n unfolding fun_upd_upd fun_upd_same by (auto simp: nat_le_iff)
  obtain s4 where e4: "bwrite b s3 = Done () s4"
    and c4: "cpost s0 [(b, ?h)] (v(?h := x)) (r(?h := 1)) (put_block dev hb x d) (tr @ [(dev, hb, x)]) s4"
    using bwrite_run [OF c3, of b dev hb] by (auto simp: put_block_def)
  obtain s5 where e5: "brelse b s4 = Done () s5"
    and c5: "cpost s0 [] (v(?h := x)) ((r(?h := 1))(?h := 0)) (put_block dev hb x d) (tr @ [(dev, hb, x)]) s5"
    using brelse_run' [OF c4, of b ?h] by (auto simp: unheld_def put_block_apply)
  have "(r(?h := 1))(?h := 0) = r" using r by auto
  then have "cpost s0 [] (v(?h := x)) r (put_block dev hb x d) (tr @ [(dev, hb, x)]) s5" using c5 by simp
  moreover have "write_head dev s = Done () s5"
    using logs_run [OF c] logs_run [OF c1] l by (simp add: write_head_def hb e1 e3 e4 e5 Let_def)
  ultimately show ?thesis by (rule that [rotated])
qed

section \<open>The four phases of a commit\<close>

text \<open>\<open>wpost s0 dev ws v r s\<close>: since \<open>s0\<close>, exactly the writes \<open>ws\<close> have reached device \<open>dev\<close>.\<close>

definition on_dev :: "u32 \<Rightarrow> (u32 \<times> u8 list) list \<Rightarrow> (u32 \<times> u32 \<times> u8 list) list" where
  "on_dev dev ws = map (\<lambda>(bn, x). (dev, bn, x)) ws"

definition wpost :: "'z bmachine_scheme \<Rightarrow> u32 \<Rightarrow> (u32 \<times> u8 list) list \<Rightarrow> (bkey \<Rightarrow> u8 list) \<Rightarrow> (bkey \<Rightarrow> u32) \<Rightarrow> 'z bmachine_scheme \<Rightarrow> bool" where
  "wpost s0 dev ws v r s \<longleftrightarrow>
    cpost s0 [] v r ((disk s0)(dev := apply_writes ws (disk s0 dev))) (disk_trace s0 @ on_dev dev ws) s"

lemma wpost_snoc:
  assumes "cpost s0 [] v r (put_block dev bn x ((disk s0)(dev := apply_writes ws (disk s0 dev))))
    ((disk_trace s0 @ on_dev dev ws) @ [(dev, bn, x)]) s"
  shows "wpost s0 dev (ws @ [(bn, x)]) v r s"
  using assms by (simp add: wpost_def on_dev_def put_block_def)

text \<open>The log of a device before a commit: pinned home blocks, and an idle log area.\<close>

definition log_ready :: "log \<Rightarrow> u32 \<Rightarrow> (bkey \<Rightarrow> u32) \<Rightarrow> bool" where
  "log_ready l dev r \<longleftrightarrow>
    0 \<le> lh_n (lh l) \<and> lh_n (lh l) \<le> 29 \<and> length (lh_block (lh l)) = 30 \<and>
    lg.homes_ok (log_start l) (hdr_homes l) \<and>
    (\<forall>h\<in>set (hdr_homes l). r (dev, h) + 1 \<noteq> 0) \<and>
    (\<forall>a\<in>lg.area (log_start l). r (dev, a) = 0)"

lemma log_readyD:
  assumes "log_ready l dev r"
  shows "length (hdr_homes l) = nat (lh_n (lh l))" "length (hdr_homes l) \<le> 29" "length (lh_block (lh l)) = 30"
    "i < length (hdr_homes l) \<Longrightarrow> lh_block (lh l) ! i = hdr_homes l ! i"
    "i < 29 \<Longrightarrow> r (dev, log_slot (log_start l) i) = 0" "r (dev, log_hdr (log_start l)) = 0"
    "i < length (hdr_homes l) \<Longrightarrow> r (dev, hdr_homes l ! i) + 1 \<noteq> 0"
    "i < length (hdr_homes l) \<Longrightarrow> j < 29 \<Longrightarrow> log_slot (log_start l) j \<noteq> hdr_homes l ! i"
    "i < length (hdr_homes l) \<Longrightarrow> log_hdr (log_start l) \<noteq> hdr_homes l ! i"
    "distinct (hdr_homes l)"
proof -
  note a = assms [unfolded log_ready_def]
  show "length (hdr_homes l) = nat (lh_n (lh l))" "length (hdr_homes l) \<le> 29" "length (lh_block (lh l)) = 30"
    "i < length (hdr_homes l) \<Longrightarrow> lh_block (lh l) ! i = hdr_homes l ! i" "distinct (hdr_homes l)"
    using a min_absorb2 [of "nat (lh_n (lh l))" 30] by (simp_all add: hdr_homes_def lg.homes_ok_def nat_le_iff)
  show "i < 29 \<Longrightarrow> r (dev, log_slot (log_start l) i) = 0" "r (dev, log_hdr (log_start l)) = 0"
    using a lg.slot_area [of i "log_start l"] by simp_all
  show "i < length (hdr_homes l) \<Longrightarrow> r (dev, hdr_homes l ! i) + 1 \<noteq> 0" using a by simp
  have ok: "lg.homes_ok (log_start l) (hdr_homes l)" using a by blast
  show "i < length (hdr_homes l) \<Longrightarrow> j < 29 \<Longrightarrow> log_slot (log_start l) j \<noteq> hdr_homes l ! i"
    using lg.homes_area [OF ok lg.slot_area] by (metis nth_mem)
  show "i < length (hdr_homes l) \<Longrightarrow> log_hdr (log_start l) \<noteq> hdr_homes l ! i"
    using lg.homes_area [OF ok lg.hdr_area] by (metis nth_mem)
qed

lemma write_log_loop_append:
  "write_log_loop dev (xs @ ys) = (\<lambda>s. bindk (write_log_loop dev xs s) (\<lambda>_. write_log_loop dev ys))"
  by (induction xs) (rule ext, simp add: out_of_bounds_def Let_def)+

lemma install_trans_loop_append:
  "install_trans_loop dev (xs @ ys) = (\<lambda>s. bindk (install_trans_loop dev xs s) (\<lambda>_. install_trans_loop dev ys))"
  by (induction xs) (rule ext, simp add: out_of_bounds_def Let_def)+

declare write_log_loop.simps(2) [simp del] install_trans_loop.simps(2) [simp del]

lemmas loop_append = write_log_loop_append install_trans_loop_append

definition log_copies :: "log \<Rightarrow> u32 \<Rightarrow> (bkey \<Rightarrow> u8 list) \<Rightarrow> nat \<Rightarrow> (u32 \<times> u8 list) list" where
  "log_copies l dev v m = map (\<lambda>i. (log_slot (log_start l) i, v (dev, hdr_homes l ! i))) [0..<m]"

lemma write_log_run:
  fixes s :: "'z lmachine_scheme"
  assumes w: "wpost s0 dev ws v r s" and l: "logs s0 dev = l" and ready: "log_ready l dev r"
    and pinned: "\<And>i. i < length (hdr_homes l) \<Longrightarrow> r (dev, hdr_homes l ! i) \<noteq> 0" and room: "nbusy r < NBUF"
    and m: "m \<le> length (hdr_homes l)"
  shows "\<exists>s' v'. write_log_loop dev [0..<m] s = Done () s' \<and> wpost s0 dev (ws @ log_copies l dev v m) v' r s' \<and>
    (\<forall>k. r k \<noteq> 0 \<longrightarrow> v' k = v k)"
  using m
proof (induction m)
  case 0
  then show ?case using w by (auto simp: log_copies_def)
next
  case (Suc m)
  then obtain s' v' where s': "write_log_loop dev [0..<m] s = Done () s'"
    and w': "wpost s0 dev (ws @ log_copies l dev v m) v' r s'" and v': "\<forall>k. r k \<noteq> 0 \<longrightarrow> v' k = v k"
    by auto
  note D = log_readyD [OF ready]
  let ?lb = "log_slot (log_start l) m" and ?hb = "hdr_homes l ! m"
  have m: "m < length (hdr_homes l)" "m < 29" using Suc.prems D(2) by auto
  have r0: "r (dev, ?lb) = 0" using D(5) m by simp
  obtain s'' where s'': "write_log_loop dev [m] s' = write_log_loop dev [] s''"
    and c: "cpost s0 [] (v'((dev, ?lb) := v' (dev, ?hb))) r
      (put_block dev ?lb (v' (dev, ?hb)) ((disk s0)(dev := apply_writes (ws @ log_copies l dev v m) (disk s0 dev))))
      ((disk_trace s0 @ on_dev dev (ws @ log_copies l dev v m)) @ [(dev, ?lb, v' (dev, ?hb))]) s''"
    by (rule write_log_step [where ts = "[]", OF w' [unfolded wpost_def] l _ refl D(4) D(8) r0 pinned D(7) room]) (use m D(3) in auto)
  have "wpost s0 dev (ws @ log_copies l dev v (Suc m)) (v'((dev, ?lb) := v' (dev, ?hb))) r s''"
    using wpost_snoc [OF c] v' pinned m by (simp add: log_copies_def)
  moreover have "write_log_loop dev [0..<Suc m] s = Done () s''"
    using s' s'' by (simp add: loop_append)
  moreover have "\<forall>k. r k \<noteq> 0 \<longrightarrow> (v'((dev, ?lb) := v' (dev, ?hb))) k = v k" using v' r0 by auto
  ultimately show ?case by blast
qed

text \<open>Installing drops one reference of every home block.\<close>

definition unpin :: "u32 list \<Rightarrow> u32 \<Rightarrow> (bkey \<Rightarrow> u32) \<Rightarrow> bkey \<Rightarrow> u32" where
  "unpin hs dev r k = (if fst k = dev \<and> snd k \<in> set hs then r k - 1 else r k)"

lemma unpin_Nil [simp]: "unpin [] dev r = r"
  by (simp add: unpin_def fun_eq_iff)

lemma unpin_snoc: "h \<notin> set hs \<Longrightarrow> (unpin hs dev r)((dev, h) := unpin hs dev r (dev, h) - 1) = unpin (hs @ [h]) dev r"
  by (auto simp: unpin_def fun_eq_iff)

definition home_copies :: "log \<Rightarrow> u32 \<Rightarrow> (bkey \<Rightarrow> u8 list) \<Rightarrow> nat \<Rightarrow> (u32 \<times> u8 list) list" where
  "home_copies l dev v m = map (\<lambda>i. (hdr_homes l ! i, v (dev, log_slot (log_start l) i))) [0..<m]"

lemma log_ready_area: "log_ready l dev r \<Longrightarrow> a \<in> lg.area (log_start l) \<Longrightarrow> a \<notin> set (hdr_homes l)"
  using lg.homes_area by (auto simp: log_ready_def)

lemma install_run:
  fixes s :: "'z lmachine_scheme"
  assumes w: "wpost s0 dev ws v r s" and l: "logs s0 dev = l" and ready: "log_ready l dev r"
    and room: "\<And>m. m < length (hdr_homes l) \<Longrightarrow>
      nbusy (unpin (take m (hdr_homes l)) dev r) + (if r (dev, hdr_homes l ! m) = 0 then 1 else 0) < NBUF"
    and m: "m \<le> length (hdr_homes l)"
  shows "\<exists>s' v'. install_trans_loop dev [0..<m] s = Done () s' \<and>
    wpost s0 dev (ws @ home_copies l dev v m) v' (unpin (take m (hdr_homes l)) dev r) s' \<and>
    (\<forall>a\<in>lg.area (log_start l). v' (dev, a) = v (dev, a))"
  using m
proof (induction m)
  case 0
  then show ?case using w by (auto simp: home_copies_def)
next
  case (Suc m)
  let ?u = "unpin (take m (hdr_homes l)) dev r"
  obtain s' v' where s': "install_trans_loop dev [0..<m] s = Done () s'"
    and w': "wpost s0 dev (ws @ home_copies l dev v m) v' ?u s'" and v': "\<forall>a\<in>lg.area (log_start l). v' (dev, a) = v (dev, a)"
    using Suc.IH Suc_leD [OF Suc.prems] by blast
  note D = log_readyD [OF ready]
  let ?lb = "log_slot (log_start l) m" and ?hb = "hdr_homes l ! m"
  have m: "m < length (hdr_homes l)" "m < 29" using Suc.prems D(2) by auto
  have la: "?lb \<in> lg.area (log_start l)" by (rule lg.slot_area [OF m(2)])
  have new: "?hb \<notin> set (take m (hdr_homes l))"
    using D(10) m(1) by (metis distinct_take distinct_append not_distinct_conv_prefix take_Suc_conv_app_nth)
  have "?lb \<notin> set (take m (hdr_homes l))" using log_ready_area [OF ready la] by (auto dest: in_set_takeD)
  then have r0: "?u (dev, ?lb) = 0" and rh: "?u (dev, ?hb) = r (dev, ?hb)" using D(5) [OF m(2)] new by (simp_all add: unpin_def)
  obtain s'' where s'': "install_trans_loop dev [m] s' = install_trans_loop dev [] s''"
    and c: "cpost s0 [] (v'((dev, ?hb) := v' (dev, ?lb))) (?u((dev, ?hb) := ?u (dev, ?hb) - 1))
      (put_block dev ?hb (v' (dev, ?lb)) ((disk s0)(dev := apply_writes (ws @ home_copies l dev v m) (disk s0 dev))))
      ((disk_trace s0 @ on_dev dev (ws @ home_copies l dev v m)) @ [(dev, ?hb, v' (dev, ?lb))]) s''"
    by (rule install_step [where ts = "[]", OF w' [unfolded wpost_def] l _ refl D(4) D(8) r0])
      (use m D(3) D(7) [OF m(1)] room [OF m(1)] rh in auto)
  have "unpin (take (Suc m) (hdr_homes l)) dev r = ?u((dev, ?hb) := ?u (dev, ?hb) - 1)"
    using unpin_snoc [OF new, of dev r] m(1) by (simp add: take_Suc_conv_app_nth)
  then have "wpost s0 dev (ws @ home_copies l dev v (Suc m)) (v'((dev, ?hb) := v' (dev, ?lb))) (unpin (take (Suc m) (hdr_homes l)) dev r) s''"
    using wpost_snoc [OF c] v' la by (simp add: home_copies_def)
  moreover have "install_trans_loop dev [0..<Suc m] s = Done () s''"
    using s' s'' by (simp add: loop_append)
  moreover have "\<forall>a\<in>lg.area (log_start l). (v'((dev, ?hb) := v' (dev, ?lb))) (dev, a) = v (dev, a)"
    using v' log_ready_area [OF ready] nth_mem [OF m(1)] by force
  ultimately show ?case by blast
qed

lemma finite_busy: "finite {k. rc s k \<noteq> 0}"
proof (rule finite_subset)
  show "{k. rc s k \<noteq> 0} \<subseteq> (\<lambda>i. key (bufs s ! i)) ` {0..<NBUF}"
  proof
    fix k assume "k \<in> {k. rc s k \<noteq> 0}"
    then have "\<not> (\<forall>i<NBUF. refcnt (bufs s ! i) \<noteq> 0 \<longrightarrow> key (bufs s ! i) \<noteq> k)"
      using brc_miss [of "bufs s" k] by (auto simp: rc_def)
    then show "k \<in> (\<lambda>i. key (bufs s ! i)) ` {0..<NBUF}" by auto
  qed
qed simp

lemma nbusy_unpin:
  assumes "finite {k. r k \<noteq> 0}" and "\<And>h. h \<in> set hs \<Longrightarrow> r (dev, h) \<noteq> 0"
  shows "nbusy (unpin hs dev r) \<le> nbusy r"
  unfolding nbusy_def
proof (rule card_mono [OF assms(1)])
  show "{k. unpin hs dev r k \<noteq> 0} \<subseteq> {k. r k \<noteq> 0}" using assms(2) by (auto simp: unpin_def split: if_splits)
qed

lemma upd_lh_run:
  fixes s :: "'z lmachine_scheme"
  shows "binv (upd_lh dev f s) H = binv s H" "view (upd_lh dev f s) = view s" "rc (upd_lh dev f s) = rc s"
    "disk (upd_lh dev f s) = disk s" "disk_trace (upd_lh dev f s) = disk_trace s" "held (upd_lh dev f s) = held s"
    "logs (upd_lh dev f s) = (logs s)(dev := (logs s dev)\<lparr>lh := f (lh (logs s dev))\<rparr>)"
  by (simp_all add: upd_lh_def upd_log_def binv_def view_def rc_def)

lemma wpost_start: "binv s [] \<Longrightarrow> held s = [] \<Longrightarrow> wpost s dev [] (view s) (rc s) s"
  using cpost_start [of s "[]"] by (simp add: wpost_def on_dev_def)

lemma wpostD:
  assumes "wpost s0 dev ws v r s"
  shows "binv s []" "held s = []" "view s = v" "rc s = r" "disk s dev = apply_writes ws (disk s0 dev)"
    "dev' \<noteq> dev \<Longrightarrow> disk s dev' = disk s0 dev'" "disk_trace s = disk_trace s0 @ on_dev dev ws"
    "r (dev, a) = 0 \<Longrightarrow> v (dev, a) = apply_writes ws (disk s0 dev) a"
  using assms clean_run [OF assms [unfolded wpost_def], of "(dev, a)"] by (simp_all add: wpost_def cpost_def)

lemma wpost_logs: "wpost s0 dev ws v r s \<Longrightarrow> logs s = logs s0"
  by (simp add: wpost_def logs_run)

lemma write_head_run:
  fixes s :: "'z lmachine_scheme"
  assumes w: "wpost s0 dev ws v r s" and l: "logs s0 dev = l" and ready: "log_ready l dev r" and room: "nbusy r < NBUF"
  shows "\<exists>s'. write_head dev s = Done () s' \<and>
    wpost s0 dev (ws @ [(log_hdr (log_start l), put_header (hdr_homes l) (v (dev, log_hdr (log_start l))))])
      (v((dev, log_hdr (log_start l)) := put_header (hdr_homes l) (v (dev, log_hdr (log_start l))))) r s'"
proof -
  note D = log_readyD [OF ready]
  have n: "0 \<le> lh_n (lh l)" "lh_n (lh l) \<le> 30" using ready by (simp_all add: log_ready_def)
  obtain s' where "write_head dev s = Done () s'"
    "cpost s0 [] (v((dev, log_hdr (log_start l)) := put_header (hdr_homes l) (v (dev, log_hdr (log_start l))))) r
      (put_block dev (log_hdr (log_start l)) (put_header (hdr_homes l) (v (dev, log_hdr (log_start l))))
        ((disk s0)(dev := apply_writes ws (disk s0 dev))))
      ((disk_trace s0 @ on_dev dev ws) @ [(dev, log_hdr (log_start l), put_header (hdr_homes l) (v (dev, log_hdr (log_start l))))]) s'"
    by (rule write_head_step [OF w [unfolded wpost_def] l n(1) n(2) _ refl D(6) room refl]) (use n D(3) in auto)
  then show ?thesis using wpost_snoc by blast
qed

section \<open>Commit\<close>

definition log_data :: "'z lmachine_scheme \<Rightarrow> u32 \<Rightarrow> u8 list list" where
  "log_data s dev = map (\<lambda>h. view s (dev, h)) (hdr_homes (logs s dev))"

definition the_commit :: "'z lmachine_scheme \<Rightarrow> u32 \<Rightarrow> (u32 \<times> u8 list) list" where
  "the_commit s dev = (let l = logs s dev; start = log_start l in
    commit_writes put_header (log_hdr start) (log_slot start) (hdr_homes l) (log_data s dev) (disk s dev (log_hdr start)))"

lemma log_copies_zip:
  "log_copies l dev v (length (hdr_homes l)) =
    zip (map (log_slot (log_start l)) [0..<length (hdr_homes l)]) (map (\<lambda>h. v (dev, h)) (hdr_homes l))"
  by (rule nth_equalityI) (simp_all add: log_copies_def)

lemma home_copies_zip:
  assumes "\<And>i. i < length (hdr_homes l) \<Longrightarrow> v (dev, log_slot (log_start l) i) = vs ! i" and "length vs = length (hdr_homes l)"
  shows "home_copies l dev v (length (hdr_homes l)) = zip (hdr_homes l) vs"
  using assms by (intro nth_equalityI) (simp_all add: home_copies_def)

lemma commit_logged:
  fixes s :: "'z lmachine_scheme"
  assumes inv: "binv s []" "held s = []" and l: "logs s dev = l" and ready: "log_ready l dev (rc s)"
    and pinned: "\<And>h. h \<in> set (hdr_homes l) \<Longrightarrow> rc s (dev, h) \<noteq> 0" and room: "nbusy (rc s) < NBUF"
    and x: "x = put_header (hdr_homes l) (disk s dev (log_hdr (log_start l)))"
  obtains s1 s2 v where "write_log dev s = Done () s1" "write_head dev s1 = Done () s2"
    "wpost s dev (zip (map (log_slot (log_start l)) [0..<length (hdr_homes l)]) (log_data s dev) @ [(log_hdr (log_start l), x)]) v (rc s) s2"
    "v (dev, log_hdr (log_start l)) = x" "\<forall>i<length (hdr_homes l). v (dev, log_slot (log_start l) i) = log_data s dev ! i"
proof -
  note D = log_readyD [OF ready]
  let ?n = "length (hdr_homes l)" and ?h = "log_hdr (log_start l)"
  let ?z = "zip (map (log_slot (log_start l)) [0..<?n]) (log_data s dev)"
  have ok: "lg.homes_ok (log_start l) (hdr_homes l)" using ready by (simp add: log_ready_def)
  have len: "length (log_data s dev) = ?n" using l by (simp add: log_data_def)
  have z: "[] @ log_copies l dev (view s) ?n = ?z" by (simp add: log_copies_zip log_data_def l)
  obtain s1 v1 where e1: "write_log_loop dev [0..<?n] s = Done () s1" and w1: "wpost s dev ?z v1 (rc s) s1"
    using write_log_run [OF wpost_start [OF inv] l ready pinned [OF nth_mem] room order_refl] unfolding z by blast
  have h1: "v1 (dev, ?h) = disk s dev ?h"
    using wpostD(8) [OF w1 D(6)] apply_writes_zip_other [OF conjunct1 [OF conjunct2 [OF lg.slots [OF ok]]]] by simp
  obtain s2 where e2: "write_head dev s1 = Done () s2"
    and w2: "wpost s dev (?z @ [(?h, x)]) (v1((dev, ?h) := x)) (rc s) s2"
    using write_head_run [OF w1 l ready room] unfolding h1 x by blast
  have "(v1((dev, ?h) := x)) (dev, log_slot (log_start l) i) = log_data s dev ! i" if i: "i < ?n" for i
    using wpostD(8) [OF w2 D(5), of i] lg.logged [OF ok len i, of "disk s dev"] lg.slot_hdr [of i "log_start l"] i D(2)
    by simp
  moreover have "write_log dev s = Done () s1" using e1 D(1) l by (simp add: write_log_def)
  ultimately show ?thesis using that [OF _ e2 w2] by simp
qed

text \<open>The last step of a commit and of a recovery: an empty header.\<close>

lemma clear_head_run:
  fixes s :: "'z lmachine_scheme"
  assumes w: "wpost s0 dev ws v r s" and l: "logs s0 dev = l" "log_hdr (log_start l) = h" "length (lh_block (lh l)) = 30"
    and idle: "\<forall>a\<in>lg.area (log_start l). r (dev, a) = 0" and room: "nbusy r < NBUF"
  obtains s' where "write_head dev (upd_lh dev (\<lambda>h. h\<lparr>lh_n := 0\<rparr>) s) = Done () s'" "binv s' []" "held s' = []"
    "lh_n (lh (logs s' dev)) = 0" "rc s' = r"
    "disk_trace s' = disk_trace s0 @ on_dev dev (ws @ [(h, put_header [] (v (dev, h)))])"
    "disk s' dev = apply_writes (ws @ [(h, put_header [] (v (dev, h)))]) (disk s0 dev)"
proof -
  let ?s = "upd_lh dev (\<lambda>h. h\<lparr>lh_n := 0\<rparr>) s" and ?l = "l\<lparr>lh := (lh l)\<lparr>lh_n := 0\<rparr>\<rparr>"
  have l': "logs ?s dev = ?l" using wpost_logs [OF w] l by (simp add: upd_lh_run)
  have hl: "hdr_homes ?l = []" "log_start ?l = log_start l" by (simp_all add: hdr_homes_def)
  have ready: "log_ready ?l dev (rc ?s)"
    using idle l(3) wpostD(4) [OF w] hl by (simp add: log_ready_def upd_lh_run lg.homes_ok_def)
  obtain s' where e: "write_head dev ?s = Done () s'"
    and w': "wpost ?s dev [(h, put_header [] (v (dev, h)))] ((view ?s)((dev, h) := put_header [] (v (dev, h)))) (rc ?s) s'"
    using write_head_run [OF wpost_start l' ready] wpostD(1-4) [OF w] room hl l(2) by (auto simp: upd_lh_run)
  show ?thesis
  proof (rule that [OF e])
    show "binv s' []" "held s' = []" "lh_n (lh (logs s' dev)) = 0" "rc s' = r"
      using wpostD(1,2,4) [OF w'] wpostD(4) [OF w] wpost_logs [OF w'] l' by (simp_all add: upd_lh_run)
    show "disk_trace s' = disk_trace s0 @ on_dev dev (ws @ [(h, put_header [] (v (dev, h)))])"
      using wpostD(7) [OF w'] wpostD(7) [OF w] by (simp add: upd_lh_run on_dev_def)
    show "disk s' dev = apply_writes (ws @ [(h, put_header [] (v (dev, h)))]) (disk s0 dev)"
      using wpostD(5) [OF w'] wpostD(5) [OF w] by (simp add: upd_lh_run)
  qed
qed

text \<open>The whole commit: its writes in order, an empty log, and one reference less on every home block.\<close>

lemma commit_run:
  fixes s :: "'z lmachine_scheme"
  assumes inv: "binv s []" "held s = []" and l: "logs s dev = l" and ready: "log_ready l dev (rc s)"
    and pinned: "\<And>h. h \<in> set (hdr_homes l) \<Longrightarrow> rc s (dev, h) \<noteq> 0" and room: "nbusy (rc s) < NBUF"
    and some: "0 < lh_n (lh l)"
  obtains s' where "commit dev s = Done () s'" "binv s' []" "held s' = []" "lh_n (lh (logs s' dev)) = 0"
    "rc s' = unpin (hdr_homes l) dev (rc s)" "disk_trace s' = disk_trace s @ on_dev dev (the_commit s dev)"
    "disk s' dev = apply_writes (the_commit s dev) (disk s dev)"
proof -
  note D = log_readyD [OF ready]
  let ?hs = "hdr_homes l" and ?n = "length (hdr_homes l)" and ?h = "log_hdr (log_start l)"
  define x where "x = put_header ?hs (disk s dev ?h)"
  obtain s1 s2 v where e1: "write_log dev s = Done () s1" and e2: "write_head dev s1 = Done () s2"
    and w2: "wpost s dev (zip (map (log_slot (log_start l)) [0..<?n]) (log_data s dev) @ [(?h, x)]) v (rc s) s2"
    and v: "v (dev, ?h) = x" "\<forall>i<?n. v (dev, log_slot (log_start l) i) = log_data s dev ! i"
    using commit_logged [OF inv l ready pinned room x_def] by blast
  have hz: "home_copies l dev v ?n = zip ?hs (log_data s dev)"
    using v(2) l by (intro home_copies_zip) (simp_all add: log_data_def)
  have unp: "nbusy (unpin (take m ?hs) dev (rc s)) < NBUF" for m
    using nbusy_unpin [OF finite_busy, of "take m ?hs" s dev] pinned room by (meson in_set_takeD le_less_trans)
  obtain s3 v3 where e3: "install_trans_loop dev [0..<?n] s2 = Done () s3"
    and w3: "wpost s dev ((zip (map (log_slot (log_start l)) [0..<?n]) (log_data s dev) @ [(?h, x)]) @ zip ?hs (log_data s dev)) v3 (unpin ?hs dev (rc s)) s3"
    and v3: "\<forall>a\<in>lg.area (log_start l). v3 (dev, a) = v (dev, a)"
    using install_run [OF w2 l ready _ order_refl] pinned unp unfolding hz by fastforce
  have "\<forall>a\<in>lg.area (log_start l). unpin ?hs dev (rc s) (dev, a) = 0"
    using log_ready_area [OF ready] ready by (simp add: unpin_def log_ready_def)
  moreover have "v3 (dev, ?h) = x" using v3 v(1) by simp
  moreover have ws: "the_commit s dev = ((zip (map (log_slot (log_start l)) [0..<?n]) (log_data s dev) @ [(?h, x)]) @
      zip ?hs (log_data s dev)) @ [(?h, put_header [] x)]"
    by (simp add: the_commit_def commit_writes_def Let_def l x_def)
  ultimately obtain s4 where "write_head dev (upd_lh dev (\<lambda>h. h\<lparr>lh_n := 0\<rparr>) s3) = Done () s4"
    "binv s4 []" "held s4 = []" "lh_n (lh (logs s4 dev)) = 0" "rc s4 = unpin ?hs dev (rc s)"
    "disk_trace s4 = disk_trace s @ on_dev dev (the_commit s dev)"
    "disk s4 dev = apply_writes (the_commit s dev) (disk s dev)"
    using clear_head_run [OF w3 l refl D(3)] unp [of ?n] by (metis take_all_iff order_refl)
  moreover from this(1) have "commit dev s = Done () s4"
    using some l D(1) wpost_logs [OF w2] e1 e2 e3 by (simp add: commit_def install_trans_def)
  ultimately show ?thesis using that by blast
qed

section \<open>Recovery\<close>

lemma read_head_loop_run:
  fixes s :: "'z lmachine_scheme"
  assumes "length (lh_block (lh (logs s dev))) = 30" and "n \<le> 30"
  shows "read_head_loop dev hb [0..<n] s = Done () (upd_lh dev (\<lambda>h. h\<lparr>lh_block :=
    map (\<lambda>i. get32 hb (4 + 4 * i)) [0..<n] @ drop n (lh_block h)\<rparr>) s)"
proof -
  have app: "read_head_loop dev hb (xs @ ys) s = bindk (read_head_loop dev hb xs s) (\<lambda>_. read_head_loop dev hb ys)"
    for xs ys and s :: "'z lmachine_scheme" by (induction xs arbitrary: s) (auto simp: out_of_bounds_def)
  show ?thesis using assms(2)
  proof (induction n)
    case 0
    then show ?case by (simp add: upd_lh_def upd_log_def)
  next
    case (Suc n)
    have "drop n (lh_block (lh (logs s dev))) = lh_block (lh (logs s dev)) ! n # drop (Suc n) (lh_block (lh (logs s dev)))"
      using assms(1) Suc.prems by (simp add: Cons_nth_drop_Suc)
    then have "(map (\<lambda>i. get32 hb (4 + 4 * i)) [0..<n] @ drop n (lh_block (lh (logs s dev))))[n := get32 hb (4 + 4 * n)]
        = map (\<lambda>i. get32 hb (4 + 4 * i)) [0..<Suc n] @ drop (Suc n) (lh_block (lh (logs s dev)))"
      by (simp add: list_update_append)
    then show ?case
      using Suc assms(1) by (simp add: app upd_lh_def upd_log_def)
  qed
qed

lemma read_head_run:
  fixes s :: "'z lmachine_scheme"
  assumes inv: "binv s []" "held s = []" and l: "logs s dev = l" "length (lh_block (lh l)) = 30"
    and h: "log_hdr (log_start l) = h" "rc s (dev, h) = 0" and room: "nbusy (rc s) < NBUF"
    and n: "sint (get32 (view s (dev, h)) 0) = int n" "n \<le> 30"
  obtains s' l' where "read_head dev s = Done () s'" "wpost s' dev [] (view s) (rc s) s'"
    "disk s' = disk s" "disk_trace s' = disk_trace s" "logs s' dev = l'" "log_start l' = log_start l"
    "hdr_homes l' = header_blocks (view s (dev, h))" "lh_n (lh l') = int n" "length (lh_block (lh l')) = 30"
proof -
  let ?hb = "view s (dev, h)" and ?k = "(dev, h)"
  have hb: "of_int (log_start l) = h" using h(1) by (simp add: log_hdr_def)
  obtain b s1 where e1: "bread dev h s = Done b s1"
    and c1: "cpost s [(b, ?k)] (view s) ((rc s)(?k := 1)) (disk s) (disk_trace s) s1"
    using bread_run [OF cpost_start [OF inv], of dev h] h(2) room by auto
  let ?s2 = "upd_lh dev (\<lambda>h. h\<lparr>lh_n := int n\<rparr>) s1"
  let ?f = "\<lambda>h. h\<lparr>lh_block := map (\<lambda>i. get32 ?hb (4 + 4 * i)) [0..<n] @ drop n (lh_block h)\<rparr>"
  let ?s3 = "upd_lh dev ?f ?s2"
  have "length (lh_block (lh (logs ?s2 dev))) = 30" using logs_run [OF c1] l by (simp add: upd_lh_run)
  from read_head_loop_run [OF this n(2)] have e3: "read_head_loop dev ?hb [0..<n] ?s2 = Done () ?s3" .
  have c3: "cpost ?s3 [(b, ?k)] (view s) ((rc s)(?k := 1)) (disk s) (disk_trace s) ?s3"
    using cpost_start [of ?s3 "[(b, ?k)]"] cpostD [OF c1] by (simp add: upd_lh_run)
  obtain s4 where e4: "brelse b ?s3 = Done () s4"
    and c4: "cpost ?s3 [] (view s) ((rc s)(?k := 1, ?k := 0)) (disk s) (disk_trace s) s4"
    using brelse_run' [OF c3, of b ?k] idle_clean [OF inv(1) h(2)] by (auto simp: unheld_def)
  have r: "(rc s)(?k := 1, ?k := 0) = rc s" using h(2) by auto
  have d: "bdata (bufs s1 ! b) = ?hb" using data_run [OF c1, of b ?k] by simp
  define l' where "l' = l\<lparr>lh := ?f ((lh l)\<lparr>lh_n := int n\<rparr>)\<rparr>"
  have l': "logs s4 dev = l'" using logs_run [OF c4] logs_run [OF c1] l by (simp add: upd_lh_run l'_def)
  show ?thesis
  proof (rule that [OF _ _ _ _ l'])
    show "read_head dev s = Done () s4"
      using logs_run [OF c1] l by (simp add: read_head_def hb e1 d n(1) upd_lh_run Let_def e3 e4)
    show "wpost s4 dev [] (view s) (rc s) s4" "disk s4 = disk s" "disk_trace s4 = disk_trace s"
      using wpost_start [of s4 dev] cpostD [OF c4] r by simp_all
    show "hdr_homes l' = header_blocks ?hb" using n l(2) by (simp add: hdr_homes_def l'_def header_blocks_def)
  qed (use l(2) n(2) in \<open>simp_all add: l'_def\<close>)
qed

lemma nbusy_unpin_idle: "nbusy (unpin hs dev (\<lambda>_. 0)) \<le> length hs"
proof -
  have "{k. unpin hs dev (\<lambda>_. 0) k \<noteq> 0} \<subseteq> Pair dev ` set hs" by (auto simp: unpin_def split: if_splits)
  then have "nbusy (unpin hs dev (\<lambda>_. 0)) \<le> card (Pair dev ` set hs)" unfolding nbusy_def by (intro card_mono) auto
  also have "\<dots> \<le> length hs" using card_image_le [of "set hs" "Pair dev"] card_length [of hs] by simp
  finally show ?thesis .
qed

text \<open>
  A machine that has just booted, with the header of the log readable: it names at
  most 29 distinct home blocks outside of the log.
\<close>

definition bootable :: "'z lmachine_scheme \<Rightarrow> u32 \<Rightarrow> bool" where
  "bootable s dev \<longleftrightarrow> binv s [] \<and> held s = [] \<and> rc s = (\<lambda>_. 0) \<and> length (lh_block (lh (logs s dev))) = 30 \<and>
    (let start = log_start (logs s dev); b = disk s dev (log_hdr start) in
      0 \<le> sint (get32 b 0) \<and> sint (get32 b 0) \<le> 29 \<and> lg.homes_ok start (header_blocks b))"

definition recovery_of :: "'z lmachine_scheme \<Rightarrow> u32 \<Rightarrow> (u32 \<times> u8 list) list" where
  "recovery_of s dev = (let start = log_start (logs s dev) in
    recovery_writes put_header header_blocks (log_hdr start) (log_slot start) (disk s dev))"

lemma recover_run:
  fixes s :: "'z lmachine_scheme"
  assumes boot: "bootable s dev" and h: "log_hdr (log_start (logs s dev)) = h"
  obtains s' where "recover_from_log dev s = Done () s'" "binv s' []" "held s' = []" "lh_n (lh (logs s' dev)) = 0"
    "rc s' = unpin (header_blocks (disk s dev h)) dev (\<lambda>_. 0)"
    "disk_trace s' = disk_trace s @ on_dev dev (recovery_of s dev)"
    "disk s' dev = apply_writes (recovery_of s dev) (disk s dev)"
proof -
  define n where "n = nat (sint (get32 (disk s dev h) 0))"
  let ?start = "log_start (logs s dev)" and ?hs = "header_blocks (disk s dev h)"
  have inv: "binv s []" "held s = []" and r0: "rc s = (\<lambda>_. 0)" and lb: "length (lh_block (lh (logs s dev))) = 30"
    and n: "sint (get32 (disk s dev h) 0) = int n" "n \<le> 29" and ok: "lg.homes_ok ?start ?hs"
    using boot h unfolding bootable_def Let_def n_def by auto
  have vd: "view s k = disk s (fst k) (snd k)" for k using idle_clean [OF inv(1)] r0 by simp
  have b0: "nbusy (rc s) = 0" by (simp add: r0 nbusy_def)
  have len: "length ?hs = n" using n by (simp add: header_blocks_def)
  obtain s1 l where e1: "read_head dev s = Done () s1" and w1: "wpost s1 dev [] (view s) (rc s) s1"
    and d1: "disk s1 = disk s" "disk_trace s1 = disk_trace s" and l: "logs s1 dev = l" "log_start l = ?start"
      "hdr_homes l = ?hs" "lh_n (lh l) = int n" "length (lh_block (lh l)) = 30"
    by (rule read_head_run [OF inv refl lb h, of n]) (use r0 b0 vd n in \<open>simp_all add: NBUF_def\<close>)
  have ready: "log_ready l dev (rc s)" using ok l n(2) by (simp add: log_ready_def r0)
  have room: "nbusy (unpin (take m ?hs) dev (\<lambda>_. 0)) \<le> m" if "m \<le> n" for m
    using nbusy_unpin_idle [of "take m ?hs" dev] that by simp
  have hz: "home_copies l dev (view s) n = zip ?hs (map (\<lambda>i. disk s dev (log_slot ?start i)) [0..<n])"
    using home_copies_zip [of l "view s" dev] len vd l by simp
  obtain s2 v2 where e2: "install_trans_loop dev [0..<n] s1 = Done () s2"
    and w2: "wpost s1 dev (zip ?hs (map (\<lambda>i. disk s dev (log_slot ?start i)) [0..<n])) v2 (unpin ?hs dev (\<lambda>_. 0)) s2"
    and v2: "\<forall>a\<in>lg.area ?start. v2 (dev, a) = disk s dev a"
  proof -
    have "nbusy (unpin (take m (hdr_homes l)) dev (rc s)) + (if rc s (dev, hdr_homes l ! m) = 0 then 1 else 0) < NBUF"
      if "m < length (hdr_homes l)" for m
      using room [of m] that n(2) len by (simp add: l(3) r0 NBUF_def)
    from install_run [OF w1 l(1) ready this order_refl] show ?thesis
      using that l len hz vd r0 by auto
  qed
  have "\<forall>a\<in>lg.area (log_start l). unpin ?hs dev (\<lambda>_. 0) (dev, a) = 0"
    using lg.homes_area [OF ok] l(2) by (simp add: unpin_def)
  moreover have "v2 (dev, h) = disk s dev h" using v2 h lg.hdr_area [of ?start] by simp
  moreover have "recovery_of s dev = zip ?hs (map (\<lambda>i. disk s dev (log_slot ?start i)) [0..<n]) @ [(h, put_header [] (disk s dev h))]"
    by (simp add: recovery_of_def recovery_writes_def Let_def h len)
  moreover have "nbusy (unpin ?hs dev (\<lambda>_. 0)) < NBUF" using room [of n] len n(2) by (simp add: NBUF_def)
  ultimately obtain s3 where "write_head dev (upd_lh dev (\<lambda>h. h\<lparr>lh_n := 0\<rparr>) s2) = Done () s3"
    "binv s3 []" "held s3 = []" "lh_n (lh (logs s3 dev)) = 0" "rc s3 = unpin ?hs dev (\<lambda>_. 0)"
    "disk_trace s3 = disk_trace s @ on_dev dev (recovery_of s dev)"
    "disk s3 dev = apply_writes (recovery_of s dev) (disk s dev)"
    using clear_head_run [OF w2 l(1) _ l(5), of h] l(2) h d1 by metis
  moreover from this(1) have "recover_from_log dev s = Done () s3"
    using l e1 e2 by (simp add: recover_from_log_def install_trans_def)
  ultimately show ?thesis using that by blast
qed

end
