(* ===== verification/Transaction.thy ===== *)
theory Transaction
  imports Commit
begin

text \<open>
  Transactions of \<open>kernel/log.c\<close>: how \<open>log_write\<close> adds a block, how \<open>begin_op\<close> and
  \<open>end_op\<close> count, and the crash-safety properties of the whole log.
\<close>

section \<open>Adding a block to the transaction\<close>

lemma absorb_slot_spec:
  "i \<le> absorb_slot bl bn i k \<and> absorb_slot bl bn i k \<le> i + k \<and>
   (absorb_slot bl bn i k < i + k \<longrightarrow> bl ! absorb_slot bl bn i k = bn) \<and>
   (absorb_slot bl bn i k = i + k \<longrightarrow> (\<forall>x. i \<le> x \<and> x < i + k \<longrightarrow> bl ! x \<noteq> bn))"
proof (induction k arbitrary: i)
  case (Suc k)
  show ?case
  proof (cases "bl ! i = bn")
    case False
    have "bl ! x \<noteq> bn" if "absorb_slot bl bn (i + 1) k = i + Suc k" "i \<le> x" "x < i + Suc k" for x
      using Suc [of "i + 1"] that False by (cases "x = i") auto
    then show ?thesis using Suc [of "i + 1"] False by auto
  qed simp
qed auto

lemma absorb_slot_homes:
  assumes n: "n \<le> length bl"
  shows "bn \<in> set (take n bl) \<Longrightarrow> absorb_slot bl bn 0 n < n \<and> bl[absorb_slot bl bn 0 n := bn] = bl"
    and "bn \<notin> set (take n bl) \<Longrightarrow> absorb_slot bl bn 0 n = n"
proof -
  note a = absorb_slot_spec [of 0 bl bn n]
  have mem: "bn \<in> set (take n bl) \<longleftrightarrow> (\<exists>x<n. bl ! x = bn)"
    using n by (auto simp: in_set_conv_nth)
  show "absorb_slot bl bn 0 n < n \<and> bl[absorb_slot bl bn 0 n := bn] = bl" if "bn \<in> set (take n bl)"
  proof -
    have "absorb_slot bl bn 0 n \<noteq> n" using a that mem by auto
    then have lt: "absorb_slot bl bn 0 n < n" using a by simp
    then have "bl ! absorb_slot bl bn 0 n = bn" using a by simp
    then show ?thesis using lt list_update_id [of bl "absorb_slot bl bn 0 n"] by simp
  qed
  show "absorb_slot bl bn 0 n = n" if "bn \<notin> set (take n bl)"
  proof (rule ccontr)
    assume "absorb_slot bl bn 0 n \<noteq> n"
    then have "absorb_slot bl bn 0 n < n" using a by simp
    then show False using a that mem by auto
  qed
qed

text \<open>What \<open>log_write\<close> does to the header: a block that is logged already is absorbed.\<close>

definition absorbed :: "u32 \<Rightarrow> log \<Rightarrow> log" where
  "absorbed bn l = (if bn \<in> set (hdr_homes l) then l
    else l\<lparr>lh := \<lparr>lh_n = lh_n (lh l) + 1, lh_block = (lh_block (lh l))[nat (lh_n (lh l)) := bn]\<rparr>\<rparr>)"

lemma logheader_full [simp]: "(h :: logheader)\<lparr>lh_n := a, lh_block := b\<rparr> = \<lparr>lh_n = a, lh_block = b\<rparr>"
  "(h :: logheader)\<lparr>lh_block := b, lh_n := a\<rparr> = \<lparr>lh_n = a, lh_block = b\<rparr>"
  by (cases h, simp)+

lemma bpin_any:
  assumes "LBcache \<notin> set (held s)"
  shows "bpin b s = Done () (s\<lparr>bufs := (bufs s)[b := (bufs s ! b)\<lparr>refcnt := refcnt (bufs s ! b) + 1\<rparr>]\<rparr>)"
  using assms by (simp add: bpin_def upd_buf_def)

lemma log_write_eq:
  fixes s :: "'z lmachine_scheme"
  assumes h: "held s = []" and b: "bdev (bufs s ! b) = dev" "blockno (bufs s ! b) = bn" and l: "logs s dev = l"
    and n: "0 \<le> lh_n (lh l)" "lh_n (lh l) < LOGSIZE" "lh_n (lh l) < log_size l - 1" "length (lh_block (lh l)) = 30"
    and out: "1 \<le> outstanding l"
  shows "log_write b s = Done () (upd_lh dev (\<lambda>_. lh (absorbed bn l))
    (if bn \<in> set (hdr_homes l) then s
     else s\<lparr>bufs := (bufs s)[b := (bufs s ! b)\<lparr>refcnt := refcnt (bufs s ! b) + 1\<rparr>]\<rparr>))"
proof -
  let ?bl = "lh_block (lh l)" and ?n = "nat (lh_n (lh l))"
  have n30: "?n < 30" using n by (simp add: LOGSIZE_def MAXOPBLOCKS_def)
  then have le: "?n \<le> length ?bl" using n(4) by simp
  note a = absorb_slot_homes [OF le, of bn]
  show ?thesis
  proof (cases "bn \<in> set (hdr_homes l)")
    case True
    then have "absorb_slot ?bl bn 0 ?n < ?n" "?bl[absorb_slot ?bl bn 0 ?n := bn] = ?bl" using a by (simp_all add: hdr_homes_def)
    then show ?thesis
      using True h b l n out by (simp add: log_write_def Let_def upd_lh_def upd_log_def absorbed_def)
  next
    case False
    then have "absorb_slot ?bl bn 0 ?n = ?n" using a by (simp add: hdr_homes_def)
    then show ?thesis
      using False h b l n out by (simp add: log_write_def Let_def upd_lh_def upd_log_def absorbed_def bpin_any)
  qed
qed

lemma absorbed_fields [simp]:
  "log_start (absorbed bn l) = log_start l" "log_size (absorbed bn l) = log_size l"
  "outstanding (absorbed bn l) = outstanding l" "committing (absorbed bn l) = committing l"
  "length (lh_block (lh (absorbed bn l))) = length (lh_block (lh l))"
  by (simp_all add: absorbed_def)

lemma absorbed_homes:
  assumes "0 \<le> lh_n (lh l)" and "nat (lh_n (lh l)) < length (lh_block (lh l))"
  shows "hdr_homes (absorbed bn l) = (if bn \<in> set (hdr_homes l) then hdr_homes l else hdr_homes l @ [bn])"
    and "lh_n (lh (absorbed bn l)) = (if bn \<in> set (hdr_homes l) then lh_n (lh l) else lh_n (lh l) + 1)"
proof -
  have "nat (lh_n (lh l) + 1) = Suc (nat (lh_n (lh l)))" using assms(1) by simp
  then show "hdr_homes (absorbed bn l) = (if bn \<in> set (hdr_homes l) then hdr_homes l else hdr_homes l @ [bn])"
    using assms(2) by (simp add: absorbed_def hdr_homes_def take_Suc_conv_app_nth)
qed (simp add: absorbed_def)

lemma log_write_run:
  fixes s :: "'z lmachine_scheme"
  assumes inv: "binv s H" and h: "held s = []" and b: "(b, (dev, bn)) \<in> set H" and l: "logs s dev = l"
    and n: "0 \<le> lh_n (lh l)" "lh_n (lh l) < LOGSIZE" "lh_n (lh l) < log_size l - 1" "length (lh_block (lh l)) = 30"
    and out: "1 \<le> outstanding l" and wrap: "rc s (dev, bn) + 1 \<noteq> 0"
  obtains s' where "log_write b s = Done () s'" "binv s' H" "held s' = []" "view s' = view s" "disk s' = disk s"
    "disk_trace s' = disk_trace s" "logs s' = (logs s)(dev := absorbed bn l)"
    "rc s' = (if bn \<in> set (hdr_homes l) then rc s else (rc s)((dev, bn) := rc s (dev, bn) + 1))"
proof -
  let ?x = "if bn \<in> set (hdr_homes l) then s
    else s\<lparr>bufs := (bufs s)[b := (bufs s ! b)\<lparr>refcnt := refcnt (bufs s ! b) + 1\<rparr>]\<rparr>"
  let ?s = "upd_lh dev (\<lambda>_. lh (absorbed bn l)) ?x"
  have e: "log_write b s = Done () ?s" using held_key [OF inv b] by (intro log_write_eq [OF h _ _ l n out]) simp_all
  have c: "count_post s (dev, bn) (refcnt (bufs s ! b) + 1) H (s\<lparr>bufs := (bufs s)[b := (bufs s ! b)\<lparr>refcnt := refcnt (bufs s ! b) + 1\<rparr>]\<rparr>)"
    using wrap held_rc [OF inv b] by (intro count_held [OF inv b]) simp
  have la: "l\<lparr>lh := lh (absorbed bn l)\<rparr> = absorbed bn l" by (simp add: absorbed_def)
  show ?thesis
  proof (rule that [OF e])
    show "binv ?s H" "held ?s = []" "view ?s = view s" "disk ?s = disk s" "disk_trace ?s = disk_trace s"
      using inv h c by (simp_all add: upd_lh_run count_post_def)
    show "logs ?s = (logs s)(dev := absorbed bn l)" using l la by (simp add: upd_lh_run)
    show "rc ?s = (if bn \<in> set (hdr_homes l) then rc s else (rc s)((dev, bn) := rc s (dev, bn) + 1))"
      using c held_rc [OF inv b] by (simp add: upd_lh_run count_post_def)
  qed
qed

section \<open>Ending an operation\<close>

lemma wake_run:
  assumes "binv s H"
  shows "binv (s\<lparr>procs := map (wake c) (procs s)\<rparr>) H" "view (s\<lparr>procs := ps\<rparr>) = view s" "rc (s\<lparr>procs := ps\<rparr>) = rc s"
proof -
  obtain p where p: "p < NPROC" "cur s = Some p" "length (procs s) = NPROC"
      "bcore (bufs s) (disk s) (sleeplocks s) (pid (procs s ! p)) H"
    using assms by (rule binvE)
  then have "pid (map (wake c) (procs s) ! p) = pid (procs s ! p)" by (simp add: wake_def)
  then show "binv (s\<lparr>procs := map (wake c) (procs s)\<rparr>) H" using p by (simp add: binv_def)
qed (simp_all add: view_def rc_def)

lemma upd_log_run:
  fixes s :: "'z lmachine_scheme"
  shows "binv (upd_log dev f s) H = binv s H" "view (upd_log dev f s) = view s" "rc (upd_log dev f s) = rc s"
    "disk (upd_log dev f s) = disk s" "disk_trace (upd_log dev f s) = disk_trace s" "held (upd_log dev f s) = held s"
    "logs (upd_log dev f s) = (logs s)(dev := f (logs s dev))" "procs (upd_log dev f s) = procs s"
  by (simp_all add: upd_log_def binv_def view_def rc_def)

section \<open>Crashes\<close>

definition log_area :: "int \<Rightarrow> u32 set" where
  "log_area start = insert (log_hdr start) (log_slot start ` {0..<29})"

lemma log_area: "log_area start = lg.area start"
  by (simp add: log_area_def lg.area_def)

text \<open>
  A transaction ready to commit: no buffer is locked, at most 29 blocks are logged,
  they are pinned in the cache and lie outside of the log, one buffer is free, and the
  header on the disk is empty.
\<close>

definition commit_ready :: "'z lmachine_scheme \<Rightarrow> u32 \<Rightarrow> bool" where
  "commit_ready s dev \<longleftrightarrow> binv s [] \<and> held s = [] \<and> nbusy (rc s) < NBUF \<and>
    (let l = logs s dev in log_ready l dev (rc s) \<and> 0 < lh_n (lh l) \<and> lh_n (lh l) \<le> 29 \<and>
      (\<forall>h\<in>set (hdr_homes l). rc s (dev, h) \<noteq> 0) \<and> get32 (disk s dev (log_hdr (log_start l))) 0 = 0)"

text \<open>
  The machine \<open>r\<close> has been restarted after a crash in which only the first \<open>k\<close> disk
  writes of the commit of \<open>s\<close> were done.
\<close>

definition crashed :: "'z lmachine_scheme \<Rightarrow> u32 \<Rightarrow> nat \<Rightarrow> 'z lmachine_scheme \<Rightarrow> bool" where
  "crashed s dev k r \<longleftrightarrow> binv r [] \<and> held r = [] \<and> rc r = (\<lambda>_. 0) \<and>
    length (lh_block (lh (logs r dev))) = 30 \<and> log_start (logs r dev) = log_start (logs s dev) \<and>
    disk r dev = apply_writes (take k (the_commit s dev)) (disk s dev)"

text \<open>What the disk holds once the transaction is durable.\<close>

definition committed_disk :: "'z lmachine_scheme \<Rightarrow> u32 \<Rightarrow> u32 \<Rightarrow> u8 list" where
  "committed_disk s dev a = (if a \<in> set (hdr_homes (logs s dev)) then view s (dev, a) else disk s dev a)"

lemma committed_disk_writes:
  assumes "distinct (hdr_homes (logs s dev))"
  shows "apply_writes (zip (hdr_homes (logs s dev)) (log_data s dev)) (disk s dev) a = committed_disk s dev a"
proof (cases "a \<in> set (hdr_homes (logs s dev))")
  case True
  then obtain i where "i < length (hdr_homes (logs s dev))" "a = hdr_homes (logs s dev) ! i" by (metis in_set_conv_nth)
  then show ?thesis using True apply_writes_zip [OF assms, of i "log_data s dev" "disk s dev"]
    by (simp add: committed_disk_def log_data_def)
next
  case False
  then show ?thesis by (simp add: committed_disk_def apply_writes_zip_other)
qed

lemma header_count: "length d = BSIZE \<Longrightarrow> length hs \<le> 30 \<Longrightarrow> sint (get32 (put_header hs d) 0) = int (length hs)"
proof -
  assume d: "length d = BSIZE" "length hs \<le> 30"
  let ?d = "put32 d 0 (of_nat (length hs))"
  have "4 + 4 * length hs \<le> length ?d" using header_fits [OF d(2)] d(1) by (simp add: BSIZE_def)
  from put_entries(2) [OF this] show ?thesis
    using d by (simp add: put_header_def BSIZE_def sint_of_nat_small)
qed

text \<open>The header block that a crash can leave: the old one, that of the transaction, or an empty one.\<close>

lemma take_zip_notin: "a \<notin> set as \<Longrightarrow> a \<notin> fst ` set (take j (zip as vs))"
  using take_zip_keys [of j as vs] by (rule contra_subsetD)

lemma apply_prefix_at:
  assumes "\<And>j. h \<notin> fst ` set (take j A)" and "\<And>j. h \<notin> fst ` set (take j B)"
  shows "apply_writes (take k (A @ [(h, x)] @ B @ [(h, y)])) d h \<in> {d h, x, y}"
proof -
  have "take k (A @ [(h, x)] @ B @ [(h, y)]) =
      take k A @ take (k - length A) [(h, x)] @ take (k - length A - 1) B @ take (k - length A - 1 - length B) [(h, y)]"
    by (simp only: take_append length_Cons list.size(3) One_nat_def)
  then show ?thesis using assms by (auto simp: apply_writes_other take_Cons')
qed

lemma crash_header:
  assumes ok: "lg.homes_ok start hs" and len: "length vs = length hs"
  shows "apply_writes (take k (commit_writes put_header (log_hdr start) (log_slot start) hs vs (d (log_hdr start)))) d (log_hdr start)
    \<in> {d (log_hdr start), put_header hs (d (log_hdr start)), put_header [] (put_header hs (d (log_hdr start)))}"
  unfolding commit_writes_def
proof (rule apply_prefix_at)
  show "log_hdr start \<notin> fst ` set (take j (zip (map (log_slot start) [0..<length hs]) vs))" for j
    using lg.slots [OF ok] by (intro take_zip_notin) (elim conjE)
  show "log_hdr start \<notin> fst ` set (take j (zip hs vs))" for j
    by (rule take_zip_notin [OF lg.homes_area [OF ok lg.hdr_area]])
qed

lemma commit_readyD:
  assumes "commit_ready s dev" and "logs s dev = l"
  shows "binv s []" "held s = []" "nbusy (rc s) < NBUF" "log_ready l dev (rc s)" "0 < lh_n (lh l)" "lh_n (lh l) \<le> 29"
    "h \<in> set (hdr_homes l) \<Longrightarrow> rc s (dev, h) \<noteq> 0" "get32 (disk s dev (log_hdr (log_start l))) 0 = 0"
    "lg.homes_ok (log_start l) (hdr_homes l)" "length (hdr_homes l) \<le> 29" "length (log_data s dev) = length (hdr_homes l)"
    "length (disk s dev a) = BSIZE"
proof -
  show *: "binv s []" "held s = []" "nbusy (rc s) < NBUF" "log_ready l dev (rc s)" "0 < lh_n (lh l)" "lh_n (lh l) \<le> 29"
    "h \<in> set (hdr_homes l) \<Longrightarrow> rc s (dev, h) \<noteq> 0" "get32 (disk s dev (log_hdr (log_start l))) 0 = 0"
    using assms by (auto simp: commit_ready_def Let_def)
  show "lg.homes_ok (log_start l) (hdr_homes l)" using *(4) by (simp add: log_ready_def)
  show "length (hdr_homes l) \<le> 29" using log_readyD(1) [OF *(4)] *(6) by simp
  show "length (log_data s dev) = length (hdr_homes l)" using assms(2) by (simp add: log_data_def)
  show "length (disk s dev a) = BSIZE" using *(1) by (rule binvE) (simp add: bcore_length(2))
qed

text \<open>After a crash the machine can boot: the header is readable.\<close>

lemma crashed_bootable:
  fixes s r :: "'z lmachine_scheme"
  assumes s: "commit_ready s dev" and r: "crashed s dev k r"
  shows "bootable r dev"
proof -
  define l where "l = logs s dev"
  note C = commit_readyD [OF s l_def [symmetric]]
  let ?h = "log_hdr (log_start l)" and ?hs = "hdr_homes l"
  have "disk r dev ?h = apply_writes (take k (commit_writes put_header ?h (log_slot (log_start l)) ?hs (log_data s dev) (disk s dev ?h))) (disk s dev) ?h"
    using r by (simp add: crashed_def the_commit_def Let_def l_def)
  then have "disk r dev ?h \<in> {disk s dev ?h, put_header ?hs (disk s dev ?h), put_header [] (put_header ?hs (disk s dev ?h))}"
    using crash_header [OF C(9,11)] by simp
  then have "(sint (get32 (disk r dev ?h) 0) = 0 \<and> header_blocks (disk r dev ?h) = []) \<or>
      (sint (get32 (disk r dev ?h) 0) = int (length ?hs) \<and> header_blocks (disk r dev ?h) = ?hs)"
  proof (elim insertE emptyE)
    assume "disk r dev ?h = disk s dev ?h"
    then show ?thesis by (simp add: header_blocks_def C(8))
  next
    assume "disk r dev ?h = put_header ?hs (disk s dev ?h)"
    then show ?thesis using header_put [OF C(12)] header_count [OF C(12)] C(10) by simp
  next
    assume "disk r dev ?h = put_header [] (put_header ?hs (disk s dev ?h))"
    moreover have "length (put_header ?hs (disk s dev ?h)) = BSIZE" using C(10,12) by simp
    ultimately show ?thesis using header_put [of _ "[]"] header_count [of _ "[]"] by simp
  qed
  then have "0 \<le> sint (get32 (disk r dev ?h) 0)" "sint (get32 (disk r dev ?h) 0) \<le> 29"
    "lg.homes_ok (log_start l) (header_blocks (disk r dev ?h))"
    using C(9,10) by (auto simp: lg.homes_ok_def)
  then show ?thesis using r by (simp add: crashed_def bootable_def Let_def l_def)
qed

lemma crash_recovers:
  fixes s r :: "'z lmachine_scheme"
  assumes s: "commit_ready s dev" and r: "crashed s dev k r" and a: "a \<notin> log_area (log_start (logs s dev))"
  shows "apply_writes (recovery_of r dev) (disk r dev) a =
    (if k \<le> length (hdr_homes (logs s dev)) then disk s dev a else committed_disk s dev a)"
proof -
  define l where "l = logs s dev"
  note C = commit_readyD [OF s l_def [symmetric]]
  have "distinct (hdr_homes (logs s dev))" using C(9) by (simp add: lg.homes_ok_def l_def)
  note cd = committed_disk_writes [OF this, of a]
  have "header_blocks (disk s dev (log_hdr (log_start l))) = []" by (simp add: header_blocks_def C(8))
  note lg.crash_atomic [where d = "disk s dev" and a = a and k = k, OF C(12) this C(9,11)]
  then show ?thesis
    using r a cd by (simp add: recovered_def recovery_of_def crashed_def the_commit_def Let_def l_def log_area)
qed

section \<open>An example transaction\<close>

text \<open>
  On a freshly booted machine whose disk is all zero, with the log at block 2: block 32
  is read, filled with the byte 7, logged and released.
\<close>

definition example_log :: log where
  "example_log = \<lparr>log_start = 2, log_size = 30, outstanding = 1, committing = False, log_dev = 1,
    lh = \<lparr>lh_n = 0, lh_block = replicate 30 0\<rparr>\<rparr>"

definition example_boot :: "(u32 \<Rightarrow> u32 \<Rightarrow> u8 list) \<Rightarrow> lmachine" where
  "example_boot d = boot d (lmachine_ext (\<lambda>_. example_log) ())"

definition example_tx :: "lmachine \<Rightarrow> (unit, lmachine) outcome" where
  "example_tx s =
    bindk (bread 1 32 s) (\<lambda>b s.
    let s = upd_buf b (\<lambda>x. x\<lparr>bdata := replicate BSIZE 7\<rparr>) s in
    bindk (log_write b s) (\<lambda>_ s. brelse b s))"

lemma binit_loop_logs: "logs (binit_loop bs s) = logs s"
  by (induction bs arbitrary: s) (simp_all add: initsleeplock_def upd_sleeplock_def upd_buf_def Let_def)

lemma example_boot_logs [simp]: "logs (example_boot d) = (\<lambda>_. example_log)"
  by (simp add: example_boot_def boot_def binit_def binit_loop_logs Let_def)

lemma example_boot_cache:
  assumes "\<And>dv b. length (d dv b) = BSIZE"
  shows "binv (example_boot d) []" "held (example_boot d) = []" "rc (example_boot d) = (\<lambda>_. 0)"
    "disk (example_boot d) = d" "disk_trace (example_boot d) = []" "view (example_boot d) k = d (fst k) (snd k)"
    "nbusy (rc (example_boot d)) = 0"
  using boot_binv [OF assms] by (simp_all add: example_boot_def fun_eq_iff nbusy_def)

lemma example_tx_run:
  assumes d: "\<And>dv b. length (d dv b) = BSIZE"
  obtains s where "example_tx (example_boot d) = Done () s" "binv s []" "held s = []" "disk s = d"
    "view s = (view (example_boot d))((1, 32) := replicate BSIZE 7)"
    "rc s = (\<lambda>_. 0)((1, 32) := 1)" "logs s 1 = absorbed 32 example_log"
proof -
  let ?s = "example_boot d" and ?k = "(1, 32) :: bkey" and ?x = "replicate BSIZE 7 :: u8 list"
  note B = example_boot_cache [of d, OF d]
  obtain b s1 where e1: "bread 1 32 ?s = Done b s1"
    and c1: "cpost ?s [(b, ?k)] (view ?s) ((\<lambda>_. 0)(?k := 1)) d [] s1"
    using bread_run [OF cpost_start [OF B(1,2)], of 1 32] B by (auto simp: NBUF_def)
  let ?s2 = "upd_buf b (\<lambda>y. y\<lparr>bdata := ?x\<rparr>) s1"
  have c2: "cpost ?s [(b, ?k)] ((view ?s)(?k := ?x)) ((\<lambda>_. 0)(?k := 1)) d [] ?s2"
    by (intro write_run [OF c1]) simp_all
  have l2: "logs ?s2 1 = example_log" using logs_run [OF c2] by simp
  obtain s3 where e3: "log_write b ?s2 = Done () s3" and i3: "binv s3 [(b, ?k)]" "held s3 = []"
    "view s3 = (view ?s)(?k := ?x)" "disk s3 = d" "disk_trace s3 = []" "logs s3 1 = absorbed 32 example_log"
    "rc s3 = (\<lambda>_. 0)(?k := 2)"
    by (rule log_write_run [OF cpostD(1,2) [OF c2] _ l2, of b 32])
      (use cpostD(3-7) [OF c2] in \<open>simp_all add: example_log_def LOGSIZE_def MAXOPBLOCKS_def hdr_homes_def\<close>)
  obtain s4 where e4: "brelse b s3 = Done () s4"
    and c4: "cpost s3 [] ((view ?s)(?k := ?x)) ((\<lambda>_. 0)(?k := 1)) d [] s4"
    using brelse_run' [OF cpost_start [OF i3(1,2)], of b ?k] i3 by (auto simp: unheld_def)
  show ?thesis
  proof (rule that [of s4])
    show "example_tx ?s = Done () s4" by (simp add: example_tx_def e1 e3 e4 Let_def)
    show "logs s4 1 = absorbed 32 example_log" using logs_run [OF c4] i3 by simp
  qed (use cpostD [OF c4] in simp_all)
qed

lemma apply_writes_all:
  assumes "\<forall>w\<in>set ws. P (snd w)" and "\<forall>a. P (d a)"
  shows "P (apply_writes ws d a)"
  using assms by (induction ws arbitrary: d) auto

text \<open>The example is ready to commit, and crashes after the write of the header.\<close>

definition zero_disk :: "u32 \<Rightarrow> u32 \<Rightarrow> u8 list" where
  "zero_disk = (\<lambda>_ _. replicate BSIZE 0)"

lemma example_homes: "hdr_homes (absorbed 32 example_log) = [32]" "lh_n (lh (absorbed 32 example_log)) = 1"
  using absorbed_homes [of example_log 32] by (simp_all add: example_log_def hdr_homes_def)

lemma example_start: "log_start example_log = 2" "length (lh_block (lh example_log)) = 30"
  "lh_n (lh example_log) = 0" "log_size example_log = 30" "outstanding example_log = 1" "\<not> committing example_log"
  by (simp_all add: example_log_def)

lemma zero_header: "get32 (replicate BSIZE 0) 0 = 0"
  by (simp add: get32_def get_le_def BSIZE_def numeral_eq_Suc)

lemma example_outside: "(32 :: u32) \<notin> log_area 2"
proof
  assume "(32 :: u32) \<in> log_area 2"
  then obtain x where x: "x < 29" "(of_nat x :: u32) = 29" by (auto simp: log_area_def log_hdr_def log_slot_def)
  from arg_cong [OF x(2), of unat] show False using x(1) by (simp add: unat_of_nat)
qed

lemma example_ready:
  assumes s: "binv s []" "held s = []" "disk s = zero_disk" "rc s = (\<lambda>_. 0)((1, 32) := 1)" "logs s 1 = absorbed 32 example_log"
  shows "commit_ready s 1"
proof -
  have "log_ready (absorbed 32 example_log) 1 (rc s)"
    using example_outside unfolding log_area
    by (auto simp: log_ready_def example_homes example_start lg.homes_ok_def s(4))
  moreover have "{k. rc s k \<noteq> 0} = {(1, 32)}" by (auto simp: s(4))
  ultimately show ?thesis
    using s by (simp add: commit_ready_def example_homes zero_disk_def zero_header nbusy_def NBUF_def)
qed

section \<open>Crashes during recovery\<close>

text \<open>\<open>r'\<close> has been restarted after only the first \<open>k\<close> writes of the recovery of \<open>r\<close>.\<close>

definition recovery_crashed :: "'z lmachine_scheme \<Rightarrow> u32 \<Rightarrow> nat \<Rightarrow> 'z lmachine_scheme \<Rightarrow> bool" where
  "recovery_crashed r dev k r' \<longleftrightarrow> binv r' [] \<and> held r' = [] \<and> rc r' = (\<lambda>_. 0) \<and>
    length (lh_block (lh (logs r' dev))) = 30 \<and> log_start (logs r' dev) = log_start (logs r dev) \<and>
    disk r' dev = apply_writes (take k (recovery_of r dev)) (disk r dev)"

lemma bootableD:
  assumes "bootable r dev" and "logs r dev = l"
  shows "0 \<le> sint (get32 (disk r dev (log_hdr (log_start l))) 0)" "sint (get32 (disk r dev (log_hdr (log_start l))) 0) \<le> 29"
    "lg.homes_ok (log_start l) (header_blocks (disk r dev (log_hdr (log_start l))))" "length (disk r dev a) = BSIZE"
  using assms by (auto simp: bootable_def Let_def elim!: binvE intro: bcore_length(2))

lemma recovery_crashed_bootable:
  fixes r r' :: "'z lmachine_scheme"
  assumes r: "bootable r dev" and r': "recovery_crashed r dev k r'"
  shows "bootable r' dev"
proof -
  define l where "l = logs r dev"
  note B = bootableD [OF r l_def [symmetric]]
  let ?h = "log_hdr (log_start l)" and ?b = "disk r dev (log_hdr (log_start l))"
  let ?z = "zip (header_blocks ?b) (map (\<lambda>i. disk r dev (log_slot (log_start l) i)) [0..<length (header_blocks ?b)])"
  have "?h \<notin> fst ` set (take k ?z)" by (rule take_zip_notin [OF lg.homes_area [OF B(3) lg.hdr_area]])
  moreover have "recovery_of r dev = ?z @ [(?h, put_header [] ?b)]"
    by (simp add: recovery_of_def recovery_writes_def Let_def l_def)
  ultimately have "disk r' dev ?h = ?b \<or> disk r' dev ?h = put_header [] ?b"
    using r' by (auto simp: recovery_crashed_def apply_writes_other take_Cons')
  moreover have "header_blocks (put_header [] ?b) = []" "sint (get32 (put_header [] ?b) 0) = 0"
    using header_put [OF B(4), of "[]"] header_count [OF B(4), of "[]"] by simp_all
  ultimately have "0 \<le> sint (get32 (disk r' dev ?h) 0)" "sint (get32 (disk r' dev ?h) 0) \<le> 29"
    "lg.homes_ok (log_start l) (header_blocks (disk r' dev ?h))"
    using B(1-3) by (auto simp: lg.homes_ok_def)
  then show ?thesis using r' by (simp add: recovery_crashed_def bootable_def Let_def l_def)
qed

lemma recovery_crash_recovers:
  fixes r r' :: "'z lmachine_scheme"
  assumes r: "bootable r dev" and r': "recovery_crashed r dev k r'" and a: "a \<notin> log_area (log_start (logs r dev))"
  shows "apply_writes (recovery_of r' dev) (disk r' dev) a = apply_writes (recovery_of r dev) (disk r dev) a"
proof -
  note B = bootableD [OF r refl]
  note lg.recovery_idempotent [where d = "disk r dev" and a = a and k = k, OF B(4) B(3)]
  then show ?thesis
    using r' a by (simp add: recovered_def recovery_of_def recovery_crashed_def Let_def log_area)
qed

section \<open>Reference counts after recovery\<close>

lemma bread_count_wraps:
  assumes inv: "binv s []" and h: "held s = []" and rc: "rc s (dev, bn) = - 1"
  shows "returns (bread dev bn s) (\<lambda>b s'. refcnt (bufs s' ! b) = 0 \<and> slk_locked (sleeplocks s' (LBuf b)))"
proof -
  obtain p order where p: "cur s = Some p" and ok: "cache_ok (bufs s) order"
    and core: "bcore (bufs s) (disk s) (sleeplocks s) (pid (procs s ! p)) []"
    using inv by (rule binvE)
  have "\<not> (\<forall>i<NBUF. refcnt (bufs s ! i) \<noteq> 0 \<longrightarrow> key (bufs s ! i) \<noteq> (dev, bn))"
    using brc_miss [of "bufs s" "(dev, bn)"] rc by (auto simp: rc_def)
  then obtain i where i: "i < NBUF" "refcnt (bufs s ! i) \<noteq> 0" "key (bufs s ! i) = (dev, bn)" by blast
  have f: "find (\<lambda>j. key (bufs s ! j) = (dev, bn)) order = Some i"
    using ok i unfolding cache_ok_def by (metis live_def)
  have r: "refcnt (bufs s ! i) = - 1" using brc_hit [OF ok i] rc by (simp add: rc_def)
  have len: "i < length (bufs s)" using cache_okD(1) [OF ok] i(1) by simp
  have "\<not> slk_locked (sleeplocks s (LBuf i))" using bcore_unlocked [OF core i(1)] by simp
  from bread_hit_run [OF ok f i(1) this p h] show ?thesis using r len by simp
qed

definition example_crash :: "lmachine \<Rightarrow> lmachine \<Rightarrow> bool" where
  "example_crash s r \<longleftrightarrow> example_tx (example_boot zero_disk) = Done () s \<and> commit_ready s 1 \<and> crashed s 1 2 r \<and>
    hdr_homes (logs s 1) = [32] \<and> log_start (logs s 1) = 2 \<and> view s (1, 32) = replicate BSIZE 7 \<and>
    header_blocks (disk r 1 (log_hdr 2)) = [32] \<and> (\<forall>dv b. length (disk r dv b) = BSIZE)"

lemma example_crash_exists: "\<exists>s r. example_crash s r"
proof -
  have z: "length (zero_disk dv b) = BSIZE" for dv b by (simp add: zero_disk_def)
  obtain s where e: "example_tx (example_boot zero_disk) = Done () s" and s: "binv s []" "held s = []" "disk s = zero_disk"
    "view s = (view (example_boot zero_disk))((1, 32) := replicate BSIZE 7)"
    "rc s = (\<lambda>_. 0)((1, 32) := 1)" "logs s 1 = absorbed 32 example_log"
    by (rule example_tx_run [of zero_disk, OF z])
  have ready: "commit_ready s 1" by (rule example_ready [OF s(1,2,3,5,6)])
  define d where "d = zero_disk(1 := apply_writes (take 2 (the_commit s 1)) (zero_disk 1))"
  have ws: "take 2 (the_commit s 1) = [(log_slot 2 0, replicate BSIZE 7), (log_hdr 2, put_header [32] (zero_disk 1 (log_hdr 2)))]"
    by (simp add: the_commit_def commit_writes_def Let_def log_data_def s example_homes example_start)
  have d: "length (d dv b) = BSIZE" for dv b by (simp add: d_def ws z)
  note B = example_boot_cache [of d, OF d]
  have cr: "crashed s 1 2 (example_boot d)" using B s by (simp add: crashed_def example_start d_def)
  have "header_blocks (d 1 (log_hdr 2)) = [32]" using header_put [of "zero_disk 1 (log_hdr 2)" "[32]"] z by (simp add: d_def ws)
  then have "example_crash s (example_boot d)"
    using e ready cr s B(4) d by (simp add: example_crash_def example_homes example_start)
  then show ?thesis by blast
qed

section \<open>Properties\<close>

text \<open>
  C1: crash atomicity.  A commit returns and writes to the disk exactly the blocks of
  its transaction: the log blocks, the header, the home blocks, and the empty header.
  If the machine stops after any number \<open>k\<close> of these writes, the recovery at the next
  boot returns, and outside of the log every block is either as before the transaction
  (when the header was not written yet) or as the transaction left it.
\<close>

theorem commit_crash_atomic:
  fixes s r :: "'z lmachine_scheme"
  assumes "commit_ready s dev" and "crashed s dev k r"
  shows "returns (commit dev s) (\<lambda>_ s'. disk_trace s' = disk_trace s @ on_dev dev (the_commit s dev) \<and>
      disk s' dev = apply_writes (the_commit s dev) (disk s dev)) \<and>
    returns (recover_from_log dev r) (\<lambda>_ r'. \<forall>a. a \<notin> log_area (log_start (logs s dev)) \<longrightarrow>
      disk r' dev a = (if k \<le> length (hdr_homes (logs s dev)) then disk s dev a else committed_disk s dev a))"
proof
  note C = commit_readyD [OF assms(1) refl]
  obtain s' where "commit dev s = Done () s'" "disk_trace s' = disk_trace s @ on_dev dev (the_commit s dev)"
    "disk s' dev = apply_writes (the_commit s dev) (disk s dev)"
    using commit_run [OF C(1,2) refl C(4,7,3,5)] by blast
  then show "returns (commit dev s) (\<lambda>_ s'. disk_trace s' = disk_trace s @ on_dev dev (the_commit s dev) \<and>
      disk s' dev = apply_writes (the_commit s dev) (disk s dev))" by simp
  obtain r' where "recover_from_log dev r = Done () r'" "disk r' dev = apply_writes (recovery_of r dev) (disk r dev)"
    using recover_run [OF crashed_bootable [OF assms] refl] by blast
  then show "returns (recover_from_log dev r) (\<lambda>_ r'. \<forall>a. a \<notin> log_area (log_start (logs s dev)) \<longrightarrow>
      disk r' dev a = (if k \<le> length (hdr_homes (logs s dev)) then disk s dev a else committed_disk s dev a))"
    using crash_recovers [OF assms] by simp
qed

theorem commit_crash_atomic_witness:
  "\<exists>s r. example_tx (example_boot zero_disk) = Done () s \<and> commit_ready s 1 \<and> crashed s 1 2 r \<and>
    returns (commit 1 s) (\<lambda>_ s'. True) \<and> returns (recover_from_log 1 r) (\<lambda>_ r'. disk r' 1 32 = replicate BSIZE 7)"
proof -
  obtain s r where ex: "example_crash s r" using example_crash_exists by blast
  then have e: "example_tx (example_boot zero_disk) = Done () s" and ready: "commit_ready s 1" and cr: "crashed s 1 2 r"
    and s: "hdr_homes (logs s 1) = [32]" "log_start (logs s 1) = 2" "view s (1, 32) = replicate BSIZE 7"
    by (simp_all add: example_crash_def)
  from commit_crash_atomic [OF ready cr] have "returns (commit 1 s) (\<lambda>_ s'. True)"
    "returns (recover_from_log 1 r) (\<lambda>_ r'. disk r' 1 32 = replicate BSIZE 7)"
    using example_outside by (auto simp: s committed_disk_def elim!: returns_mono)
  then show ?thesis using e ready cr by blast
qed

text \<open>
  C2: recovery is idempotent.  If the machine stops again after any number of the
  writes of a recovery, the next recovery returns and yields the same blocks.
\<close>

theorem recovery_restartable:
  fixes r r' :: "'z lmachine_scheme"
  assumes "bootable r dev" and "recovery_crashed r dev k r'"
  shows "returns (recover_from_log dev r) (\<lambda>_ u. returns (recover_from_log dev r') (\<lambda>_ u'.
    \<forall>a. a \<notin> log_area (log_start (logs r dev)) \<longrightarrow> disk u' dev a = disk u dev a))"
proof -
  obtain u where u: "recover_from_log dev r = Done () u" "disk u dev = apply_writes (recovery_of r dev) (disk r dev)"
    using recover_run [OF assms(1) refl] by blast
  obtain u' where u': "recover_from_log dev r' = Done () u'" "disk u' dev = apply_writes (recovery_of r' dev) (disk r' dev)"
    using recover_run [OF recovery_crashed_bootable [OF assms] refl] by blast
  show ?thesis using u u' recovery_crash_recovers [OF assms] by simp
qed

theorem recovery_restartable_witness:
  "\<exists>r r' :: lmachine. bootable r 1 \<and> recovery_crashed r 1 1 r' \<and> returns (recover_from_log 1 r) (\<lambda>_ u.
    returns (recover_from_log 1 r') (\<lambda>_ u'. disk u' 1 32 = disk u 1 32))"
proof -
  obtain s r where "example_crash s r" using example_crash_exists by blast
  then have ready: "commit_ready s 1" and cr: "crashed s 1 2 r" and start: "log_start (logs r 1) = 2"
    and r: "\<forall>dv b. length (disk r dv b) = BSIZE" by (simp_all add: example_crash_def crashed_def)
  note boot = crashed_bootable [OF ready cr]
  define d where "d = (disk r)(1 := apply_writes (take 1 (recovery_of r 1)) (disk r 1))"
  have "\<forall>w\<in>set (recovery_of r 1). length (snd w) = BSIZE"
    using r by (auto simp: recovery_of_def recovery_writes_def Let_def set_zip)
  then have "length (apply_writes (take 1 (recovery_of r 1)) (disk r 1) b) = BSIZE" for b
    using r by (intro apply_writes_all [where P = "\<lambda>x. length x = BSIZE"]) (auto dest: in_set_takeD)
  then have len: "length (d dv b) = BSIZE" for dv b using r by (simp add: d_def)
  have rcr: "recovery_crashed r 1 1 (example_boot d)"
    using example_boot_cache [of d, OF len] start by (simp add: recovery_crashed_def example_start d_def)
  have "returns (recover_from_log 1 r) (\<lambda>_ u. returns (recover_from_log 1 (example_boot d)) (\<lambda>_ u'. disk u' 1 32 = disk u 1 32))"
    by (rule returns_mono [OF recovery_restartable [OF boot rcr]], erule returns_mono) (simp add: start example_outside)
  then show ?thesis using boot rcr by blast
qed

text \<open>
  C6: recovery installs the logged blocks with \<open>install_trans\<close>, which drops a pin that
  only \<open>log_write\<close> takes.  After a recovery the reference count of every installed
  block is the largest 32-bit number, so its buffer stays allocated; and when the block is
  read next, the count wraps to 0 while the buffer is locked and in use.
\<close>

theorem recovery_wraps_counts:
  assumes "bootable r dev" and "h \<in> set (header_blocks (disk r dev (log_hdr (log_start (logs r dev)))))"
  shows "returns (recover_from_log dev r) (\<lambda>_ s. rc s (dev, h) = 0xffffffff \<and>
    returns (bread dev h s) (\<lambda>b s'. refcnt (bufs s' ! b) = 0 \<and> slk_locked (sleeplocks s' (LBuf b))))"
proof -
  obtain s where s: "recover_from_log dev r = Done () s" "binv s []" "held s = []"
    "rc s = unpin (header_blocks (disk r dev (log_hdr (log_start (logs r dev))))) dev (\<lambda>_. 0)"
    using recover_run [OF assms(1) refl] by blast
  then have "rc s (dev, h) = - 1" using assms(2) by (simp add: unpin_def)
  then show ?thesis using s bread_count_wraps [OF s(2,3)] by simp
qed

theorem recovery_wraps_counts_witness:
  "\<exists>r :: lmachine. bootable r 1 \<and> returns (recover_from_log 1 r) (\<lambda>_ s. rc s (1, 32) = 0xffffffff \<and>
    returns (bread 1 32 s) (\<lambda>b s'. refcnt (bufs s' ! b) = 0 \<and> slk_locked (sleeplocks s' (LBuf b))))"
proof -
  obtain s r where "example_crash s r" using example_crash_exists by blast
  then have ready: "commit_ready s 1" and cr: "crashed s 1 2 r" and hs: "header_blocks (disk r 1 (log_hdr 2)) = [32]"
    and "log_start (logs s 1) = 2" by (simp_all add: example_crash_def)
  then have start: "log_start (logs r 1) = 2" by (simp add: crashed_def)
  note boot = crashed_bootable [OF ready cr]
  have "returns (recover_from_log 1 r) (\<lambda>_ s. rc s (1, 32) = 0xffffffff \<and>
    returns (bread 1 32 s) (\<lambda>b s'. refcnt (bufs s' ! b) = 0 \<and> slk_locked (sleeplocks s' (LBuf b))))"
    by (rule recovery_wraps_counts [OF boot]) (simp add: start hs)
  then show ?thesis using boot by blast
qed

text \<open>
  C4: \<open>log_write\<close> on a held buffer records its block in the log header exactly once (a
  block that is logged already is absorbed), keeps the logged blocks distinct, pins the
  buffer when and only when the block is new, and writes nothing to the disk.
\<close>

theorem log_write_absorbs:
  fixes s :: "'z lmachine_scheme"
  assumes "binv s H" and "held s = []" and "(b, (dev, bn)) \<in> set H" and "logs s dev = l"
    and "0 \<le> lh_n (lh l)" "lh_n (lh l) < LOGSIZE" "lh_n (lh l) < log_size l - 1" "length (lh_block (lh l)) = 30"
    and "1 \<le> outstanding l" and "rc s (dev, bn) + 1 \<noteq> 0" and "distinct (hdr_homes l)"
  shows "returns (log_write b s) (\<lambda>_ s'. binv s' H \<and> view s' = view s \<and> disk s' = disk s \<and>
    hdr_homes (logs s' dev) = (if bn \<in> set (hdr_homes l) then hdr_homes l else hdr_homes l @ [bn]) \<and>
    distinct (hdr_homes (logs s' dev)) \<and>
    rc s' = (if bn \<in> set (hdr_homes l) then rc s else (rc s)((dev, bn) := rc s (dev, bn) + 1)))"
proof -
  obtain s' where "log_write b s = Done () s'" "binv s' H" "view s' = view s" "disk s' = disk s"
    "logs s' = (logs s)(dev := absorbed bn l)"
    "rc s' = (if bn \<in> set (hdr_homes l) then rc s else (rc s)((dev, bn) := rc s (dev, bn) + 1))"
    by (rule log_write_run [OF assms(1-10)])
  moreover have "nat (lh_n (lh l)) < length (lh_block (lh l))"
    using assms(5-8) by (simp add: LOGSIZE_def MAXOPBLOCKS_def)
  ultimately show ?thesis using absorbed_homes(1) [OF assms(5), of bn] assms(11) by simp
qed

theorem log_write_absorbs_witness:
  "returns (bindk (bread 1 32 (example_boot zero_disk)) log_write) (\<lambda>_ s'. hdr_homes (logs s' 1) = [32])"
proof -
  let ?s = "example_boot zero_disk"
  have z: "length (zero_disk dv b) = BSIZE" for dv b by (simp add: zero_disk_def)
  note B = example_boot_cache [of zero_disk, OF z]
  obtain b s1 where e1: "bread 1 32 ?s = Done b s1"
    and c1: "cpost ?s [(b, (1, 32))] (view ?s) ((\<lambda>_. 0)((1, 32) := 1)) zero_disk [] s1"
    using bread_run [OF cpost_start [OF B(1,2)], of 1 32] B by (auto simp: NBUF_def)
  have l: "logs s1 1 = example_log" using logs_run [OF c1] by simp
  have hs: "hdr_homes example_log = []" by (simp add: hdr_homes_def example_log_def)
  have "returns (log_write b s1) (\<lambda>_ s'. binv s' [(b, (1, 32))] \<and> view s' = view s1 \<and> disk s' = disk s1 \<and>
    hdr_homes (logs s' 1) = (if 32 \<in> set (hdr_homes example_log) then hdr_homes example_log else hdr_homes example_log @ [32]) \<and>
    distinct (hdr_homes (logs s' 1)) \<and>
    rc s' = (if 32 \<in> set (hdr_homes example_log) then rc s1 else (rc s1)((1, 32) := rc s1 (1, 32) + 1)))"
    using cpostD [OF c1] by (intro log_write_absorbs [OF cpostD(1,2) [OF c1] _ l])
      (simp_all add: hs example_start LOGSIZE_def MAXOPBLOCKS_def)
  then show ?thesis by (simp add: e1 hs returns_iff) blast
qed

section \<open>Beginning and ending operations\<close>

lemma end_op_run:
  fixes s :: "'z lmachine_scheme"
  assumes ready: "commit_ready (upd_log dev (\<lambda>l. l\<lparr>outstanding := 0, committing := True\<rparr>) s) dev"
    and one: "outstanding (logs s dev) = 1" "\<not> committing (logs s dev)"
  shows "returns (end_op dev s) (\<lambda>_ s'. disk s' dev = apply_writes (the_commit s dev) (disk s dev) \<and>
    disk_trace s' = disk_trace s @ on_dev dev (the_commit s dev) \<and> lh_n (lh (logs s' dev)) = 0 \<and> \<not> committing (logs s' dev))"
proof -
  let ?s = "upd_log dev (\<lambda>l. l\<lparr>outstanding := 0, committing := True\<rparr>) s"
  note C = commit_readyD [OF ready refl]
  have h: "held s = []" using C(2) by (simp add: upd_log_run)
  obtain s1 where e1: "commit dev ?s = Done () s1" and s1: "binv s1 []" "held s1 = []" "lh_n (lh (logs s1 dev)) = 0"
    "disk_trace s1 = disk_trace ?s @ on_dev dev (the_commit ?s dev)"
    "disk s1 dev = apply_writes (the_commit ?s dev) (disk ?s dev)"
    using commit_run [OF C(1,2) refl C(4,7,3,5)] by blast
  have tc: "the_commit ?s dev = the_commit s dev"
    by (simp add: the_commit_def log_data_def upd_log_run hdr_homes_def Let_def)
  let ?s2 = "upd_log dev (\<lambda>l. l\<lparr>committing := False\<rparr>) (s1\<lparr>held := [LLog (unat dev)]\<rparr>)"
  have "length (procs s1) = NPROC" using s1(1) by (rule binvE)
  then have w: "wakeup ChanLog ?s2 = Done () (?s2\<lparr>procs := map (wake ChanLog) (procs ?s2)\<rparr>)"
    by (intro wakeup_eq) (simp_all add: no_proc_lock_def upd_log_def)
  have "upd_log dev (\<lambda>l. l\<lparr>committing := True\<rparr>) (upd_log dev (\<lambda>l. l\<lparr>outstanding := outstanding l - 1\<rparr>) (s\<lparr>held := [LLog (unat dev)]\<rparr>))
      = ?s\<lparr>held := [LLog (unat dev)]\<rparr>" using one by (simp add: upd_log_def)
  then show ?thesis
    using h one e1 w s1 tc by (simp add: end_op_def Let_def upd_log_run upd_log_def)
qed

lemma commit_ready_counts:
  "commit_ready (upd_log dev (\<lambda>l. l\<lparr>outstanding := a, committing := c\<rparr>) s) dev = commit_ready s dev"
  by (simp add: commit_ready_def log_ready_def upd_log_run hdr_homes_def Let_def)

text \<open>
  C3: when the last outstanding operation ends, \<open>end_op\<close> commits: it returns with an
  empty log and no commit in progress, and outside of the log the disk holds the
  content that the transaction gave to each of its blocks.
\<close>

theorem end_op_commits:
  fixes s :: "'z lmachine_scheme"
  assumes "commit_ready s dev" and "outstanding (logs s dev) = 1" and "\<not> committing (logs s dev)"
  shows "returns (end_op dev s) (\<lambda>_ s'. lh_n (lh (logs s' dev)) = 0 \<and> \<not> committing (logs s' dev) \<and>
    (\<forall>a. a \<notin> log_area (log_start (logs s dev)) \<longrightarrow> disk s' dev a = committed_disk s dev a))"
proof (rule returns_mono [OF end_op_run [unfolded commit_ready_counts, OF assms]])
  fix u s'
  note C = commit_readyD [OF assms(1) refl]
  have "apply_writes (the_commit s dev) (disk s dev) a = committed_disk s dev a" if "a \<notin> log_area (log_start (logs s dev))" for a
    using lg.commit_effect [OF C(9,11)] that committed_disk_writes [of s dev a] C(9)
    by (simp add: the_commit_def Let_def log_area lg.homes_ok_def)
  then show "disk s' dev = apply_writes (the_commit s dev) (disk s dev) \<and>
      disk_trace s' = disk_trace s @ on_dev dev (the_commit s dev) \<and> lh_n (lh (logs s' dev)) = 0 \<and> \<not> committing (logs s' dev) \<Longrightarrow>
    lh_n (lh (logs s' dev)) = 0 \<and> \<not> committing (logs s' dev) \<and>
      (\<forall>a. a \<notin> log_area (log_start (logs s dev)) \<longrightarrow> disk s' dev a = committed_disk s dev a)" by simp
qed

theorem end_op_commits_witness:
  "returns (bindk (example_tx (example_boot zero_disk)) (\<lambda>_. end_op 1)) (\<lambda>_ s'. disk s' 1 32 = replicate BSIZE 7)"
proof -
  have z: "length (zero_disk dv b) = BSIZE" for dv b by (simp add: zero_disk_def)
  obtain s where e: "example_tx (example_boot zero_disk) = Done () s" and s: "binv s []" "held s = []" "disk s = zero_disk"
    "view s = (view (example_boot zero_disk))((1, 32) := replicate BSIZE 7)"
    "rc s = (\<lambda>_. 0)((1, 32) := 1)" "logs s 1 = absorbed 32 example_log"
    by (rule example_tx_run [of zero_disk, OF z])
  have "returns (end_op 1 s) (\<lambda>_ s'. lh_n (lh (logs s' 1)) = 0 \<and> \<not> committing (logs s' 1) \<and>
    (\<forall>a. a \<notin> log_area (log_start (logs s 1)) \<longrightarrow> disk s' 1 a = committed_disk s 1 a))"
    by (rule end_op_commits [OF example_ready [OF s(1,2,3,5,6)]]) (simp_all add: s example_log_def)
  then show ?thesis unfolding e bindk.simps
    by (rule returns_mono) (simp add: s example_start example_outside committed_disk_def example_homes)
qed

text \<open>The loop of \<open>begin_op\<close>, whatever other processes do while it sleeps.\<close>

lemma begin_op_loop_admits:
  "whenever (begin_op_loop dev envs s) (\<lambda>_ s'. \<not> committing (logs s' dev) \<and>
    lh_n (lh (logs s' dev)) + outstanding (logs s' dev) * MAXOPBLOCKS \<le> LOGSIZE)"
proof (induction dev envs s rule: begin_op_loop.induct)
  case (1 dev envs s)
  show ?case
  proof (cases "committing (logs s dev) \<or> LOGSIZE < lh_n (lh (logs s dev)) + (outstanding (logs s dev) + 1) * MAXOPBLOCKS")
    case True
    then have "begin_op_loop dev envs s = bindk (sleep ChanLog (LLog (unat dev)) envs s) (\<lambda>es s. begin_op_loop dev es s)"
      by (subst begin_op_loop.simps) auto
    moreover have "whenever (begin_op_loop dev es s') (\<lambda>_ s'. \<not> committing (logs s' dev) \<and>
        lh_n (lh (logs s' dev)) + outstanding (logs s' dev) * MAXOPBLOCKS \<le> LOGSIZE)"
      if "sleep ChanLog (LLog (unat dev)) envs s = Done es s'" for es s'
      using 1 that True by blast
    ultimately show ?thesis unfolding whenever_bindk by (simp add: wheneverI)
  next
    case False
    then show ?thesis by (subst begin_op_loop.simps) (auto simp: release_def upd_log_run upd_log_def)
  qed
qed

definition log_room :: "log \<Rightarrow> bool" where
  "log_room l \<longleftrightarrow> \<not> committing l \<and> lh_n (lh l) + (outstanding l + 1) * MAXOPBLOCKS \<le> LOGSIZE"

text \<open>
  C5: admission to the log. \<open>begin_op\<close> returns only when no commit is running and the blocks
  logged so far plus \<open>MAXOPBLOCKS\<close> for every outstanding operation, the new one included, are at
  most \<open>LOGSIZE\<close>, whatever other processes do while it sleeps; when that is so it admits the
  operation at once, and otherwise it goes to sleep on the log. The bound counts one block more
  than the log holds: in a log of \<open>LOGSIZE\<close> blocks \<open>log_write\<close> panics for the last block of a full
  reservation.
\<close>

theorem begin_op_reserves:
  fixes s :: "'z lmachine_scheme"
  shows "whenever (begin_op dev envs s) (\<lambda>_ s'. \<not> committing (logs s' dev) \<and>
    lh_n (lh (logs s' dev)) + outstanding (logs s' dev) * MAXOPBLOCKS \<le> LOGSIZE) \<and>
   (held s = [] \<and> log_room (logs s dev) \<longrightarrow>
    returns (begin_op dev envs s) (\<lambda>_ s'. s' = upd_log dev (\<lambda>l. l\<lparr>outstanding := outstanding l + 1\<rparr>) s)) \<and>
   (held s = [] \<and> \<not> log_room (logs s dev) \<and> cur s = Some p \<and> p < length (procs s) \<longrightarrow> (\<exists>t. begin_op dev [] s = Sleep ChanLog t)) \<and>
   (bdev (bufs s ! b) = dev \<and> log_size (logs s dev) = LOGSIZE \<and> lh_n (lh (logs s dev)) = LOGSIZE - 1 \<longrightarrow>
    log_write b s = Panic ''too big a transaction'' s)"
proof (intro conjI impI)
  show "whenever (begin_op dev envs s) (\<lambda>_ s'. \<not> committing (logs s' dev) \<and>
    lh_n (lh (logs s' dev)) + outstanding (logs s' dev) * MAXOPBLOCKS \<le> LOGSIZE)"
    unfolding begin_op_def whenever_bindk by (intro wheneverI begin_op_loop_admits)
  show "held s = [] \<and> log_room (logs s dev) \<Longrightarrow>
    returns (begin_op dev envs s) (\<lambda>_ s'. s' = upd_log dev (\<lambda>l. l\<lparr>outstanding := outstanding l + 1\<rparr>) s)"
    by (auto simp: log_room_def begin_op_def begin_op_loop.simps upd_log_def)
  show "\<exists>t. begin_op dev [] s = Sleep ChanLog t" if "held s = [] \<and> \<not> log_room (logs s dev) \<and> cur s = Some p \<and> p < length (procs s)"
    using that by (auto simp: log_room_def begin_op_def begin_op_loop.simps sleep_def sched_def myproc_def upd_proc_def release_def)
  show "log_write b s = Panic ''too big a transaction'' s"
    if "bdev (bufs s ! b) = dev \<and> log_size (logs s dev) = LOGSIZE \<and> lh_n (lh (logs s dev)) = LOGSIZE - 1"
    using that by (auto simp: log_write_def)
qed

theorem begin_op_reserves_witness:
  "returns (begin_op 1 [] (example_boot zero_disk)) (\<lambda>_ s'. outstanding (logs s' 1) = 2)"
proof -
  have "returns (begin_op 1 [] (example_boot zero_disk)) (\<lambda>_ s'. s' = upd_log 1 (\<lambda>l. l\<lparr>outstanding := outstanding l + 1\<rparr>) (example_boot zero_disk))"
    using begin_op_reserves [of 1 "[]" "example_boot zero_disk"]
      example_boot_cache(2) [of zero_disk] by (simp add: zero_disk_def example_start log_room_def LOGSIZE_def MAXOPBLOCKS_def)
  then show ?thesis by (rule returns_mono) (simp add: upd_log_run example_start)
qed

end
