(* ===== verification/Pagetable.thy ===== *)
theory Pagetable
  imports Vm
begin

text \<open>
  The three-level page table of \<open>kernel/vm.c\<close> as a finite map.  A table page is
  named by the path of indices that leads to it from the root (\<open>tbl\<close>); the
  invariant \<open>pt_inv\<close> says that different paths lead to different pages.  Below
  it, \<open>walk\<close> is a lookup of the leaf entry of a virtual page (\<open>pte_of\<close>), and
  \<open>mappages\<close> and \<open>uvmunmap\<close> are updates of that map.
\<close>

section \<open>Entries of a table page\<close>

definition slot :: "u64 \<Rightarrow> nat \<Rightarrow> u64" where
  "slot a i = a + 8 * of_nat i"

definition ix :: "nat \<Rightarrow> u64 \<Rightarrow> nat" where
  "ix l va = unat va div 2 ^ (12 + 9 * l) mod 512"

lemma PX_ix: "PX l va = of_nat (ix l va)"
proof -
  have "PXMASK = mask 9" by (simp add: PXMASK_def mask_eq_exp_minus_1)
  then have "PX l va = take_bit 9 (drop_bit (PXSHIFT l) va)"
    by (simp add: PX_def take_bit_eq_mask)
  also have "unat \<dots> = ix l va"
    unfolding unsigned_take_bit_eq unat_drop_bit_eq ix_def PXSHIFT_def PGSHIFT_def
    by (simp add: take_bit_eq_mod drop_bit_eq_div)
  finally show ?thesis by (metis of_nat_unat)
qed

lemma ix_less [simp]: "ix l va < 512"
  by (simp add: ix_def)

lemma slot_PX: "a + 8 * PX l va = slot a (ix l va)"
  by (simp add: slot_def PX_ix)

lemma in_range_slot:
  assumes "page_aligned a" and "i < 512" and "in_range x (slot a i) 8"
  shows "PGROUNDDOWN x = a" and "unat x mod 4096 div 8 = i"
proof -
  have s: "slot a i = a + of_nat (8 * i)" by (simp add: slot_def)
  have "in_range x a 4096"
    using assms by (intro word_in_page [of a "8 * i" x]) (auto simp: s)
  then show pa: "PGROUNDDOWN x = a" using assms(1) by (simp add: in_page_iff)
  have k: "unat (x - slot a i) < 8" using assms(3) by (simp add: in_range_def)
  have "x - a = of_nat (8 * i + unat (x - slot a i))" by (simp add: s algebra_simps)
  moreover have "8 * i + unat (x - slot a i) < 2 ^ 64" using k assms(2) by simp
  ultimately have "unat (x - a) = 8 * i + unat (x - slot a i)"
    by (metis unat_of_nat_u64)
  moreover have "unat (x - a) = unat x mod 4096"
    using pa page_offset [of x] by simp
  ultimately show "unat x mod 4096 div 8 = i" using k by simp
qed

lemma slots_apart:
  assumes "page_aligned a" "page_aligned b" "i < 512" "j < 512"
    and "in_range x (slot a i) 8" "in_range x (slot b j) 8"
  shows "a = b" and "i = j"
  using in_range_slot [OF assms(1,3,5)] in_range_slot [OF assms(2,4,6)] by simp_all

lemma load64_store_slot:
  assumes "page_aligned a" "page_aligned b" "i < 512" "j < 512"
  shows "load64 (store64 m (slot a i) w) (slot b j) =
    (if a = b \<and> i = j then w else load64 m (slot b j))"
proof (cases "a = b \<and> i = j")
  case False
  then have "load64 (store64 m (slot a i) w) (slot b j) = load64 m (slot b j)"
    using slots_apart [OF assms] by (intro load64_cong store64_outside) blast
  then show ?thesis unfolding if_not_P [OF False] .
qed simp

lemma load64_slot_other_page:
  assumes "page_aligned a" "i < 512" and "\<And>x. PGROUNDDOWN x = a \<Longrightarrow> m x = m' x"
  shows "load64 m (slot a i) = load64 m' (slot a i)"
  using in_range_slot(1) [OF assms(1,2)] assms(3) by (intro load64_cong) blast

lemma load64_zero: "(\<And>x. in_range x a 8 \<Longrightarrow> m x = 0) \<Longrightarrow> load64 m a = 0"
proof -
  assume z: "\<And>x. in_range x a 8 \<Longrightarrow> m x = 0"
  have "load64 m a = load64 (\<lambda>x. 0) a" by (rule load64_cong) (simp add: z)
  also have "\<dots> = 0" by (simp add: load64_def load_bytes_def eval_nat_numeral)
  finally show ?thesis .
qed

lemma store_slot_outside:
  "page_aligned a \<Longrightarrow> i < 512 \<Longrightarrow> PGROUNDDOWN x \<noteq> a \<Longrightarrow> store64 m (slot a i) w x = m x"
  using in_range_slot(1) by (intro store64_outside) blast

section \<open>Page-table entries\<close>

lemma PTE_V_1: "PTE_V = 1"
  by (simp add: PTE_V_def)

lemma mod_less_iff: "n mod 1024 = n \<longleftrightarrow> n < (1024 :: nat)"
  using mod_less_divisor [of 1024 n] by (intro iffI) (linarith, simp)

lemma low_flags_iff: "f < 1024 \<longleftrightarrow> take_bit 10 f = (f :: u64)"
proof -
  have "unat (take_bit 10 f) = unat f mod 1024"
    unfolding unsigned_take_bit_eq by (simp add: take_bit_eq_mod)
  then have "take_bit 10 f = f \<longleftrightarrow> unat f mod 1024 = unat f" by (metis unat_eq_iff)
  also have "\<dots> \<longleftrightarrow> unat f < 1024" by (rule mod_less_iff)
  finally show ?thesis by (simp add: word_less_nat_alt)
qed

lemma bit_low_flags: "f < 1024 \<Longrightarrow> 10 \<le> n \<Longrightarrow> \<not> bit (f :: u64) n"
  unfolding low_flags_iff by (metis bit_take_bit_iff not_le)

lemma aligned_bits: "page_aligned a \<Longrightarrow> n < 12 \<Longrightarrow> \<not> bit a n"
proof -
  assume "page_aligned a" "n < 12"
  then have "take_bit 12 a = 0" by (simp add: take_bit_eq_mod page_aligned_def PGSIZE_def)
  then show ?thesis using \<open>n < 12\<close> by (metis bit_take_bit_iff bit_0_eq bot_apply bot_bool_def)
qed

lemma PTE2PA_PA2PTE:
  assumes "page_aligned a" and "f < 1024"
  shows "PTE2PA (PA2PTE a OR f) = a"
proof (rule bit_word_eqI)
  fix n assume "n < LENGTH(64)"
  then show "bit (PTE2PA (PA2PTE a OR f)) n = bit a n"
    using aligned_bits [OF assms(1), of n] bit_low_flags [OF assms(2), of "n - 2"]
    by (cases "n < 12") (auto simp: PTE2PA_def PA2PTE_def bit_simps not_less)
qed

lemma PTE_FLAGS_PA2PTE:
  assumes "f < 1024"
  shows "PTE_FLAGS (PA2PTE a OR f) = f"
proof -
  have m: "(0x3FF :: u64) = mask 10" by (simp add: mask_eq_exp_minus_1)
  have lo: "bit f n \<Longrightarrow> n < 10" for n using bit_low_flags [OF assms, of n] by (metis not_le)
  show ?thesis
    unfolding PTE_FLAGS_def m
    by (intro bit_word_eqI) (auto simp: PA2PTE_def bit_simps dest: lo)
qed

lemma PTE2PA_aligned [simp]: "page_aligned (PTE2PA w)"
proof -
  have "take_bit 12 (PTE2PA w) = 0"
    by (rule bit_word_eqI) (auto simp: PTE2PA_def bit_simps)
  then show ?thesis by (simp add: take_bit_eq_mod page_aligned_def PGSIZE_def)
qed

lemma or_V_nonzero [simp]: "(w OR PTE_V) AND PTE_V \<noteq> 0"
proof -
  have "bit ((w OR PTE_V) AND PTE_V) 0" by (simp add: PTE_V_1 bit_simps)
  then show ?thesis by (metis bit_0_eq bot_apply bot_bool_def)
qed

lemma PA2PTE_dir: "(PA2PTE z OR PTE_V) AND (PTE_R OR PTE_W OR PTE_X) = 0"
proof -
  have k: "PTE_R OR PTE_W OR PTE_X = 14" by (simp add: page_consts)
  have "(PA2PTE z OR PTE_V) AND 14 = PTE_FLAGS (PA2PTE z OR PTE_V) AND 14"
    by (simp add: PTE_FLAGS_def and.assoc)
  then show ?thesis unfolding k using PTE_FLAGS_PA2PTE [of PTE_V z] by (simp add: PTE_V_1)
qed

lemma or_less_1024: "f < 1024 \<Longrightarrow> g < 1024 \<Longrightarrow> f OR g < (1024 :: u64)"
  by (simp add: low_flags_iff)

section \<open>Table pages named by paths\<close>

definition child :: "memory \<Rightarrow> u64 \<Rightarrow> nat \<Rightarrow> u64 option" where
  "child m a i = (let pte = load64 m (slot a i) in
    if pte AND PTE_V \<noteq> 0 then Some (PTE2PA pte) else None)"

primrec tbl :: "memory \<Rightarrow> u64 \<Rightarrow> nat list \<Rightarrow> u64 option" where
  "tbl m a [] = Some a"
| "tbl m a (i # is) = (case child m a i of None \<Rightarrow> None | Some b \<Rightarrow> tbl m b is)"

lemma tbl_snoc:
  "tbl m a (p @ [i]) = (case tbl m a p of None \<Rightarrow> None | Some b \<Rightarrow> child m b i)"
  by (induction p arbitrary: a) (auto split: option.splits)

definition tpath :: "nat list \<Rightarrow> bool" where
  "tpath p \<longleftrightarrow> length p \<le> 2 \<and> set p \<subseteq> {..<512}"

lemma tpath_simps [simp]:
  "tpath []"
  "tpath (p @ [i]) \<longleftrightarrow> tpath p \<and> length p < 2 \<and> i < 512"
  by (auto simp: tpath_def)

definition tables :: "memory \<Rightarrow> u64 \<Rightarrow> u64 set" where
  "tables m pt = {a. \<exists>p. tpath p \<and> tbl m pt p = Some a}"

definition pt_inv :: "memory \<Rightarrow> u64 \<Rightarrow> bool" where
  "pt_inv m pt \<longleftrightarrow> page_aligned pt \<and>
    (\<forall>p q a. tpath p \<longrightarrow> tpath q \<longrightarrow> tbl m pt p = Some a \<longrightarrow> tbl m pt q = Some a \<longrightarrow> p = q) \<and>
    (\<forall>p i a. tpath (p @ [i]) \<longrightarrow> tbl m pt p = Some a \<longrightarrow> load64 m (slot a i) AND PTE_V \<noteq> 0 \<longrightarrow>
      load64 m (slot a i) AND (PTE_R OR PTE_W OR PTE_X) = 0) \<and>
    (\<forall>i. 256 \<le> i \<longrightarrow> i < 512 \<longrightarrow> load64 m (slot pt i) AND PTE_V = 0)"

lemma pt_inv_inj:
  "pt_inv m pt \<Longrightarrow> tpath p \<Longrightarrow> tpath q \<Longrightarrow> tbl m pt p = Some a \<Longrightarrow> tbl m pt q = Some a \<Longrightarrow> p = q"
  unfolding pt_inv_def by blast

lemma tablesI: "tpath p \<Longrightarrow> tbl m pt p = Some a \<Longrightarrow> a \<in> tables m pt"
  unfolding tables_def by blast

lemma tbl_aligned: "pt_inv m pt \<Longrightarrow> tbl m pt p = Some a \<Longrightarrow> page_aligned a"
  by (cases p rule: rev_cases)
    (auto simp: pt_inv_def tbl_snoc child_def Let_def split: option.splits if_splits)

lemma tables_aligned: "pt_inv m pt \<Longrightarrow> a \<in> tables m pt \<Longrightarrow> page_aligned a"
  unfolding tables_def using tbl_aligned by blast

text \<open>The leaf entry of a virtual page, \<open>0\<close> where the table has no leaf page.\<close>

primrec vpath :: "nat \<Rightarrow> u64 \<Rightarrow> nat list" where
  "vpath 0 va = []"
| "vpath (Suc l) va = ix (Suc l) va # vpath l va"

definition pte_of :: "memory \<Rightarrow> u64 \<Rightarrow> u64 \<Rightarrow> u64" where
  "pte_of m pt va = (case tbl m pt (vpath 2 va) of None \<Rightarrow> 0 | Some a \<Rightarrow> load64 m (slot a (ix 0 va)))"

lemma vpath_2: "vpath 2 va = [ix 2 va, ix 1 va]"
  by (simp add: eval_nat_numeral)

lemma tpath_vpath [simp]: "tpath (vpath 2 va)" "length (vpath 2 va) = 2"
  by (simp_all add: vpath_2 tpath_def)

lemma tbl_cong:
  assumes "\<And>q j b. tpath (q @ [j]) \<Longrightarrow> tbl m pt q = Some b \<Longrightarrow> child m' b j = child m b j"
  shows "tpath p \<Longrightarrow> tbl m' pt p = tbl m pt p"
proof (induction p rule: rev_induct)
  case (snoc j q)
  then have "tbl m' pt q = tbl m pt q" by simp
  then show ?case
    using assms [of q j] snoc.prems by (simp add: tbl_snoc split: option.splits)
qed simp

lemma tbl_cong_inv:
  assumes inv: "pt_inv m pt"
    and same: "\<forall>q j b. tpath (q @ [j]) \<longrightarrow> tbl m pt q = Some b \<longrightarrow> load64 m' (slot b j) = load64 m (slot b j)"
  shows "pt_inv m' pt" and "tables m' pt = tables m pt" and "\<forall>p. tpath p \<longrightarrow> tbl m' pt p = tbl m pt p"
proof -
  have t: "tbl m' pt p = tbl m pt p" if "tpath p" for p
    using that
  proof (rule tbl_cong [rotated])
    fix q j b assume "tpath (q @ [j])" "tbl m pt q = Some b"
    then have "load64 m' (slot b j) = load64 m (slot b j)" using same by blast
    then show "child m' b j = child m b j" by (simp add: child_def)
  qed
  then show "tables m' pt = tables m pt" "\<forall>p. tpath p \<longrightarrow> tbl m' pt p = tbl m pt p" by (auto simp: tables_def)
  have "load64 m' (slot a i) AND (PTE_R OR PTE_W OR PTE_X) = 0"
    if "tpath (p @ [i])" "tbl m' pt p = Some a" "load64 m' (slot a i) AND PTE_V \<noteq> 0" for p i a
  proof -
    have a: "tbl m pt p = Some a" using that(1,2) t [of p] by simp
    then have e: "load64 m' (slot a i) = load64 m (slot a i)" using same that(1) by blast
    show ?thesis using that(1,3) a inv unfolding e pt_inv_def by blast
  qed
  moreover have "load64 m' (slot pt i) AND PTE_V = 0" if "256 \<le> i" "i < 512" for i
    using that inv same [rule_format, of "[]" i pt] by (simp add: pt_inv_def tpath_def)
  moreover have "page_aligned pt" using inv by (simp add: pt_inv_def)
  moreover have "p = q" if "tpath p" "tpath q" "tbl m' pt p = Some a" "tbl m' pt q = Some a" for p q a
    using that t pt_inv_inj [OF inv that(1,2)] by simp
  ultimately show "pt_inv m' pt" unfolding pt_inv_def by blast
qed

text \<open>Writes outside the table pages change no translation.\<close>

lemma tables_frame:
  assumes inv: "pt_inv m pt" and same: "\<And>x. PGROUNDDOWN x \<in> tables m pt \<Longrightarrow> m' x = m x"
  shows "pt_inv m' pt" and "tables m' pt = tables m pt" and "pte_of m' pt va = pte_of m pt va"
    and "tpath p \<Longrightarrow> tbl m' pt p = tbl m pt p"
proof -
  have load: "load64 m' (slot b j) = load64 m (slot b j)" if "tpath q" "tbl m pt q = Some b" "j < 512" for q b j
    using that same tablesI [OF that(1,2)] tbl_aligned [OF inv that(2)]
    by (intro load64_slot_other_page) auto
  have "\<forall>q j b. tpath (q @ [j]) \<longrightarrow> tbl m pt q = Some b \<longrightarrow> load64 m' (slot b j) = load64 m (slot b j)"
    by (intro allI impI load) simp_all
  note t' = tbl_cong_inv [OF inv this]
  show "pt_inv m' pt" "tables m' pt = tables m pt" by (rule t')+
  show t: "tbl m' pt p = tbl m pt p" if "tpath p" for p using t'(3) that by simp
  show "pte_of m' pt va = pte_of m pt va"
    using t [of "vpath 2 va"] load [of "vpath 2 va"] by (simp add: pte_of_def split: option.splits)
qed

text \<open>Linking a zeroed page below an empty entry adds one table page and no translation.\<close>

lemma grow_tbl:
  assumes inv: "pt_inv m pt" and p: "tpath (p @ [i])" "tbl m pt p = Some a" "child m a i = None"
    and z: "page_aligned z" "z \<notin> tables m pt"
    and m': "m' = store64 (memset m z 0 (ucast PGSIZE)) (slot a i) (PA2PTE z OR PTE_V)"
  shows "tpath q \<Longrightarrow> tbl m' pt q = (if q = p @ [i] then Some z else tbl m pt q)"
    and "tpath q \<Longrightarrow> tbl m pt q = Some b \<Longrightarrow> j < 512 \<Longrightarrow> \<not> (q = p \<and> j = i) \<Longrightarrow>
      load64 m' (slot b j) = load64 m (slot b j)"
    and "j < 512 \<Longrightarrow> load64 m' (slot z j) = 0"
proof -
  have az: "a \<noteq> z" using z(2) tablesI [of p m pt a] p by auto
  note al = tbl_aligned [OF inv]
  have set0: "load64 (memset m z 0 (ucast PGSIZE)) (slot b j) = load64 m (slot b j)"
    if "page_aligned b" "b \<noteq> z" "j < 512" for b j
    using that z(1) by (intro load64_slot_other_page memset_page_outside) (auto simp: in_page_iff)
  show zero: "load64 m' (slot z j) = 0" if "j < 512" for j
  proof -
    have "load64 m' (slot z j) = load64 (memset m z 0 (ucast PGSIZE)) (slot z j)"
      using that p al [OF p(2)] z(1) az unfolding m' by (subst load64_store_slot) auto
    also have "\<dots> = 0"
    proof (rule load64_zero)
      fix x assume "in_range x (slot z j) 8"
      then have "in_range x z 4096" using in_range_slot(1) [OF z(1) that] z(1) by (simp add: in_page_iff)
      then show "memset m z 0 (ucast PGSIZE) x = 0" by (simp add: memset_eq)
    qed
    finally show ?thesis .
  qed
  show keep: "load64 m' (slot b j) = load64 m (slot b j)"
    if "tpath q" "tbl m pt q = Some b" "j < 512" "\<not> (q = p \<and> j = i)" for q b j
  proof -
    have "b \<noteq> z" using that z(2) tablesI by blast
    moreover have "\<not> (a = b \<and> i = j)" using that p pt_inv_inj [OF inv, of q p b] by auto
    ultimately show ?thesis
      using that p al [OF p(2)] al [OF that(2)] set0 [of b j] unfolding m'
      by (subst load64_store_slot) auto
  qed
  have new: "child m' a i = Some z"
    using z(1) by (simp add: child_def m' PTE2PA_PA2PTE PTE_V_1 [symmetric])
      (simp add: PTE_V_1 PTE2PA_PA2PTE)
  have dead: "tbl m pt (p @ [i]) = None" using p by (simp add: tbl_snoc)
  show "tbl m' pt q = (if q = p @ [i] then Some z else tbl m pt q)" if "tpath q" for q
    using that
  proof (induction q rule: rev_induct)
    case (snoc j q)
    then have IH: "tbl m' pt q = (if q = p @ [i] then Some z else tbl m pt q)" and q: "tpath q" "j < 512"
      by simp_all
    consider "q = p @ [i]" | "q = p" "j = i" | "q \<noteq> p @ [i]" "\<not> (q = p \<and> j = i)" by blast
    then show ?case
    proof cases
      case 1
      have "tbl m pt (q @ [j]) = None" unfolding tbl_snoc [of m pt q] unfolding 1 dead by simp
      moreover have "tbl m' pt q = Some z" "q @ [j] \<noteq> p @ [i]" using IH 1 by simp_all
      ultimately show ?thesis using zero [OF q(2)] by (simp add: tbl_snoc [of m' pt q] child_def)
    next
      case 2
      then show ?thesis using IH p new by (simp add: tbl_snoc)
    next
      case 3
      then show ?thesis using IH keep [OF q(1) _ q(2)] by (auto simp: tbl_snoc child_def split: option.splits)
    qed
  qed simp
qed

lemma grow_inv:
  assumes inv: "pt_inv m pt" and p: "tpath (p @ [i])" "tbl m pt p = Some a" "child m a i = None"
    and z: "page_aligned z" "z \<notin> tables m pt" and low: "p = [] \<longrightarrow> i < 256"
    and m': "m' = store64 (memset m z 0 (ucast PGSIZE)) (slot a i) (PA2PTE z OR PTE_V)"
  shows "pt_inv m' pt" and "tables m' pt = insert z (tables m pt)" and "pte_of m' pt va = pte_of m pt va"
    and "tbl m' pt (p @ [i]) = Some z" and "child m' z j = None \<or> 512 \<le> j"
proof -
  note g = grow_tbl [OF inv p z m']
  have top: "load64 m' (slot pt j) AND PTE_V = 0" if "256 \<le> j" "j < 512" for j
  proof -
    have "\<not> ([] = p \<and> j = i)" using that low by auto
    then have "load64 m' (slot pt j) = load64 m (slot pt j)" using that g(2) [of "[]" pt j] by simp
    then show ?thesis using that inv by (simp add: pt_inv_def)
  qed
  have nz: "tbl m pt q \<noteq> Some z" if "tpath q" for q using z(2) tablesI that by blast
  have dead: "tbl m pt (p @ [i]) = None" using p by (simp add: tbl_snoc)
  have dir: "load64 m' (slot b j) AND (PTE_R OR PTE_W OR PTE_X) = 0"
    if b: "tpath (q @ [j])" "tbl m' pt q = Some b" "load64 m' (slot b j) AND PTE_V \<noteq> 0" for q j b
  proof (cases "q = p \<and> j = i")
    case True
    then have "b = a" using b p dead by (simp add: g(1))
    then show ?thesis using True by (simp add: m' PA2PTE_dir)
  next
    case False
    then show ?thesis
      using b g(1) [of q] g(2) [of q b j] g(3) [of j] inv unfolding pt_inv_def by (auto split: if_splits)
  qed
  have inj: "q = r" if "tpath q" "tpath r" "tbl m' pt q = Some b" "tbl m' pt r = Some b" for q r b
    using that nz pt_inv_inj [OF inv that(1,2)] by (auto simp: g(1) split: if_splits)
  have "page_aligned pt" using inv by (simp add: pt_inv_def)
  then show "pt_inv m' pt" unfolding pt_inv_def using inj dir top by blast
  show new: "tbl m' pt (p @ [i]) = Some z" using p(1) by (simp add: g(1))
  have "x \<in> tables m' pt" if x: "x \<in> tables m pt" for x
  proof -
    obtain q where q: "tpath q" "tbl m pt q = Some x" using x unfolding tables_def by blast
    then have "tbl m' pt q = Some x" using dead by (auto simp: g(1))
    then show ?thesis by (rule tablesI [OF q(1)])
  qed
  then show "tables m' pt = insert z (tables m pt)"
    using tablesI [OF p(1) new] by (auto simp: tables_def g(1) split: if_splits)
  show "child m' z j = None \<or> 512 \<le> j" using g(3) [of j] by (auto simp: child_def)
  show "pte_of m' pt va = pte_of m pt va"
  proof (cases "vpath 2 va = p @ [i]")
    case True
    then show ?thesis using dead p(1) by (simp add: pte_of_def g)
  next
    case False
    have "\<not> (vpath 2 va = p \<and> ix 0 va = i)" using p(1) by auto
    then show ?thesis
      using False g(2) [of "vpath 2 va"] by (auto simp: pte_of_def g(1) split: option.splits)
  qed
qed

section \<open>Leaf entries\<close>

lemma unat_MAXVA: "va < MAXVA \<longleftrightarrow> unat va < 2 ^ 38"
  by (simp add: MAXVA_def word_less_nat_alt)

lemma digits_512: "n = n div 512 div 512 * (512 * 512) + n div 512 mod 512 * 512 + n mod (512 :: nat)"
proof -
  have "n div 512 = n div 512 div 512 * 512 + n div 512 mod 512" "n = n div 512 * 512 + n mod 512"
    by (simp_all only: div_mult_mod_eq)
  then show ?thesis by linarith
qed

lemma ix_digits:
  "ix 0 v = unat v div 4096 mod 512"
  "ix 1 v = unat v div 4096 div 512 mod 512"
  "ix 2 v = unat v div 4096 div 512 div 512 mod 512"
  by (simp_all add: ix_def flip: div_mult2_eq)

lemma same_vpage:
  assumes "va < MAXVA" "vb < MAXVA"
  shows "vpath 2 va = vpath 2 vb \<and> ix 0 va = ix 0 vb \<longleftrightarrow> PGROUNDDOWN va = PGROUNDDOWN vb"
proof -
  let ?n = "\<lambda>v. unat v div 4096"
  have top: "?n v div 512 div 512 < 512" if "v < MAXVA" for v :: u64
    using that by (simp add: unat_MAXVA flip: div_mult2_eq)
  have "PGROUNDDOWN va = PGROUNDDOWN vb \<longleftrightarrow> ?n va = ?n vb"
    unfolding unat_eq_iff [symmetric] unat_PGROUNDDOWN by (simp add: minus_mod_eq_mult_div)
  also have "\<dots> \<longleftrightarrow> ix 2 va = ix 2 vb \<and> ix 1 va = ix 1 vb \<and> ix 0 va = ix 0 vb"
    unfolding ix_digits using digits_512 [of "?n va"] digits_512 [of "?n vb"] top [OF assms(1)] top [OF assms(2)]
    by (metis mod_less)
  finally show ?thesis by (auto simp: vpath_2)
qed

lemma set_leaf:
  assumes inv: "pt_inv m pt" and a: "tbl m pt (vpath 2 va) = Some a" and va: "va < MAXVA"
    and m': "m' = store64 m (slot a (ix 0 va)) w"
  shows "pt_inv m' pt" and "tables m' pt = tables m pt"
    and "vb < MAXVA \<Longrightarrow> pte_of m' pt vb = (if PGROUNDDOWN vb = PGROUNDDOWN va then w else pte_of m pt vb)"
    and "tpath p \<Longrightarrow> tbl m' pt p = tbl m pt p"
proof -
  note al = tbl_aligned [OF inv]
  have load: "load64 m' (slot b j) =
      (if q = vpath 2 va \<and> j = ix 0 va then w else load64 m (slot b j))"
    if "tpath q" "tbl m pt q = Some b" "j < 512" for q b j
  proof -
    have "a = b \<and> ix 0 va = j \<longleftrightarrow> q = vpath 2 va \<and> j = ix 0 va"
      using that(2) a pt_inv_inj [OF inv that(1) tpath_vpath(1) that(2), of va] by auto
    then show ?thesis
      unfolding m' load64_store_slot [OF al [OF a] al [OF that(2)] ix_less that(3)] by simp
  qed
  have "load64 m' (slot b j) = load64 m (slot b j)" if "tpath (q @ [j])" "tbl m pt q = Some b" for q j b
    using that load [of q b j] by auto
  then have "\<forall>q j b. tpath (q @ [j]) \<longrightarrow> tbl m pt q = Some b \<longrightarrow> load64 m' (slot b j) = load64 m (slot b j)"
    by blast
  note t' = tbl_cong_inv [OF inv this]
  show "pt_inv m' pt" "tables m' pt = tables m pt" by (rule t')+
  show t: "tbl m' pt p = tbl m pt p" if "tpath p" for p using t'(3) that by simp
  assume vb: "vb < MAXVA"
  show "pte_of m' pt vb = (if PGROUNDDOWN vb = PGROUNDDOWN va then w else pte_of m pt vb)"
  proof (cases "tbl m pt (vpath 2 vb)")
    case None
    then have "vpath 2 vb \<noteq> vpath 2 va" using a by auto
    then have "PGROUNDDOWN vb \<noteq> PGROUNDDOWN va" using same_vpage [OF vb va] by blast
    then show ?thesis using None t [of "vpath 2 vb"] by (simp add: pte_of_def)
  next
    case (Some b)
    then show ?thesis
      unfolding same_vpage [OF vb va, symmetric]
      using t [of "vpath 2 vb"] load [of "vpath 2 vb" b "ix 0 vb"] by (simp add: pte_of_def)
  qed
qed

section \<open>Walking\<close>

text \<open>The page table is well formed and its pages are allocated ones.\<close>

definition vm_ok :: "'z kmachine_scheme \<Rightarrow> u64 \<Rightarrow> u64 list \<Rightarrow> bool" where
  "vm_ok s pt xs \<longleftrightarrow> kmem_inv s xs \<and> pt_inv (mem s) pt \<and>
    (\<forall>a\<in>tables (mem s) pt. valid_page s a \<and> a \<notin> set xs)"

text \<open>
  The table may have grown by pages of the free list; nothing else happened, and
  no translation changed.
\<close>

definition grown :: "'z kmachine_scheme \<Rightarrow> u64 \<Rightarrow> u64 list \<Rightarrow> 'z kmachine_scheme \<Rightarrow> u64 list \<Rightarrow> bool" where
  "grown s pt xs s' ys \<longleftrightarrow> kframe s s' \<and> vm_ok s' pt ys \<and>
    (\<exists>zs. xs = zs @ ys \<and> tables (mem s') pt = tables (mem s) pt \<union> set zs) \<and>
    (\<forall>vb. pte_of (mem s') pt vb = pte_of (mem s) pt vb) \<and>
    (\<forall>x. PGROUNDDOWN x \<notin> tables (mem s') pt \<longrightarrow> mem s' x = mem s x)"

lemma grown_refl: "vm_ok s pt xs \<Longrightarrow> grown s pt xs s xs"
  by (simp add: grown_def)

lemma grown_trans:
  assumes "grown s pt xs s' ys" and "grown s' pt ys s'' zs"
  shows "grown s pt xs s'' zs"
proof -
  obtain us vs where t: "xs = us @ ys" "tables (mem s') pt = tables (mem s) pt \<union> set us"
      "ys = vs @ zs" "tables (mem s'') pt = tables (mem s') pt \<union> set vs"
    using assms unfolding grown_def by blast
  then have "xs = (us @ vs) @ zs \<and> tables (mem s'') pt = tables (mem s) pt \<union> set (us @ vs)" by auto
  then have "\<exists>ws. xs = ws @ zs \<and> tables (mem s'') pt = tables (mem s) pt \<union> set ws" by blast
  moreover have "kframe s s''" using assms kframe_trans unfolding grown_def by blast
  ultimately show ?thesis using assms t unfolding grown_def by auto
qed

lemma walk_loop_find:
  "walk_loop l a va False s =
    Done (case tbl (mem s) a (vpath l va) of None \<Rightarrow> 0 | Some b \<Rightarrow> slot b (ix 0 va)) s"
  by (induction l arbitrary: a) (simp_all add: slot_PX child_def Let_def split: option.splits)

lemma walk_find:
  "va < MAXVA \<Longrightarrow> walk pt va False s =
    Done (case tbl (mem s) pt (vpath 2 va) of None \<Rightarrow> 0 | Some b \<Rightarrow> slot b (ix 0 va)) s"
  unfolding walk_def by (subst walk_loop_find) (simp add: not_le)

lemma valid_slot_nonzero: "kmem_inv s xs \<Longrightarrow> valid_page s b \<Longrightarrow> i < 512 \<Longrightarrow> slot b i \<noteq> 0"
proof -
  assume k: "kmem_inv s xs" "valid_page s b" "i < 512"
  then have "0 < unat b" "unat b < unat PHYSTOP"
    using valid_page_nonzero [OF k(1,2)] by (simp_all add: valid_page_def word_less_nat_alt unat_gt_0)
  then have "0 < unat (slot b i)"
    using k(3) by (simp add: slot_def unat_word_ariths unat_of_nat_u64)
  then show ?thesis by auto
qed

text \<open>The allocator is not affected by writes to pages it does not own.\<close>

lemma kmem_inv_frame:
  assumes "kmem_inv s xs" and "\<And>x. PGROUNDDOWN x \<in> set xs \<Longrightarrow> m x = mem s x"
  shows "kmem_inv (s\<lparr>mem := m\<rparr>) xs"
proof -
  have "load64 m p = load64 (mem s) p" if "p \<in> set xs" for p
  proof (rule load64_cong)
    have al: "page_aligned p" using assms(1) that by (auto simp: kmem_inv_def valid_page_def)
    fix x assume "in_range x p 8"
    then have "PGROUNDDOWN x = p" using al in_range_mono [of x p 8 4096] by (simp add: in_page_iff)
    then show "m x = mem s x" using that assms(2) by simp
  qed
  then show ?thesis
    using assms(1) free_chain_cong [of xs m "mem s"] by (auto simp: kmem_inv_def valid_page_def)
qed

lemma vm_ok_parts:
  assumes "vm_ok s pt xs"
  shows "kmem_inv s xs" and "pt_inv (mem s) pt" and "a \<in> tables (mem s) pt \<Longrightarrow> valid_page s a"
    and "a \<in> tables (mem s) pt \<Longrightarrow> a \<notin> set xs" and "p \<in> set xs \<Longrightarrow> page_aligned p"
    and "p \<in> set xs \<Longrightarrow> p \<notin> tables (mem s) pt" and "distinct xs"
  using assms by (auto simp: vm_ok_def kmem_inv_def valid_page_def)

lemma valid_page_mem [simp]: "valid_page (s\<lparr>mem := m\<rparr>) = valid_page s"
  by (simp add: valid_page_def fun_eq_iff)

text \<open>Writes outside the tables and the free pages keep everything.\<close>

lemma vm_ok_frame:
  assumes ok: "vm_ok s pt xs"
    and same: "\<And>x. PGROUNDDOWN x \<in> tables (mem s) pt \<union> set xs \<Longrightarrow> m x = mem s x"
  shows "vm_ok (s\<lparr>mem := m\<rparr>) pt xs"
  using vm_ok_parts(3,4) [OF ok] tables_frame(1,2) [OF vm_ok_parts(2) [OF ok], of m] same
    kmem_inv_frame [OF vm_ok_parts(1) [OF ok], of m]
  by (simp add: vm_ok_def)

text \<open>The bytes of the pages \<open>W\<close> were written, and no table page was among them.\<close>

definition kept :: "'z kmachine_scheme \<Rightarrow> u64 \<Rightarrow> u64 set \<Rightarrow> 'z kmachine_scheme \<Rightarrow> bool" where
  "kept s pt W s' \<longleftrightarrow> kframe s s' \<and> (\<forall>x. PGROUNDDOWN x \<notin> W \<longrightarrow> mem s' x = mem s x) \<and>
    (\<forall>p. tpath p \<longrightarrow> tbl (mem s') pt p = tbl (mem s) pt p) \<and>
    (\<forall>vb. pte_of (mem s') pt vb = pte_of (mem s) pt vb)"

lemma keptD:
  assumes "kept s pt W s'"
  shows "kframe s s'" and "PGROUNDDOWN x \<notin> W \<Longrightarrow> mem s' x = mem s x"
    and "tpath p \<Longrightarrow> tbl (mem s') pt p = tbl (mem s) pt p"
    and "pte_of (mem s') pt vb = pte_of (mem s) pt vb"
    and "tables (mem s') pt = tables (mem s) pt" and "valid_page s' = valid_page s"
  using assms kframe_simps(4) [of s s'] by (auto simp: kept_def tables_def)

lemma keptI:
  assumes "pt_inv (mem s) pt" and "kframe s s'" and "W \<inter> tables (mem s) pt = {}"
    and "\<And>x. PGROUNDDOWN x \<notin> W \<Longrightarrow> mem s' x = mem s x"
  shows "kept s pt W s'" and "pt_inv (mem s') pt"
proof -
  have same: "mem s' x = mem s x" if "PGROUNDDOWN x \<in> tables (mem s) pt" for x
    using that assms(3,4) by (metis disjoint_iff)
  note t = tables_frame [OF assms(1) same]
  show "kept s pt W s'" unfolding kept_def by (intro conjI allI impI assms t)
  show "pt_inv (mem s') pt" by (rule t)
qed

lemma kept_trans: "kept s pt W s' \<Longrightarrow> kept s' pt W' s'' \<Longrightarrow> kept s pt (W \<union> W') s''"
  unfolding kept_def using kframe_trans by auto

lemma kalloc_vm:
  assumes ok: "vm_ok s pt (z # xs)"
  obtains s' where "kalloc s = Done z s'" and "kept s pt {z} s'" and "vm_ok s' pt xs"
    and "z \<noteq> 0" and "valid_page s z" and "z \<notin> tables (mem s) pt" and "z \<notin> set xs"
proof -
  note p = vm_ok_parts [OF ok]
  have z: "page_aligned z" "z \<notin> tables (mem s) pt" "z \<notin> set xs"
    using p(5) [of z] p(6) [of z] p(7) by simp_all
  have v: "valid_page s z" using p(1) by (simp add: kmem_inv_def)
  obtain s' where s': "kalloc s = Done z s'" "kmem_inv s' xs" "kframe s s'"
      and m: "\<And>x. \<not> in_range x z 4096 \<Longrightarrow> mem s' x = mem s x"
    using kalloc_spec [OF p(1)] by (auto elim!: returnsE)
  have out: "mem s' x = mem s x" if "PGROUNDDOWN x \<notin> {z}" for x
    using that z(1) by (intro m) (simp add: in_page_iff)
  have "{z} \<inter> tables (mem s) pt = {}" using z(2) by simp
  note k = keptI [OF p(2) s'(3) this out]
  have "vm_ok s' pt xs"
    using s'(2) k(2) p(3,4) keptD(5,6) [OF k(1)] by (simp add: vm_ok_def)
  from that [OF s'(1) k(1) this valid_page_nonzero [OF p(1) v] v z(2,3)] show thesis .
qed

lemma link_page:
  assumes ok: "vm_ok s pt (z # xs)" and p: "tpath (p @ [i])" "tbl (mem s) pt p = Some a" "child (mem s) a i = None"
    and low: "p = [] \<longrightarrow> i < 256"
  obtains s' where "kalloc s = Done z s'" and "z \<noteq> 0"
    and "grown s pt (z # xs) (s'\<lparr>mem := store64 (memset (mem s') z 0 (ucast PGSIZE)) (slot a i) (PA2PTE z OR PTE_V)\<rparr>) xs"
    and "tbl (store64 (memset (mem s') z 0 (ucast PGSIZE)) (slot a i) (PA2PTE z OR PTE_V)) pt (p @ [i]) = Some z"
proof -
  obtain s' where s': "kalloc s = Done z s'" "kept s pt {z} s'" "vm_ok s' pt xs"
    and z: "z \<noteq> 0" "valid_page s z" "z \<notin> tables (mem s) pt" "z \<notin> set xs"
    by (rule kalloc_vm [OF ok])
  note q = vm_ok_parts [OF s'(3)] and t = keptD [OF s'(2)]
  have zal: "page_aligned z" using z(2) by (simp add: valid_page_def)
  let ?m = "store64 (memset (mem s') z 0 (ucast PGSIZE)) (slot a i) (PA2PTE z OR PTE_V)"
  have a: "tbl (mem s') pt p = Some a" "a \<in> tables (mem s) pt"
    using p t(3) [of p] tablesI [of p "mem s" pt a] by simp_all
  have al: "page_aligned a" by (rule tbl_aligned [OF q(2) a(1)])
  have "tbl (mem s') pt (p @ [i]) = None" using p t(3) [OF p(1)] by (simp add: tbl_snoc)
  then have c: "child (mem s') a i = None" using a by (simp add: tbl_snoc)
  have z': "z \<notin> tables (mem s') pt" using z(3) t(5) by simp
  note g = grow_inv [OF q(2) p(1) a(1) c zal z' low refl]
  have fr: "?m x = mem s' x" if "PGROUNDDOWN x \<noteq> z" "PGROUNDDOWN x \<noteq> a" for x
    using that p(1) al zal by (simp add: store_slot_outside memset_page_outside in_page_iff)
  have "?m x = mem s' x" if "PGROUNDDOWN x \<in> set xs" for x
    using that q(4) [of a] z(4) a(2) t(5) by (intro fr) auto
  then have "kmem_inv (s'\<lparr>mem := ?m\<rparr>) xs" by (rule kmem_inv_frame [OF q(1)])
  then have ok': "vm_ok (s'\<lparr>mem := ?m\<rparr>) pt xs"
    using g(1,2) q(3,4) z t(6) by (simp add: vm_ok_def)
  have "kframe s (s'\<lparr>mem := ?m\<rparr>)" using t(1) kframe_mem by (rule kframe_trans)
  moreover have "?m x = mem s x" if "PGROUNDDOWN x \<notin> insert z (tables (mem s) pt)" for x
  proof -
    have "PGROUNDDOWN x \<noteq> z" "PGROUNDDOWN x \<noteq> a" using that a(2) by auto
    then show ?thesis using fr t(2) by simp
  qed
  moreover have "\<exists>zs. z # xs = zs @ xs \<and> insert z (tables (mem s) pt) = tables (mem s) pt \<union> set zs"
    by (intro exI [of _ "[z]"]) auto
  ultimately have "grown s pt (z # xs) (s'\<lparr>mem := ?m\<rparr>) xs"
    using ok' g(2,3) t(4,5) by (simp add: grown_def)
  then show thesis by (rule that [OF s'(1) z(1) _ g(4)])
qed

text \<open>With \<open>l\<close> levels to go the walk takes at most \<open>l\<close> pages, and fails only for want of one.\<close>

definition walk_post :: "'z kmachine_scheme \<Rightarrow> u64 \<Rightarrow> u64 list \<Rightarrow> u64 \<Rightarrow> nat \<Rightarrow> u64 \<Rightarrow> 'z kmachine_scheme \<Rightarrow> bool" where
  "walk_post s pt xs va l r s' \<longleftrightarrow> (\<exists>ys. grown s pt xs s' ys \<and> length xs \<le> length ys + l \<and>
    (if r = 0 then ys = [] \<and> length xs < l
     else \<exists>b. tbl (mem s') pt (vpath 2 va) = Some b \<and> r = slot b (ix 0 va)))"

lemma walk_post_trans:
  assumes "grown s pt (z # ys) s' ys" and "walk_post s' pt ys va l r s''"
  shows "walk_post s pt (z # ys) va (Suc l) r s''"
proof -
  obtain zs where "grown s' pt ys s'' zs" "length ys \<le> length zs + l"
      "if r = 0 then zs = [] \<and> length ys < l
       else \<exists>b. tbl (mem s'') pt (vpath 2 va) = Some b \<and> r = slot b (ix 0 va)"
    using assms(2) unfolding walk_post_def by blast
  then show ?thesis
    unfolding walk_post_def using grown_trans [OF assms(1)] by (intro exI [of _ zs]) (simp split: if_splits)
qed

lemma walk_post_Suc: "walk_post s pt xs va l r s' \<Longrightarrow> walk_post s pt xs va (Suc l) r s'"
  unfolding walk_post_def by (force split: if_splits)

lemma child_cases:
  "load64 m (slot a i) AND PTE_V \<noteq> 0 \<Longrightarrow> child m a i = Some (PTE2PA (load64 m (slot a i)))"
  "load64 m (slot a i) AND PTE_V = 0 \<Longrightarrow> child m a i = None"
  by (simp_all add: child_def)

lemma ix_top: "va < MAXVA \<Longrightarrow> ix 2 va < 256"
  by (simp add: unat_MAXVA ix_def)

lemma vpath_step:
  assumes "p @ vpath (Suc l) va = vpath 2 va"
  shows "tpath (p @ [ix (Suc l) va])" and "(p @ [ix (Suc l) va]) @ vpath l va = vpath 2 va"
    and "va < MAXVA \<Longrightarrow> p = [] \<longrightarrow> ix (Suc l) va < 256"
proof -
  have "ix (Suc l) va = ix 2 va" if "p = []" using assms that by (simp add: vpath_2)
  then show "va < MAXVA \<Longrightarrow> p = [] \<longrightarrow> ix (Suc l) va < 256" using ix_top by simp
  show e: "(p @ [ix (Suc l) va]) @ vpath l va = vpath 2 va" using assms by simp
  then have "length (p @ [ix (Suc l) va]) \<le> 2" "set p \<subseteq> set (vpath 2 va)"
    by (metis length_append le_add1 tpath_vpath(2), metis assms set_append Un_upper1)
  then show "tpath (p @ [ix (Suc l) va])"
    using tpath_vpath(1) [of va] by (auto simp: tpath_def)
qed

lemma walk_loop_alloc:
  assumes "vm_ok s pt xs" and "tbl (mem s) pt p = Some a" and "p @ vpath l va = vpath 2 va" and "va < MAXVA"
  shows "returns (walk_loop l a va True s) (walk_post s pt xs va l)"
  using assms
proof (induction l arbitrary: s xs a p)
  case 0
  then have a: "tbl (mem s) pt (vpath 2 va) = Some a" by simp
  then have "a \<in> tables (mem s) pt" by (rule tablesI [OF tpath_vpath(1)])
  then have "slot a (ix 0 va) \<noteq> 0"
    by (intro valid_slot_nonzero [OF vm_ok_parts(1,3) [OF 0(1)]]) simp_all
  then show ?case
    using a grown_refl [OF 0(1)] by (auto simp: walk_post_def slot_PX)
next
  case (Suc l)
  let ?i = "ix (Suc l) va"
  note v = vpath_step [OF Suc.prems(3)]
  show ?case
  proof (cases "load64 (mem s) (slot a ?i) AND PTE_V = 0")
    case False
    then have "tbl (mem s) pt (p @ [?i]) = Some (PTE2PA (load64 (mem s) (slot a ?i)))"
      using child_cases(1) Suc.prems(2) by (simp add: tbl_snoc)
    from returns_mono [OF Suc.IH [OF Suc.prems(1) this v(2) Suc.prems(4)] walk_post_Suc] False
    show ?thesis by (simp add: slot_PX Let_def)
  next
    case True
    show ?thesis
    proof (cases xs)
      case Nil
      then show ?thesis
        using True Suc.prems(1) grown_refl [OF Suc.prems(1)] vm_ok_parts(1) [OF Suc.prems(1)]
        by (simp add: slot_PX Let_def kalloc_empty walk_post_def)
    next
      case (Cons z ys)
      obtain s' where s': "kalloc s = Done z s'" "z \<noteq> 0"
        and g: "grown s pt (z # ys) (s'\<lparr>mem := store64 (memset (mem s') z 0 (ucast PGSIZE)) (slot a ?i) (PA2PTE z OR PTE_V)\<rparr>) ys"
        and t: "tbl (store64 (memset (mem s') z 0 (ucast PGSIZE)) (slot a ?i) (PA2PTE z OR PTE_V)) pt (p @ [?i]) = Some z"
        using link_page [OF Suc.prems(1) [unfolded Cons] v(1) Suc.prems(2) child_cases(2) [OF True] v(3) [OF Suc.prems(4)]] .
      have "returns (walk_loop l z va True (s'\<lparr>mem := store64 (memset (mem s') z 0 (ucast PGSIZE)) (slot a ?i) (PA2PTE z OR PTE_V)\<rparr>))
          (walk_post (s'\<lparr>mem := store64 (memset (mem s') z 0 (ucast PGSIZE)) (slot a ?i) (PA2PTE z OR PTE_V)\<rparr>) pt ys va l)"
        using g t by (intro Suc.IH [OF _ _ v(2) Suc.prems(4)]) (simp_all add: grown_def)
      then show ?thesis
        using True s' Cons walk_post_trans [OF g] by (auto simp: slot_PX Let_def elim!: returns_mono)
    qed
  qed
qed

lemma walk_alloc:
  "vm_ok s pt xs \<Longrightarrow> va < MAXVA \<Longrightarrow> returns (walk pt va True s) (walk_post s pt xs va 2)"
  unfolding walk_def using walk_loop_alloc [of s pt xs "[]" pt 2 va] by (simp add: not_le)

section \<open>The table as a map from page numbers\<close>

definition VPAGES :: nat where "VPAGES = 2 ^ 26"

definition vaddr :: "nat \<Rightarrow> u64" where "vaddr n = of_nat (4096 * n)"

definition pgno :: "u64 \<Rightarrow> nat" where "pgno va = unat va div 4096"

definition ptmap :: "memory \<Rightarrow> u64 \<Rightarrow> nat \<Rightarrow> u64" where
  "ptmap m pt n = pte_of m pt (vaddr n)"

lemma unat_vaddr: "n \<le> VPAGES \<Longrightarrow> unat (vaddr n) = 4096 * n"
  unfolding vaddr_def VPAGES_def by (rule unat_of_nat_u64) simp

lemma vaddr_MAXVA: "n < VPAGES \<Longrightarrow> vaddr n < MAXVA"
  using unat_vaddr [of n] by (simp add: unat_MAXVA VPAGES_def)

lemma vaddr_Suc: "vaddr n + PGSIZE = vaddr (Suc n)"
  by (simp add: vaddr_def PGSIZE_def)

lemma vaddr_eq_iff: "n \<le> VPAGES \<Longrightarrow> k \<le> VPAGES \<Longrightarrow> vaddr n = vaddr k \<longleftrightarrow> n = k"
  unfolding unat_eq_iff [symmetric] by (simp add: unat_vaddr)

lemma pgno_vaddr [simp]: "n \<le> VPAGES \<Longrightarrow> pgno (vaddr n) = n"
  by (simp add: pgno_def unat_vaddr)

lemma pgno_less: "va < MAXVA \<Longrightarrow> pgno va < VPAGES"
  by (simp add: unat_MAXVA pgno_def VPAGES_def)

lemma PGROUNDDOWN_vaddr: "PGROUNDDOWN va = vaddr (pgno va)"
proof -
  have "unat (PGROUNDDOWN va) = 4096 * pgno va"
    by (simp add: unat_PGROUNDDOWN pgno_def minus_mod_eq_mult_div)
  then show ?thesis unfolding vaddr_def by (metis of_nat_unat)
qed

lemma PGROUNDDOWN_vaddr_id: "n \<le> VPAGES \<Longrightarrow> PGROUNDDOWN (vaddr n) = vaddr n"
  by (simp add: PGROUNDDOWN_vaddr)

lemma vaddr_aligned [simp]: "page_aligned (vaddr n)"
  unfolding page_aligned_iff vaddr_def unat_of_nat take_bit_eq_mod by (rule dvd_mod) simp_all

lemma pte_of_ptmap: "va < MAXVA \<Longrightarrow> pte_of m pt va = ptmap m pt (pgno va)"
proof -
  assume va: "va < MAXVA"
  have "vpath 2 va = vpath 2 (vaddr (pgno va)) \<and> ix 0 va = ix 0 (vaddr (pgno va))"
    using pgno_less [OF va] by (subst same_vpage [OF va vaddr_MAXVA]) (simp_all add: PGROUNDDOWN_vaddr)
  then show ?thesis unfolding ptmap_def pte_of_def by metis
qed

lemma ptmap_store:
  assumes "pt_inv m pt" and "tbl m pt (vpath 2 (vaddr k)) = Some a" and "k < VPAGES" and "n < VPAGES"
  shows "ptmap (store64 m (slot a (ix 0 (vaddr k))) w) pt n = (if n = k then w else ptmap m pt n)"
  unfolding ptmap_def set_leaf(3) [OF assms(1,2) vaddr_MAXVA [OF assms(3)] refl vaddr_MAXVA [OF assms(4)]]
  using assms(3,4) by (simp add: PGROUNDDOWN_vaddr_id vaddr_eq_iff)

text \<open>
  The translations became \<open>M\<close>, with table pages taken from the free list and no
  other byte of memory written.
\<close>

definition remapped :: "'z kmachine_scheme \<Rightarrow> u64 \<Rightarrow> u64 list \<Rightarrow> (nat \<Rightarrow> u64) \<Rightarrow>
    'z kmachine_scheme \<Rightarrow> u64 list \<Rightarrow> bool" where
  "remapped s pt xs M s' ys \<longleftrightarrow> kframe s s' \<and> vm_ok s' pt ys \<and>
    (\<exists>zs. xs = zs @ ys \<and> tables (mem s') pt = tables (mem s) pt \<union> set zs) \<and>
    (\<forall>n<VPAGES. ptmap (mem s') pt n = M n) \<and>
    (\<forall>x. PGROUNDDOWN x \<notin> tables (mem s') pt \<longrightarrow> mem s' x = mem s x)"

lemma grown_remapped: "grown s pt xs s' ys \<Longrightarrow> remapped s pt xs (ptmap (mem s) pt) s' ys"
  by (simp add: grown_def remapped_def ptmap_def)

lemma remapped_trans:
  assumes "remapped s pt xs M s' ys" and "remapped s' pt ys M' s'' zs"
  shows "remapped s pt xs M' s'' zs"
proof -
  obtain us vs where t: "xs = us @ ys" "tables (mem s') pt = tables (mem s) pt \<union> set us"
      "ys = vs @ zs" "tables (mem s'') pt = tables (mem s') pt \<union> set vs"
    using assms unfolding remapped_def by blast
  then have "xs = (us @ vs) @ zs \<and> tables (mem s'') pt = tables (mem s) pt \<union> set (us @ vs)" by auto
  then have "\<exists>ws. xs = ws @ zs \<and> tables (mem s'') pt = tables (mem s) pt \<union> set ws" by blast
  moreover have "kframe s s''" using assms kframe_trans unfolding remapped_def by blast
  ultimately show ?thesis using assms t unfolding remapped_def by auto
qed

lemma remapped_cong: "remapped s pt xs M s' ys \<Longrightarrow> (\<And>n. n < VPAGES \<Longrightarrow> M n = M' n) \<Longrightarrow> remapped s pt xs M' s' ys"
  by (simp add: remapped_def)

text \<open>Writing a leaf entry.\<close>

lemma store_leaf:
  assumes ok: "vm_ok s pt xs" and a: "tbl (mem s) pt (vpath 2 (vaddr k)) = Some a" and k: "k < VPAGES"
  shows "remapped s pt xs ((ptmap (mem s) pt)(k := w))
    (s\<lparr>mem := store64 (mem s) (slot a (ix 0 (vaddr k))) w\<rparr>) xs"
proof -
  note p = vm_ok_parts [OF ok]
  note l = set_leaf [OF p(2) a vaddr_MAXVA [OF k] refl]
  have at: "a \<in> tables (mem s) pt" by (rule tablesI [OF tpath_vpath(1) a])
  have fr: "store64 (mem s) (slot a (ix 0 (vaddr k))) w x = mem s x" if "PGROUNDDOWN x \<noteq> a" for x
    using that tables_aligned [OF p(2) at] by (intro store_slot_outside) simp_all
  have "kmem_inv (s\<lparr>mem := store64 (mem s) (slot a (ix 0 (vaddr k))) w\<rparr>) xs"
    using p(4) [OF at] by (intro kmem_inv_frame [OF p(1)] fr) auto
  then have "vm_ok (s\<lparr>mem := store64 (mem s) (slot a (ix 0 (vaddr k))) w\<rparr>) pt xs"
    using l(1,2) p(3,4) by (simp add: vm_ok_def)
  moreover have "store64 (mem s) (slot a (ix 0 (vaddr k))) w x = mem s x" if "PGROUNDDOWN x \<notin> tables (mem s) pt" for x
    using that at by (intro fr) auto
  ultimately show ?thesis
    using l(2) ptmap_store [OF p(2) a k] by (simp add: remapped_def)
qed

section \<open>mappages\<close>

definition setrange :: "(nat \<Rightarrow> u64) \<Rightarrow> nat \<Rightarrow> nat \<Rightarrow> (nat \<Rightarrow> u64) \<Rightarrow> nat \<Rightarrow> u64" where
  "setrange M p k f = (\<lambda>n. if p \<le> n \<and> n < p + k then f (n - p) else M n)"

lemma setrange_0 [simp]: "setrange M p 0 f = M"
  by (rule ext) (auto simp: setrange_def)

lemma setrange_Suc: "setrange (M(p := f 0)) (Suc p) k (\<lambda>j. f (Suc j)) = setrange M p (Suc k) f"
  by (auto simp: setrange_def fun_eq_iff Suc_diff_le diff_Suc split: nat.splits)

definition map_pte :: "u64 \<Rightarrow> u64 \<Rightarrow> nat \<Rightarrow> u64" where
  "map_pte pa perm j = PA2PTE (pa + vaddr j) OR perm OR PTE_V"

lemma map_pte_simps:
  "map_pte pa perm 0 = PA2PTE pa OR perm OR PTE_V"
  "map_pte (pa + PGSIZE) perm j = map_pte pa perm (Suc j)"
  by (simp_all add: map_pte_def vaddr_def PGSIZE_def algebra_simps)

lemma map_pte_shift: "map_pte (pa + PGSIZE) perm = (\<lambda>j. map_pte pa perm (Suc j))"
  by (rule ext) (rule map_pte_simps)

lemma leaf_load:
  "tbl m pt (vpath 2 (vaddr p)) = Some b \<Longrightarrow> load64 m (slot b (ix 0 (vaddr p))) = ptmap m pt p"
  by (simp add: ptmap_def pte_of_def)

definition map_post :: "'z kmachine_scheme \<Rightarrow> u64 \<Rightarrow> u64 list \<Rightarrow> nat \<Rightarrow> nat \<Rightarrow> (nat \<Rightarrow> u64) \<Rightarrow> int \<Rightarrow>
    'z kmachine_scheme \<Rightarrow> bool" where
  "map_post s pt xs p n f r s' \<longleftrightarrow> (\<exists>k ys.
    remapped s pt xs (setrange (ptmap (mem s) pt) p k f) s' ys \<and>
    (if r = 0 then k = n \<and> length xs \<le> length ys + 2 * n
     else r = -1 \<and> k < n \<and> ys = [] \<and> (k = 0 \<longrightarrow> length xs < 2)))"

lemma map_post_step:
  assumes s1: "remapped s pt xs ((ptmap (mem s) pt)(p := f 0)) s1 ys"
    and post: "map_post s1 pt ys (Suc p) n (\<lambda>j. f (Suc j)) r s'" and le: "p + Suc n \<le> VPAGES"
    and few: "length xs \<le> length ys + 2"
  shows "map_post s pt xs p (Suc n) f r s'"
proof -
  obtain k zs where k: "remapped s1 pt ys (setrange (ptmap (mem s1) pt) (Suc p) k (\<lambda>j. f (Suc j))) s' zs"
      "if r = 0 then k = n \<and> length ys \<le> length zs + 2 * n else r = -1 \<and> k < n \<and> zs = [] \<and> (k = 0 \<longrightarrow> length ys < 2)"
    using post unfolding map_post_def by blast
  have "setrange (ptmap (mem s1) pt) (Suc p) k (\<lambda>j. f (Suc j)) i = setrange (ptmap (mem s) pt) p (Suc k) f i"
    if "i < VPAGES" for i
    using that s1 unfolding setrange_Suc [symmetric] by (simp add: remapped_def setrange_def)
  then have "remapped s pt xs (setrange (ptmap (mem s) pt) p (Suc k) f) s' zs"
    by (rule remapped_cong [OF remapped_trans [OF s1 k(1)]])
  moreover have "if r = 0 then Suc k = Suc n \<and> length xs \<le> length zs + 2 * Suc n else r = -1 \<and> Suc k < Suc n \<and> zs = [] \<and> (Suc k = 0 \<longrightarrow> length xs < 2)"
    using k(2) few by (simp split: if_splits)
  ultimately show ?thesis unfolding map_post_def by blast
qed

text \<open>The entry that \<open>walk\<close> returns, and what writing to it does.\<close>

definition entry_post :: "'z kmachine_scheme \<Rightarrow> u64 \<Rightarrow> u64 list \<Rightarrow> nat \<Rightarrow> u64 \<Rightarrow> 'z kmachine_scheme \<Rightarrow> bool" where
  "entry_post s pt xs p r s1 \<longleftrightarrow>
    (if r = 0 then remapped s pt xs (ptmap (mem s) pt) s1 [] \<and> length xs < 2
     else load64 (mem s1) r = ptmap (mem s) pt p \<and>
       (\<exists>ys. length xs \<le> length ys + 2 \<and> (\<forall>w. remapped s pt xs ((ptmap (mem s) pt)(p := w)) (s1\<lparr>mem := store64 (mem s1) r w\<rparr>) ys)))"

lemma walk_entry:
  assumes ok: "vm_ok s pt xs" and p: "p < VPAGES"
  shows "returns (walk pt (vaddr p) True s) (entry_post s pt xs p)"
proof (rule returns_mono [OF walk_alloc [OF ok vaddr_MAXVA [OF p]]])
  fix r s1 assume "walk_post s pt xs (vaddr p) 2 r s1"
  then obtain ys where g: "grown s pt xs s1 ys" and few: "length xs \<le> length ys + 2" and
      g2: "if r = 0 then ys = [] \<and> length xs < 2 else \<exists>b. tbl (mem s1) pt (vpath 2 (vaddr p)) = Some b \<and> r = slot b (ix 0 (vaddr p))"
    unfolding walk_post_def by blast
  note gr = grown_remapped [OF g(1)]
  show "entry_post s pt xs p r s1"
  proof (cases "r = 0")
    case True
    then show ?thesis using gr g2 by (simp add: entry_post_def)
  next
    case False
    then obtain b where b: "tbl (mem s1) pt (vpath 2 (vaddr p)) = Some b" "r = slot b (ix 0 (vaddr p))"
      using g2 by auto
    have pt1: "ptmap (mem s1) pt i = ptmap (mem s) pt i" if "i < VPAGES" for i
      using gr that by (simp add: remapped_def)
    have ok1: "vm_ok s1 pt ys" using g(1) by (simp add: grown_def)
    have "remapped s pt xs ((ptmap (mem s) pt)(p := w)) (s1\<lparr>mem := store64 (mem s1) r w\<rparr>) ys" for w
      using remapped_cong [OF remapped_trans [OF gr store_leaf [OF ok1 b(1) p, of w]],
          of "(ptmap (mem s) pt)(p := w)"] pt1 by (simp add: b(2))
    then show ?thesis
      using False few leaf_load [OF b(1)] b(2) pt1 [OF p] unfolding entry_post_def by auto
  qed
qed

lemma mappages_loop_run:
  assumes "vm_ok s pt xs" and "p + Suc n \<le> VPAGES" and "n < fuel"
    and "\<And>j. j \<le> n \<Longrightarrow> ptmap (mem s) pt (p + j) AND PTE_V = 0"
  shows "returns (mappages_loop fuel pt (vaddr p) (vaddr (p + n)) pa perm s)
    (map_post s pt xs p (Suc n) (map_pte pa perm))"
  using assms
proof (induction fuel arbitrary: s xs p n pa)
  case 0
  then show ?case by simp
next
  case (Suc fuel)
  have p: "p < VPAGES" using Suc.prems(2) by simp
  obtain r s1 where r: "walk pt (vaddr p) True s = Done r s1" "entry_post s pt xs p r s1"
    using walk_entry [OF Suc.prems(1) p] by (auto elim: returnsE)
  show ?case
  proof (cases "r = 0")
    case True
    then have "map_post s pt xs p (Suc n) (map_pte pa perm) (-1) s1"
      using r(2) unfolding map_post_def entry_post_def by (intro exI [of _ 0] exI [of _ "[]"]) simp
    then show ?thesis using True r(1) by simp
  next
    case False
    let ?s2 = "s1\<lparr>mem := store64 (mem s1) r (PA2PTE pa OR perm OR PTE_V)\<rparr>"
    have v: "load64 (mem s1) r AND PTE_V = 0"
      using r(2) False Suc.prems(4) [of 0] by (simp add: entry_post_def)
    obtain ys where s2: "remapped s pt xs ((ptmap (mem s) pt)(p := map_pte pa perm 0)) ?s2 ys"
        and few: "length xs \<le> length ys + 2"
      using r(2) False unfolding map_pte_simps(1) entry_post_def by auto
    have go: "mappages_loop (Suc fuel) pt (vaddr p) (vaddr (p + n)) pa perm s =
        (if n = 0 then Done 0 ?s2
         else mappages_loop fuel pt (vaddr (Suc p)) (vaddr (p + n)) (pa + PGSIZE) perm ?s2)"
      using r(1) False v Suc.prems(2) by (simp add: Let_def vaddr_Suc vaddr_eq_iff)
    show ?thesis
    proof (cases n)
      case 0
      have "map_post s pt xs p (Suc n) (map_pte pa perm) 0 ?s2"
        using s2 0 few setrange_Suc [of "ptmap (mem s) pt" p "map_pte pa perm" 0] unfolding map_post_def
        by (intro exI [of _ "Suc 0"] exI [of _ ys]) simp
      then show ?thesis unfolding go using 0 by simp
    next
      case (Suc k)
      have "ptmap (mem ?s2) pt (Suc p + j) AND PTE_V = 0" if "j \<le> k" for j
        using s2 that Suc.prems(2) Suc.prems(4) [of "Suc j"] Suc by (simp add: remapped_def)
      then have "returns (mappages_loop fuel pt (vaddr (Suc p)) (vaddr (Suc p + k)) (pa + PGSIZE) perm ?s2)
          (map_post ?s2 pt ys (Suc p) (Suc k) (map_pte (pa + PGSIZE) perm))"
        using s2 Suc.prems(2,3) Suc by (intro Suc.IH) (simp_all add: remapped_def)
      then show ?thesis
        unfolding go using Suc map_post_step [where f = "map_pte pa perm", OF s2 _ Suc.prems(2) few]
        by (simp add: map_pte_shift) (erule returns_mono, simp)
    qed
  qed
qed

text \<open>The whole call, for a range given by its first page and its number of pages.\<close>

lemma mappages_run:
  assumes "vm_ok s pt xs" and "p + n \<le> VPAGES" and "0 < n"
    and "pgno va = p" and "pgno (va + sz - 1) = p + n - 1"
    and "\<And>j. j < n \<Longrightarrow> ptmap (mem s) pt (p + j) AND PTE_V = 0"
  shows "returns (mappages pt va sz pa perm s) (map_post s pt xs p n (map_pte pa perm))"
proof -
  obtain k where k: "n = Suc k" using assms(3) by (cases n) auto
  have e: "PGROUNDDOWN va = vaddr p" "PGROUNDDOWN (va + sz - 1) = vaddr (p + k)"
    using assms(4,5) k by (simp_all add: PGROUNDDOWN_vaddr)
  have "unat (vaddr (p + k) - vaddr p) div 4096 = k"
    using assms(2) k by (simp add: unat_sub word_le_nat_alt unat_vaddr)
  then have "mappages pt va sz pa perm s = mappages_loop (k + 1) pt (vaddr p) (vaddr (p + k)) pa perm s"
    by (simp only: mappages_def e Let_def)
  moreover have "returns (mappages_loop (k + 1) pt (vaddr p) (vaddr (p + k)) pa perm s)
      (map_post s pt xs p (Suc k) (map_pte pa perm))"
    using assms k by (intro mappages_loop_run) auto
  ultimately show ?thesis by (simp add: k)
qed

end
