(* ===== verification/Addrspace.thy ===== *)
theory Addrspace
  imports Pagetable
begin

text \<open>
  User address spaces of \<open>kernel/vm.c\<close>.  An address space of \<open>n\<close> pages maps the
  first \<open>n\<close> virtual pages to distinct allocated physical pages that are neither
  free nor part of the page table (\<open>uvm\<close>).  The lemmas show that \<open>uvmalloc\<close>,
  \<open>uvmdealloc\<close>, \<open>uvmfree\<close> and \<open>uvmcopy\<close> keep that invariant on every path,
  running out of memory included, and what they do to the contents.
\<close>

section \<open>Unmapping\<close>

definition is_leaf :: "u64 \<Rightarrow> bool" where
  "is_leaf w \<longleftrightarrow> w AND PTE_V \<noteq> 0 \<and> PTE_FLAGS w \<noteq> PTE_V"

lemma PTE_V_nonzero [simp]: "PTE_V \<noteq> 0"
  by (simp add: PTE_V_1)

lemma kfree_vm:
  assumes ok: "vm_ok s pt xs" and z: "valid_page s z" "z \<notin> set xs" "z \<notin> tables (mem s) pt"
  obtains s' where "kfree z s = Done () s'" and "kept s pt {z} s'" and "vm_ok s' pt (z # xs)"
proof -
  note p = vm_ok_parts [OF ok]
  have al: "page_aligned z" using z(1) by (simp add: valid_page_def)
  obtain s' where s': "kfree z s = Done () s'" "kmem_inv s' (z # xs)" "kframe s s'"
      and m: "\<And>x. \<not> in_range x z 4096 \<Longrightarrow> mem s' x = mem s x"
    using kfree_spec [OF p(1) z(1,2)] by (auto elim!: returnsE)
  have out: "mem s' x = mem s x" if "PGROUNDDOWN x \<notin> {z}" for x
    using that al by (intro m) (simp add: in_page_iff)
  have "{z} \<inter> tables (mem s) pt = {}" using z(3) by simp
  note k = keptI [OF p(2) s'(3) this out]
  have "vm_ok s' pt (z # xs)"
    using s'(2) k(2) p(3,4) z keptD(5,6) [OF k(1)] by (auto simp: vm_ok_def)
  from that [OF s'(1) k(1) this] show thesis .
qed

text \<open>The translations became \<open>M\<close> and the pages \<open>ps\<close> were returned to the free list.\<close>

definition unmapped :: "'z kmachine_scheme \<Rightarrow> u64 \<Rightarrow> u64 list \<Rightarrow> (nat \<Rightarrow> u64) \<Rightarrow> u64 list \<Rightarrow>
    'z kmachine_scheme \<Rightarrow> bool" where
  "unmapped s pt xs M ps s' \<longleftrightarrow> kframe s s' \<and> vm_ok s' pt (ps @ xs) \<and>
    tables (mem s') pt = tables (mem s) pt \<and> (\<forall>n<VPAGES. ptmap (mem s') pt n = M n) \<and>
    (\<forall>x. PGROUNDDOWN x \<notin> tables (mem s) pt \<union> set ps \<longrightarrow> mem s' x = mem s x)"

lemma unmapped_trans:
  "unmapped s pt xs M ps s' \<Longrightarrow> unmapped s' pt (ps @ xs) M' qs s'' \<Longrightarrow> unmapped s pt xs M' (qs @ ps) s''"
  unfolding unmapped_def using kframe_trans by auto

lemma kept_ptmap: "kept s pt W s' \<Longrightarrow> ptmap (mem s') pt = ptmap (mem s) pt"
  by (rule ext) (simp add: ptmap_def keptD(4))

lemma kept_unmapped:
  "kept s pt (set ps) s' \<Longrightarrow> vm_ok s' pt (ps @ xs) \<Longrightarrow> unmapped s pt xs (ptmap (mem s) pt) ps s'"
  using keptD [of s pt "set ps" s'] by (simp add: unmapped_def ptmap_def)

lemma store_unmapped:
  assumes "vm_ok s pt xs" and "tbl (mem s) pt (vpath 2 (vaddr p)) = Some b" and "p < VPAGES"
  shows "unmapped s pt xs ((ptmap (mem s) pt)(p := w)) [] (s\<lparr>mem := store64 (mem s) (slot b (ix 0 (vaddr p))) w\<rparr>)"
  using store_leaf [OF assms, of w] by (auto simp: remapped_def unmapped_def)

lemma free_page_run:
  assumes ok: "vm_ok s pt xs" and z: "do_free \<Longrightarrow> valid_page s z \<and> z \<notin> set xs \<and> z \<notin> tables (mem s) pt"
  obtains s' where "(if do_free then kfree z s else Done () s) = Done () s'"
    and "kept s pt (set (if do_free then [z] else [])) s'" and "vm_ok s' pt ((if do_free then [z] else []) @ xs)"
proof (cases do_free)
  case True
  then show thesis using kfree_vm [OF ok, of z] z that by fastforce
next
  case False
  have "kept s pt {} s" by (simp add: kept_def)
  then show thesis using False ok that by simp
qed

lemma mapped_table:
  assumes "ptmap m pt p AND PTE_V \<noteq> 0"
  obtains b where "tbl m pt (vpath 2 (vaddr p)) = Some b"
  using assms by (cases "tbl m pt (vpath 2 (vaddr p))") (auto simp: ptmap_def pte_of_def)

lemma unmap_one:
  assumes ok: "vm_ok s pt xs" and p: "p < VPAGES" "is_leaf (ptmap (mem s) pt p)"
    and z: "do_free \<Longrightarrow> valid_page s z \<and> z \<notin> set xs \<and> z \<notin> tables (mem s) pt"
      "z = PTE2PA (ptmap (mem s) pt p)"
  shows "\<exists>s'. uvmunmap_loop (Suc fuel) pt (vaddr p) last' do_free s =
      (if vaddr p = last' then Done () s' else uvmunmap_loop fuel pt (vaddr (Suc p)) last' do_free s') \<and>
    unmapped s pt xs ((ptmap (mem s) pt)(p := 0)) (if do_free then [z] else []) s'"
proof -
  let ?ps = "if do_free then [z] else []"
  have leaf: "ptmap (mem s) pt p AND PTE_V \<noteq> 0" "PTE_FLAGS (ptmap (mem s) pt p) \<noteq> PTE_V"
    using p(2) by (simp_all add: is_leaf_def)
  obtain b where b: "tbl (mem s) pt (vpath 2 (vaddr p)) = Some b" using mapped_table [OF leaf(1)] .
  let ?r = "slot b (ix 0 (vaddr p))"
  have "valid_page s b" by (rule vm_ok_parts(3) [OF ok tablesI [OF tpath_vpath(1) b]])
  then have r: "?r \<noteq> 0" by (rule valid_slot_nonzero [OF vm_ok_parts(1) [OF ok]]) simp
  obtain s1 where s1: "(if do_free then kfree z s else Done () s) = Done () s1"
      "kept s pt (set ?ps) s1" "vm_ok s1 pt (?ps @ xs)"
    using free_page_run [OF ok z(1)] by metis
  have b1: "tbl (mem s1) pt (vpath 2 (vaddr p)) = Some b" using b keptD(3) [OF s1(2)] by simp
  have "unmapped s1 pt (?ps @ xs) ((ptmap (mem s1) pt)(p := 0)) [] (s1\<lparr>mem := store64 (mem s1) ?r 0\<rparr>)"
    using store_unmapped [OF s1(3) b1 p(1), of 0] by simp
  moreover have "unmapped s pt xs (ptmap (mem s) pt) ?ps s1" by (rule kept_unmapped [OF s1(2,3)])
  ultimately have "unmapped s pt xs ((ptmap (mem s1) pt)(p := 0)) ([] @ ?ps) (s1\<lparr>mem := store64 (mem s1) ?r 0\<rparr>)"
    using unmapped_trans by blast
  then have "unmapped s pt xs ((ptmap (mem s) pt)(p := 0)) ?ps (s1\<lparr>mem := store64 (mem s1) ?r 0\<rparr>)"
    unfolding kept_ptmap [OF s1(2)] append_Nil .
  moreover have "uvmunmap_loop (Suc fuel) pt (vaddr p) last' do_free s =
      (if vaddr p = last' then Done () (s1\<lparr>mem := store64 (mem s1) ?r 0\<rparr>)
       else uvmunmap_loop fuel pt (vaddr (Suc p)) last' do_free (s1\<lparr>mem := store64 (mem s1) ?r 0\<rparr>))"
    using leaf r b s1(1) z(2) leaf_load [OF b]
    by (simp add: walk_find [OF vaddr_MAXVA [OF p(1)]] Let_def vaddr_Suc cong: if_cong)
  ultimately show ?thesis by blast
qed

text \<open>The physical pages behind a range of virtual pages.\<close>

definition pgs :: "memory \<Rightarrow> u64 \<Rightarrow> nat \<Rightarrow> nat \<Rightarrow> u64 list" where
  "pgs m pt p n = map (\<lambda>j. PTE2PA (ptmap m pt j)) [p..<p + n]"

lemma pgs_simps [simp]:
  "pgs m pt p 0 = []"
  "pgs m pt p (Suc n) = PTE2PA (ptmap m pt p) # pgs m pt (Suc p) n"
  by (simp_all add: pgs_def upt_rec del: upt_Suc)

lemma length_pgs [simp]: "length (pgs m pt p n) = n"
  by (simp add: pgs_def)

lemma pgs_cong:
  "(\<And>j. p \<le> j \<Longrightarrow> j < p + n \<Longrightarrow> ptmap m pt j = ptmap m' pt' j) \<Longrightarrow> pgs m pt p n = pgs m' pt' p n"
  by (simp add: pgs_def)

lemma in_pgs: "p \<le> j \<Longrightarrow> j < p + n \<Longrightarrow> PTE2PA (ptmap m pt j) \<in> set (pgs m pt p n)"
  by (simp add: pgs_def)

lemma pgs_split: "pgs m pt p (n + k) = pgs m pt p n @ pgs m pt (p + n) k"
  by (induction n arbitrary: p) simp_all

definition freeable :: "'z kmachine_scheme \<Rightarrow> u64 \<Rightarrow> u64 list \<Rightarrow> u64 list \<Rightarrow> bool" where
  "freeable s pt xs ps \<longleftrightarrow> (\<forall>z\<in>set ps. valid_page s z \<and> z \<notin> tables (mem s) pt) \<and> distinct (ps @ xs)"

lemma unmapped_frame:
  assumes "unmapped s pt xs M ps s'"
  shows "valid_page s' = valid_page s" and "tables (mem s') pt = tables (mem s) pt"
    and "vm_ok s' pt (ps @ xs)" and "n < VPAGES \<Longrightarrow> ptmap (mem s') pt n = M n"
  using assms kframe_simps(4) [of s s'] by (auto simp: unmapped_def)

lemma unmapped_cong:
  "unmapped s pt xs M ps s' \<Longrightarrow> (\<And>n. n < VPAGES \<Longrightarrow> M n = M' n) \<Longrightarrow> unmapped s pt xs M' ps s'"
  by (simp add: unmapped_def)

lemma unmapped_step:
  assumes "unmapped s pt xs M ps s1" and "unmapped s1 pt (ps @ xs) M' qs s2"
    and "\<And>n. n < VPAGES \<Longrightarrow> M' n = M'' n" and "qs @ ps = rs"
  shows "unmapped s pt xs M'' rs s2"
  using unmapped_cong [OF unmapped_trans [OF assms(1,2)], of M''] assms(3,4) by simp

lemma uvmunmap_loop_run:
  assumes "vm_ok s pt xs" and "p + Suc n \<le> VPAGES" and "n < fuel"
    and "\<And>j. p \<le> j \<Longrightarrow> j \<le> p + n \<Longrightarrow> is_leaf (ptmap (mem s) pt j)"
    and "do_free \<Longrightarrow> freeable s pt xs (pgs (mem s) pt p (Suc n))"
  shows "returns (uvmunmap_loop fuel pt (vaddr p) (vaddr (p + n)) do_free s)
    (\<lambda>_. unmapped s pt xs (setrange (ptmap (mem s) pt) p (Suc n) (\<lambda>_. 0))
      (if do_free then rev (pgs (mem s) pt p (Suc n)) else []))"
  using assms
proof (induction fuel arbitrary: s xs p n)
  case 0
  then show ?case by simp
next
  case (Suc fuel)
  let ?z = "PTE2PA (ptmap (mem s) pt p)" and ?qs = "pgs (mem s) pt (Suc p) n"
  let ?ps = "if do_free then [?z] else []"
  have p: "p < VPAGES" "is_leaf (ptmap (mem s) pt p)" using Suc.prems(2,4) by auto
  have z: "do_free \<Longrightarrow> valid_page s ?z \<and> ?z \<notin> set xs \<and> ?z \<notin> tables (mem s) pt"
    using Suc.prems(5) by (simp add: freeable_def)
  obtain s1 where go: "uvmunmap_loop (Suc fuel) pt (vaddr p) (vaddr (p + n)) do_free s =
      (if vaddr p = vaddr (p + n) then Done () s1 else uvmunmap_loop fuel pt (vaddr (Suc p)) (vaddr (p + n)) do_free s1)"
    and s1: "unmapped s pt xs ((ptmap (mem s) pt)(p := 0)) ?ps s1"
    using unmap_one [OF Suc.prems(1) p z refl] by blast
  note u = unmapped_frame [OF s1]
  show ?case
  proof (cases n)
    case 0
    have e: "setrange (ptmap (mem s) pt) p (Suc n) (\<lambda>_. 0) = (ptmap (mem s) pt)(p := 0)"
      "(if do_free then rev (pgs (mem s) pt p (Suc n)) else []) = ?ps" "vaddr p = vaddr (p + n)"
      using 0 by (auto simp: setrange_def)
    show ?thesis unfolding go e(1,2) if_P [OF e(3)] returns.simps by (rule s1)
  next
    case (Suc k)
    have same: "pgs (mem s1) pt (Suc p) (Suc k) = ?qs"
      using u(4) Suc.prems(2) Suc by (auto intro: pgs_cong)
    have ran: "returns (uvmunmap_loop fuel pt (vaddr (Suc p)) (vaddr (Suc p + k)) do_free s1)
        (\<lambda>_. unmapped s1 pt (?ps @ xs) (setrange (ptmap (mem s1) pt) (Suc p) (Suc k) (\<lambda>_. 0))
          (if do_free then rev (pgs (mem s1) pt (Suc p) (Suc k)) else []))"
    proof (rule Suc.IH)
      show "do_free \<Longrightarrow> freeable s1 pt (?ps @ xs) (pgs (mem s1) pt (Suc p) (Suc k))"
        using Suc.prems(5) u(1,2) unfolding same by (auto simp: freeable_def)
    qed (use Suc.prems Suc u(3,4) in auto)
    have m: "setrange (ptmap (mem s1) pt) (Suc p) (Suc k) (\<lambda>_. 0) j =
        setrange (ptmap (mem s) pt) p (Suc n) (\<lambda>_. 0) j" if "j < VPAGES" for j
      using u(4) [OF that] Suc by (auto simp: setrange_def)
    have ps: "(if do_free then rev (pgs (mem s1) pt (Suc p) (Suc k)) else []) @ ?ps =
        (if do_free then rev (pgs (mem s) pt p (Suc n)) else [])"
      unfolding same by simp
    have ne: "vaddr p \<noteq> vaddr (p + n)" using Suc Suc.prems(2) by (simp add: vaddr_eq_iff)
    have e: "Suc p + k = p + n" using Suc by simp
    show ?thesis
      unfolding go if_not_P [OF ne] using ran [unfolded e]
      by (rule returns_mono) (rule unmapped_step [OF s1 _ m ps])
  qed
qed

lemma uvmunmap_run:
  assumes "vm_ok s pt xs" and "p + n \<le> VPAGES" and "0 < n" and "pgno va = p" and "pgno (va + sz - 1) = p + n - 1"
    and "\<And>j. p \<le> j \<Longrightarrow> j < p + n \<Longrightarrow> is_leaf (ptmap (mem s) pt j)"
    and "do_free \<Longrightarrow> freeable s pt xs (pgs (mem s) pt p n)"
  shows "returns (uvmunmap pt va sz do_free s)
    (\<lambda>_. unmapped s pt xs (setrange (ptmap (mem s) pt) p n (\<lambda>_. 0))
      (if do_free then rev (pgs (mem s) pt p n) else []))"
proof -
  obtain k where k: "n = Suc k" using assms(3) by (cases n) auto
  have e: "PGROUNDDOWN va = vaddr p" "PGROUNDDOWN (va + sz - 1) = vaddr (p + k)"
    using assms(4,5) k by (simp_all add: PGROUNDDOWN_vaddr)
  have "unat (vaddr (p + k) - vaddr p) div 4096 = k"
    using assms(2) k by (simp add: unat_sub word_le_nat_alt unat_vaddr)
  then have "uvmunmap pt va sz do_free s = uvmunmap_loop (k + 1) pt (vaddr p) (vaddr (p + k)) do_free s"
    by (simp only: uvmunmap_def e Let_def)
  moreover have "returns (uvmunmap_loop (k + 1) pt (vaddr p) (vaddr (p + k)) do_free s)
      (\<lambda>_. unmapped s pt xs (setrange (ptmap (mem s) pt) p (Suc k) (\<lambda>_. 0))
      (if do_free then rev (pgs (mem s) pt p (Suc k)) else []))"
    using assms k by (intro uvmunmap_loop_run) auto
  ultimately show ?thesis by (simp only: k)
qed

section \<open>The invariant of a user address space\<close>

text \<open>The last two virtual pages hold the trampoline and the trap frame.\<close>

definition UPAGES :: nat where "UPAGES = VPAGES - 2"

definition npages :: "u64 \<Rightarrow> nat" where "npages sz = (unat sz + 4095) div 4096"

definition uvm :: "'z kmachine_scheme \<Rightarrow> u64 \<Rightarrow> nat \<Rightarrow> u64 list \<Rightarrow> bool" where
  "uvm s pt n xs \<longleftrightarrow> vm_ok s pt xs \<and> n \<le> UPAGES \<and> (\<forall>j<n. is_leaf (ptmap (mem s) pt j)) \<and>
    (\<forall>j. n \<le> j \<longrightarrow> j < UPAGES \<longrightarrow> ptmap (mem s) pt j AND PTE_V = 0) \<and>
    freeable s pt xs (pgs (mem s) pt 0 n)"

definition upage :: "memory \<Rightarrow> u64 \<Rightarrow> nat \<Rightarrow> u8 list" where
  "upage m pt j = load_bytes m (PTE2PA (ptmap m pt j)) 4096"

text \<open>All pages the address space and the allocator own together.\<close>

definition allpages :: "'z kmachine_scheme \<Rightarrow> u64 \<Rightarrow> nat \<Rightarrow> u64 list \<Rightarrow> u64 set" where
  "allpages s pt n xs = set xs \<union> tables (mem s) pt \<union> set (pgs (mem s) pt 0 n)"

text \<open>Pages outside \<open>W\<close> have the bytes they had.\<close>

definition outside :: "u64 set \<Rightarrow> 'z kmachine_scheme \<Rightarrow> 'z kmachine_scheme \<Rightarrow> bool" where
  "outside W s s' \<longleftrightarrow> (\<forall>x. PGROUNDDOWN x \<notin> W \<longrightarrow> mem s' x = mem s x)"

lemma outside_refl [simp]: "outside W s s"
  by (simp add: outside_def)

lemma outside_trans: "outside W s s' \<Longrightarrow> outside W s' s'' \<Longrightarrow> outside W s s''"
  by (simp add: outside_def)

lemma uvmD:
  assumes "uvm s pt n xs"
  shows "vm_ok s pt xs" and "n \<le> UPAGES" and "j < n \<Longrightarrow> is_leaf (ptmap (mem s) pt j)"
    and "n \<le> j \<Longrightarrow> j < UPAGES \<Longrightarrow> ptmap (mem s) pt j AND PTE_V = 0"
    and "z \<in> set (pgs (mem s) pt 0 n) \<Longrightarrow> valid_page s z"
    and "z \<in> set (pgs (mem s) pt 0 n) \<Longrightarrow> z \<notin> tables (mem s) pt"
    and "distinct (pgs (mem s) pt 0 n)" and "set (pgs (mem s) pt 0 n) \<inter> set xs = {}" and "distinct xs"
  using assms by (auto simp: uvm_def freeable_def)

lemma page_bytes_cong:
  assumes "page_aligned a" and "\<And>x. PGROUNDDOWN x = a \<Longrightarrow> m x = m' x"
  shows "load_bytes m a 4096 = load_bytes m' a 4096"
proof (rule load_bytes_cong)
  fix i :: nat assume "i < 4096"
  then have "in_range (a + of_nat i) a 4096" by (simp add: in_range_def unat_of_nat_u64)
  then show "m (a + of_nat i) = m' (a + of_nat i)"
    using assms by (simp add: in_page_iff)
qed

lemma upage_cong:
  assumes "ptmap m' pt j = ptmap m pt j" and "\<And>x. PGROUNDDOWN x = PTE2PA (ptmap m pt j) \<Longrightarrow> m' x = m x"
  shows "upage m' pt j = upage m pt j"
  unfolding upage_def assms(1) by (rule page_bytes_cong) (simp_all add: assms(2))

lemma valid_pages_finite: "finite {p. valid_page s p}" "card {p. valid_page s p} \<le> 0x88000"
proof -
  have inj: "inj_on pgno {p. valid_page s p}"
    by (rule inj_onI) (metis PGROUNDDOWN_id PGROUNDDOWN_vaddr mem_Collect_eq valid_page_def)
  have sub: "pgno ` {p. valid_page s p} \<subseteq> {..<0x88000}"
    by (auto simp: valid_page_def pgno_def word_less_nat_alt)
  show "finite {p. valid_page s p}" using inj sub by (meson finite_lessThan inj_on_finite)
  show "card {p. valid_page s p} \<le> 0x88000"
    using card_inj_on_le [OF inj sub] by simp
qed

lemma uvm_size: "uvm s pt n xs \<Longrightarrow> n + length xs \<le> 0x88000"
proof -
  assume u: "uvm s pt n xs"
  note d = uvmD [OF u]
  have "n + length xs = card (set (pgs (mem s) pt 0 n) \<union> set xs)"
    using d(7-9) by (simp add: card_Un_disjoint distinct_card)
  also have "\<dots> \<le> card {p. valid_page s p}"
    using d(5) vm_ok_parts(1) [OF d(1)] by (intro card_mono valid_pages_finite) (auto simp: kmem_inv_def)
  also have "\<dots> \<le> 0x88000" by (rule valid_pages_finite)
  finally show ?thesis .
qed

section \<open>Shrinking\<close>

lemma uvm_shrink:
  assumes u: "uvm s pt n xs" and k: "k \<le> n"
    and s': "unmapped s pt xs (setrange (ptmap (mem s) pt) k (n - k) (\<lambda>_. 0)) (rev (pgs (mem s) pt k (n - k))) s'"
  shows "uvm s' pt k (rev (pgs (mem s) pt k (n - k)) @ xs)" (is "uvm s' pt k ?xs")
    and "allpages s' pt k (rev (pgs (mem s) pt k (n - k)) @ xs) = allpages s pt n xs"
    and "j < k \<Longrightarrow> ptmap (mem s') pt j = ptmap (mem s) pt j"
    and "UPAGES \<le> j \<Longrightarrow> j < VPAGES \<Longrightarrow> ptmap (mem s') pt j = ptmap (mem s) pt j"
    and "j < k \<Longrightarrow> upage (mem s') pt j = upage (mem s) pt j"
proof -
  note d = uvmD [OF u] and f = unmapped_frame [OF s']
  have V: "UPAGES \<le> VPAGES" by (simp add: UPAGES_def)
  have split: "pgs (mem s) pt 0 n = pgs (mem s) pt 0 k @ pgs (mem s) pt k (n - k)"
    using pgs_split [of "mem s" pt 0 k "n - k"] k by simp
  show pt': "ptmap (mem s') pt j = ptmap (mem s) pt j" if "j < k" for j
    using that d(2) k V by (simp add: f(4) setrange_def)
  then have same: "pgs (mem s') pt 0 k = pgs (mem s) pt 0 k" by (intro pgs_cong) simp
  show hi: "ptmap (mem s') pt j = ptmap (mem s) pt j" if "UPAGES \<le> j" "j < VPAGES" for j
    using that d(2) k V by (simp add: f(4) setrange_def)
  have "freeable s' pt ?xs (pgs (mem s') pt 0 k)"
    using u unfolding uvm_def freeable_def same split f(1,2) by auto
  moreover have "is_leaf (ptmap (mem s') pt j)" if "j < k" for j using that pt' d(3) k by simp
  moreover have "ptmap (mem s') pt j AND PTE_V = 0" if "k \<le> j" "j < UPAGES" for j
    using that d(4) [of j] V by (simp add: f(4) setrange_def)
  ultimately show "uvm s' pt k ?xs" using f(3) d(2) k by (simp add: uvm_def)
  show "allpages s' pt k ?xs = allpages s pt n xs" unfolding allpages_def same split f(2) by auto
  show "upage (mem s') pt j = upage (mem s) pt j" if j: "j < k"
  proof (rule upage_cong)
    show "ptmap (mem s') pt j = ptmap (mem s) pt j" by (rule pt' [OF j])
    fix x assume x: "PGROUNDDOWN x = PTE2PA (ptmap (mem s) pt j)"
    have in0: "PGROUNDDOWN x \<in> set (pgs (mem s) pt 0 k)" unfolding x using j by (intro in_pgs) simp_all
    then have "PGROUNDDOWN x \<notin> tables (mem s) pt \<union> set (rev (pgs (mem s) pt k (n - k)))"
      using d(6) [of "PGROUNDDOWN x"] d(7) unfolding split by auto
    then show "mem s' x = mem s x" using s' unfolding unmapped_def by blast
  qed
qed

definition shrunk :: "'z kmachine_scheme \<Rightarrow> u64 \<Rightarrow> nat \<Rightarrow> u64 list \<Rightarrow> nat \<Rightarrow> 'z kmachine_scheme \<Rightarrow> bool" where
  "shrunk s pt n xs k s' \<longleftrightarrow>
    unmapped s pt xs (setrange (ptmap (mem s) pt) k (n - k) (\<lambda>_. 0)) (rev (pgs (mem s) pt k (n - k))) s'"

lemma shrunk_refl: "vm_ok s pt xs \<Longrightarrow> n \<le> k \<Longrightarrow> shrunk s pt n xs k s"
  by (simp add: shrunk_def unmapped_def)

lemma PGROUNDUP_npages: "npages sz \<le> VPAGES \<Longrightarrow> PGROUNDUP sz = vaddr (npages sz)"
proof -
  assume n: "npages sz \<le> VPAGES"
  have "unat sz + 4095 < 4096 * (npages sz + 1)" unfolding npages_def by simp
  then have "unat sz + 4095 < 2 ^ 64" using n by (simp add: VPAGES_def)
  then have "unat (PGROUNDUP sz) = 4096 * npages sz"
    by (simp add: unat_PGROUNDUP npages_def minus_mod_eq_mult_div)
  then show ?thesis unfolding vaddr_def by (metis of_nat_unat)
qed

lemma pgno_last: "0 < sz \<Longrightarrow> pgno (sz - 1) = npages sz - 1"
proof -
  assume "0 < sz"
  then have "unat (sz - 1) = unat sz - 1" "0 < unat sz"
    by (simp_all add: unat_minus_one unat_gt_0)
  then show ?thesis unfolding pgno_def npages_def
    using div_add_self2 [of 4096 "unat sz - 1"] by (simp add: add.commute)
qed

lemma npages_mono: "a \<le> b \<Longrightarrow> npages a \<le> npages b"
  by (simp add: npages_def word_le_nat_alt div_le_mono)

lemma uvmdealloc_run:
  assumes u: "uvm s pt (npages oldsz) xs"
  shows "returns (uvmdealloc pt oldsz newsz s) (\<lambda>r s'.
    if oldsz \<le> newsz then r = oldsz \<and> s' = s
    else r = newsz \<and> shrunk s pt (npages oldsz) xs (npages newsz) s')"
proof (cases "oldsz \<le> newsz")
  case True
  then show ?thesis by (simp add: uvmdealloc_def)
next
  case False
  note d = uvmD [OF u]
  let ?n = "npages oldsz" and ?k = "npages newsz"
  have le: "?k \<le> ?n" "?n \<le> VPAGES"
    using False npages_mono [of newsz oldsz] d(2) by (simp_all add: UPAGES_def)
  then have up: "PGROUNDUP newsz = vaddr ?k" "PGROUNDUP oldsz = vaddr ?n"
    by (simp_all add: PGROUNDUP_npages)
  have lt: "vaddr ?k < vaddr ?n \<longleftrightarrow> ?k < ?n"
    using le by (simp add: word_less_nat_alt unat_vaddr)
  show ?thesis
  proof (cases "?k < ?n")
    case True
    have "0 < oldsz" using False by (metis not_le word_coorder.not_eq_extremum word_zero_le)
    moreover have "vaddr ?k + (oldsz - vaddr ?k) = oldsz" by simp
    ultimately have "pgno (vaddr ?k + (oldsz - vaddr ?k) - 1) = ?n - 1" by (simp only: pgno_last)
    moreover have "freeable s pt xs (pgs (mem s) pt ?k (?n - ?k))"
      using u pgs_split [of "mem s" pt 0 ?k "?n - ?k"] True by (auto simp: uvm_def freeable_def)
    ultimately have "returns (uvmunmap pt (vaddr ?k) (oldsz - vaddr ?k) True s)
        (\<lambda>_. unmapped s pt xs (setrange (ptmap (mem s) pt) ?k (?n - ?k) (\<lambda>_. 0))
          (if True then rev (pgs (mem s) pt ?k (?n - ?k)) else []))"
      using d(1,3) le True by (intro uvmunmap_run) simp_all
    then show ?thesis
      using False True by (simp add: uvmdealloc_def up lt Let_def shrunk_def)
  next
    case nlt: False
    then show ?thesis
      using False d(1) by (simp add: uvmdealloc_def up lt Let_def shrunk_refl)
  qed
qed

section \<open>Growing\<close>

text \<open>The first \<open>k\<close> pages, their contents and the two top mappings are as before.\<close>

definition ukeep :: "'z kmachine_scheme \<Rightarrow> u64 \<Rightarrow> nat \<Rightarrow> 'z kmachine_scheme \<Rightarrow> bool" where
  "ukeep s pt k s' \<longleftrightarrow> kframe s s' \<and>
    (\<forall>j<k. ptmap (mem s') pt j = ptmap (mem s) pt j \<and> upage (mem s') pt j = upage (mem s) pt j) \<and>
    (\<forall>j. UPAGES \<le> j \<longrightarrow> j < VPAGES \<longrightarrow> ptmap (mem s') pt j = ptmap (mem s) pt j)"

lemma ukeep_refl [simp]: "ukeep s pt k s"
  by (simp add: ukeep_def)

lemma ukeep_trans: "ukeep s pt k s' \<Longrightarrow> ukeep s' pt k' s'' \<Longrightarrow> k \<le> k' \<Longrightarrow> ukeep s pt k s''"
  unfolding ukeep_def using kframe_trans by auto

lemma ukeep_pgs: "ukeep s pt k s' \<Longrightarrow> pgs (mem s') pt 0 k = pgs (mem s) pt 0 k"
  by (rule pgs_cong) (simp add: ukeep_def)

text \<open>Only pages of the free list and table pages were written.\<close>

definition within :: "'z kmachine_scheme \<Rightarrow> u64 \<Rightarrow> u64 list \<Rightarrow> 'z kmachine_scheme \<Rightarrow> u64 list \<Rightarrow> bool" where
  "within s pt xs s' ys \<longleftrightarrow> kframe s s' \<and> vm_ok s' pt ys \<and>
    set ys \<union> tables (mem s') pt \<subseteq> set xs \<union> tables (mem s) pt \<and>
    (\<forall>x. PGROUNDDOWN x \<notin> set xs \<union> tables (mem s) pt \<longrightarrow> mem s' x = mem s x)"

lemma withinD:
  assumes "within s pt xs s' ys"
  shows "kframe s s'" and "vm_ok s' pt ys" and "z \<in> set ys \<Longrightarrow> z \<in> set xs \<union> tables (mem s) pt"
    and "z \<in> tables (mem s') pt \<Longrightarrow> z \<in> set xs \<union> tables (mem s) pt" and "valid_page s' = valid_page s"
    and "PGROUNDDOWN x \<notin> set xs \<union> tables (mem s) pt \<Longrightarrow> mem s' x = mem s x"
  using assms kframe_simps(4) [of s s'] unfolding within_def by blast+

lemma within_outside: "within s pt xs s' ys \<Longrightarrow> outside (allpages s pt k xs) s s'"
  by (simp add: within_def outside_def allpages_def)

lemma within_ukeep:
  assumes u: "uvm s pt k xs" and w: "within s pt xs s' ys"
    and m: "\<And>j. j < VPAGES \<Longrightarrow> j < k \<or> UPAGES \<le> j \<Longrightarrow> ptmap (mem s') pt j = ptmap (mem s) pt j"
  shows "ukeep s pt k s'"
proof -
  note d = uvmD [OF u]
  have lt: "j < VPAGES" if "j < k" for j using that d(2) by (simp add: UPAGES_def)
  have "upage (mem s') pt j = upage (mem s) pt j" if j: "j < k" for j
  proof (rule upage_cong)
    show "ptmap (mem s') pt j = ptmap (mem s) pt j" using m [OF lt [OF j]] j by simp
    fix x assume x: "PGROUNDDOWN x = PTE2PA (ptmap (mem s) pt j)"
    have "PGROUNDDOWN x \<in> set (pgs (mem s) pt 0 k)" unfolding x using j by (intro in_pgs) simp_all
    then show "mem s' x = mem s x" using d(6,8) by (intro withinD(6) [OF w]) blast
  qed
  then show ?thesis using m lt withinD(1) [OF w] by (simp add: ukeep_def)
qed

lemma uvm_transfer:
  assumes u: "uvm s pt k xs" and w: "within s pt xs s' ys"
    and m: "\<And>j. j < VPAGES \<Longrightarrow> ptmap (mem s') pt j = ptmap (mem s) pt j"
  shows "uvm s' pt k ys" and "ukeep s pt k s'"
proof -
  note d = uvmD [OF u]
  show keep: "ukeep s pt k s'" by (rule within_ukeep [OF u w m])
  have "UPAGES \<le> VPAGES" by (simp add: UPAGES_def)
  moreover have "distinct ys" using vm_ok_parts(7) [OF withinD(2) [OF w]] .
  moreover have "z \<notin> set ys" "z \<notin> tables (mem s') pt" if "z \<in> set (pgs (mem s) pt 0 k)" for z
    using that withinD(3,4) [OF w, of z] d(6,8) by auto
  ultimately show "uvm s' pt k ys"
    using d m withinD(2,5) [OF w] unfolding uvm_def freeable_def ukeep_pgs [OF keep] by auto
qed

lemma uvm_extend:
  assumes u: "uvm s pt k xs" and w: "within s pt xs s' ys" and k: "k < UPAGES"
    and m: "\<And>j. j < VPAGES \<Longrightarrow> ptmap (mem s') pt j = ((ptmap (mem s) pt)(k := e)) j"
    and e: "is_leaf e" and z: "valid_page s (PTE2PA e)" "PTE2PA e \<in> set xs" "PTE2PA e \<notin> set ys"
      "PTE2PA e \<notin> tables (mem s') pt"
  shows "uvm s' pt (Suc k) ys" and "ukeep s pt k s'"
proof -
  note d = uvmD [OF u]
  have V: "UPAGES \<le> VPAGES" by (simp add: UPAGES_def)
  show keep: "ukeep s pt k s'" using k by (intro within_ukeep [OF u w]) (auto simp: m)
  have pg: "pgs (mem s') pt 0 (Suc k) = pgs (mem s) pt 0 k @ [PTE2PA e]"
    using pgs_split [of "mem s'" pt 0 k 1] ukeep_pgs [OF keep] m [of k] k V by simp
  have "distinct ys" using vm_ok_parts(7) [OF withinD(2) [OF w]] .
  moreover have "q \<notin> set ys" "q \<notin> tables (mem s') pt" if "q \<in> set (pgs (mem s) pt 0 k)" for q
    using that withinD(3,4) [OF w, of q] d(6,8) by auto
  ultimately have "freeable s' pt ys (pgs (mem s') pt 0 (Suc k))"
    using d(5,7,8) z withinD(5) [OF w] unfolding freeable_def pg by auto
  moreover have "is_leaf (ptmap (mem s') pt j)" if "j < Suc k" for j
    using that m [of j] k V e d(3) [of j] by auto
  moreover have "ptmap (mem s') pt j AND PTE_V = 0" if "Suc k \<le> j" "j < UPAGES" for j
    using that m [of j] V d(4) [of j] by simp
  ultimately show "uvm s' pt (Suc k) ys"
    using k withinD(2) [OF w] by (simp add: uvm_def)
qed

definition uperm :: u64 where "uperm = PTE_W OR PTE_X OR PTE_R OR PTE_U"

lemma uperm_bits: "uperm OR PTE_V < 1024" "PTE_FLAGS (PA2PTE z OR uperm OR PTE_V) = 31"
proof -
  show l: "uperm OR PTE_V < 1024" by (simp add: uperm_def page_consts)
  have "uperm OR PTE_V = 31" by (simp add: uperm_def page_consts)
  then show "PTE_FLAGS (PA2PTE z OR uperm OR PTE_V) = 31"
    using PTE_FLAGS_PA2PTE [OF l, of z] by (simp add: or.assoc)
qed

lemma user_leaf:
  assumes "page_aligned z"
  shows "PTE2PA (PA2PTE z OR uperm OR PTE_V) = z" and "is_leaf (PA2PTE z OR uperm OR PTE_V)"
  using PTE2PA_PA2PTE [OF assms uperm_bits(1)] uperm_bits(2) [of z] PTE_V_1
  by (simp_all add: is_leaf_def or.assoc [symmetric])

lemma remapped_within:
  assumes "remapped s2 pt xs M s3 ys" and "kept s pt {z} s2" and "z \<notin> tables (mem s) pt"
  shows "within s pt (z # xs) s3 ys"
    and "set ys \<union> tables (mem s3) pt = set xs \<union> tables (mem s) pt"
proof -
  obtain zs where z: "xs = zs @ ys" "tables (mem s3) pt = tables (mem s2) pt \<union> set zs"
    using assms(1) unfolding remapped_def by blast
  note k = keptD [OF assms(2)]
  show e: "set ys \<union> tables (mem s3) pt = set xs \<union> tables (mem s) pt" using z k(5) by auto
  have "mem s3 x = mem s x" if "PGROUNDDOWN x \<notin> set (z # xs) \<union> tables (mem s) pt" for x
    using that assms(1) k(2) [of x] k(5) z unfolding remapped_def by auto
  then show "within s pt (z # xs) s3 ys"
    using assms(1) k(1) e kframe_trans unfolding within_def remapped_def by auto
qed

text \<open>A page is allocated, cleared and mapped at the end of the address space.\<close>

lemma new_page:
  assumes ok: "vm_ok s pt (z # xs)"
  obtains s1 where "kalloc s = Done z s1" and "z \<noteq> 0" and "valid_page s z" and "z \<notin> tables (mem s) pt"
    and "z \<notin> set xs"
    and "\<And>m. (\<And>x. PGROUNDDOWN x \<noteq> z \<Longrightarrow> m x = mem s1 x) \<Longrightarrow>
      kept s pt {z} (s1\<lparr>mem := m\<rparr>) \<and> vm_ok (s1\<lparr>mem := m\<rparr>) pt xs"
proof -
  obtain s1 where s1: "kalloc s = Done z s1" "kept s pt {z} s1" "vm_ok s1 pt xs"
    and z: "z \<noteq> 0" "valid_page s z" "z \<notin> tables (mem s) pt" "z \<notin> set xs"
    by (rule kalloc_vm [OF ok])
  have "kept s pt {z} (s1\<lparr>mem := m\<rparr>) \<and> vm_ok (s1\<lparr>mem := m\<rparr>) pt xs"
    if m: "\<And>x. PGROUNDDOWN x \<noteq> z \<Longrightarrow> m x = mem s1 x" for m
  proof
    have "z \<notin> tables (mem s1) pt" using z(3) keptD(5) [OF s1(2)] by simp
    then show "vm_ok (s1\<lparr>mem := m\<rparr>) pt xs"
      using z(4) by (intro vm_ok_frame [OF s1(3)] m) auto
    have "kept s1 pt {z} (s1\<lparr>mem := m\<rparr>)"
      using m \<open>z \<notin> tables (mem s1) pt\<close>
      by (intro keptI(1) [OF vm_ok_parts(2) [OF s1(3)]]) auto
    then show "kept s pt {z} (s1\<lparr>mem := m\<rparr>)" using kept_trans [OF s1(2)] by fastforce
  qed
  from that [OF s1(1) z this] show thesis by blast
qed

lemma pgno_page_end: "k < VPAGES \<Longrightarrow> pgno (vaddr k + PGSIZE - 1) = k"
proof -
  assume k: "k < VPAGES"
  have "vaddr k + PGSIZE - 1 = of_nat (4096 * k + 4095)" by (simp add: vaddr_def PGSIZE_def)
  moreover have "unat (of_nat (4096 * k + 4095) :: u64) = 4096 * k + 4095"
    using k by (intro unat_of_nat_u64) (simp add: VPAGES_def)
  ultimately have "unat (vaddr k + PGSIZE - 1) = 4096 * k + 4095" by (simp only:)
  then show ?thesis by (simp add: pgno_def)
qed

definition add_post :: "'z kmachine_scheme \<Rightarrow> u64 \<Rightarrow> nat \<Rightarrow> u64 \<Rightarrow> u64 list \<Rightarrow> memory \<Rightarrow> u64 \<Rightarrow> int \<Rightarrow>
    'z kmachine_scheme \<Rightarrow> bool" where
  "add_post s pt k z xs m perm r s3 \<longleftrightarrow>
    (if r = 0 then (\<exists>ys. uvm s3 pt (Suc k) ys \<and> ukeep s pt k s3 \<and>
       allpages s3 pt (Suc k) ys = allpages s pt k (z # xs) \<and> outside (allpages s pt k (z # xs)) s s3 \<and>
       length xs \<le> length ys + 2 \<and>
       ptmap (mem s3) pt k = PA2PTE z OR perm OR PTE_V \<and> upage (mem s3) pt k = load_bytes m z 4096)
     else length xs < 2 \<and> vm_ok s3 pt [] \<and> valid_page s3 z \<and> z \<notin> tables (mem s3) pt \<and>
       (\<forall>s4. kept s3 pt {z} s4 \<longrightarrow> vm_ok s4 pt [z] \<longrightarrow>
         uvm s4 pt k [z] \<and> ukeep s pt k s4 \<and> allpages s4 pt k [z] = allpages s pt k (z # xs) \<and>
         outside (allpages s pt k (z # xs)) s s4))"

lemma remapped_ptmap: "remapped s pt xs M s' ys \<Longrightarrow> j < VPAGES \<Longrightarrow> ptmap (mem s') pt j = M j"
  by (simp add: remapped_def)

lemma add_failed:
  assumes u: "uvm s pt k (z # xs)" and kp: "kept s pt {z} s2" and z: "z \<notin> tables (mem s) pt"
    and re: "remapped s2 pt xs (ptmap (mem s2) pt) s3 []" and zt: "z \<notin> tables (mem s3) pt"
    and s4: "kept s3 pt {z} s4" "vm_ok s4 pt [z]"
  shows "uvm s4 pt k [z] \<and> ukeep s pt k s4 \<and> allpages s4 pt k [z] = allpages s pt k (z # xs) \<and>
    outside (allpages s pt k (z # xs)) s s4"
proof -
  note w = remapped_within [OF re kp z] and q = keptD [OF s4(1)]
  have "mem s4 x = mem s x" if "PGROUNDDOWN x \<notin> set (z # xs) \<union> tables (mem s) pt" for x
    using that q(2) [of x] withinD(6) [OF w(1) that] by auto
  then have w4: "within s pt (z # xs) s4 [z]"
    using s4(2) q(1,5) w kframe_trans [OF withinD(1) [OF w(1)] q(1)] unfolding within_def by auto
  have m: "ptmap (mem s4) pt j = ptmap (mem s) pt j" if "j < VPAGES" for j
    using remapped_ptmap [OF re that] kept_ptmap [OF s4(1)] kept_ptmap [OF kp] by simp
  note t = uvm_transfer [OF u w4 m]
  have "pgs (mem s4) pt 0 k = pgs (mem s) pt 0 k" by (rule ukeep_pgs [OF t(2)])
  then have "allpages s4 pt k [z] = allpages s pt k (z # xs)"
    using w(2) q(5) by (auto simp: allpages_def)
  then show ?thesis using t within_outside [OF w4] by simp
qed

lemma map_new_page:
  assumes u: "uvm s pt k (z # xs)" and k: "k < UPAGES" and kp: "kept s pt {z} s2" and ok: "vm_ok s2 pt xs"
    and z: "valid_page s z" "z \<notin> tables (mem s) pt" "z \<notin> set xs"
    and perm: "perm OR PTE_V < 1024" "perm OR PTE_V \<noteq> PTE_V"
  shows "returns (mappages pt (vaddr k) PGSIZE z perm s2) (add_post s pt k z xs (mem s2) perm)"
proof -
  have kV: "k < VPAGES" using k by (simp add: UPAGES_def)
  have pm: "ptmap (mem s2) pt = ptmap (mem s) pt" by (rule kept_ptmap [OF kp])
  have al: "page_aligned z" using z(1) by (simp add: valid_page_def)
  let ?e = "PA2PTE z OR perm OR PTE_V"
  have e: "PTE2PA ?e = z" "is_leaf ?e"
    using PTE2PA_PA2PTE [OF al perm(1)] PTE_FLAGS_PA2PTE [OF perm(1), of z] perm(2)
    by (simp_all add: is_leaf_def or.assoc [symmetric])
  have "returns (mappages pt (vaddr k) PGSIZE z perm s2) (map_post s2 pt xs k 1 (map_pte z perm))"
    using kV k uvmD(4) [OF u, of k] ok by (intro mappages_run) (simp_all add: pgno_page_end pm)
  then show ?thesis
  proof (rule returns_mono)
    fix r s3 assume "map_post s2 pt xs k 1 (map_pte z perm) r s3"
    then obtain j ys where re: "remapped s2 pt xs (setrange (ptmap (mem s2) pt) k j (map_pte z perm)) s3 ys"
        and j: "if r = 0 then j = 1 \<and> length xs \<le> length ys + 2 * 1 else r = -1 \<and> j < 1 \<and> ys = [] \<and> (j = 0 \<longrightarrow> length xs < 2)"
      unfolding map_post_def by blast
    note w = remapped_within [OF re kp z(2)]
    have zt: "z \<notin> tables (mem s3) pt" "z \<notin> set ys" using w(2) z(2,3) by blast+
    show "add_post s pt k z xs (mem s2) perm r s3"
    proof (cases "r = 0")
      case False
      then have "remapped s2 pt xs (ptmap (mem s2) pt) s3 []" using re j by simp
      then show ?thesis
        using False j add_failed [OF u kp z(2) _ zt(1)] w(1) z(1) zt(1) withinD(2,5) [OF w(1)]
        by (simp add: add_post_def)
    next
      case True
      have m: "ptmap (mem s3) pt i = ((ptmap (mem s) pt)(k := ?e)) i" if "i < VPAGES" for i
        using remapped_ptmap [OF re that] j True pm by (auto simp: setrange_def map_pte_simps)
      have x: "uvm s3 pt (Suc k) ys" "ukeep s pt k s3"
        using uvm_extend [OF u w(1) k m e(2)] e(1) z(1) zt by auto
      have pg: "pgs (mem s3) pt 0 (Suc k) = pgs (mem s) pt 0 k @ [z]"
        using pgs_split [of "mem s3" pt 0 k 1] ukeep_pgs [OF x(2)] m [OF kV] e(1) by simp
      have "allpages s3 pt (Suc k) ys = allpages s pt k (z # xs)"
        using w(2) unfolding allpages_def pg by auto
      moreover have "load_bytes (mem s3) z 4096 = load_bytes (mem s2) z 4096"
        using re zt(1) by (intro page_bytes_cong [OF al]) (simp add: remapped_def)
      ultimately show ?thesis
        using True j x m [OF kV] e(1) within_outside [OF w(1)] unfolding add_post_def upage_def by auto
    qed
  qed
qed

lemma npages_vaddr [simp]: "k \<le> VPAGES \<Longrightarrow> npages (vaddr k) = k"
  by (simp add: npages_def unat_vaddr)

definition uvm_like :: "'z kmachine_scheme \<Rightarrow> u64 \<Rightarrow> nat \<Rightarrow> u64 set \<Rightarrow> nat \<Rightarrow> 'z kmachine_scheme \<Rightarrow> bool" where
  "uvm_like s pt n W k t \<longleftrightarrow> (\<exists>ys. uvm t pt k ys \<and> ukeep s pt n t \<and> allpages t pt k ys = W \<and>
    outside W s t)"

lemma shrunk_uvm_like:
  assumes u: "uvm t pt k ys" and n: "n \<le> k" and s': "shrunk t pt k ys n s'"
  shows "uvm_like t pt n (allpages t pt k ys) n s'"
proof -
  note s = uvm_shrink [OF u n s' [unfolded shrunk_def]]
  have "kframe t s'" using s' by (simp add: shrunk_def unmapped_def)
  then have "ukeep t pt n s'" using s(3-5) by (simp add: ukeep_def)
  moreover have "outside (allpages t pt k ys) t s'"
    using s' pgs_split [of "mem t" pt 0 n "k - n"] n
    by (auto simp: outside_def shrunk_def unmapped_def allpages_def)
  ultimately show ?thesis using s(1,2) unfolding uvm_like_def by blast
qed

lemma uvm_like_trans:
  assumes "ukeep s pt n t" and "outside W s t" and "n \<le> k" and "uvm_like t pt k W k' s'"
  shows "uvm_like s pt n W k' s'"
  using assms ukeep_trans outside_trans unfolding uvm_like_def by blast

lemma dealloc_back:
  assumes u: "uvm t pt k ys" and n: "n \<le> k"
  shows "returns (uvmdealloc pt (vaddr k) (vaddr n) t) (\<lambda>_. uvm_like t pt n (allpages t pt k ys) n)"
proof -
  have k: "k \<le> VPAGES" using uvmD(2) [OF u] by (simp add: UPAGES_def)
  have le: "vaddr k \<le> vaddr n \<longleftrightarrow> k = n" using k n by (auto simp: word_le_nat_alt unat_vaddr)
  have "uvm t pt (npages (vaddr k)) ys" using u k by simp
  from uvmdealloc_run [OF this, of "vaddr n"]
  have "returns (uvmdealloc pt (vaddr k) (vaddr n) t) (\<lambda>r s'. if k = n then s' = t else shrunk t pt k ys n s')"
    by (rule returns_mono) (use le k n in \<open>simp split: if_splits\<close>)
  then show ?thesis
  proof (rule returns_mono)
    fix r s' assume "if k = n then s' = t else shrunk t pt k ys n s'"
    moreover have "shrunk t pt k ys k t" using uvmD(1) [OF u] by (simp add: shrunk_refl)
    ultimately have "shrunk t pt k ys n s'" by (simp split: if_splits)
    then show "uvm_like t pt n (allpages t pt k ys) n s'" by (rule shrunk_uvm_like [OF u n])
  qed
qed

lemma memset_page:
  assumes "page_aligned z"
  shows "PGROUNDDOWN x \<noteq> z \<Longrightarrow> memset m z c (ucast PGSIZE) x = m x"
    and "load_bytes (memset m z c (ucast PGSIZE)) z 4096 = replicate 4096 c"
proof -
  show "PGROUNDDOWN x \<noteq> z \<Longrightarrow> memset m z c (ucast PGSIZE) x = m x"
    using assms by (simp add: memset_page_outside in_page_iff)
  have "memset m z c (ucast PGSIZE) (z + of_nat i) = c" if "i < 4096" for i
    using that by (simp add: memset_eq in_range_def unat_of_nat_u64)
  then show "load_bytes (memset m z c (ucast PGSIZE)) z 4096 = replicate 4096 c"
    by (intro nth_equalityI) simp_all
qed

text \<open>Pages \<open>n\<close> to \<open>k\<close> are fresh: cleared, and accessible to the user in every way.\<close>

definition fresh :: "memory \<Rightarrow> u64 \<Rightarrow> nat \<Rightarrow> nat \<Rightarrow> bool" where
  "fresh m pt n k \<longleftrightarrow> (\<forall>j. n \<le> j \<longrightarrow> j < k \<longrightarrow> upage m pt j = replicate 4096 0 \<and> PTE_FLAGS (ptmap m pt j) = 31)"

lemma fresh_Suc:
  "fresh m pt n k \<Longrightarrow> ukeep s pt k s' \<Longrightarrow> m = mem s \<Longrightarrow> upage (mem s') pt k = replicate 4096 0 \<Longrightarrow>
    PTE_FLAGS (ptmap (mem s') pt k) = 31 \<Longrightarrow> fresh (mem s') pt n (Suc k)"
  by (auto simp: fresh_def ukeep_def less_Suc_eq)

lemma kmem_inv_unique: "kmem_inv s xs \<Longrightarrow> kmem_inv s ys \<Longrightarrow> xs = ys"
  using free_chain_unique unfolding kmem_inv_def by blast

text \<open>\<open>l\<close> is the number of free pages at the start; each new page takes at most three.\<close>

definition grow_post :: "'z kmachine_scheme \<Rightarrow> u64 \<Rightarrow> nat \<Rightarrow> u64 set \<Rightarrow> nat \<Rightarrow> u64 \<Rightarrow> u64 \<Rightarrow> 'z kmachine_scheme \<Rightarrow> bool" where
  "grow_post s pt n W l newsz r s' \<longleftrightarrow>
    r = newsz \<and> uvm_like s pt n W (max n (npages newsz)) s' \<and> fresh (mem s') pt n (npages newsz) \<and>
      (\<exists>ys. kmem_inv s' ys \<and> l \<le> length ys + 3 * (npages newsz - n)) \<or>
    r = 0 \<and> uvm_like s pt n W n s' \<and> l < 3 * (npages newsz - n)"

lemma give_up:
  assumes "uvm t pt k ys" and "n \<le> k" and "ukeep s pt n t" and "allpages t pt k ys = W" and "outside W s t"
    and "l < 3 * (npages newsz - n)"
  shows "returns (bindk (uvmdealloc pt (vaddr k) (vaddr n) t) (\<lambda>_ s. Done 0 s)) (grow_post s pt n W l newsz)"
  using returns_mono [OF dealloc_back [OF assms(1,2)], of "\<lambda>_. uvm_like s pt n W n"]
    uvm_like_trans [OF assms(3,5) order_refl] assms(4,6)
  by (simp add: grow_post_def) (auto elim!: returns_mono)

text \<open>One round of the loop of \<open>uvmalloc\<close> when a page is available.\<close>

lemma alloc_round:
  assumes u: "uvm t pt k (z # zs)" and k: "k < UPAGES"
  obtains s1 where "kalloc t = Done z s1" and "z \<noteq> 0"
    and "returns (mappages pt (vaddr k) PGSIZE z uperm (s1\<lparr>mem := memset (mem s1) z 0 (ucast PGSIZE)\<rparr>))
      (add_post t pt k z zs (memset (mem s1) z 0 (ucast PGSIZE)) uperm)"
proof -
  obtain s1 where s1: "kalloc t = Done z s1" "z \<noteq> 0" "valid_page t z" "z \<notin> tables (mem t) pt" "z \<notin> set zs"
    and m: "\<And>m. (\<And>x. PGROUNDDOWN x \<noteq> z \<Longrightarrow> m x = mem s1 x) \<Longrightarrow>
      kept t pt {z} (s1\<lparr>mem := m\<rparr>) \<and> vm_ok (s1\<lparr>mem := m\<rparr>) pt zs"
    using new_page [OF uvmD(1) [OF u]] by blast
  have al: "page_aligned z" using s1(3) by (simp add: valid_page_def)
  let ?s2 = "s1\<lparr>mem := memset (mem s1) z 0 (ucast PGSIZE)\<rparr>"
  have k2: "kept t pt {z} ?s2" "vm_ok ?s2 pt zs" using m memset_page(1) [OF al] by blast+
  have "PTE_V \<noteq> uperm OR PTE_V" by (simp add: uperm_def page_consts)
  then have "returns (mappages pt (vaddr k) PGSIZE z uperm ?s2) (add_post t pt k z zs (mem ?s2) uperm)"
    using uperm_bits(1) by (intro map_new_page [OF u k k2 s1(3-5)]) auto
  then show thesis using that s1(1,2) by simp
qed

lemma vaddr_less_size: "k \<le> VPAGES \<Longrightarrow> vaddr k < sz \<longleftrightarrow> k < npages sz"
  by (simp add: word_less_nat_alt unat_vaddr npages_def less_eq_div_iff_mult_less_eq flip: Suc_le_eq) arith

lemma add_undo:
  assumes "add_post t pt k z zs m perm r s3" and "r \<noteq> 0"
  obtains s4 where "kfree z s3 = Done () s4" and "uvm s4 pt k [z]" and "ukeep t pt k s4"
    and "allpages s4 pt k [z] = allpages t pt k (z # zs)" and "outside (allpages t pt k (z # zs)) t s4"
    and "length zs < 2"
proof -
  have p: "vm_ok s3 pt []" "valid_page s3 z" "z \<notin> tables (mem s3) pt"
    using assms by (simp_all add: add_post_def)
  obtain s4 where "kfree z s3 = Done () s4" "kept s3 pt {z} s4" "vm_ok s4 pt [z]"
    using kfree_vm [OF p(1,2) _ p(3)] by auto
  then show thesis using assms that unfolding add_post_def by simp
qed

lemma uvmalloc_round:
  assumes u: "uvm t pt k (z # zs)" and k: "k < UPAGES" and n: "n \<le> k" and kp: "ukeep s pt n t"
    and W: "allpages t pt k (z # zs) = W" "outside W s t" and fr: "fresh (mem t) pt n k" and lt: "vaddr k < newsz"
    and few: "l \<le> length (z # zs) + 3 * (k - n)" "k < npages newsz"
    and IH: "\<And>s3 vs. uvm s3 pt (Suc k) vs \<Longrightarrow> ukeep s pt n s3 \<Longrightarrow> allpages s3 pt (Suc k) vs = W \<Longrightarrow> outside W s s3 \<Longrightarrow>
      fresh (mem s3) pt n (Suc k) \<Longrightarrow> l \<le> length vs + 3 * (Suc k - n) \<Longrightarrow>
      returns (uvmalloc_loop fuel pt (vaddr (Suc k)) (vaddr n) newsz s3) (grow_post s pt n W l newsz)"
  shows "returns (uvmalloc_loop (Suc fuel) pt (vaddr k) (vaddr n) newsz t) (grow_post s pt n W l newsz)"
proof -
  obtain s1 where s1: "kalloc t = Done z s1" "z \<noteq> 0"
    and add: "returns (mappages pt (vaddr k) PGSIZE z uperm (s1\<lparr>mem := memset (mem s1) z 0 (ucast PGSIZE)\<rparr>))
      (add_post t pt k z zs (memset (mem s1) z 0 (ucast PGSIZE)) uperm)"
    using alloc_round [OF u k] .
  let ?rest = "\<lambda>r s. if r \<noteq> 0 then bindk (kfree z s) (\<lambda>_ s. bindk (uvmdealloc pt (vaddr k) (vaddr n) s) (\<lambda>_ s. Done 0 s))
    else uvmalloc_loop fuel pt (vaddr (Suc k)) (vaddr n) newsz s"
  have go: "uvmalloc_loop (Suc fuel) pt (vaddr k) (vaddr n) newsz t =
      bindk (mappages pt (vaddr k) PGSIZE z uperm (s1\<lparr>mem := memset (mem s1) z 0 (ucast PGSIZE)\<rparr>)) ?rest"
    using lt s1 by (simp add: uperm_def vaddr_Suc Let_def cong: if_cong)
  show ?thesis
    unfolding go returns_bindk using add
  proof (rule returns_mono)
    fix r s3 assume post: "add_post t pt k z zs (memset (mem s1) z 0 (ucast PGSIZE)) uperm r s3"
    show "returns (?rest r s3) (grow_post s pt n W l newsz)"
    proof (cases "r = 0")
      case False
      obtain s4 where s4: "kfree z s3 = Done () s4" "uvm s4 pt k [z]" "ukeep t pt k s4" "allpages s4 pt k [z] = allpages t pt k (z # zs)"
          "outside (allpages t pt k (z # zs)) t s4" "length zs < 2"
        using add_undo [OF post False] by metis
      moreover have "l < 3 * (npages newsz - n)" using s4(6) few n by (simp add: diff_mult_distrib2)
      ultimately show ?thesis
        using False give_up [OF s4(2) n ukeep_trans [OF kp s4(3) n], of W l newsz] W(1) outside_trans [OF W(2), of s4] by simp
    next
      case True
      obtain vs where v: "uvm s3 pt (Suc k) vs" "ukeep t pt k s3" "allpages s3 pt (Suc k) vs = allpages t pt k (z # zs)"
          and o3: "outside (allpages t pt k (z # zs)) t s3" and l3: "length zs \<le> length vs + 2" and pte:
          "ptmap (mem s3) pt k = PA2PTE z OR uperm OR PTE_V"
          "upage (mem s3) pt k = load_bytes (memset (mem s1) z 0 (ucast PGSIZE)) z 4096"
        using post True unfolding add_post_def by auto
      have "page_aligned z" using vm_ok_parts(5) [OF uvmD(1) [OF u], of z] by simp
      then have "fresh (mem s3) pt n (Suc k)"
        using fresh_Suc [OF fr v(2) refl] pte memset_page(2) uperm_bits(2) by simp
      then show ?thesis
        using True IH [OF v(1) ukeep_trans [OF kp v(2) n]] v(3) W(1) outside_trans [OF W(2)] o3 l3 few(1) n by simp
    qed
  qed
qed

lemma uvmalloc_loop_run:
  assumes "uvm t pt k ys" and "n \<le> k" and "ukeep s pt n t" and "allpages t pt k ys = W" and "fresh (mem t) pt n k"
    and "npages newsz - k < fuel" and "k \<le> max n (npages newsz)" and "outside W s t"
    and "l \<le> length ys + 3 * (k - n)"
  shows "returns (uvmalloc_loop fuel pt (vaddr k) (vaddr n) newsz t) (grow_post s pt n W l newsz)"
  using assms
proof (induction fuel arbitrary: t k ys)
  case 0
  then show ?case by simp
next
  case (Suc fuel)
  note u = Suc.prems(1)
  have k: "k < UPAGES" using uvm_size [OF u] by (simp add: UPAGES_def VPAGES_def)
  have kV: "k \<le> VPAGES" using k by (simp add: UPAGES_def)
  show ?case
  proof (cases "k < npages newsz")
    case False
    then have "max n (npages newsz) = k" using Suc.prems(2,7) by simp
    moreover have "fresh (mem t) pt n (npages newsz)" using False Suc.prems(5) by (simp add: fresh_def)
    moreover have "\<exists>ys. kmem_inv t ys \<and> l \<le> length ys + 3 * (npages newsz - n)"
      using Suc.prems(2,7,9) False vm_ok_parts(1) [OF uvmD(1) [OF u]] by (intro exI [of _ ys]) (auto simp: max_def split: if_splits)
    ultimately have "grow_post s pt n W l newsz newsz t"
      using Suc.prems(1,3,4,8) unfolding grow_post_def uvm_like_def by auto
    then show ?thesis using False vaddr_less_size [OF kV] by simp
  next
    case True
    then have lt: "vaddr k < newsz" using vaddr_less_size [OF kV] by simp
    show ?thesis
    proof (cases ys)
      case Nil
      then have "kalloc t = Done 0 t" using vm_ok_parts(1) [OF uvmD(1) [OF u]] by (simp add: kalloc_empty)
      moreover have "l < 3 * (npages newsz - n)" using Nil Suc.prems(2,9) True by (simp add: diff_mult_distrib2)
      ultimately show ?thesis using lt give_up [OF u Suc.prems(2-4,8)] by simp
    next
      case (Cons z zs)
      show ?thesis
        using Suc.prems True Cons
        by (intro uvmalloc_round [OF u [unfolded Cons] k Suc.prems(2,3) _ Suc.prems(8,5) lt _ True] Suc.IH) auto
    qed
  qed
qed

lemma uvmalloc_run:
  assumes u: "uvm s pt (npages oldsz) xs" and le: "oldsz \<le> newsz"
  shows "returns (uvmalloc pt oldsz newsz s)
    (grow_post s pt (npages oldsz) (allpages s pt (npages oldsz) xs) (length xs) newsz)"
proof -
  let ?n = "npages oldsz"
  have "?n \<le> VPAGES" using uvmD(2) [OF u] by (simp add: UPAGES_def)
  moreover have "\<not> newsz < oldsz" using le by simp
  ultimately have "uvmalloc pt oldsz newsz s =
      uvmalloc_loop (unat newsz div 4096 + 2) pt (vaddr ?n) (vaddr ?n) newsz s"
    by (simp only: uvmalloc_def PGROUNDUP_npages if_False)
  moreover have "returns (uvmalloc_loop (unat newsz div 4096 + 2) pt (vaddr ?n) (vaddr ?n) newsz s)
      (grow_post s pt ?n (allpages s pt ?n xs) (length xs) newsz)"
  proof (rule uvmalloc_loop_run [OF u])
    show "npages newsz - ?n < unat newsz div 4096 + 2" unfolding npages_def by linarith
  qed (simp_all add: fresh_def)
  ultimately show ?thesis by (simp only:)
qed

end
