(* ===== verification/Uvmfree.thy ===== *)
theory Uvmfree
  imports Addrspace Proc
begin

text \<open>
  Tearing an address space down: \<open>freewalk\<close> returns every page of a page table
  whose leaf entries are gone, and \<open>uvmfree\<close> returns the user pages and the page
  table, so that afterwards the allocator owns all of them again.
\<close>

section \<open>The part of a table below a list of entries\<close>

definition below :: "memory \<Rightarrow> u64 \<Rightarrow> nat list \<Rightarrow> nat list \<Rightarrow> u64 set" where
  "below m pt p is = {b. \<exists>i\<in>set is. \<exists>q. tpath (p @ i # q) \<and> tbl m pt (p @ i # q) = Some b}"

lemma below_Nil [simp]: "below m pt p [] = {}"
  by (simp add: below_def)

lemma below_Cons: "below m pt p (i # is) = below m pt p [i] \<union> below m pt p is"
  by (auto simp: below_def)

lemma below_tables: "below m pt p is \<subseteq> tables m pt"
  by (auto simp: below_def tables_def)

lemma below_full: "length p = 2 \<Longrightarrow> below m pt p is = {}"
  by (auto simp: below_def tpath_def)

lemma tbl_append: "tbl m pt (p @ q) = (case tbl m pt p of None \<Rightarrow> None | Some a \<Rightarrow> tbl m a q)"
  by (induction p arbitrary: pt) (auto split: option.splits)

lemma below_none: "tbl m pt p = Some a \<Longrightarrow> child m a i = None \<Longrightarrow> below m pt p [i] = {}"
  by (auto simp: below_def tbl_append)

lemma below_child:
  assumes "tbl m pt p = Some a" and "child m a i = Some b" and "tpath (p @ [i])"
  shows "below m pt p [i] = insert b (below m pt (p @ [i]) [0..<512])"
proof (intro equalityI subsetI)
  fix c assume "c \<in> below m pt p [i]"
  then obtain q where q: "tpath (p @ i # q)" "tbl m pt (p @ i # q) = Some c" by (auto simp: below_def)
  show "c \<in> insert b (below m pt (p @ [i]) [0..<512])"
  proof (cases q)
    case Nil
    then show ?thesis using q assms by (simp add: tbl_append)
  next
    case (Cons j r)
    then have "j < 512" using q(1) by (simp add: tpath_def)
    then show ?thesis using q Cons by (auto simp: below_def)
  qed
next
  fix c assume "c \<in> insert b (below m pt (p @ [i]) [0..<512])"
  then consider "c = b" | j r where "tpath (p @ i # j # r)" "tbl m pt (p @ i # j # r) = Some c"
    by (auto simp: below_def)
  then show "c \<in> below m pt p [i]"
  proof cases
    case 1
    then have "tbl m pt (p @ [i]) = Some c" using assms by (simp add: tbl_append)
    then show ?thesis using assms(3) unfolding below_def by (auto intro!: exI [of _ "[]"])
  next
    case 2
    then show ?thesis unfolding below_def by auto
  qed
qed

lemma below_disjoint:
  assumes "pt_inv m pt" and "i \<notin> set is"
  shows "below m pt p [i] \<inter> below m pt p is = {}"
  using pt_inv_inj [OF assms(1)] assms(2) by (fastforce simp: below_def)

lemma below_self:
  assumes "pt_inv m pt" and "tpath p" and "tbl m pt p = Some a"
  shows "a \<notin> below m pt p is"
  using pt_inv_inj [OF assms(1,2) _ assms(3)] by (fastforce simp: below_def)

section \<open>freewalk\<close>

definition fw_pre :: "memory \<Rightarrow> u64 \<Rightarrow> nat list \<Rightarrow> nat list \<Rightarrow> u64 \<Rightarrow> 'z kmachine_scheme \<Rightarrow> u64 list \<Rightarrow> bool" where
  "fw_pre m pt p is a s ys \<longleftrightarrow> tpath p \<and> tbl m pt p = Some a \<and> set is \<subseteq> {..<512} \<and> distinct is \<and>
    kmem_inv s ys \<and> set ys \<inter> insert a (below m pt p is) = {} \<and>
    (\<forall>x. PGROUNDDOWN x \<in> below m pt p is \<longrightarrow> mem s x = m x) \<and>
    (\<forall>i\<in>set is. load64 (mem s) (slot a i) = load64 m (slot a i)) \<and> (\<forall>b\<in>tables m pt. valid_page s b)"

definition fw_post :: "memory \<Rightarrow> u64 \<Rightarrow> nat list \<Rightarrow> nat list \<Rightarrow> u64 \<Rightarrow> 'z kmachine_scheme \<Rightarrow> u64 list \<Rightarrow>
    unit \<Rightarrow> 'z kmachine_scheme \<Rightarrow> bool" where
  "fw_post m pt p is a s ys u s' \<longleftrightarrow> kframe s s' \<and>
    (\<exists>zs. kmem_inv s' zs \<and> set zs = set ys \<union> insert a (below m pt p is)) \<and>
    (\<forall>x. PGROUNDDOWN x \<notin> insert a (below m pt p is) \<longrightarrow> mem s' x = mem s x)"

lemma fw_end:
  assumes inv: "pt_inv m pt" and pre: "fw_pre m pt p [] a s ys"
  shows "returns (kfree a s) (fw_post m pt p [] a s ys)"
proof -
  have a: "valid_page s a" "a \<notin> set ys" "kmem_inv s ys"
    using pre tablesI [of p m pt a] by (auto simp: fw_pre_def)
  then have al: "page_aligned a" by (simp add: valid_page_def)
  show ?thesis
    by (rule returns_mono [OF kfree_spec [OF a(3,1,2)]])
      (use al in \<open>auto simp: fw_post_def in_page_iff intro!: exI [of _ "a # ys"]\<close>)
qed

lemma fw_skip:
  assumes "fw_pre m pt p (i # is) a s ys" and "below m pt p [i] = {}"
  shows "fw_pre m pt p is a s ys" and "below m pt p (i # is) = below m pt p is"
proof -
  show e: "below m pt p (i # is) = below m pt p is"
    unfolding below_Cons [of m pt p i "is"] assms(2) by simp
  show "fw_pre m pt p is a s ys" using assms(1) unfolding fw_pre_def e by simp
qed

text \<open>The subtree below one entry has been freed and the entry cleared.\<close>

lemma fw_next:
  assumes inv: "pt_inv m pt" and pre: "fw_pre m pt p (i # is) a s ys" and i: "tpath (p @ [i])"
    and b: "child m a i = Some b" and post: "fw_post m pt (p @ [i]) [0..<512] b s ys u s1"
    and s2: "s2 = s1\<lparr>mem := store64 (mem s1) (slot a i) 0\<rparr>"
  obtains zs where "fw_pre m pt p is a s2 zs" and "set zs = set ys \<union> below m pt p [i]" and "kframe s s2"
    and "\<And>x. PGROUNDDOWN x \<notin> insert a (below m pt p [i]) \<Longrightarrow> mem s2 x = mem s x"
proof -
  have a: "tpath p" "tbl m pt p = Some a" "i < 512" "i \<notin> set is" using pre by (auto simp: fw_pre_def)
  have al: "page_aligned a" by (rule tbl_aligned [OF inv a(2)])
  have B: "insert b (below m pt (p @ [i]) [0..<512]) = below m pt p [i]"
    by (rule below_child [OF a(2) b i, symmetric])
  obtain zs where zs: "kmem_inv s1 zs" "set zs = set ys \<union> below m pt p [i]" and fr: "kframe s s1"
    and out: "\<And>x. PGROUNDDOWN x \<notin> below m pt p [i] \<Longrightarrow> mem s1 x = mem s x"
    using post unfolding fw_post_def B by blast
  have st: "mem s2 x = mem s1 x" if "PGROUNDDOWN x \<noteq> a" for x
    using that al a(3) by (simp add: s2 store_slot_outside)
  have na: "a \<notin> below m pt p is'" for is' by (rule below_self [OF inv a(1,2)])
  have dis: "below m pt p [i] \<inter> below m pt p is = {}" by (rule below_disjoint [OF inv a(4)])
  have frame: "kframe s s2" using fr kframe_mem kframe_trans unfolding s2 by blast
  have "a \<notin> set zs" using zs(2) na pre by (auto simp: fw_pre_def)
  then have "mem s2 x = mem s1 x" if "PGROUNDDOWN x \<in> set zs" for x using that by (intro st) auto
  then have "kmem_inv s2 zs" using kmem_inv_frame [OF zs(1), of "mem s2"] by (simp add: s2)
  moreover have "set zs \<inter> insert a (below m pt p is) = {}"
    using zs(2) na dis pre below_Cons [of m pt p i "is"] by (auto simp: fw_pre_def)
  moreover have "mem s2 x = m x" if "PGROUNDDOWN x \<in> below m pt p is" for x
  proof -
    have "PGROUNDDOWN x \<noteq> a" "PGROUNDDOWN x \<notin> below m pt p [i]" using that na dis by auto
    then have "mem s2 x = mem s x" using st out by simp
    then show ?thesis using that pre below_Cons [of m pt p i "is"] by (simp add: fw_pre_def)
  qed
  moreover have "load64 (mem s2) (slot a j) = load64 m (slot a j)" if j: "j \<in> set is" for j
  proof -
    have "j < 512" "j \<noteq> i" using pre j by (auto simp: fw_pre_def)
    then have "load64 (mem s2) (slot a j) = load64 (mem s1) (slot a j)"
      using al a(3) by (simp add: s2 load64_store_slot)
    also have "\<dots> = load64 (mem s) (slot a j)"
      using al \<open>j < 512\<close> na out by (intro load64_slot_other_page) auto
    finally show ?thesis using pre j by (simp add: fw_pre_def)
  qed
  ultimately have "fw_pre m pt p is a s2 zs"
    using pre kframe_simps(4) [OF frame] by (simp add: fw_pre_def)
  moreover have "mem s2 x = mem s x" if "PGROUNDDOWN x \<notin> insert a (below m pt p [i])" for x
    using that st out by simp
  ultimately show thesis using that zs(2) frame by blast
qed

lemma fw_down:
  assumes inv: "pt_inv m pt" and pre: "fw_pre m pt p (i # is) a s ys" and i: "tpath (p @ [i])"
    and b: "child m a i = Some b"
  shows "fw_pre m pt (p @ [i]) [0..<512] b s ys"
proof -
  have a: "tbl m pt p = Some a" using pre by (simp add: fw_pre_def)
  have sub: "insert b (below m pt (p @ [i]) [0..<512]) \<subseteq> below m pt p (i # is)"
    using below_child [OF a b i] below_Cons [of m pt p i "is"] by auto
  have same: "mem s x = m x" if "PGROUNDDOWN x \<in> insert b (below m pt (p @ [i]) [0..<512])" for x
    using that sub pre by (auto simp: fw_pre_def)
  have tb: "tbl m pt (p @ [i]) = Some b" using a b by (simp add: tbl_snoc)
  have "load64 (mem s) (slot b j) = load64 m (slot b j)" if "j < 512" for j
    using that tbl_aligned [OF inv tb] same by (intro load64_slot_other_page) simp_all
  moreover have "set ys \<inter> insert b (below m pt (p @ [i]) [0..<512]) = {}"
    using sub pre by (auto simp: fw_pre_def)
  ultimately show ?thesis using pre i tb same by (auto simp: fw_pre_def simp del: tpath_simps)
qed

lemma fw_join:
  assumes "set zs = set ys \<union> below m pt p [i]" and "kframe s s2"
    and out: "\<And>x. PGROUNDDOWN x \<notin> insert a (below m pt p [i]) \<Longrightarrow> mem s2 x = mem s x"
    and q: "fw_post m pt p is a s2 zs u s'"
  shows "fw_post m pt p (i # is) a s ys u s'"
proof -
  obtain vs where vs: "kmem_inv s' vs" "set vs = set zs \<union> insert a (below m pt p is)" "kframe s2 s'"
    using q unfolding fw_post_def by blast
  have "set vs = set ys \<union> insert a (below m pt p (i # is))"
    unfolding below_Cons [of m pt p i "is"] vs(2) assms(1) by auto
  moreover have "mem s' x = mem s x" if "PGROUNDDOWN x \<notin> insert a (below m pt p (i # is))" for x
  proof -
    have "PGROUNDDOWN x \<notin> insert a (below m pt p [i])" "PGROUNDDOWN x \<notin> insert a (below m pt p is)"
      using that below_Cons [of m pt p i "is"] by auto
    then show ?thesis using q out [of x] unfolding fw_post_def by simp
  qed
  ultimately show ?thesis
    using vs(1) kframe_trans [OF assms(2) vs(3)] unfolding fw_post_def by blast
qed

lemma fw_list:
  fixes s :: "'z kmachine_scheme"
  assumes inv: "pt_inv m pt"
    and rec: "\<And>i b (s :: 'z kmachine_scheme) ys. length p < 2 \<Longrightarrow> fw_pre m pt (p @ [i]) [0..<512] b s ys \<Longrightarrow>
      returns (freewalk_loop fuel b [0..<512] s) (fw_post m pt (p @ [i]) [0..<512] b s ys)"
    and leaf: "\<And>i. length p = 2 \<Longrightarrow> i < 512 \<Longrightarrow> child m a i = None"
    and pre: "fw_pre m pt p is a s ys"
  shows "returns (freewalk_loop (Suc fuel) a is s) (fw_post m pt p is a s ys)"
  using pre
proof (induction "is" arbitrary: s ys)
  case Nil
  then show ?case using fw_end [OF inv] by simp
next
  case (Cons i "is")
  have a: "tpath p" "tbl m pt p = Some a" "i < 512" "load64 (mem s) (slot a i) = load64 m (slot a i)"
    using Cons.prems by (auto simp: fw_pre_def)
  have slot: "a + 8 * of_nat i = slot a i" by (simp add: slot_def)
  show ?case
  proof (cases "child m a i")
    case None
    then have V: "load64 m (slot a i) AND PTE_V = 0" by (simp add: child_def Let_def split: if_splits)
    note k = fw_skip [OF Cons.prems below_none [OF a(2) None]]
    show ?thesis
      using Cons.IH [OF k(1)] V a(4) by (simp add: slot fw_post_def k(2))
  next
    case (Some b)
    then have len: "length p < 2" using leaf [OF _ a(3)] a(1) by (force simp: tpath_def)
    then have i: "tpath (p @ [i])" using a by simp
    have V: "load64 m (slot a i) AND PTE_V \<noteq> 0" "b = PTE2PA (load64 m (slot a i))"
      using Some by (simp_all add: child_def Let_def split: if_splits)
    then have D: "load64 m (slot a i) AND (PTE_R OR PTE_W OR PTE_X) = 0"
      using inv i a(2) unfolding pt_inv_def by blast
    from rec [OF len fw_down [OF inv Cons.prems i Some]] obtain s1 where s1: "freewalk_loop fuel b [0..<512] s = Done () s1"
        "fw_post m pt (p @ [i]) [0..<512] b s ys () s1"
      by (auto elim!: returnsE)
    let ?s2 = "s1\<lparr>mem := store64 (mem s1) (slot a i) 0\<rparr>"
    obtain zs where z: "fw_pre m pt p is a ?s2 zs" "set zs = set ys \<union> below m pt p [i]" "kframe s ?s2"
      and out: "\<And>x. PGROUNDDOWN x \<notin> insert a (below m pt p [i]) \<Longrightarrow> mem ?s2 x = mem s x"
      using fw_next [OF inv Cons.prems i Some s1(2) refl] by blast
    have "returns (freewalk_loop (Suc fuel) a is ?s2) (fw_post m pt p (i # is) a s ys)"
      by (rule returns_mono [OF Cons.IH [OF z(1)]]) (rule fw_join [OF z(2,3) out])
    then show ?thesis
      using V D a(4) s1(1) by (simp add: slot)
  qed
qed

lemma freewalk_levels:
  fixes s :: "'z kmachine_scheme"
  assumes inv: "pt_inv m pt"
    and leaf: "\<forall>p a i. tpath p \<longrightarrow> length p = 2 \<longrightarrow> tbl m pt p = Some a \<longrightarrow> i < 512 \<longrightarrow> child m a i = None"
  shows "length p + l = 2 \<Longrightarrow> fw_pre m pt p is a s ys \<Longrightarrow>
    returns (freewalk_loop (Suc l) a is s) (fw_post m pt p is a s ys)"
proof (induction l arbitrary: p "is" a s ys)
  case 0
  then have p: "tpath p" "tbl m pt p = Some a" "length p = 2" by (simp_all add: fw_pre_def)
  show ?case by (rule fw_list [OF inv _ _ 0(2)]) (use leaf p in auto)
next
  case (Suc l)
  show ?case
    by (rule fw_list [OF inv _ _ Suc.prems(2)]) (use Suc.prems in \<open>auto intro!: Suc.IH\<close>)
qed

lemma ix_vaddr:
  assumes "i < 256" "j < 512" "k < 512"
  defines "n \<equiv> (i * 512 + j) * 512 + k"
  shows "n < VPAGES" and "vpath 2 (vaddr n) = [i, j]" and "ix 0 (vaddr n) = k"
proof -
  have "i * 512 + j < 256 * 512" using assms(1,2) by linarith
  then show n: "n < VPAGES" using assms(3) unfolding n_def VPAGES_def by simp
  have qr: "(q * 512 + r) div 512 = q" "(q * 512 + r) mod 512 = r" if "r < 512" for q r :: nat
    using that by simp_all
  have d: "n div 512 = i * 512 + j" "n mod 512 = k" unfolding n_def by (rule qr [OF assms(3)])+
  have e: "(i * 512 + j) div 512 = i" "(i * 512 + j) mod 512 = j" by (rule qr [OF assms(2)])+
  have u: "unat (vaddr n) div 4096 = n" using n by (simp add: unat_vaddr)
  have "ix 0 (vaddr n) = k" "ix 1 (vaddr n) = j" "ix 2 (vaddr n) = i"
    unfolding ix_digits u d e using assms(1) by simp_all
  then show "vpath 2 (vaddr n) = [i, j]" "ix 0 (vaddr n) = k" by (simp_all add: vpath_2)
qed

lemma no_leaves:
  assumes inv: "pt_inv m pt" and none: "\<And>j. j < VPAGES \<Longrightarrow> ptmap m pt j AND PTE_V = 0"
    and p: "tpath p" "length p = 2" "tbl m pt p = Some a" "k < 512"
  shows "child m a k = None"
proof -
  obtain i j where ij: "p = [i, j]" "i < 512" "j < 512"
    using p(1,2) by (auto simp: tpath_def length_Suc_conv eval_nat_numeral)
  have "i < 256"
  proof (rule ccontr)
    assume "\<not> i < 256"
    then have "load64 m (slot pt i) AND PTE_V = 0" using inv ij(2) by (simp add: pt_inv_def)
    then show False using p(3) ij(1) by (simp add: child_def)
  qed
  note v = ix_vaddr [OF this ij(3) p(4)]
  have "ptmap m pt ((i * 512 + j) * 512 + k) = load64 m (slot a k)"
    unfolding ptmap_def pte_of_def v(2,3) using p(3) ij(1) by simp
  then show ?thesis using none [OF v(1)] by (simp only: child_cases(2))
qed

lemma tables_root: "insert pt (below m pt [] [0..<512]) = tables m pt"
proof (intro equalityI subsetI)
  fix b assume "b \<in> tables m pt"
  then obtain p where p: "tpath p" "tbl m pt p = Some b" by (auto simp: tables_def)
  then show "b \<in> insert pt (below m pt [] [0..<512])"
    by (cases p) (auto simp: below_def tpath_def)
qed (use below_tables tablesI [of "[]"] in fastforce)

lemma freewalk_run:
  assumes ok: "vm_ok s pt xs" and none: "\<And>j. j < VPAGES \<Longrightarrow> ptmap (mem s) pt j AND PTE_V = 0"
  shows "returns (freewalk pt s) (\<lambda>_ s'. kframe s s' \<and>
    (\<exists>ys. kmem_inv s' ys \<and> set ys = set xs \<union> tables (mem s) pt) \<and>
    (\<forall>x. PGROUNDDOWN x \<notin> tables (mem s) pt \<longrightarrow> mem s' x = mem s x))"
proof -
  note p = vm_ok_parts [OF ok]
  have "fw_pre (mem s) pt [] [0..<512] pt s xs"
    using p(1,3,4) unfolding fw_pre_def tables_root by auto
  moreover have "Suc 2 = (3 :: nat)" by simp
  moreover have "\<forall>p a i. tpath p \<longrightarrow> length p = 2 \<longrightarrow> tbl (mem s) pt p = Some a \<longrightarrow> i < 512 \<longrightarrow>
      child (mem s) a i = None"
    using no_leaves [OF p(2) none] by blast
  ultimately have "returns (freewalk_loop 3 pt [0..<512] s) (fw_post (mem s) pt [] [0..<512] pt s xs)"
    using freewalk_levels [OF p(2), of "[]" 2 "[0..<512]" pt s xs]
    by (simp only: list.size add_0 simp_thms)
  then show ?thesis
    unfolding freewalk_def fw_post_def tables_root .
qed

section \<open>uvmfree and proc_freepagetable\<close>

definition reclaimed :: "'z kmachine_scheme \<Rightarrow> u64 set \<Rightarrow> 'z kmachine_scheme \<Rightarrow> bool" where
  "reclaimed s W s' \<longleftrightarrow> kframe s s' \<and> (\<exists>ys. kmem_inv s' ys \<and> set ys = W) \<and> outside W s s'"

lemma reclaimed_trans: "kframe s t \<Longrightarrow> outside W s t \<Longrightarrow> reclaimed t W s' \<Longrightarrow> reclaimed s W s'"
  unfolding reclaimed_def using kframe_trans outside_trans by blast

lemma unmapped_outside:
  "unmapped s pt xs M ps s' \<Longrightarrow> tables (mem s) pt \<union> set ps \<subseteq> W \<Longrightarrow> outside W s s'"
  by (auto simp: unmapped_def outside_def)

lemma uvmfree_run:
  assumes u: "uvm s pt (npages sz') xs" and sz: "0 < sz'"
    and top: "\<And>j. UPAGES \<le> j \<Longrightarrow> j < VPAGES \<Longrightarrow> ptmap (mem s) pt j AND PTE_V = 0"
  shows "returns (uvmfree pt sz' s) (\<lambda>_. reclaimed s (allpages s pt (npages sz') xs))"
proof -
  note d = uvmD [OF u]
  have n: "0 < npages sz'" "npages sz' \<le> VPAGES"
    using sz d(2) by (simp_all add: npages_def UPAGES_def word_less_nat_alt)
  have "returns (uvmunmap pt 0 sz' True s) (\<lambda>_. unmapped s pt xs
      (setrange (ptmap (mem s) pt) 0 (npages sz') (\<lambda>_. 0)) (if True then rev (pgs (mem s) pt 0 (npages sz')) else []))"
    using u d(1,3) n sz by (intro uvmunmap_run) (simp_all add: pgno_last uvm_def, simp add: pgno_def)
  then obtain s1 where s1: "uvmunmap pt 0 sz' True s = Done () s1"
      and "unmapped s pt xs (setrange (ptmap (mem s) pt) 0 (npages sz' - 0) (\<lambda>_. 0)) (rev (pgs (mem s) pt 0 (npages sz' - 0))) s1"
    by (auto elim!: returnsE)
  note sh = uvm_shrink [OF u _ this(2)] and fr = unmapped_frame [OF this(2)]
  have u1: "uvm s1 pt 0 (rev (pgs (mem s) pt 0 (npages sz')) @ xs)" using sh(1) by simp
  have none: "ptmap (mem s1) pt j AND PTE_V = 0" if "j < VPAGES" for j
    using that uvmD(4) [OF u1, of j] sh(4) [of j] top [of j] by (cases "j < UPAGES") simp_all
  have "allpages s pt (npages sz') xs = allpages s1 pt 0 (rev (pgs (mem s) pt 0 (npages sz')) @ xs)"
    using sh(2) by simp
  moreover have "kframe s s1" "outside (allpages s pt (npages sz') xs) s s1"
    using \<open>unmapped s pt xs _ _ s1\<close> unmapped_outside [OF \<open>unmapped s pt xs _ _ s1\<close>]
    by (simp_all add: unmapped_def allpages_def le_supI1)
  ultimately have "returns (freewalk pt s1) (\<lambda>_. reclaimed s (allpages s pt (npages sz') xs))"
    by (intro returns_mono [OF freewalk_run [OF uvmD(1) [OF u1] none]] reclaimed_trans [of s s1])
      (auto simp: reclaimed_def allpages_def outside_def)
  then show ?thesis using s1 by (simp add: uvmfree_def)
qed

text \<open>The page table of a process: a user part and the two mappings at the top.\<close>

definition proc_vm :: "'z kmachine_scheme \<Rightarrow> u64 \<Rightarrow> nat \<Rightarrow> u64 list \<Rightarrow> bool" where
  "proc_vm s pt n xs \<longleftrightarrow> uvm s pt n xs \<and> is_leaf (ptmap (mem s) pt (VPAGES - 1)) \<and>
    is_leaf (ptmap (mem s) pt (VPAGES - 2))"

lemma top_pages: "TRAMPOLINE = vaddr (VPAGES - 1)" "TRAPFRAME = vaddr (VPAGES - 2)"
  by (simp_all add: page_consts vaddr_def VPAGES_def)

lemma uvm_top:
  assumes u: "uvm s pt n xs" and s': "unmapped s pt xs M [] s'" and M: "\<And>j. j < UPAGES \<Longrightarrow> M j = ptmap (mem s) pt j"
  shows "uvm s' pt n xs" and "allpages s' pt n xs = allpages s pt n xs"
proof -
  note d = uvmD [OF u] and f = unmapped_frame [OF s']
  have V: "UPAGES \<le> VPAGES" by (simp add: UPAGES_def)
  have same: "ptmap (mem s') pt j = ptmap (mem s) pt j" if "j < UPAGES" for j
    using that V M by (simp add: f(4))
  then have pg: "pgs (mem s') pt 0 n = pgs (mem s) pt 0 n" using d(2) by (intro pgs_cong) simp
  show "uvm s' pt n xs"
    using u same f(1-3) unfolding uvm_def freeable_def pg by simp
  show "allpages s' pt n xs = allpages s pt n xs" unfolding allpages_def pg f(2) ..
qed

lemma unmap_top:
  assumes u: "uvm s pt n xs" and k: "UPAGES \<le> k" "k < VPAGES" "is_leaf (ptmap (mem s) pt k)"
  obtains s' where "uvmunmap pt (vaddr k) PGSIZE False s = Done () s'" and "uvm s' pt n xs" and "kframe s s'"
    and "outside (allpages s pt n xs) s s'" and "allpages s' pt n xs = allpages s pt n xs"
    and "\<And>j. j < VPAGES \<Longrightarrow> ptmap (mem s') pt j = ((ptmap (mem s) pt)(k := 0)) j"
proof -
  have "returns (uvmunmap pt (vaddr k) PGSIZE False s)
      (\<lambda>_. unmapped s pt xs (setrange (ptmap (mem s) pt) k 1 (\<lambda>_. 0)) (if False then rev (pgs (mem s) pt k 1) else []))"
    using k uvmD(1) [OF u] by (intro uvmunmap_run) (simp_all add: pgno_page_end le_less_Suc_eq)
  then obtain s' where s': "uvmunmap pt (vaddr k) PGSIZE False s = Done () s'"
      "unmapped s pt xs (setrange (ptmap (mem s) pt) k 1 (\<lambda>_. 0)) [] s'"
    by (auto elim!: returnsE)
  have "setrange (ptmap (mem s) pt) k 1 (\<lambda>_. 0) j = ptmap (mem s) pt j" if "j < UPAGES" for j
    using that k by (simp add: setrange_def)
  note t = uvm_top [OF u s'(2) this]
  have "ptmap (mem s') pt j = ((ptmap (mem s) pt)(k := 0)) j" if "j < VPAGES" for j
    using unmapped_frame(4) [OF s'(2) that] by (auto simp: setrange_def)
  moreover have "kframe s s'" "outside (allpages s pt n xs) s s'"
    using s'(2) by (auto simp: unmapped_def allpages_def outside_def)
  ultimately show thesis using that s'(1) t by blast
qed

text \<open>The first two steps of \<open>proc_freepagetable\<close>, which free no page.\<close>

lemma unmap_both:
  fixes s :: "'z pmachine_scheme"
  assumes p: "proc_vm s pt n xs"
  obtains t where "proc_freepagetable pt sz' s = (if 0 < sz' then uvmfree pt sz' t else Done () t)"
    and "uvm t pt n xs" and "kframe s t" and "outside (allpages s pt n xs) s t" and "allpages t pt n xs = allpages s pt n xs"
    and "\<forall>j. UPAGES \<le> j \<longrightarrow> j < VPAGES \<longrightarrow> ptmap (mem t) pt j AND PTE_V = 0"
proof -
  have u: "uvm s pt n xs" and l: "is_leaf (ptmap (mem s) pt (VPAGES - 1))" "is_leaf (ptmap (mem s) pt (VPAGES - 2))"
    using p by (simp_all add: proc_vm_def)
  have V: "UPAGES \<le> VPAGES - 1" "VPAGES - 1 < VPAGES" "UPAGES \<le> VPAGES - 2" "VPAGES - 2 < VPAGES"
    "VPAGES - 2 \<noteq> VPAGES - 1"
    by (simp_all add: UPAGES_def VPAGES_def)
  obtain s1 where s1: "uvmunmap pt TRAMPOLINE PGSIZE False s = Done () s1" "uvm s1 pt n xs" "kframe s s1"
      "outside (allpages s pt n xs) s s1" "allpages s1 pt n xs = allpages s pt n xs"
    and m1: "\<And>j. j < VPAGES \<Longrightarrow> ptmap (mem s1) pt j = ((ptmap (mem s) pt)(VPAGES - 1 := 0)) j"
    using unmap_top [OF u V(1,2) l(1)] unfolding top_pages by blast
  have "is_leaf (ptmap (mem s1) pt (VPAGES - 2))" using m1 [OF V(4)] l(2) V(5) by simp
  then obtain s2 where s2: "uvmunmap pt TRAPFRAME PGSIZE False s1 = Done () s2" "uvm s2 pt n xs" "kframe s1 s2"
      "outside (allpages s1 pt n xs) s1 s2" "allpages s2 pt n xs = allpages s1 pt n xs"
    and m2: "\<And>j. j < VPAGES \<Longrightarrow> ptmap (mem s2) pt j = ((ptmap (mem s1) pt)(VPAGES - 2 := 0)) j"
    using unmap_top [OF s1(2) V(3,4)] unfolding top_pages by blast
  have "ptmap (mem s2) pt j AND PTE_V = 0" if "UPAGES \<le> j" "j < VPAGES" for j
  proof -
    have "j = VPAGES - 2 \<or> j = VPAGES - 1" using that by (auto simp: UPAGES_def)
    then show ?thesis using m2 [OF that(2)] m1 [OF that(2)] by auto
  qed
  moreover have "proc_freepagetable pt sz' s = (if 0 < sz' then uvmfree pt sz' s2 else Done () s2)"
    using s1(1) s2(1) by (simp add: proc_freepagetable_def)
  ultimately show thesis
    using that s2(2) kframe_trans [OF s1(3) s2(3)] outside_trans [OF s1(4) s2(4) [unfolded s1(5)]] s1(5) s2(5) by simp
qed

lemma proc_freepagetable_run:
  fixes s :: "'z pmachine_scheme"
  assumes p: "proc_vm s pt (npages sz') xs" and sz: "0 < sz'"
  shows "returns (proc_freepagetable pt sz' s) (\<lambda>_. reclaimed s (allpages s pt (npages sz') xs))"
proof -
  let ?n = "npages sz'"
  obtain t where t: "proc_freepagetable pt sz' s = (if 0 < sz' then uvmfree pt sz' t else Done () t)" "uvm t pt ?n xs"
      "kframe s t" "outside (allpages s pt ?n xs) s t" "allpages t pt ?n xs = allpages s pt ?n xs"
    and top: "\<forall>j. UPAGES \<le> j \<longrightarrow> j < VPAGES \<longrightarrow> ptmap (mem t) pt j AND PTE_V = 0"
    using unmap_both [OF p, of sz'] .
  have "returns (uvmfree pt sz' t) (\<lambda>_. reclaimed t (allpages t pt ?n xs))"
    using top by (intro uvmfree_run [OF t(2) sz]) simp
  then have "returns (uvmfree pt sz' t) (\<lambda>_. reclaimed s (allpages s pt ?n xs))"
    unfolding t(5) by (rule returns_mono) (rule reclaimed_trans [OF t(3,4)])
  then show ?thesis using t(1) sz by simp
qed

end
