(* ===== verification/Uvmcopy.thy ===== *)
theory Uvmcopy
  imports Uvmfree
begin

text \<open>
  \<open>uvmcopy\<close>, which gives a child a copy of its parent's memory.  When it returns
  \<open>0\<close> the child's pages have the parent's contents and permissions and are pages
  of its own; when it returns \<open>-1\<close> the child's space is empty again and nothing
  was leaked.  The parent, and all other memory, is untouched.  The clean-up path
  for the very first page panics: \<open>uvmunmap\<close> is called with an empty range.
\<close>

section \<open>The parent's address space\<close>

definition space :: "'z kmachine_scheme \<Rightarrow> u64 \<Rightarrow> nat \<Rightarrow> u64 set" where
  "space s pt n = tables (mem s) pt \<union> set (pgs (mem s) pt 0 n)"

lemma space_kept:
  assumes u: "uvm s pt n xs" and o': "outside W s t" and dis: "space s pt n \<inter> W = {}"
  shows "ptmap (mem t) pt j = ptmap (mem s) pt j" and "tpath p \<Longrightarrow> tbl (mem t) pt p = tbl (mem s) pt p"
    and "j < n \<Longrightarrow> upage (mem t) pt j = upage (mem s) pt j"
proof -
  have same: "mem t x = mem s x" if "PGROUNDDOWN x \<in> space s pt n" for x
    using that o' dis unfolding outside_def by blast
  then have "mem t x = mem s x" if "PGROUNDDOWN x \<in> tables (mem s) pt" for x
    using that by (simp add: space_def)
  note t = tables_frame [OF vm_ok_parts(2) [OF uvmD(1) [OF u]] this]
  show pm: "ptmap (mem t) pt j = ptmap (mem s) pt j" for j by (simp add: ptmap_def t(3))
  show "tpath p \<Longrightarrow> tbl (mem t) pt p = tbl (mem s) pt p" by (rule t(4))
  show "upage (mem t) pt j = upage (mem s) pt j" if "j < n"
  proof (rule upage_cong [OF pm])
    fix x assume "PGROUNDDOWN x = PTE2PA (ptmap (mem s) pt j)"
    then show "mem t x = mem s x" using that in_pgs [of 0 j n] by (intro same) (simp add: space_def)
  qed
qed

lemma walk_leaf:
  assumes "kmem_inv t ys" and "tbl (mem t) pt (vpath 2 (vaddr k)) = Some b" and "valid_page t b" and "k < VPAGES"
  shows "walk pt (vaddr k) False t = Done (slot b (ix 0 (vaddr k))) t"
    and "slot b (ix 0 (vaddr k)) \<noteq> 0" and "load64 (mem t) (slot b (ix 0 (vaddr k))) = ptmap (mem t) pt k"
  using assms valid_slot_nonzero [OF assms(1,3), of "ix 0 (vaddr k)"] leaf_load [OF assms(2)]
  by (simp_all add: walk_find [OF vaddr_MAXVA])

section \<open>Copying one page\<close>

lemma PTE_FLAGS_less: "PTE_FLAGS w < 1024"
proof -
  have "PTE_FLAGS w = take_bit 10 w"
    by (simp add: PTE_FLAGS_def take_bit_eq_mask mask_eq_exp_minus_1)
  then show ?thesis by (simp add: low_flags_iff)
qed

lemma leaf_flags:
  assumes "is_leaf w"
  shows "PTE_FLAGS w OR PTE_V = PTE_FLAGS w" and "PTE_FLAGS w OR PTE_V < 1024" and "PTE_FLAGS w OR PTE_V \<noteq> PTE_V"
proof -
  have "w AND PTE_V = PTE_V"
    using assms by (simp add: is_leaf_def PTE_V_1 and_one_eq odd_iff_mod_2_eq_one)
  then have "PTE_FLAGS w AND PTE_V = PTE_V"
    by (simp add: PTE_FLAGS_def PTE_V_1 and.assoc)
  then have "bit (PTE_FLAGS w) n" if "bit PTE_V n" for n using that by (metis bit_and_iff)
  then show e: "PTE_FLAGS w OR PTE_V = PTE_FLAGS w" by (intro bit_word_eqI) (auto simp: bit_or_iff)
  then show "PTE_FLAGS w OR PTE_V < 1024" "PTE_FLAGS w OR PTE_V \<noteq> PTE_V"
    using assms PTE_FLAGS_less by (simp_all add: is_leaf_def)
qed

lemma valid_no_wrap: "valid_page s a \<Longrightarrow> unat a + unat (ucast PGSIZE :: u32) < 2 ^ 64"
  by (simp add: valid_page_def word_less_nat_alt)

lemma memmove_page:
  assumes "valid_page s z" and "valid_page s a"
  shows "PGROUNDDOWN x \<noteq> z \<Longrightarrow> memmove m z a (ucast PGSIZE) x = m x"
    and "load_bytes (memmove m z a (ucast PGSIZE)) z 4096 = load_bytes m a 4096"
proof -
  note w = valid_no_wrap [OF assms(1)] valid_no_wrap [OF assms(2)]
  show "PGROUNDDOWN x \<noteq> z \<Longrightarrow> memmove m z a (ucast PGSIZE) x = m x"
    using assms(1) by (simp add: memmove_eq [OF w] in_page_iff valid_page_def)
  show "load_bytes (memmove m z a (ucast PGSIZE)) z 4096 = load_bytes m a 4096"
    using memmove_bytes [OF w, of m] by simp
qed

definition copied :: "'z kmachine_scheme \<Rightarrow> u64 \<Rightarrow> 'z kmachine_scheme \<Rightarrow> u64 \<Rightarrow> nat \<Rightarrow> bool" where
  "copied s old t new k \<longleftrightarrow> (\<forall>j<k. upage (mem t) new j = upage (mem s) old j \<and>
    PTE_FLAGS (ptmap (mem t) new j) = PTE_FLAGS (ptmap (mem s) old j))"

lemma copied_Suc:
  "copied s old t new k \<Longrightarrow> ukeep t new k t' \<Longrightarrow> upage (mem t') new k = upage (mem s) old k \<Longrightarrow>
    PTE_FLAGS (ptmap (mem t') new k) = PTE_FLAGS (ptmap (mem s) old k) \<Longrightarrow> copied s old t' new (Suc k)"
  by (auto simp: copied_def ukeep_def less_Suc_eq)

lemma copy_round:
  assumes uo: "uvm s old n xs" and dis: "space s old n \<inter> W = {}" and k: "k < n"
    and u: "uvm t new k (z # zs)" and W: "allpages t new k (z # zs) = W" "outside W s t"
    and fr: "kframe s t"
  defines "pa \<equiv> PTE2PA (ptmap (mem s) old k)" and "fl \<equiv> PTE_FLAGS (ptmap (mem s) old k)"
  obtains s1 where "kalloc t = Done z s1" and "z \<noteq> 0"
    and "returns (mappages new (vaddr k) PGSIZE z fl (s1\<lparr>mem := memmove (mem s1) z pa (ucast PGSIZE)\<rparr>))
      (add_post t new k z zs (memmove (mem s1) z pa (ucast PGSIZE)) fl)"
    and "load_bytes (memmove (mem s1) z pa (ucast PGSIZE)) z 4096 = upage (mem s) old k"
proof -
  obtain s1 where s1: "kalloc t = Done z s1" "z \<noteq> 0" "valid_page t z" "z \<notin> tables (mem t) new" "z \<notin> set zs"
    and m: "\<And>m. (\<And>x. PGROUNDDOWN x \<noteq> z \<Longrightarrow> m x = mem s1 x) \<Longrightarrow>
      kept t new {z} (s1\<lparr>mem := m\<rparr>) \<and> vm_ok (s1\<lparr>mem := m\<rparr>) new zs"
    using new_page [OF uvmD(1) [OF u]] by blast
  have pg: "pa \<in> set (pgs (mem s) old 0 n)" unfolding pa_def using k by (intro in_pgs) simp_all
  then have pav: "valid_page t pa" using uvmD(5) [OF uo] kframe_simps(4) [OF fr] by simp
  have "pa \<noteq> z" using pg dis W(1) by (auto simp: space_def allpages_def)
  have "kept t new {z} (s1\<lparr>mem := mem s1\<rparr>)" using m [of "mem s1"] by blast
  then have m1: "mem s1 x = mem t x" if "PGROUNDDOWN x \<noteq> z" for x
    using keptD(2) [of t new "{z}" "s1\<lparr>mem := mem s1\<rparr>" x] that by simp
  let ?s2 = "s1\<lparr>mem := memmove (mem s1) z pa (ucast PGSIZE)\<rparr>"
  have k2: "kept t new {z} ?s2" "vm_ok ?s2 new zs" using m memmove_page(1) [OF s1(3) pav] by blast+
  have kU: "k < UPAGES" using k uvmD(2) [OF uo] by simp
  have leaf: "is_leaf (ptmap (mem s) old k)" using uvmD(3) [OF uo k] .
  have "returns (mappages new (vaddr k) PGSIZE z fl ?s2) (add_post t new k z zs (mem ?s2) fl)"
    using leaf_flags(2,3) [OF leaf] unfolding fl_def by (rule map_new_page [OF u kU k2 s1(3-5)])
  moreover have "load_bytes (memmove (mem s1) z pa (ucast PGSIZE)) z 4096 = upage (mem s) old k"
  proof -
    have "load_bytes (mem s1) pa 4096 = load_bytes (mem t) pa 4096"
      using m1 \<open>pa \<noteq> z\<close> pav by (intro page_bytes_cong) (simp_all add: valid_page_def)
    also have "\<dots> = upage (mem s) old k"
      using space_kept(1,3) [OF uo W(2) dis, of k] k by (simp add: upage_def pa_def)
    finally show ?thesis using memmove_page(2) [OF s1(3) pav] by simp
  qed
  ultimately show thesis using that s1(1,2) by simp
qed

section \<open>The loop\<close>

definition copy_post :: "'z kmachine_scheme \<Rightarrow> u64 \<Rightarrow> nat \<Rightarrow> u64 \<Rightarrow> u64 set \<Rightarrow> nat \<Rightarrow> int \<Rightarrow> 'z kmachine_scheme \<Rightarrow> bool" where
  "copy_post s old n new W l r s' \<longleftrightarrow>
    r = 0 \<and> uvm_like s new 0 W n s' \<and> copied s old s' new n \<or>
    r = -1 \<and> uvm_like s new 0 W 0 s' \<and> l < 3 * n"

lemma unmap_all:
  assumes u: "uvm t new k ys" and k: "0 < k"
  shows "returns (uvmunmap new 0 (vaddr k) True t) (\<lambda>_. uvm_like t new 0 (allpages t new k ys) 0)"
proof -
  note d = uvmD [OF u]
  have kV: "k \<le> VPAGES" using d(2) by (simp add: UPAGES_def)
  then have "0 < vaddr k" using k by (simp add: word_less_nat_alt unat_vaddr)
  then have "pgno (vaddr k - 1) = k - 1" using kV by (simp add: pgno_last)
  then have "returns (uvmunmap new 0 (vaddr k) True t) (\<lambda>_. unmapped t new ys
      (setrange (ptmap (mem t) new) 0 k (\<lambda>_. 0)) (if True then rev (pgs (mem t) new 0 k) else []))"
    using u d(1,3) k kV by (intro uvmunmap_run) (simp_all add: uvm_def, simp add: pgno_def)
  then show ?thesis
    by (rule returns_mono) (auto intro!: shrunk_uvm_like [OF u] simp: shrunk_def)
qed

lemma copy_fail:
  assumes "uvm t new k ys" and "0 < k" and "ukeep s new 0 t" and "allpages t new k ys = W" and "outside W s t"
    and few: "l < 3 * n"
  shows "returns (bindk (uvmunmap new 0 (vaddr k) True t) (\<lambda>_ s. Done (-1) s)) (copy_post s old n new W l)"
proof -
  have "returns (uvmunmap new 0 (vaddr k) True t) (\<lambda>_. uvm_like s new 0 W 0)"
    using unmap_all [OF assms(1,2)] uvm_like_trans [OF assms(3,5) order_refl] assms(4)
    by (auto elim!: returns_mono)
  then show ?thesis using few by (simp add: copy_post_def)
qed

text \<open>The parent's entry is found where it was when the copy began.\<close>

lemma parent_walk:
  assumes uo: "uvm s old n xs" and dis: "space s old n \<inter> W = {}" and k: "k < n"
    and u: "uvm t new j ys" and fr: "kframe s t" and W: "outside W s t"
  obtains r where "walk old (vaddr k) False t = Done r t" and "r \<noteq> 0" and "load64 (mem t) r = ptmap (mem s) old k"
proof -
  have leaf: "is_leaf (ptmap (mem s) old k)" by (rule uvmD(3) [OF uo k])
  have kV: "k < VPAGES" using k uvmD(2) [OF uo] by (simp add: UPAGES_def)
  obtain b where b: "tbl (mem s) old (vpath 2 (vaddr k)) = Some b"
    using leaf mapped_table [of "mem s" old k] by (auto simp: is_leaf_def)
  have v: "valid_page t b"
    using vm_ok_parts(3) [OF uvmD(1) [OF uo] tablesI [OF tpath_vpath(1) b]] kframe_simps(4) [OF fr] by simp
  have b': "tbl (mem t) old (vpath 2 (vaddr k)) = Some b"
    using space_kept(2) [OF uo W dis tpath_vpath(1)] b by simp
  note w = walk_leaf [OF vm_ok_parts(1) [OF uvmD(1) [OF u]] b' v kV]
  show thesis using that [OF w(1,2)] w(3) space_kept(1) [OF uo W dis] by simp
qed

lemma uvmcopy_out_of_memory:
  assumes uo: "uvm s old n xs" and dis: "space s old n \<inter> W = {}" and k: "k < n"
    and u: "uvm t new k ys" and kp: "ukeep s new 0 t" and W: "outside W s t"
    and none: "kalloc t = Done 0 t" and lt: "vaddr k < size'"
  shows "uvmcopy_loop (Suc fuel) old new (vaddr k) size' t =
    bindk (uvmunmap new 0 (vaddr k) True t) (\<lambda>_ s. Done (-1) s)"
proof -
  have "kframe s t" using kp by (simp add: ukeep_def)
  then obtain r where r: "walk old (vaddr k) False t = Done r t" "r \<noteq> 0" "load64 (mem t) r = ptmap (mem s) old k"
    using parent_walk [OF uo dis k u _ W] by blast
  then show ?thesis
    using lt none uvmD(3) [OF uo k] by (simp add: is_leaf_def)
qed

text \<open>One round of the loop: the page is copied, or the copy is given up.\<close>

lemma uvmcopy_step:
  assumes uo: "uvm s old n xs" and dis: "space s old n \<inter> W = {}" and k: "k < n"
    and u: "uvm t new k (z # zs)" and kp: "ukeep s new 0 t" and W: "allpages t new k (z # zs) = W" "outside W s t"
    and cp: "copied s old t new k" and lt: "vaddr k < size'"
  obtains s4 where "uvmcopy_loop (Suc fuel) old new (vaddr k) size' t = bindk (uvmunmap new 0 (vaddr k) True s4) (\<lambda>_ s. Done (-1) s)"
      and "uvm s4 new k [z]" and "ukeep s new 0 s4" and "allpages s4 new k [z] = W" and "outside W s s4" and "length zs < 2"
  | s3 vs where "uvmcopy_loop (Suc fuel) old new (vaddr k) size' t = uvmcopy_loop fuel old new (vaddr (Suc k)) size' s3"
      and "uvm s3 new (Suc k) vs" and "ukeep s new 0 s3" and "allpages s3 new (Suc k) vs = W" and "outside W s s3"
      and "copied s old s3 new (Suc k)" and "length zs \<le> length vs + 2"
proof -
  let ?w = "ptmap (mem s) old k"
  have fr: "kframe s t" using kp by (simp add: ukeep_def)
  let ?mm = "\<lambda>s1. memmove (mem s1) z (PTE2PA ?w) (ucast PGSIZE)"
  obtain s1 where s1: "kalloc t = Done z s1" "z \<noteq> 0"
    and add: "returns (mappages new (vaddr k) PGSIZE z (PTE_FLAGS ?w) (s1\<lparr>mem := ?mm s1\<rparr>)) (add_post t new k z zs (?mm s1) (PTE_FLAGS ?w))"
    and bt: "load_bytes (?mm s1) z 4096 = upage (mem s) old k"
    using copy_round [OF uo dis k u W fr] .
  have leaf: "is_leaf ?w" by (rule uvmD(3) [OF uo k])
  obtain q where wk: "walk old (vaddr k) False t = Done q t" "q \<noteq> 0" "load64 (mem t) q = ?w"
    using parent_walk [OF uo dis k u fr W(2)] .
  obtain r s3 where s3: "mappages new (vaddr k) PGSIZE z (PTE_FLAGS ?w) (s1\<lparr>mem := ?mm s1\<rparr>) = Done r s3"
      and post: "add_post t new k z zs (?mm s1) (PTE_FLAGS ?w) r s3"
    using add by (auto elim: returnsE)
  have go: "uvmcopy_loop (Suc fuel) old new (vaddr k) size' t =
      (if r \<noteq> 0 then bindk (kfree z s3) (\<lambda>_ s. bindk (uvmunmap new 0 (vaddr k) True s) (\<lambda>_ s. Done (-1) s))
       else uvmcopy_loop fuel old new (vaddr (Suc k)) size' s3)"
    using lt s1 wk leaf s3 by (simp add: is_leaf_def vaddr_Suc Let_def)
  show thesis
  proof (cases "r = 0")
    case False
    obtain s4 where s4: "kfree z s3 = Done () s4" "uvm s4 new k [z]" "ukeep t new k s4" "allpages s4 new k [z] = allpages t new k (z # zs)"
        "outside (allpages t new k (z # zs)) t s4" "length zs < 2"
      using add_undo [OF post False] .
    show thesis
      using that(1) [of s4] go False s4 W ukeep_trans [OF kp s4(3)] outside_trans [OF W(2), of s4] by simp
  next
    case True
    obtain vs where v: "uvm s3 new (Suc k) vs" "ukeep t new k s3" "allpages s3 new (Suc k) vs = allpages t new k (z # zs)"
        "outside (allpages t new k (z # zs)) t s3" "ptmap (mem s3) new k = PA2PTE z OR PTE_FLAGS ?w OR PTE_V"
        "upage (mem s3) new k = upage (mem s) old k" "length zs \<le> length vs + 2"
      using post True bt unfolding add_post_def by auto
    have "PTE_FLAGS (ptmap (mem s3) new k) = PTE_FLAGS ?w"
      unfolding v(5) using PTE_FLAGS_PA2PTE [OF leaf_flags(2) [OF leaf], of z] leaf_flags(1) [OF leaf] by simp
    then have "copied s old s3 new (Suc k)" by (rule copied_Suc [OF cp v(2,6)])
    then show thesis
      using that(2) [of s3 vs] go True v W ukeep_trans [OF kp v(2)] outside_trans [OF W(2), of s3] by simp
  qed
qed

lemma uvmcopy_round:
  assumes uo: "uvm s old n xs" and dis: "space s old n \<inter> W = {}" and k: "k < n"
    and u: "uvm t new k (z # zs)" and kp: "ukeep s new 0 t" and W: "allpages t new k (z # zs) = W" "outside W s t"
    and cp: "copied s old t new k" and enough: "k = 0 \<longrightarrow> 2 \<le> length zs" and lt: "vaddr k < size'"
    and few: "l \<le> length (z # zs) + 3 * k"
    and IH: "\<And>s3 vs. uvm s3 new (Suc k) vs \<Longrightarrow> ukeep s new 0 s3 \<Longrightarrow> allpages s3 new (Suc k) vs = W \<Longrightarrow>
      outside W s s3 \<Longrightarrow> copied s old s3 new (Suc k) \<Longrightarrow> l \<le> length vs + 3 * Suc k \<Longrightarrow>
      returns (uvmcopy_loop fuel old new (vaddr (Suc k)) size' s3) (copy_post s old n new W l)"
  shows "returns (uvmcopy_loop (Suc fuel) old new (vaddr k) size' t) (copy_post s old n new W l)"
proof (rule uvmcopy_step [OF uo dis k u kp W cp lt, of fuel])
  fix s4 assume s4: "uvmcopy_loop (Suc fuel) old new (vaddr k) size' t = bindk (uvmunmap new 0 (vaddr k) True s4) (\<lambda>_ s. Done (-1) s)"
    "uvm s4 new k [z]" "ukeep s new 0 s4" "allpages s4 new k [z] = W" "outside W s s4" "length zs < 2"
  have "0 < k" "l < 3 * n" using s4(6) enough few k by simp_all
  then show ?thesis unfolding s4(1) by (intro copy_fail [OF s4(2) _ s4(3-5)])
next
  fix s3 vs assume s3: "uvmcopy_loop (Suc fuel) old new (vaddr k) size' t = uvmcopy_loop fuel old new (vaddr (Suc k)) size' s3"
    "uvm s3 new (Suc k) vs" "ukeep s new 0 s3" "allpages s3 new (Suc k) vs = W" "outside W s s3"
    "copied s old s3 new (Suc k)" "length zs \<le> length vs + 2"
  show ?thesis unfolding s3(1) using s3(7) few by (intro IH [OF s3(2-6)]) simp
qed

lemma uvmcopy_loop_run:
  assumes uo: "uvm s old n xs" and dis: "space s old n \<inter> W = {}" and n: "n = npages size'"
  shows "uvm t new k ys \<Longrightarrow> ukeep s new 0 t \<Longrightarrow> allpages t new k ys = W \<Longrightarrow> outside W s t \<Longrightarrow>
    copied s old t new k \<Longrightarrow> k \<le> n \<Longrightarrow> n - k < fuel \<Longrightarrow> (k = 0 \<longrightarrow> 3 \<le> length ys) \<Longrightarrow> l \<le> length ys + 3 * k \<Longrightarrow>
    returns (uvmcopy_loop fuel old new (vaddr k) size' t) (copy_post s old n new W l)"
proof (induction fuel arbitrary: t k ys)
  case 0
  then show ?case by simp
next
  case (Suc fuel)
  note u = Suc.prems(1)
  have kV: "k \<le> VPAGES" using uvmD(2) [OF u] by (simp add: UPAGES_def)
  show ?case
  proof (cases "k < n")
    case False
    then have "k = n" using Suc.prems(6) by simp
    then have "copy_post s old n new W l 0 t"
      using Suc.prems unfolding copy_post_def uvm_like_def by auto
    then show ?thesis using False n vaddr_less_size [OF kV] by simp
  next
    case True
    then have lt: "vaddr k < size'" using n vaddr_less_size [OF kV] by simp
    show ?thesis
    proof (cases ys)
      case (Cons z zs)
      show ?thesis
        using Suc.prems True Cons
        by (intro uvmcopy_round [OF uo dis True u [unfolded Cons] Suc.prems(2) _ Suc.prems(4,5) _ lt, where l = l] Suc.IH) auto
    next
      case Nil
      then have "0 < k" "l < 3 * n" using Suc.prems(8,9) True by auto
      moreover have "kalloc t = Done 0 t"
        using vm_ok_parts(1) [OF uvmD(1) [OF u]] Nil by (simp add: kalloc_empty)
      ultimately show ?thesis
        using lt uvmcopy_out_of_memory [OF uo dis True u Suc.prems(2,4)] copy_fail [OF u _ Suc.prems(2-4)] by simp
    qed
  qed
qed

lemma uvmcopy_run:
  assumes uo: "uvm s old (npages size') xs" and un: "uvm s new 0 xs" and dis: "space s old (npages size') \<inter> allpages s new 0 xs = {}"
    and mem: "3 \<le> length xs"
  shows "returns (uvmcopy old new size' s) (copy_post s old (npages size') new (allpages s new 0 xs) (length xs))"
proof -
  have "returns (uvmcopy_loop (unat size' div 4096 + 2) old new (vaddr 0) size' s)
      (copy_post s old (npages size') new (allpages s new 0 xs) (length xs))"
  proof (rule uvmcopy_loop_run [OF uo dis refl un])
    show "npages size' - 0 < unat size' div 4096 + 2" unfolding npages_def by linarith
  qed (use mem in \<open>simp_all add: copied_def\<close>)
  moreover have "vaddr 0 = 0" by (simp add: vaddr_def)
  ultimately show ?thesis by (simp only: uvmcopy_def)
qed

end
