(* ===== verification/Procvm.thy ===== *)
theory Procvm
  imports Uvmcopy Bcache
begin

text \<open>
  The life of a process's address space: \<open>proc_pagetable\<close> creates it with the
  trampoline and the trap frame mapped at the top, \<open>uvmalloc\<close> and \<open>uvmcopy\<close>
  fill it, and \<open>proc_freepagetable\<close> gives every page back.
\<close>

section \<open>An empty page table\<close>

lemma zero_page_entries:
  assumes "page_aligned z" and "\<And>x. PGROUNDDOWN x = z \<Longrightarrow> m x = 0" and "i < 512"
  shows "load64 m (slot z i) = 0"
  using in_range_slot(1) [OF assms(1,3)] assms(2) by (intro load64_zero) blast

lemma fresh_table:
  assumes z: "page_aligned z" and m: "\<And>x. PGROUNDDOWN x = z \<Longrightarrow> m x = 0"
  shows "pt_inv m z" and "tables m z = {z}" and "ptmap m z j = 0"
proof -
  note load = zero_page_entries [OF z m]
  have t: "tbl m z p = (if p = [] then Some z else None)" if "tpath p" for p
    using that load by (cases p) (auto simp: tpath_def child_def)
  then show "pt_inv m z" using z load by (auto simp: pt_inv_def)
  show "tables m z = {z}"
    using t tablesI [of "[]" m z z] by (auto simp: tables_def split: if_splits)
  have "vpath 2 (vaddr j) \<noteq> []" by (simp add: vpath_2)
  then show "ptmap m z j = 0" using t [OF tpath_vpath(1), of "vaddr j"] by (simp add: ptmap_def pte_of_def)
qed

lemma uvm_empty:
  assumes "vm_ok s pt xs" and "\<And>j. j < UPAGES \<Longrightarrow> ptmap (mem s) pt j AND PTE_V = 0"
  shows "uvm s pt 0 xs"
  using assms vm_ok_parts(7) [OF assms(1)] by (simp add: uvm_def freeable_def)

lemma uvmcreate_run:
  assumes k: "kmem_inv s (z # xs)"
  obtains s' where "uvmcreate s = Done z s'" and "kframe s s'" and "outside {z} s s'" and "vm_ok s' z xs"
    and "tables (mem s') z = {z}" and "\<forall>j. ptmap (mem s') z j = 0"
proof -
  have z: "page_aligned z" "z \<noteq> 0" "valid_page s z" "z \<notin> set xs"
    using k valid_page_nonzero [OF k, of z] by (auto simp: kmem_inv_def valid_page_def)
  obtain s1 where s1: "kalloc s = Done z s1" "kmem_inv s1 xs" "kframe s s1"
    and out: "\<And>x. \<not> in_range x z 4096 \<Longrightarrow> mem s1 x = mem s x"
    using kalloc_spec [OF k] by (auto elim!: returnsE)
  let ?m = "memset (mem s1) z 0 (ucast PGSIZE)"
  let ?s2 = "s1\<lparr>mem := ?m\<rparr>"
  have same: "?m x = mem s1 x" if "PGROUNDDOWN x \<noteq> z" for x by (rule memset_page(1) [OF z(1) that])
  have "?m x = 0" if "PGROUNDDOWN x = z" for x
    using that z(1) by (simp add: memset_eq in_page_iff)
  note f = fresh_table [OF z(1) this]
  have "kmem_inv ?s2 xs" using z(4) by (intro kmem_inv_frame [OF s1(2)] same) auto
  moreover have "valid_page ?s2 z" using z(3) kframe_simps(4) [OF s1(3)] by simp
  ultimately have "vm_ok ?s2 z xs" using f(1,2) z(4) by (simp add: vm_ok_def)
  moreover have "outside {z} s ?s2" using same out z(1) by (simp add: outside_def in_page_iff)
  moreover have "kframe s ?s2" using s1(3) kframe_mem kframe_trans by blast
  moreover have "uvmcreate s = Done z ?s2" using s1(1) z(2) by (simp add: uvmcreate_def)
  ultimately show thesis using that f(2,3) by simp
qed

section \<open>The two mappings at the top\<close>

lemma walk_loop_present:
  "tbl (mem s) a (vpath l va) = Some b \<Longrightarrow> walk_loop l a va True s = Done (slot b (ix 0 va)) s"
  by (induction l arbitrary: a) (auto simp: slot_PX child_def Let_def split: option.splits if_splits)

lemma walk_present:
  "tbl (mem s) pt (vpath 2 va) = Some b \<Longrightarrow> va < MAXVA \<Longrightarrow> walk pt va True s = Done (slot b (ix 0 va)) s"
  unfolding walk_def using walk_loop_present [of s pt 2 va b] by (simp add: not_le)

text \<open>Mapping one page when its leaf table exists already takes no memory.\<close>

lemma mappages_present:
  assumes ok: "vm_ok s pt xs" and b: "tbl (mem s) pt (vpath 2 (vaddr k)) = Some b" and k: "k < VPAGES"
    and v: "ptmap (mem s) pt k AND PTE_V = 0"
  obtains s' where "mappages pt (vaddr k) PGSIZE pa perm s = Done 0 s'"
    and "remapped s pt xs ((ptmap (mem s) pt)(k := PA2PTE pa OR perm OR PTE_V)) s' xs"
proof -
  let ?r = "slot b (ix 0 (vaddr k))"
  let ?s' = "s\<lparr>mem := store64 (mem s) ?r (PA2PTE pa OR perm OR PTE_V)\<rparr>"
  have e: "PGROUNDDOWN (vaddr k) = vaddr k" "PGROUNDDOWN (vaddr k + PGSIZE - 1) = vaddr k"
    using k by (simp_all add: PGROUNDDOWN_vaddr pgno_page_end)
  have "valid_page s b" by (rule vm_ok_parts(3) [OF ok tablesI [OF tpath_vpath(1) b]])
  then have "?r \<noteq> 0" by (rule valid_slot_nonzero [OF vm_ok_parts(1) [OF ok]]) simp
  then have "mappages_loop (0 + 1) pt (vaddr k) (vaddr k) pa perm s = Done 0 ?s'"
    using walk_present [OF b vaddr_MAXVA [OF k]] v leaf_load [OF b] by (simp add: Let_def)
  then have "mappages pt (vaddr k) PGSIZE pa perm s = Done 0 ?s'"
    unfolding mappages_def e Let_def by simp
  then show thesis using that store_leaf [OF ok b k] by blast
qed

lemma remapped_outside: "remapped s pt xs M s' ys \<Longrightarrow> outside (allpages s pt n xs) s s'"
  unfolding remapped_def outside_def allpages_def by auto

lemma remap_top:
  assumes u: "uvm s pt 0 xs" and re: "remapped s pt xs ((ptmap (mem s) pt)(k := e)) s' ys" and k: "UPAGES \<le> k"
  shows "uvm s' pt 0 ys" and "allpages s' pt 0 ys = allpages s pt 0 xs"
proof -
  have V: "UPAGES \<le> VPAGES" by (simp add: UPAGES_def)
  show "uvm s' pt 0 ys"
    using re k uvmD(4) [OF u] V by (intro uvm_empty) (auto simp: remapped_def)
  show "allpages s' pt 0 ys = allpages s pt 0 xs"
    using re by (auto simp: remapped_def allpages_def)
qed

lemma mapped_leaf:
  assumes "perm OR PTE_V < 1024" and "perm OR PTE_V \<noteq> PTE_V"
  shows "is_leaf (PA2PTE pa OR perm OR PTE_V)"
  using PTE_FLAGS_PA2PTE [OF assms(1), of pa] assms(2) by (simp add: is_leaf_def or.assoc [symmetric])

lemma top_perms: "(PTE_R OR PTE_X) OR PTE_V < 1024" "(PTE_R OR PTE_X) OR PTE_V \<noteq> PTE_V"
  "(PTE_R OR PTE_W) OR PTE_V < 1024" "(PTE_R OR PTE_W) OR PTE_V \<noteq> PTE_V"
  by (simp_all add: page_consts)

lemma map_tramp:
  assumes u: "uvm s pt 0 xs" and none: "\<And>j. j < VPAGES \<Longrightarrow> ptmap (mem s) pt j AND PTE_V = 0" and l: "2 \<le> length xs"
  obtains s' ys where "mappages pt TRAMPOLINE PGSIZE pa perm s = Done 0 s'"
    and "remapped s pt xs ((ptmap (mem s) pt)(VPAGES - 1 := PA2PTE pa OR perm OR PTE_V)) s' ys"
    and "length xs \<le> length ys + 2"
proof -
  have k: "VPAGES - 1 < VPAGES" by (simp add: VPAGES_def)
  have "returns (mappages pt TRAMPOLINE PGSIZE pa perm s) (map_post s pt xs (VPAGES - 1) 1 (map_pte pa perm))"
    unfolding top_pages using uvmD(1) [OF u] none k by (intro mappages_run) (simp_all add: pgno_page_end)
  then obtain r s' where r: "mappages pt TRAMPOLINE PGSIZE pa perm s = Done r s'"
      "map_post s pt xs (VPAGES - 1) 1 (map_pte pa perm) r s'"
    by (auto elim: returnsE)
  then obtain i ys where "remapped s pt xs (setrange (ptmap (mem s) pt) (VPAGES - 1) i (map_pte pa perm)) s' ys"
      "if r = 0 then i = 1 \<and> length xs \<le> length ys + 2 else i < 1 \<and> (i = 0 \<longrightarrow> length xs < 2)"
    unfolding map_post_def by (auto split: if_splits)
  moreover from this(2) have "r = 0" using l by (auto split: if_splits)
  moreover have "setrange (ptmap (mem s) pt) (VPAGES - 1) 1 (map_pte pa perm) =
      (ptmap (mem s) pt)(VPAGES - 1 := PA2PTE pa OR perm OR PTE_V)"
    by (auto simp: setrange_def map_pte_simps)
  ultimately show thesis using that r(1) by simp
qed

lemma top_same_table: "vpath 2 (vaddr (VPAGES - 2)) = vpath 2 (vaddr (VPAGES - 1))"
proof -
  have "unat (vaddr (VPAGES - 2)) = 4096 * (VPAGES - 2)" "unat (vaddr (VPAGES - 1)) = 4096 * (VPAGES - 1)"
    by (rule unat_vaddr, simp add: VPAGES_def)+
  then show ?thesis by (simp add: vpath_2 ix_def VPAGES_def)
qed

definition proc_vm_made :: "'z kmachine_scheme \<Rightarrow> u64 list \<Rightarrow> u64 \<Rightarrow> 'z kmachine_scheme \<Rightarrow> bool" where
  "proc_vm_made s xs pt s' \<longleftrightarrow> kframe s s' \<and> outside (set xs) s s' \<and>
    (\<exists>ys. proc_vm s' pt 0 ys \<and> allpages s' pt 0 ys = set xs \<and> length xs \<le> length ys + 3)"

lemma proc_pagetable_run:
  fixes s :: "'z pmachine_scheme"
  assumes k: "kmem_inv s xs" and l: "3 \<le> length xs"
  shows "returns (proc_pagetable p s) (proc_vm_made s xs)"
proof -
  obtain z zs where xs: "xs = z # zs" using l by (cases xs) auto
  obtain s1 where s1: "uvmcreate s = Done z s1" "kframe s s1" "outside {z} s s1" "vm_ok s1 z zs"
      "tables (mem s1) z = {z}" and m1: "\<forall>j. ptmap (mem s1) z j = 0"
    by (rule uvmcreate_run [OF k [unfolded xs]])
  have u1: "uvm s1 z 0 zs" by (rule uvm_empty [OF s1(4)]) (simp add: m1)
  have none: "\<And>j. j < VPAGES \<Longrightarrow> ptmap (mem s1) z j AND PTE_V = 0" by (simp add: m1)
  have l': "2 \<le> length zs" using l xs by simp
  have a1: "allpages s1 z 0 zs = set xs" by (simp add: allpages_def s1(5) xs)
  obtain s2 ys where s2: "mappages z TRAMPOLINE PGSIZE (k_trampoline s1) (PTE_R OR PTE_X) s1 = Done 0 s2"
      "remapped s1 z zs ((ptmap (mem s1) z)(VPAGES - 1 := PA2PTE (k_trampoline s1) OR (PTE_R OR PTE_X) OR PTE_V)) s2 ys"
      "length zs \<le> length ys + 2"
    by (rule map_tramp [OF u1 none l'])
  have V: "UPAGES \<le> VPAGES - 1" "UPAGES \<le> VPAGES - 2" "VPAGES - 1 < VPAGES" "VPAGES - 2 < VPAGES" "VPAGES - 2 \<noteq> VPAGES - 1"
    by (simp_all add: UPAGES_def VPAGES_def)
  note t2 = remap_top [OF u1 s2(2) V(1)]
  have m2: "ptmap (mem s2) z (VPAGES - 1) = PA2PTE (k_trampoline s1) OR (PTE_R OR PTE_X) OR PTE_V"
      "ptmap (mem s2) z (VPAGES - 2) = 0"
    using remapped_ptmap [OF s2(2) V(3)] remapped_ptmap [OF s2(2) V(4)] V(5) m1 by simp_all
  have "is_leaf (ptmap (mem s2) z (VPAGES - 1))" unfolding m2(1) by (rule mapped_leaf [OF top_perms(1,2)])
  then have "ptmap (mem s2) z (VPAGES - 1) AND PTE_V \<noteq> 0" by (simp add: is_leaf_def)
  then obtain b where b: "tbl (mem s2) z (vpath 2 (vaddr (VPAGES - 2))) = Some b"
    unfolding top_same_table by (rule mapped_table)
  have v2: "ptmap (mem s2) z (VPAGES - 2) AND PTE_V = 0" using m2(2) by simp
  obtain s3 where s3: "mappages z TRAPFRAME PGSIZE (tf (procs s2 ! p)) (PTE_R OR PTE_W) s2 = Done 0 s3"
      "remapped s2 z ys ((ptmap (mem s2) z)(VPAGES - 2 := PA2PTE (tf (procs s2 ! p)) OR (PTE_R OR PTE_W) OR PTE_V)) s3 ys"
    unfolding top_pages by (rule mappages_present [OF uvmD(1) [OF t2(1)] b V(4) v2])
  note t3 = remap_top [OF t2(1) s3(2) V(2)]
  have "is_leaf (ptmap (mem s3) z (VPAGES - 1))" "is_leaf (ptmap (mem s3) z (VPAGES - 2))"
    using remapped_ptmap [OF s3(2) V(3)] remapped_ptmap [OF s3(2) V(4)] V(5) m2(1)
      mapped_leaf [OF top_perms(1,2)] mapped_leaf [OF top_perms(3,4)]
    by simp_all
  then have "proc_vm s3 z 0 ys" using t3(1) by (simp add: proc_vm_def)
  moreover have "kframe s s3"
    using kframe_trans [OF kframe_trans [OF s1(2)]] s2(2) s3(2) unfolding remapped_def by blast
  moreover have "outside (set xs) s s3"
  proof -
    have "outside (set xs) s s1" using s1(3) xs by (auto simp: outside_def)
    moreover have "outside (set xs) s1 s2" using remapped_outside [OF s2(2), of 0] a1 by simp
    moreover have "outside (set xs) s2 s3" using remapped_outside [OF s3(2), of 0] t2(2) a1 by simp
    ultimately show ?thesis using outside_trans by blast
  qed
  ultimately have "proc_vm_made s xs z s3"
    using t2(2) t3(2) a1 s2(3) xs unfolding proc_vm_made_def by auto
  then show ?thesis
    using s1(1) s2(1) s3(1) by (simp add: proc_pagetable_def)
qed

section \<open>A machine with memory to give out\<close>

definition small_machine :: pmachine where
  "small_machine = \<lparr>held = [], mem = (\<lambda>_. 0), k_end = 0x80027020, freelist = 0,
    kernel_pagetable = 0, k_etext = 0x80007000, k_trampoline = 0x80006000, satp = 0,
    procs = replicate NPROC zero_proc, cur = Some 0, nextpid = 1, initproc = None, k_forkret = 0x80001000,
    sleeplocks = (\<lambda>_. \<lparr>slk_locked = False, slk_pid = 0\<rparr>)\<rparr>"

lemma small_machine_pages: "\<exists>s xs. kinit small_machine = Done () s \<and> kmem_inv s xs \<and> 100 \<le> length xs"
proof -
  have "returns (kinit small_machine) (\<lambda>_ s. \<exists>xs. kmem_inv s xs \<and> set xs = {p. valid_page small_machine p})"
    by (rule kinit_spec) (simp_all add: small_machine_def PHYSTOP_def KERNBASE_def)
  then obtain s xs where s: "kinit small_machine = Done () s" "kmem_inv s xs" "set xs = {p. valid_page small_machine p}"
    by (auto elim!: returnsE)
  have u: "unat (vaddr (0x81000 + j)) = 4096 * (0x81000 + j)" if "j < 100" for j
    using that by (intro unat_vaddr) (simp add: VPAGES_def)
  have "(\<lambda>j. vaddr (0x81000 + j)) ` {..<100} \<subseteq> set xs"
    using u by (auto simp: s(3) valid_page_def small_machine_def word_le_nat_alt word_less_nat_alt)
  moreover have "inj_on (\<lambda>j. vaddr (0x81000 + j)) {..<100}"
    by (rule inj_onI) (metis u lessThan_iff mult_cancel1 add_left_cancel zero_neq_numeral)
  ultimately have "card {..<100 :: nat} \<le> card (set xs)" by (metis card_image card_mono finite_set)
  then have "100 \<le> length xs" using card_length [of xs] by simp
  then show ?thesis using s by blast
qed

section \<open>Two address spaces in one machine\<close>

text \<open>An address space none of whose pages is in \<open>W\<close>, while pages of \<open>W\<close> change hands.\<close>

lemma bystander:
  assumes u: "uvm s pt n xs" and o': "outside W s t" and dis: "space s pt n \<inter> W = {}"
    and fr: "kframe s t" and k: "kmem_inv t ys" and W: "set ys \<subseteq> W"
  shows "uvm t pt n ys" and "space t pt n = space s pt n" and "proc_vm s pt n xs \<Longrightarrow> proc_vm t pt n ys"
proof -
  note d = uvmD [OF u] and sk = space_kept [OF u o' dis]
  have "mem t x = mem s x" if "PGROUNDDOWN x \<in> tables (mem s) pt" for x
    using that o' dis unfolding outside_def space_def by blast
  note t = tables_frame(1,2) [OF vm_ok_parts(2) [OF d(1)] this]
  have p: "pgs (mem t) pt 0 n = pgs (mem s) pt 0 n" by (simp add: pgs_def sk(1))
  show sp: "space t pt n = space s pt n" by (simp add: space_def t(2) p)
  have v: "valid_page t z \<longleftrightarrow> valid_page s z" for z by (simp add: kframe_simps(4) [OF fr])
  have "vm_ok t pt ys"
    using k t v vm_ok_parts(3) [OF d(1)] W dis unfolding vm_ok_def space_def by auto
  then show ut: "uvm t pt n ys"
    using d p sk(1) t(2) v W dis kmem_inv_unique unfolding uvm_def freeable_def space_def
    by (auto simp: kmem_inv_def dest: vm_ok_parts(7))
  show "proc_vm s pt n xs \<Longrightarrow> proc_vm t pt n ys" using ut by (simp add: proc_vm_def sk(1))
qed

text \<open>An address space of one page, made by the kernel's own code.\<close>

lemma one_page_space:
  "\<exists>(s :: pmachine) pt xs. proc_vm s pt 1 xs \<and> fresh (mem s) pt 0 1 \<and> 10 \<le> length xs"
proof -
  obtain s0 xs0 where s0: "kmem_inv (s0 :: pmachine) xs0" "100 \<le> length xs0"
    using small_machine_pages by blast
  then have "returns (proc_pagetable 0 s0) (proc_vm_made s0 xs0)" by (intro proc_pagetable_run) simp_all
  then obtain pt and s1 :: pmachine and xs where s1: "proc_vm s1 pt 0 xs" "length xs0 \<le> length xs + 3"
    unfolding proc_vm_made_def by (auto elim!: returnsE)
  have np: "npages 0 = 0" "npages 4096 = 1" by (simp_all add: npages_def)
  have "returns (uvmalloc pt 0 4096 s1) (grow_post s1 pt 0 (allpages s1 pt 0 xs) (length xs) 4096)"
    using uvmalloc_run [of s1 pt 0 xs 4096] s1(1) by (simp add: np proc_vm_def)
  then obtain r s2 where "grow_post s1 pt 0 (allpages s1 pt 0 xs) (length xs) 4096 r s2" by (auto elim!: returnsE)
  then obtain ys zs where s2: "uvm s2 pt 1 ys" "ukeep s1 pt 0 s2" "kmem_inv s2 zs" "length xs \<le> length zs + 3" "fresh (mem s2) pt 0 1"
    using s0(2) s1(2) unfolding grow_post_def uvm_like_def by (auto simp: np)
  have "zs = ys" using s2(3) vm_ok_parts(1) [OF uvmD(1) [OF s2(1)]] by (rule kmem_inv_unique)
  moreover have "proc_vm s2 pt 1 ys"
    using s1(1) s2(1,2) unfolding proc_vm_def ukeep_def by (auto simp: UPAGES_def VPAGES_def)
  ultimately show ?thesis using s0(2) s1(2) s2(4,5) by (intro exI [of _ s2] exI [of _ pt] exI [of _ ys]) simp
qed

text \<open>And a second, empty one beside it.\<close>

lemma two_spaces:
  "\<exists>(s :: pmachine) old new xs. proc_vm s old 1 xs \<and> proc_vm s new 0 xs \<and> space s old 1 \<inter> allpages s new 0 xs = {} \<and>
    3 \<le> length xs"
proof -
  obtain s :: pmachine and pt xs where s: "proc_vm s pt 1 xs" "10 \<le> length xs" using one_page_space by blast
  then have u: "uvm s pt 1 xs" by (simp add: proc_vm_def)
  have "returns (proc_pagetable 0 s) (proc_vm_made s xs)"
    using vm_ok_parts(1) [OF uvmD(1) [OF u]] s(2) by (intro proc_pagetable_run) simp_all
  then obtain new t ys where t: "kframe s t" "outside (set xs) s t" "proc_vm t new 0 ys" "allpages t new 0 ys = set xs"
      "length xs \<le> length ys + 3"
    unfolding proc_vm_made_def by (auto elim!: returnsE)
  have dis: "space s pt 1 \<inter> set xs = {}" using uvmD(8) [OF u] vm_ok_parts(4) [OF uvmD(1) [OF u]] by (auto simp: space_def)
  have "uvm t new 0 ys" using t(3) by (simp add: proc_vm_def)
  then have "kmem_inv t ys" "set ys \<subseteq> set xs"
    using t(4) vm_ok_parts(1) [OF uvmD(1)] by (auto simp: allpages_def)
  note b = bystander [OF u t(2) dis t(1) this]
  show ?thesis using b(2) b(3) [OF s(1)] t(3-5) dis s(2) by (intro exI [of _ t] exI [of _ pt] exI [of _ new] exI [of _ ys]) simp
qed

lemma no_memory:
  assumes "uvm s pt n xs"
  shows "uvm (s\<lparr>freelist := 0\<rparr>) pt n []"
proof -
  have v: "valid_page (s\<lparr>freelist := 0\<rparr>) z = valid_page s z" for z by (simp add: valid_page_def)
  have "kmem_inv (s\<lparr>freelist := 0\<rparr>) []"
    using vm_ok_parts(1) [OF uvmD(1) [OF assms]] by (simp add: kmem_inv_def)
  then show ?thesis
    using assms by (simp add: uvm_def vm_ok_def freeable_def v)
qed

lemma root_table: "pt \<in> tables m pt"
  by (rule tablesI [of "[]"]) simp_all

lemma walk_lookup:
  assumes "uvm s pt n xs" and "va < MAXVA"
  obtains r where "walk pt va False s = Done r s" and "ptmap (mem s) pt (pgno va) = (if r = 0 then 0 else load64 (mem s) r)"
proof (cases "tbl (mem s) pt (vpath 2 va)")
  case None
  then show thesis using assms(2) that by (simp add: walk_find pte_of_ptmap [symmetric] pte_of_def)
next
  case (Some b)
  note ok = uvmD(1) [OF assms(1)]
  have "slot b (ix 0 va) \<noteq> 0"
    using valid_slot_nonzero [OF vm_ok_parts(1) [OF ok]] vm_ok_parts(3) [OF ok] tablesI [OF tpath_vpath(1) Some] by simp
  then show thesis using assms(2) Some that by (simp add: walk_find pte_of_ptmap [symmetric] pte_of_def)
qed

text \<open>Unmapping a page that is not mapped is a panic.\<close>

lemma unmap_invalid:
  assumes u: "uvm s pt n xs" and va: "va < MAXVA" "page_aligned va" and v: "ptmap (mem s) pt (pgno va) AND PTE_V = 0"
  shows "\<exists>msg\<in>{''uvmunmap: walk'', ''uvmunmap: not mapped''}. uvmunmap pt va size' do_free s = Panic msg s"
proof -
  obtain r where r: "walk pt va False s = Done r s" "ptmap (mem s) pt (pgno va) = (if r = 0 then 0 else load64 (mem s) r)"
    using walk_lookup [OF u va(1)] by blast
  have "uvmunmap_loop (Suc f) pt va l do_free s = Panic (if r = 0 then ''uvmunmap: walk'' else ''uvmunmap: not mapped'') s" for f l
    using r v by (cases "r = 0") simp_all
  moreover have "PGROUNDDOWN va = va" using va(2) by (simp add: PGROUNDDOWN_id)
  ultimately have "uvmunmap pt va size' do_free s = Panic (if r = 0 then ''uvmunmap: walk'' else ''uvmunmap: not mapped'') s"
    unfolding uvmunmap_def Let_def Suc_eq_plus1 [symmetric] by (simp only:)
  then show ?thesis by simp
qed

section \<open>What the virtual memory system promises\<close>

text \<open>
  C15: \<open>walk\<close> without allocation is a lookup in the three-level radix tree: on every
  address below \<open>MAXVA\<close> it returns, changes nothing, and gives either null, when no
  leaf table covers the address (the entry then counts as 0), or the address of a word that
  holds exactly the entry the tree has for that page; on an address at or
  above \<open>MAXVA\<close> it panics.
\<close>

theorem walk_looks_up:
  assumes "uvm s pt n xs"
  shows "if va < MAXVA
    then \<exists>r. walk pt va False s = Done r s \<and>
      ptmap (mem s) pt (pgno va) = (if r = 0 then 0 else load64 (mem s) r)
    else walk pt va False s = Panic ''walk'' s"
proof (cases "va < MAXVA")
  case True
  then show ?thesis using walk_lookup [OF assms True] by metis
qed (simp add: walk_def not_less)

theorem walk_looks_up_witness:
  "\<exists>(s :: pmachine) pt xs r. uvm s pt 1 xs \<and> walk pt 17 False s = Done r s \<and> r \<noteq> 0 \<and> is_leaf (load64 (mem s) r)"
proof -
  obtain s :: pmachine and pt xs where u: "uvm s pt 1 xs" using one_page_space by (auto simp: proc_vm_def)
  have "(17 :: u64) < MAXVA" "pgno 17 = 0" by (simp_all add: MAXVA_def pgno_def)
  then obtain r where "walk pt 17 False s = Done r s" "ptmap (mem s) pt 0 = (if r = 0 then 0 else load64 (mem s) r)"
    using walk_looks_up [OF u, of 17] by auto
  then show ?thesis using u uvmD(3) [OF u, of 0] by (auto simp: is_leaf_def split: if_splits)
qed

text \<open>
  C16: \<open>mappages\<close> adds exactly the translations it was asked for. On a range of pages that are
  not mapped it returns; when it returns 0 every page of the range maps to the next page of physical
  memory with the permissions given; when it returns -1 a prefix of the range is mapped and the
  allocator has no page left. Every other translation, and every byte outside the
  table's own pages, is as before.
\<close>

theorem mappages_maps:
  assumes "vm_ok s pt xs" and "p + n \<le> VPAGES" and "0 < n" and "pgno va = p" and "pgno (va + size' - 1) = p + n - 1"
    and free: "\<forall>j<n. ptmap (mem s) pt (p + j) AND PTE_V = 0"
  shows "\<exists>r s' k ys. mappages pt va size' pa perm s = Done r s' \<and> (r = 0 \<and> k = n \<or> r = -1 \<and> k < n \<and> ys = []) \<and>
    vm_ok s' pt ys \<and>
    (\<forall>q<VPAGES. ptmap (mem s') pt q =
      (if p \<le> q \<and> q < p + k then PA2PTE (pa + vaddr (q - p)) OR perm OR PTE_V else ptmap (mem s) pt q)) \<and>
    (\<forall>x. PGROUNDDOWN x \<notin> tables (mem s') pt \<longrightarrow> mem s' x = mem s x)"
proof -
  obtain r s' where r: "mappages pt va size' pa perm s = Done r s'" "map_post s pt xs p n (map_pte pa perm) r s'"
    using mappages_run [OF assms(1-5), of pa perm] free by (auto elim!: returnsE)
  then obtain k ys where k: "remapped s pt xs (setrange (ptmap (mem s) pt) p k (map_pte pa perm)) s' ys"
      "r = 0 \<and> k = n \<or> r = -1 \<and> k < n \<and> ys = []"
    unfolding map_post_def by (auto split: if_splits)
  then show ?thesis
    using r(1) unfolding remapped_def by (intro exI [of _ r] exI [of _ s'] exI [of _ k] exI [of _ ys]) (simp add: setrange_def map_pte_def)
qed

theorem mappages_maps_witness:
  "\<exists>(s :: pmachine) pt xs r s' k. vm_ok s pt xs \<and> mappages pt 0x5000 0x2000 0x80100000 (PTE_R OR PTE_U) s = Done r s' \<and>
    (\<forall>q<VPAGES. 7 \<le> q \<longrightarrow> ptmap (mem s') pt q = ptmap (mem s) pt q)"
proof -
  obtain s :: pmachine and pt xs where u: "uvm s pt 1 xs" using one_page_space by (auto simp: proc_vm_def)
  have free: "\<forall>j<2. ptmap (mem s) pt (5 + j) AND PTE_V = 0" using uvmD(4) [OF u] by (simp add: UPAGES_def VPAGES_def)
  have pg: "5 + 2 \<le> VPAGES" "pgno 0x5000 = 5" "pgno (0x5000 + 0x2000 - 1) = 5 + 2 - 1" by (simp_all add: pgno_def VPAGES_def)
  obtain r s' k ys where "mappages pt 0x5000 0x2000 0x80100000 (PTE_R OR PTE_U) s = Done r s'" "r = 0 \<and> k = 2 \<or> r = -1 \<and> k < 2 \<and> ys = []"
      and m: "\<forall>q<VPAGES. ptmap (mem s') pt q = (if 5 \<le> q \<and> q < 5 + k
        then PA2PTE (0x80100000 + vaddr (q - 5)) OR (PTE_R OR PTE_U) OR PTE_V else ptmap (mem s) pt q)"
    using mappages_maps [OF uvmD(1) [OF u] pg(1) _ pg(2,3) free, of "0x80100000" "PTE_R OR PTE_U"] by auto
  moreover have "\<forall>q<VPAGES. 7 \<le> q \<longrightarrow> ptmap (mem s') pt q = ptmap (mem s) pt q"
    using m calculation(2) by auto
  ultimately show ?thesis using uvmD(1) [OF u] by blast
qed

text \<open>
  C17: growing an address space. \<open>uvmalloc\<close>, asked to grow a well-formed address
  space of \<open>oldsz\<close> bytes to \<open>newsz\<close>, returns for every \<open>newsz\<close>, even beyond \<open>MAXVA\<close> or the size of
  memory. Either it returns \<open>newsz\<close> and the pages added are mapped, user-accessible
  and zero, or it returns 0, the address space is as it was, and fewer than three pages per
  page requested were free. In both cases the old pages keep
  their bytes, no page is lost between the allocator and the address space, and
  no byte outside the pages of those two is written.
\<close>

theorem uvmalloc_grows:
  assumes "uvm s pt (npages oldsz) xs" and "oldsz \<le> newsz"
  shows "returns (uvmalloc pt oldsz newsz s) (\<lambda>r s'.
    let n = npages oldsz; W = allpages s pt n xs in
    r = newsz \<and> uvm_like s pt n W (max n (npages newsz)) s' \<and> fresh (mem s') pt n (npages newsz) \<or>
    r = 0 \<and> uvm_like s pt n W n s' \<and> length xs < 3 * (npages newsz - n))"
  using uvmalloc_run [OF assms] by (rule returns_mono) (auto simp: grow_post_def Let_def)

theorem uvmalloc_grows_witness:
  "\<exists>(s :: pmachine) pt xs s'. uvm s pt 1 xs \<and> uvmalloc pt 4000 5000 s = Done 5000 s' \<and> fresh (mem s') pt 1 2"
proof -
  obtain s :: pmachine and pt xs where s: "proc_vm s pt 1 xs" "10 \<le> length xs" using one_page_space by blast
  have np: "npages 4000 = 1" "npages 5000 = 2" by (simp_all add: npages_def)
  have "uvm s pt (npages 4000) xs" using s(1) by (simp add: np proc_vm_def)
  from uvmalloc_grows [OF this, of 5000] show ?thesis
    using s by (fastforce simp: np proc_vm_def elim!: returnsE)
qed

end
