(* ===== verification/Isolation.thy ===== *)
theory Isolation
  imports Procvm
begin

text \<open>
  The promises of \<open>kernel/vm.c\<close> and of the page table functions of
  \<open>kernel/proc.c\<close> that concern whole address spaces: shrinking, copying for \<open>fork\<close>,
  freeing, the life of an address space from creation to release, and
  that work on one address space leaves every other one alone. Two theorems
  record the paths on which the code does not keep its promise.
\<close>

section \<open>Shrinking\<close>

text \<open>
  C18: \<open>uvmdealloc\<close> gives back exactly the pages above the new size: it returns the
  new size, or the old one when there is nothing to give back; the address space is
  then one of the smaller number of pages, which are unchanged, and the pages taken
  away are on the free list.
\<close>

theorem uvmdealloc_shrinks:
  assumes u: "uvm s pt (npages oldsz) xs"
  shows "returns (uvmdealloc pt oldsz newsz s) (\<lambda>r s'.
    let n = npages oldsz; k = min n (npages newsz) in
    r = min oldsz newsz \<and> ukeep s pt k s' \<and>
    (\<exists>ys. uvm s' pt k ys \<and> set ys = set xs \<union> set (pgs (mem s) pt k (n - k))))"
proof -
  show ?thesis
    using uvmdealloc_run [OF u, of newsz]
  proof (rule returns_mono)
    fix r s' assume post: "if oldsz \<le> newsz then r = oldsz \<and> s' = s
      else r = newsz \<and> shrunk s pt (npages oldsz) xs (npages newsz) s'"
    show "let n = npages oldsz; k = min n (npages newsz) in
      r = min oldsz newsz \<and> ukeep s pt k s' \<and>
      (\<exists>ys. uvm s' pt k ys \<and> set ys = set xs \<union> set (pgs (mem s) pt k (n - k)))"
    proof (cases "oldsz \<le> newsz")
      case True
      then have "min (npages oldsz) (npages newsz) = npages oldsz" using npages_mono by simp
      then show ?thesis using True post u by (auto simp: Let_def pgs_def)
    next
      case False
      then have le: "npages newsz \<le> npages oldsz" "newsz \<le> oldsz" using npages_mono by simp_all
      have sh: "shrunk s pt (npages oldsz) xs (npages newsz) s'" using False post by simp
      note sk = uvm_shrink [OF u le(1) sh [unfolded shrunk_def]]
      have "ukeep s pt (npages newsz) s'" using sk(3-5) sh by (simp add: ukeep_def shrunk_def unmapped_def)
      moreover have "min (npages oldsz) (npages newsz) = npages newsz" using le(1) by simp
      ultimately show ?thesis using False post sk(1) le(2) by (auto simp: Let_def)
    qed
  qed
qed

theorem uvmdealloc_shrinks_witness:
  "\<exists>(s :: pmachine) pt xs s' ys. uvm s pt 1 xs \<and> uvmdealloc pt 4096 0 s = Done 0 s' \<and> uvm s' pt 0 ys \<and>
    set ys = insert (PTE2PA (ptmap (mem s) pt 0)) (set xs)"
proof -
  obtain s :: pmachine and pt xs where u: "uvm s pt 1 xs" using one_page_space by (auto simp: proc_vm_def)
  have np: "npages 4096 = 1" "npages 0 = 0" by (simp_all add: npages_def)
  have "uvm s pt (npages 4096) xs" using u by (simp add: np)
  from uvmdealloc_shrinks [OF this, of 0] show ?thesis
    using u by (fastforce simp: np pgs_def elim!: returnsE)
qed

section \<open>Copying\<close>

text \<open>
  C19: what \<open>fork\<close> needs of \<open>uvmcopy\<close>. With at least three free pages it
  returns; on 0 the child has every page of the parent, byte for byte and with the same permissions,
  in pages of its own; on -1 the child is empty again and memory was short. The parent's
  address space is untouched, and no page is lost.
\<close>

theorem uvmcopy_copies:
  assumes uo: "uvm s old (npages size') xs" and un: "uvm s new 0 xs"
    and dis: "space s old (npages size') \<inter> allpages s new 0 xs = {}" and "3 \<le> length xs"
  shows "returns (uvmcopy old new size' s) (\<lambda>r s'.
    let n = npages size'; W = allpages s new 0 xs in
    (r = 0 \<and> uvm_like s new 0 W n s' \<and>
       (\<forall>j<n. upage (mem s') new j = upage (mem s) old j \<and>
         PTE_FLAGS (ptmap (mem s') new j) = PTE_FLAGS (ptmap (mem s) old j)) \<or>
     r = -1 \<and> uvm_like s new 0 W 0 s' \<and> length xs < 3 * n) \<and>
    (\<forall>j. ptmap (mem s') old j = ptmap (mem s) old j) \<and> (\<forall>j<n. upage (mem s') old j = upage (mem s) old j))"
  using uvmcopy_run [OF assms]
proof (rule returns_mono)
  let ?W = "allpages s new 0 xs"
  fix r s' assume post: "copy_post s old (npages size') new ?W (length xs) r s'"
  then have "outside ?W s s'" unfolding copy_post_def uvm_like_def by auto
  note keep = space_kept(1,3) [OF uo this dis]
  show "let n = npages size'; W = ?W in
    (r = 0 \<and> uvm_like s new 0 W n s' \<and>
       (\<forall>j<n. upage (mem s') new j = upage (mem s) old j \<and>
         PTE_FLAGS (ptmap (mem s') new j) = PTE_FLAGS (ptmap (mem s) old j)) \<or>
     r = -1 \<and> uvm_like s new 0 W 0 s' \<and> length xs < 3 * n) \<and>
    (\<forall>j. ptmap (mem s') old j = ptmap (mem s) old j) \<and> (\<forall>j<n. upage (mem s') old j = upage (mem s) old j)"
    using post keep unfolding Let_def copy_post_def copied_def by auto
qed

theorem uvmcopy_copies_witness:
  "\<exists>(s :: pmachine) old new xs s'. uvm s old 1 xs \<and> uvm s new 0 xs \<and> uvmcopy old new 4096 s = Done 0 s' \<and>
    upage (mem s') new 0 = upage (mem s) old 0"
proof -
  obtain s :: pmachine and old new xs where s: "uvm s old 1 xs" "uvm s new 0 xs"
      "space s old 1 \<inter> allpages s new 0 xs = {}" "3 \<le> length xs"
    using two_spaces by (auto simp: proc_vm_def)
  have np: "npages 4096 = 1" by (simp add: npages_def)
  have u: "uvm s old (npages 4096) xs" "space s old (npages 4096) \<inter> allpages s new 0 xs = {}" using s(1,3) by (simp_all add: np)
  obtain r s' where "uvmcopy old new 4096 s = Done r s'" "r = 0" "upage (mem s') new 0 = upage (mem s) old 0"
    using uvmcopy_copies [OF u(1) s(2) u(2) s(4)] s(4) by (auto simp: np elim!: returnsE)
  then show ?thesis using s(1,2) by blast
qed

text \<open>
  C20: the failure path of \<open>uvmcopy\<close> for the first page. When no page is free at all,
  \<open>uvmcopy\<close> does not return -1 to \<open>fork\<close>: it calls \<open>uvmunmap(new, 0, 0, 1)\<close>,
  whose range of 0 bytes wraps around, and the kernel panics.
\<close>

theorem uvmcopy_first_page_panics:
  assumes uo: "uvm s old (npages size') []" and un: "uvm s new 0 []" and sz: "0 < size'"
  shows "\<exists>msg\<in>{''uvmunmap: walk'', ''uvmunmap: not mapped''}. uvmcopy old new size' s = Panic msg s"
proof -
  have k: "0 < npages size'" using sz by (simp add: npages_def word_less_nat_alt div_greater_zero_iff)
  have "kalloc s = Done 0 s" using vm_ok_parts(1) [OF uvmD(1) [OF uo]] by (simp add: kalloc_empty)
  then have "uvmcopy_loop (Suc (Suc (unat size' div 4096))) old new (vaddr 0) size' s =
      bindk (uvmunmap new 0 (vaddr 0) True s) (\<lambda>_ s. Done (-1) s)"
    using sz by (intro uvmcopy_out_of_memory [OF uo _ k un, of "{}"]) (simp_all add: vaddr_def)
  moreover have "vaddr 0 = 0" by (simp add: vaddr_def)
  ultimately have c: "uvmcopy old new size' s = bindk (uvmunmap new 0 0 True s) (\<lambda>_ s. Done (-1) s)"
    by (simp add: uvmcopy_def)
  have "ptmap (mem s) new (pgno 0) AND PTE_V = 0" using uvmD(4) [OF un, of 0] by (simp add: UPAGES_def VPAGES_def pgno_def)
  then have "\<exists>msg\<in>{''uvmunmap: walk'', ''uvmunmap: not mapped''}. uvmunmap new 0 0 True s = Panic msg s"
    using unmap_invalid [OF un, of 0 0 True] by (simp add: MAXVA_def page_aligned_def)
  then show ?thesis by (auto simp: c)
qed

theorem uvmcopy_first_page_panics_witness:
  "\<exists>(s :: pmachine) old new msg. uvm s old 1 [] \<and> uvm s new 0 [] \<and> uvmcopy old new 4096 s = Panic msg s"
proof -
  obtain s :: pmachine and old new xs where s: "uvm s old 1 xs" "uvm s new 0 xs"
    using two_spaces by (auto simp: proc_vm_def)
  have np: "npages 4096 = 1" by (simp add: npages_def)
  have "uvm (s\<lparr>freelist := 0\<rparr>) old (npages 4096) []" "uvm (s\<lparr>freelist := 0\<rparr>) new 0 []"
    using s no_memory by (simp_all add: np)
  from uvmcopy_first_page_panics [OF this] this show ?thesis unfolding np by auto
qed

section \<open>Freeing\<close>

text \<open>
  C21: \<open>proc_freepagetable\<close> on a process of at least one byte gives
  every page back: afterwards the free list holds what it held, the process's pages and all its page table
  pages, and no other byte of memory has changed. The trampoline and the trapframe,
  which the table also maps, are not freed.
\<close>

theorem proc_freepagetable_reclaims:
  assumes "proc_vm s pt (npages sz') xs" and "0 < sz'"
  shows "returns (proc_freepagetable pt sz' s) (\<lambda>_ s'. \<exists>ys. kmem_inv s' ys \<and>
    set ys = set xs \<union> tables (mem s) pt \<union> set (pgs (mem s) pt 0 (npages sz')) \<and>
    (\<forall>x. PGROUNDDOWN x \<notin> set ys \<longrightarrow> mem s' x = mem s x))"
  using proc_freepagetable_run [OF assms] by (rule returns_mono) (auto simp: reclaimed_def allpages_def outside_def)

theorem proc_freepagetable_reclaims_witness:
  "\<exists>(s :: pmachine) pt xs s' ys. proc_vm s pt 1 xs \<and> proc_freepagetable pt 4096 s = Done () s' \<and> kmem_inv s' ys \<and> pt \<in> set ys"
proof -
  obtain s :: pmachine and pt xs where s: "proc_vm s pt 1 xs" using one_page_space by blast
  have np: "npages 4096 = 1" by (simp add: npages_def)
  have "proc_vm s pt (npages 4096) xs" "pt \<in> tables (mem s) pt" using s by (simp_all add: np root_table)
  moreover obtain s' ys where "proc_freepagetable pt 4096 s = Done () s'" "kmem_inv s' ys"
      "set ys = set xs \<union> tables (mem s) pt \<union> set (pgs (mem s) pt 0 (npages 4096))"
    using proc_freepagetable_reclaims [OF calculation(1)] by (auto elim!: returnsE)
  ultimately show ?thesis using s by blast
qed

text \<open>
  C22: on a process of size 0 it does not. \<open>proc_freepagetable\<close> then returns without
  calling \<open>uvmfree\<close>: the free list is the same as before, and the pages of the page table, its root among them,
  are owned by no one. Both \<open>fork\<close>, when copying memory fails, and \<open>exec\<close>, when
  it fails before the first segment, come here.
\<close>

theorem proc_freepagetable_leaks:
  fixes s :: "'z pmachine_scheme"
  assumes p: "proc_vm s pt 0 xs"
  shows "\<exists>s'. proc_freepagetable pt 0 s = Done () s' \<and> kmem_inv s' xs \<and>
    pt \<in> tables (mem s) pt \<and> tables (mem s) pt \<inter> set xs = {}"
proof -
  obtain t where t: "proc_freepagetable pt 0 s = (if 0 < (0 :: u64) then uvmfree pt 0 t else Done () t)" "uvm t pt 0 xs"
    using unmap_both [OF p, of 0] by blast
  have "vm_ok s pt xs" using p uvmD(1) by (auto simp: proc_vm_def)
  then show ?thesis
    using t vm_ok_parts(1) [OF uvmD(1) [OF t(2)]] vm_ok_parts(4) by (auto simp: root_table)
qed

theorem proc_freepagetable_leaks_witness:
  "\<exists>(s :: pmachine) pt xs s'. proc_vm s pt 0 xs \<and> proc_freepagetable pt 0 s = Done () s' \<and> kmem_inv s' xs \<and> pt \<notin> set xs"
  using two_spaces proc_freepagetable_leaks by blast

end
