(* ===== verification/Usercopy.thy ===== *)
theory Usercopy
  imports Procvm
begin

text \<open>
  \<open>copyout\<close> and \<open>copyin\<close> of \<open>kernel/vm.c\<close>: the kernel's accesses to user memory go through the
  page table of the process, page by page. User addresses are natural numbers here;
  \<open>ubyte m pt a\<close> is the byte a process with page table \<open>pt\<close> has at address \<open>a\<close>.
\<close>

definition phys :: "memory \<Rightarrow> u64 \<Rightarrow> nat \<Rightarrow> u64" where
  "phys m pt a = PTE2PA (ptmap m pt (a div 4096)) + of_nat (a mod 4096)"

definition ubyte :: "memory \<Rightarrow> u64 \<Rightarrow> nat \<Rightarrow> u8" where
  "ubyte m pt a = m (phys m pt a)"

definition upage_ok :: "memory \<Rightarrow> u64 \<Rightarrow> nat \<Rightarrow> nat \<Rightarrow> bool" where
  "upage_ok m pt n j \<longleftrightarrow> j < n \<and> ptmap m pt j AND PTE_U \<noteq> 0"

definition accessible :: "memory \<Rightarrow> u64 \<Rightarrow> nat \<Rightarrow> nat \<Rightarrow> nat \<Rightarrow> bool" where
  "accessible m pt n a len \<longleftrightarrow> (\<forall>b. a \<le> b \<longrightarrow> b < a + len \<longrightarrow> upage_ok m pt n (b div 4096))"

lemma walkaddr_user:
  assumes u: "uvm s pt n xs" and j: "j < UPAGES"
  shows "walkaddr pt (vaddr j) s = Done (if upage_ok (mem s) pt n j then PTE2PA (ptmap (mem s) pt j) else 0) s"
proof -
  have jV: "j < VPAGES" using j by (simp add: UPAGES_def)
  obtain r where r: "walk pt (vaddr j) False s = Done r s"
      "ptmap (mem s) pt (pgno (vaddr j)) = (if r = 0 then 0 else load64 (mem s) r)"
    using walk_lookup [OF u vaddr_MAXVA [OF jV]] by blast
  have e: "ptmap (mem s) pt j = (if r = 0 then 0 else load64 (mem s) r)" using r(2) jV by simp
  have v: "ptmap (mem s) pt j AND PTE_V \<noteq> 0 \<longleftrightarrow> j < n"
    using uvmD(3) [OF u, of j] uvmD(4) [OF u, of j] j by (cases "j < n") (simp_all add: is_leaf_def)
  have "\<not> MAXVA \<le> vaddr j" using vaddr_MAXVA [OF jV] by simp
  then have w: "walkaddr pt (vaddr j) s = (if r = 0 then Done 0 s else if load64 (mem s) r AND PTE_V = 0 then Done 0 s
      else if load64 (mem s) r AND PTE_U = 0 then Done 0 s else Done (PTE2PA (load64 (mem s) r)) s)"
    using r(1) by (simp add: walkaddr_def)
  show ?thesis
  proof (cases "r = 0")
    case True
    then show ?thesis using w e v by (simp add: upage_ok_def)
  next
    case False
    then have "load64 (mem s) r = ptmap (mem s) pt j" using e by simp
    then show ?thesis using w v False by (auto simp: upage_ok_def)
  qed
qed

lemma offset_sum:
  assumes "unat (y :: u64) + d \<le> 4096"
  shows "unat (y + of_nat d) = unat y + d"
  using assms by (simp add: unat_word_ariths unat_of_nat_u64)

lemma offset_less:
  assumes "c < 4096" and "d + k \<le> 4096"
  shows "unat (of_nat c - of_nat d :: u64) < k \<longleftrightarrow> d \<le> c \<and> c < d + k"
proof (cases "d \<le> c")
  case True
  then have "unat (of_nat c - of_nat d :: u64) = unat (of_nat (c - d) :: u64)" by simp
  also have "\<dots> = c - d" using assms by (intro unat_of_nat_u64) simp
  finally show ?thesis using True by auto
next
  case False
  have "unat (of_nat c - of_nat d :: u64) \<noteq> e" if "e < k" for e
  proof
    assume e: "unat (of_nat c - of_nat d :: u64) = e"
    have "of_nat c = (of_nat c - of_nat d :: u64) + of_nat d" by simp
    then have "c = e + d"
      using offset_sum [of "of_nat c - of_nat d :: u64" d] e that assms unat_of_nat_u64 [of c] by simp
    then show False using False by simp
  qed
  then show ?thesis using False by blast
qed

lemma phys_page: "PGROUNDDOWN (phys m pt a) = PTE2PA (ptmap m pt (a div 4096))"
proof -
  have "in_range (phys m pt a) (PTE2PA (ptmap m pt (a div 4096))) 4096"
    by (simp add: phys_def in_range_def unat_of_nat_u64)
  then show ?thesis by (simp add: in_page_iff)
qed

text \<open>Writing into a user page changes the bytes written and no others.\<close>

lemma store_user:
  assumes u: "uvm s pt n xs" and a: "a div 4096 < n" "a mod 4096 + length bs \<le> 4096"
  defines "m' \<equiv> store_bytes (mem s) (phys (mem s) pt a) bs"
  shows "uvm (s\<lparr>mem := m'\<rparr>) pt n xs" and "ptmap m' pt = ptmap (mem s) pt"
    and "b < 4096 * n \<Longrightarrow> ubyte m' pt b = (if a \<le> b \<and> b < a + length bs then bs ! (b - a) else ubyte (mem s) pt b)"
    and "PGROUNDDOWN x \<notin> set (pgs (mem s) pt 0 n) \<Longrightarrow> m' x = mem s x"
proof -
  let ?z = "PTE2PA (ptmap (mem s) pt (a div 4096))"
  note d = uvmD [OF u]
  have z: "?z \<in> set (pgs (mem s) pt 0 n)" using a(1) by (intro in_pgs) simp_all
  have out: "m' x = mem s x" if "PGROUNDDOWN x \<noteq> ?z" for x
  proof -
    have "\<not> in_range x (phys (mem s) pt a) (length bs)"
    proof
      assume r: "in_range x (phys (mem s) pt a) (length bs)"
      have "x - ?z = (x - phys (mem s) pt a) + of_nat (a mod 4096)" by (simp add: phys_def)
      moreover have "unat (x - phys (mem s) pt a) + a mod 4096 \<le> 4096" using r a(2) by (simp add: in_range_def)
      ultimately have "unat (x - ?z) = unat (x - phys (mem s) pt a) + a mod 4096" by (simp only: offset_sum)
      then have "in_range x ?z 4096" using r a(2) by (simp add: in_range_def)
      then show False using that by (simp add: in_page_iff)
    qed
    then show ?thesis by (simp add: m'_def)
  qed
  show "m' x = mem s x" if "PGROUNDDOWN x \<notin> set (pgs (mem s) pt 0 n)" for x
    by (rule out) (use that z in auto)
  have tz: "?z \<notin> tables (mem s) pt" "?z \<notin> set xs" using d(6) [OF z] d(8) z by auto
  have same: "m' x = mem s x" if "PGROUNDDOWN x \<in> tables (mem s) pt \<union> set xs" for x
    by (rule out) (use that tz in auto)
  have ok: "vm_ok (s\<lparr>mem := m'\<rparr>) pt xs" by (rule vm_ok_frame [OF d(1) same])
  have t: "tables m' pt = tables (mem s) pt" by (rule tables_frame(2) [OF vm_ok_parts(2) [OF d(1)] same [OF UnI1]])
  have "pte_of m' pt va = pte_of (mem s) pt va" for va by (rule tables_frame(3) [OF vm_ok_parts(2) [OF d(1)] same [OF UnI1]])
  then show pm: "ptmap m' pt = ptmap (mem s) pt" by (simp add: ptmap_def fun_eq_iff)
  have "pgs m' pt 0 n = pgs (mem s) pt 0 n" by (simp add: pgs_def pm)
  then have "freeable (s\<lparr>mem := m'\<rparr>) pt xs (pgs m' pt 0 n)" using u by (simp add: uvm_def freeable_def t)
  then show "uvm (s\<lparr>mem := m'\<rparr>) pt n xs" using ok u by (simp add: uvm_def pm)
  show "ubyte m' pt b = (if a \<le> b \<and> b < a + length bs then bs ! (b - a) else ubyte (mem s) pt b)" if b: "b < 4096 * n"
  proof (cases "b div 4096 = a div 4096")
    case True
    have dm: "c = 4096 * (c div 4096) + c mod 4096" for c :: nat by simp
    have ab: "a = 4096 * (a div 4096) + a mod 4096" "b = 4096 * (a div 4096) + b mod 4096" using dm [of a] dm [of b] True by simp_all
    have in': "a \<le> b \<and> b < a + length bs \<longleftrightarrow> a mod 4096 \<le> b mod 4096 \<and> b mod 4096 < a mod 4096 + length bs"
      using ab by linarith
    have e: "phys (mem s) pt b - phys (mem s) pt a = of_nat (b mod 4096) - of_nat (a mod 4096)" using True by (simp add: phys_def)
    have l: "unat (of_nat (b mod 4096) - of_nat (a mod 4096) :: u64) < length bs \<longleftrightarrow> a \<le> b \<and> b < a + length bs"
      unfolding in' by (rule offset_less [OF _ a(2)]) simp
    have "unat (of_nat (b mod 4096) - of_nat (a mod 4096) :: u64) = b - a" if "a \<le> b"
    proof -
      have le: "a mod 4096 \<le> b mod 4096" "b mod 4096 - a mod 4096 = b - a" using ab that by linarith+
      have "(of_nat (b mod 4096) - of_nat (a mod 4096) :: u64) = of_nat (b - a)" unfolding le(2) [symmetric] using le(1) by simp
      moreover have "b - a < 4096" unfolding le(2) [symmetric] by (simp add: less_imp_diff_less)
      ultimately show ?thesis by (simp add: unat_of_nat_u64)
    qed
    then show ?thesis unfolding ubyte_def phys_def [of m'] pm using l e by (simp add: m'_def store_bytes_def phys_def)
  next
    case False
    have nb: "\<not> (a \<le> b \<and> b < a + length bs)"
    proof
      assume ab: "a \<le> b \<and> b < a + length bs"
      have "a = 4096 * (a div 4096) + a mod 4096" by simp
      then have "4096 * (a div 4096) \<le> b" "b < 4096 * (a div 4096) + 4096" using ab a(2) by linarith+
      then have "b div 4096 = a div 4096" by (intro div_nat_eqI) (simp_all add: mult.commute)
      then show False using False by simp
    qed
    have "PTE2PA (ptmap (mem s) pt (b div 4096)) \<noteq> ?z"
    proof -
      have "b div 4096 < n" using b by (simp add: less_mult_imp_div_less mult.commute)
      then show ?thesis using d(7) False a(1) by (auto simp: pgs_def distinct_map inj_on_def)
    qed
    then have "m' (phys (mem s) pt b) = mem s (phys (mem s) pt b)" by (intro out) (simp add: phys_page)
    then show ?thesis unfolding if_not_P [OF nb] by (simp add: ubyte_def phys_def pm)
  qed
qed

section \<open>Copying\<close>

lemma accessible_Suc:
  assumes "0 < k" and "a mod 4096 + k \<le> 4096" and "k \<le> len" and "k < len \<longrightarrow> a + k = 4096 * Suc (a div 4096)"
  shows "accessible m pt n a len \<longleftrightarrow> upage_ok m pt n (a div 4096) \<and> accessible m pt n (4096 * Suc (a div 4096)) (len - k)"
proof -
  have a: "a = 4096 * (a div 4096) + a mod 4096" by simp
  have low: "b div 4096 = a div 4096" if "a \<le> b" "b < a + k" for b
  proof -
    have "4096 * (a div 4096) \<le> b" "b < 4096 * (a div 4096) + 4096" using that a assms(2) by linarith+
    then show ?thesis by (intro div_nat_eqI) (simp_all add: mult.commute)
  qed
  show ?thesis
  proof
    assume acc: "accessible m pt n a len"
    then have "upage_ok m pt n (a div 4096)" using assms(1,3) by (simp add: accessible_def)
    moreover have "accessible m pt n (4096 * Suc (a div 4096)) (len - k)"
    proof (cases "k < len")
      case True
      then have P: "4096 * Suc (a div 4096) = a + k" using assms(4) by simp
      show ?thesis unfolding P accessible_def
      proof (intro allI impI)
        fix b
        assume "a + k \<le> b" "b < a + k + (len - k)"
        then have "a \<le> b" "b < a + len" using True by simp_all
        then show "upage_ok m pt n (b div 4096)" using acc by (simp add: accessible_def)
      qed
    next
      case False
      then show ?thesis by (simp add: accessible_def)
    qed
    ultimately show "upage_ok m pt n (a div 4096) \<and> accessible m pt n (4096 * Suc (a div 4096)) (len - k)" by simp
  next
    assume r: "upage_ok m pt n (a div 4096) \<and> accessible m pt n (4096 * Suc (a div 4096)) (len - k)"
    show "accessible m pt n a len"
      unfolding accessible_def
    proof (intro allI impI)
      fix b
      assume b: "a \<le> b" "b < a + len"
      show "upage_ok m pt n (b div 4096)"
      proof (cases "b < a + k")
        case True
        then show ?thesis using r unfolding low [OF b(1) True] by blast
      next
        case False
        then have P: "4096 * Suc (a div 4096) = a + k" "k < len" using b(2) assms(4) by simp_all
        then show ?thesis using r [unfolded P(1)] b False by (simp add: accessible_def)
      qed
    qed
  qed
qed

definition copied :: "'z kmachine_scheme \<Rightarrow> u64 \<Rightarrow> nat \<Rightarrow> u64 list \<Rightarrow> nat \<Rightarrow> u8 list \<Rightarrow> memory \<Rightarrow> bool" where
  "copied s pt n xs a src m \<longleftrightarrow> uvm (s\<lparr>mem := m\<rparr>) pt n xs \<and> ptmap m pt = ptmap (mem s) pt \<and>
    (accessible (mem s) pt n a (length src) \<longrightarrow>
      (\<forall>b<4096 * n. ubyte m pt b = (if a \<le> b \<and> b < a + length src then src ! (b - a) else ubyte (mem s) pt b))) \<and>
    (\<forall>x. PGROUNDDOWN x \<notin> set (pgs (mem s) pt 0 n) \<longrightarrow> m x = mem s x)"

lemma copyout_run:
  assumes "uvm s pt n xs" and "unat va + length src \<le> 4096 * UPAGES"
  shows "\<exists>m. copyout pt va src s = Done (if accessible (mem s) pt n (unat va) (length src) then 0 else -1) (s\<lparr>mem := m\<rparr>) \<and>
    copied s pt n xs (unat va) src m"
  using assms
proof (induction "length src" arbitrary: va src s rule: less_induct)
  case less
  let ?a = "unat va" let ?j = "?a div 4096" let ?o = "?a mod 4096"
  show ?case
  proof (cases "src = []")
    case True
    then show ?thesis using less.prems
      by (intro exI [of _ "mem s"]) (auto simp: copyout.simps [of _ _ "[]"] accessible_def copied_def)
  next
    case False
    have a: "?a = 4096 * ?j + ?o" "?o < 4096" by simp_all
    have "0 < length src" using False by simp
    then have j: "?j < UPAGES" using less.prems(2) by (intro less_mult_imp_div_less) linarith
    have va0: "PGROUNDDOWN va = vaddr ?j" by (simp add: PGROUNDDOWN_vaddr pgno_def)
    define k where "k = (if length src < 4096 - ?o then length src else 4096 - ?o)"
    have k: "0 < k" "?o + k \<le> 4096" "k \<le> length src" "k < length src \<longrightarrow> ?a + k = 4096 * Suc ?j"
    proof -
      show "0 < k" "?o + k \<le> 4096" "k \<le> length src" using False a(2) by (auto simp: k_def)
      have "k < length src \<longrightarrow> ?o + k = 4096" using a(2) by (auto simp: k_def)
      moreover have "4096 * Suc ?j = 4096 * ?j + 4096" by simp
      ultimately show "k < length src \<longrightarrow> ?a + k = 4096 * Suc ?j" using a(1) by linarith
    qed
    note acc = accessible_Suc [OF k, where m = "mem s" and pt = pt and n = n]
    let ?z = "PTE2PA (ptmap (mem s) pt ?j)"
    have off: "va - PGROUNDDOWN va = of_nat ?o" using page_offset [of va] by (metis of_nat_unat)
    show ?thesis
    proof (cases "upage_ok (mem s) pt n ?j")
      case bad: False
      have "copyout pt va src s = Done (-1) s"
        using False walkaddr_user [OF less.prems(1) j] bad by (simp add: copyout.simps [of _ va] va0)
      then show ?thesis using bad acc less.prems(1)
        by (intro exI [of _ "mem s"]) (simp add: copied_def)
    next
      case ok: True
      let ?bs = "take k src" and ?m = "store_bytes (mem s) (phys (mem s) pt ?a) (take k src)"
      have jn: "?j < n" using ok by (simp add: upage_ok_def)
      have lb: "length ?bs = k" using k(3) by simp
      note st = store_user [OF less.prems(1) jn, of ?bs, unfolded lb, OF k(2)]
      have "?z \<noteq> 0"
        using valid_page_nonzero [OF vm_ok_parts(1) [OF uvmD(1) [OF less.prems(1)]] uvmD(5) [OF less.prems(1) in_pgs [of 0 ?j n]]] jn by simp
      then have run: "copyout pt va src s = copyout pt (vaddr (Suc ?j)) (drop k src) (s\<lparr>mem := ?m\<rparr>)"
        unfolding copyout.simps [of pt va src s] Let_def page_offset k_def [symmetric]
        using False walkaddr_user [OF less.prems(1) j] ok off va0 by (simp add: phys_def vaddr_Suc)
      have un: "unat (vaddr (Suc ?j)) = 4096 * Suc ?j" using j by (intro unat_vaddr) (simp add: UPAGES_def)
      have "unat (vaddr (Suc ?j)) + length (drop k src) \<le> 4096 * UPAGES"
        using less.prems(2) k(3,4) j unfolding un by (cases "k < length src") auto
      from less.hyps [OF _ st(1) this] obtain m where
          m: "copyout pt (vaddr (Suc ?j)) (drop k src) (s\<lparr>mem := ?m\<rparr>) =
            Done (if accessible ?m pt n (4096 * Suc ?j) (length src - k) then 0 else -1) (s\<lparr>mem := m\<rparr>)"
          "copied (s\<lparr>mem := ?m\<rparr>) pt n xs (4096 * Suc ?j) (drop k src) m"
        using k(1) False unfolding un by auto
      have ac: "accessible ?m pt n = accessible (mem s) pt n" by (simp add: accessible_def upage_ok_def st(2) fun_eq_iff)
      have "copied s pt n xs ?a src m"
        unfolding copied_def
      proof (intro conjI allI impI)
        show "uvm (s\<lparr>mem := m\<rparr>) pt n xs" "ptmap m pt = ptmap (mem s) pt" using m(2) st(2) by (simp_all add: copied_def)
        have "pgs ?m pt 0 n = pgs (mem s) pt 0 n" by (simp add: pgs_def st(2))
        then show "m x = mem s x" if "PGROUNDDOWN x \<notin> set (pgs (mem s) pt 0 n)" for x
          using m(2) st(4) [OF that] that by (simp add: copied_def)
        fix b
        assume acs: "accessible (mem s) pt n ?a (length src)" and b: "b < 4096 * n"
        have "accessible ?m pt n (4096 * Suc ?j) (length (drop k src))" using acs acc unfolding ac by simp
        then have up: "ubyte m pt b = (if 4096 * Suc ?j \<le> b \<and> b < 4096 * Suc ?j + length (drop k src) then drop k src ! (b - 4096 * Suc ?j) else ubyte ?m pt b)"
          using m(2) b unfolding copied_def by simp
        have low: "ubyte ?m pt b = (if ?a \<le> b \<and> b < ?a + k then take k src ! (b - ?a) else ubyte (mem s) pt b)"
          by (rule st(3) [OF b])
        show "ubyte m pt b = (if ?a \<le> b \<and> b < ?a + length src then src ! (b - ?a) else ubyte (mem s) pt b)"
        proof (cases "k < length src")
          case True
          then have P: "4096 * Suc ?j = ?a + k" using k(4) by simp
          have nt: "drop k src ! (b - (?a + k)) = src ! (b - ?a)" if "?a + k \<le> b" using True that by simp
          show ?thesis using up low nt True unfolding P by auto
        next
          case False
          then have "k = length src" using k(3) by simp
          then show ?thesis using up low by auto
        qed
      qed
      then show ?thesis using run m(1) acc ok unfolding ac by auto
    qed
  qed
qed

lemma copyin_run:
  assumes "uvm s pt n xs" and "unat va + len \<le> 4096 * UPAGES"
  shows "\<exists>dst. copyin pt va len s = Done (if accessible (mem s) pt n (unat va) len then 0 else -1, dst) s \<and>
    (accessible (mem s) pt n (unat va) len \<longrightarrow> dst = map (ubyte (mem s) pt) [unat va ..< unat va + len])"
  using assms(2)
proof (induction len arbitrary: va rule: less_induct)
  case (less len)
  let ?a = "unat va" let ?j = "?a div 4096" let ?o = "?a mod 4096"
  show ?case
  proof (cases "len = 0")
    case True
    then show ?thesis by (simp add: copyin.simps [of _ _ 0] accessible_def)
  next
    case False
    have a: "?a = 4096 * ?j + ?o" "?o < 4096" by simp_all
    have j: "?j < UPAGES" using less.prems False by (intro less_mult_imp_div_less) linarith
    have va0: "PGROUNDDOWN va = vaddr ?j" by (simp add: PGROUNDDOWN_vaddr pgno_def)
    define k where "k = (if len < 4096 - ?o then len else 4096 - ?o)"
    have k: "0 < k" "?o + k \<le> 4096" "k \<le> len" "k < len \<longrightarrow> ?a + k = 4096 * Suc ?j"
    proof -
      show "0 < k" "?o + k \<le> 4096" "k \<le> len" using False a(2) by (auto simp: k_def)
      have "k < len \<longrightarrow> ?o + k = 4096" using a(2) by (auto simp: k_def)
      moreover have "4096 * Suc ?j = 4096 * ?j + 4096" by simp
      ultimately show "k < len \<longrightarrow> ?a + k = 4096 * Suc ?j" using a(1) by linarith
    qed
    note acc = accessible_Suc [OF k, where m = "mem s" and pt = pt and n = n]
    let ?z = "PTE2PA (ptmap (mem s) pt ?j)"
    have off: "va - PGROUNDDOWN va = of_nat ?o" using page_offset [of va] by (metis of_nat_unat)
    show ?thesis
    proof (cases "upage_ok (mem s) pt n ?j")
      case bad: False
      have "copyin pt va len s = Done (-1, []) s"
        using False walkaddr_user [OF assms(1) j] bad by (simp add: copyin.simps [of _ va] va0)
      then show ?thesis using bad acc by simp
    next
      case ok: True
      have jn: "?j < n" using ok by (simp add: upage_ok_def)
      have nz: "?z \<noteq> 0"
        using valid_page_nonzero [OF vm_ok_parts(1) [OF uvmD(1) [OF assms(1)]] uvmD(5) [OF assms(1) in_pgs [of 0 ?j n]]] jn by simp
      let ?c = "load_bytes (mem s) (phys (mem s) pt ?a) k"
      have run: "copyin pt va len s = bindk (copyin pt (vaddr (Suc ?j)) (len - k) s) (\<lambda>(r, dst) s. Done (r, ?c @ dst) s)"
        unfolding copyin.simps [of pt va len s] Let_def page_offset k_def [symmetric]
        using False walkaddr_user [OF assms(1) j] ok off va0 nz by (simp add: phys_def vaddr_Suc)
      have un: "unat (vaddr (Suc ?j)) = 4096 * Suc ?j" using j by (intro unat_vaddr) (simp add: UPAGES_def)
      have le: "unat (vaddr (Suc ?j)) + (len - k) \<le> 4096 * UPAGES"
        using less.prems k(3,4) j unfolding un by (cases "k < len") auto
      have lt: "len - k < len" using k(1,3) by simp
      obtain dst where d: "copyin pt (vaddr (Suc ?j)) (len - k) s = Done (if accessible (mem s) pt n (4096 * Suc ?j) (len - k) then 0 else -1, dst) s"
          "accessible (mem s) pt n (4096 * Suc ?j) (len - k) \<longrightarrow> dst = map (ubyte (mem s) pt) [4096 * Suc ?j ..< 4096 * Suc ?j + (len - k)]"
        using less.IH [OF lt le] unfolding un by blast
      have c: "?c = map (ubyte (mem s) pt) [?a ..< ?a + k]"
      proof (rule nth_equalityI)
        fix i
        assume "i < length ?c"
        then have i: "i < k" by simp
        have "(?a + i) div 4096 = ?j" "(?a + i) mod 4096 = ?o + i"
        proof -
          have "?o + i < 4096" using i k(2) by simp
          then have "4096 * ?j \<le> ?a + i" "?a + i < 4096 * ?j + 4096" using a(1) by linarith+
          then show d: "(?a + i) div 4096 = ?j" by (intro div_nat_eqI) (simp_all add: mult.commute)
          have "?a + i = 4096 * ((?a + i) div 4096) + (?a + i) mod 4096" by simp
          then show "(?a + i) mod 4096 = ?o + i" using a(1) unfolding d by linarith
        qed
        then show "?c ! i = map (ubyte (mem s) pt) [?a ..< ?a + k] ! i" using i by (simp add: ubyte_def phys_def add.assoc)
      qed simp
      have "?c @ map (ubyte (mem s) pt) [4096 * Suc ?j ..< 4096 * Suc ?j + (len - k)] = map (ubyte (mem s) pt) [?a ..< ?a + len]"
      proof (cases "k < len")
        case True
        then have P: "4096 * Suc ?j = ?a + k" using k(4) by simp
        show ?thesis unfolding c P using upt_add_eq_append [of ?a "?a + k" "len - k"] True by simp
      next
        case False
        then have "k = len" using k(3) by simp
        then show ?thesis unfolding c by simp
      qed
      then show ?thesis using run d acc ok by auto
    qed
  qed
qed

text \<open>
  C23: the kernel's copies to and from user memory. \<open>copyout\<close> to a range of user addresses
  returns 0 exactly when every byte of the range is on a mapped page the user may access, and -1 otherwise; in the first
  case the process sees the bytes copied at that range and every other byte of its memory
  unchanged, and \<open>copyin\<close> of the same range returns the bytes copied. In both cases the page table and all memory outside the
  pages of the process are untouched.
\<close>

theorem copyout_copyin:
  assumes "uvm s pt n xs" and "unat va + length src \<le> 4096 * UPAGES"
  shows "returns (copyout pt va src s) (\<lambda>r s'. uvm s' pt n xs \<and> ptmap (mem s') pt = ptmap (mem s) pt \<and>
      outside (set (pgs (mem s) pt 0 n)) s s' \<and>
      (if accessible (mem s) pt n (unat va) (length src)
       then r = 0 \<and> copyin pt va (length src) s' = Done (0, src) s' \<and>
         (\<forall>b<4096 * n. ubyte (mem s') pt b =
           (if unat va \<le> b \<and> b < unat va + length src then src ! (b - unat va) else ubyte (mem s) pt b))
       else r = -1))"
proof -
  let ?acc = "accessible (mem s) pt n (unat va) (length src)"
  obtain m where run: "copyout pt va src s = Done (if ?acc then 0 else -1) (s\<lparr>mem := m\<rparr>)" and c: "copied s pt n xs (unat va) src m"
    using copyout_run [OF assms] by blast
  have u: "uvm (s\<lparr>mem := m\<rparr>) pt n xs" and pm: "ptmap m pt = ptmap (mem s) pt" using c by (simp_all add: copied_def)
  have o': "outside (set (pgs (mem s) pt 0 n)) s (s\<lparr>mem := m\<rparr>)" using c by (simp add: copied_def outside_def)
  have b: "\<forall>b<4096 * n. ubyte m pt b = (if unat va \<le> b \<and> b < unat va + length src then src ! (b - unat va) else ubyte (mem s) pt b)" if ?acc
    using c that by (simp add: copied_def)
  have "copyin pt va (length src) (s\<lparr>mem := m\<rparr>) = Done (0, src) (s\<lparr>mem := m\<rparr>)" if acc: ?acc
  proof -
    have ac: "accessible m pt n (unat va) (length src)" using acc by (simp add: accessible_def upage_ok_def pm)
    have "ubyte m pt (unat va + i) = src ! i" if i: "i < length src" for i
    proof -
      have "(unat va + i) div 4096 < n" using acc i by (simp add: accessible_def upage_ok_def)
      then have "unat va + i < 4096 * n" by (simp add: div_less_iff_less_mult mult.commute)
      then show ?thesis using b [OF acc] i by simp
    qed
    then have "map (ubyte m pt) [unat va ..< unat va + length src] = src" by (intro nth_equalityI) simp_all
    then show ?thesis using copyin_run [OF u assms(2)] ac by simp
  qed
  then show ?thesis using run u pm o' b by simp
qed

lemma fresh_user: "fresh m pt 0 1 \<Longrightarrow> upage_ok m pt 1 0"
proof -
  assume "fresh m pt 0 1"
  then have f: "ptmap m pt 0 AND 0x3FF = 31" by (simp add: fresh_def PTE_FLAGS_def)
  have "ptmap m pt 0 AND PTE_U = (ptmap m pt 0 AND 0x3FF) AND PTE_U" by (simp add: and.assoc page_consts)
  then have "ptmap m pt 0 AND PTE_U = 16" unfolding f by (simp add: page_consts)
  then show ?thesis by (simp add: upage_ok_def)
qed

theorem copyout_copyin_witness:
  "\<exists>(s :: pmachine) pt s'. copyout pt 100 [1, 2, 3] s = Done 0 s' \<and> copyin pt 100 3 s' = Done (0, [1, 2, 3]) s' \<and>
    ubyte (mem s') pt 99 = ubyte (mem s) pt 99"
proof -
  obtain s :: pmachine and pt xs where s: "proc_vm s pt 1 xs" "fresh (mem s) pt 0 1" using one_page_space by blast
  have u: "uvm s pt 1 xs" using s(1) by (simp add: proc_vm_def)
  have acc: "accessible (mem s) pt 1 (unat (100 :: u64)) (length [1, 2, 3 :: u8])" using fresh_user [OF s(2)] by (simp add: accessible_def)
  have "unat (100 :: u64) + length [1, 2, 3 :: u8] \<le> 4096 * UPAGES" by (simp add: UPAGES_def VPAGES_def)
  from copyout_copyin [OF u this, unfolded if_P [OF acc]] obtain s' where
      "copyout pt 100 [1, 2, 3] s = Done 0 s'" "copyin pt 100 (length [1, 2, 3 :: u8]) s' = Done (0, [1, 2, 3]) s'"
      "\<forall>b<4096 * 1. ubyte (mem s') pt b = (if unat (100 :: u64) \<le> b \<and> b < unat (100 :: u64) + length [1, 2, 3 :: u8]
        then [1, 2, 3] ! (b - unat (100 :: u64)) else ubyte (mem s) pt b)"
    unfolding returns_iff by blast
  moreover from this(3) have "ubyte (mem s') pt 99 = ubyte (mem s) pt 99" by simp
  moreover have "length [1, 2, 3 :: u8] = 3" by simp
  ultimately show ?thesis by metis
qed

end
