(* ===== verification/Vmsteps.thy ===== *)
theory Vmsteps
  imports Isolation Usercopy
begin

text \<open>
  The calls that change an address space, for every amount of free memory: \<open>proc_pagetable\<close>
  when it cannot map the trampoline or the trap frame, \<open>uvmcopy\<close> when it cannot copy
  the first page, \<open>uvminit\<close>, \<open>uvmclear\<close> on the guard page of \<open>exec\<close>, and \<open>proc_freepagetable\<close> on a
  page table that may lack its two top mappings.
\<close>

section \<open>Address spaces whose top may be missing\<close>

text \<open>
  \<open>proc_pagetable\<close> ignores the results of its two calls of \<open>mappages\<close>: each of the two top
  entries is a leaf or, if fewer than three pages were free, invalid.
\<close>

definition top_ok :: "nat \<Rightarrow> memory \<Rightarrow> u64 \<Rightarrow> bool" where
  "top_ok lo m pt \<longleftrightarrow> (\<forall>j\<in>{VPAGES - 1, VPAGES - 2}. is_leaf (ptmap m pt j) \<or> lo < 3 \<and> ptmap m pt j AND PTE_V = 0)"

definition aspace :: "nat \<Rightarrow> 'z kmachine_scheme \<Rightarrow> u64 \<Rightarrow> nat \<Rightarrow> u64 list \<Rightarrow> bool" where
  "aspace lo s pt n xs \<longleftrightarrow> uvm s pt n xs \<and> top_ok lo (mem s) pt"

lemma top_two: "UPAGES \<le> VPAGES - 1" "VPAGES - 1 < VPAGES" "UPAGES \<le> VPAGES - 2" "VPAGES - 2 < VPAGES" "VPAGES - 2 \<noteq> VPAGES - 1"
  by (simp_all add: UPAGES_def VPAGES_def)

lemma proc_vm_aspace: "proc_vm s pt n xs \<Longrightarrow> aspace lo s pt n xs"
  by (simp add: proc_vm_def aspace_def top_ok_def)

lemma aspace_proc_vm: "aspace lo s pt n xs \<Longrightarrow> 3 \<le> lo \<Longrightarrow> proc_vm s pt n xs"
  by (simp add: proc_vm_def aspace_def top_ok_def)

lemma ukeep_top: "ukeep s pt k t \<Longrightarrow> top_ok lo (mem t) pt \<longleftrightarrow> top_ok lo (mem s) pt"
  using top_two by (simp add: ukeep_def top_ok_def)

text \<open>\<open>proc_freepagetable\<close> returns only from a page table that has both top mappings.\<close>

lemma freed_proc_vm:
  fixes s :: "'z pmachine_scheme"
  assumes a: "aspace lo s pt n xs" and run: "proc_freepagetable pt size' s = Done () s'"
  shows "proc_vm s pt n xs"
proof -
  have u: "uvm s pt n xs" using a by (simp add: aspace_def)
  note V = top_two
  have dead: "ptmap (mem t) pt k AND PTE_V \<noteq> 0" if t: "uvm t pt n xs" "k < VPAGES" "uvmunmap pt (vaddr k) PGSIZE False t = Done () t'"
    for t t' :: "'z pmachine_scheme" and k
  proof
    assume v: "ptmap (mem t) pt k AND PTE_V = 0"
    have "pgno (vaddr k) = k" using t(2) by simp
    then have "ptmap (mem t) pt (pgno (vaddr k)) AND PTE_V = 0" using v by simp
    from unmap_invalid [OF t(1) vaddr_MAXVA [OF t(2)] vaddr_aligned this, of PGSIZE False] t(3) show False by auto
  qed
  obtain x s1 y t' where s1': "uvmunmap pt TRAMPOLINE PGSIZE False s = Done x s1" "uvmunmap pt TRAPFRAME PGSIZE False s1 = Done y t'"
    using run unfolding proc_freepagetable_def bindk_Done_iff by blast
  then have s1: "uvmunmap pt TRAMPOLINE PGSIZE False s = Done () s1" and t': "uvmunmap pt TRAPFRAME PGSIZE False s1 = Done () t'"
    by simp_all
  have top: "is_leaf (ptmap (mem s) pt (VPAGES - 1)) \<or> ptmap (mem s) pt (VPAGES - 1) AND PTE_V = 0"
      "is_leaf (ptmap (mem s) pt (VPAGES - 2)) \<or> ptmap (mem s) pt (VPAGES - 2) AND PTE_V = 0"
    using a by (auto simp: aspace_def top_ok_def)
  have l1: "is_leaf (ptmap (mem s) pt (VPAGES - 1))"
    using top(1) dead [OF u V(2) s1 [unfolded top_pages]] by blast
  obtain t where t: "uvmunmap pt (vaddr (VPAGES - 1)) PGSIZE False s = Done () t" "uvm t pt n xs" "kframe s t"
      "outside (allpages s pt n xs) s t" "allpages t pt n xs = allpages s pt n xs"
      and m: "\<And>j. j < VPAGES \<Longrightarrow> ptmap (mem t) pt j = ((ptmap (mem s) pt)(VPAGES - 1 := 0)) j"
    using unmap_top [OF u V(1,2) l1] by blast
  have t1: "s1 = t" using s1 [unfolded top_pages] t(1) by simp
  have "ptmap (mem t) pt (VPAGES - 2) = ptmap (mem s) pt (VPAGES - 2)" unfolding m [OF V(4)] using V(5) by simp
  then have "ptmap (mem s) pt (VPAGES - 2) AND PTE_V \<noteq> 0"
    using dead [OF t(2) V(4) t' [unfolded top_pages t1]] by simp
  then have "is_leaf (ptmap (mem s) pt (VPAGES - 2))" using top(2) by blast
  then show ?thesis using u l1 by (simp add: proc_vm_def)
qed

section \<open>Creation\<close>

text \<open>One of the two top mappings: made, or left out because memory ran out.\<close>

lemma map_top:
  assumes u: "uvm s pt 0 xs" and k: "UPAGES \<le> k" "k < VPAGES" and v: "ptmap (mem s) pt k AND PTE_V = 0"
    and perm: "perm OR PTE_V < 1024" "perm OR PTE_V \<noteq> PTE_V"
  obtains r s' ys where "mappages pt (vaddr k) PGSIZE pa perm s = Done r s'" and "uvm s' pt 0 ys" and "kframe s s'"
    and "allpages s' pt 0 ys = allpages s pt 0 xs" and "outside (allpages s pt 0 xs) s s'"
    and "\<forall>j<VPAGES. j \<noteq> k \<longrightarrow> ptmap (mem s') pt j = ptmap (mem s) pt j"
    and "is_leaf (ptmap (mem s') pt k) \<or> ptmap (mem s') pt k AND PTE_V = 0"
proof -
  have "returns (mappages pt (vaddr k) PGSIZE pa perm s) (map_post s pt xs k 1 (map_pte pa perm))"
    using uvmD(1) [OF u] k v by (intro mappages_run) (simp_all add: pgno_page_end)
  then obtain r s' where r: "mappages pt (vaddr k) PGSIZE pa perm s = Done r s'" "map_post s pt xs k 1 (map_pte pa perm) r s'"
    by (auto elim: returnsE)
  then obtain i ys where re: "remapped s pt xs (setrange (ptmap (mem s) pt) k i (map_pte pa perm)) s' ys" and i: "i = 0 \<or> i = 1"
    unfolding map_post_def by (auto split: if_splits)
  let ?e = "if i = 0 then ptmap (mem s) pt k else PA2PTE pa OR perm OR PTE_V"
  have "setrange (ptmap (mem s) pt) k i (map_pte pa perm) = (ptmap (mem s) pt)(k := ?e)"
    using i by (auto simp: setrange_def map_pte_simps fun_eq_iff)
  then have re: "remapped s pt xs ((ptmap (mem s) pt)(k := ?e)) s' ys" using re by simp
  have "is_leaf ?e \<or> ?e AND PTE_V = 0" using mapped_leaf [OF perm] v by simp
  then have "is_leaf (ptmap (mem s') pt k) \<or> ptmap (mem s') pt k AND PTE_V = 0"
    unfolding remapped_ptmap [OF re k(2)] by simp
  moreover have "\<forall>j<VPAGES. j \<noteq> k \<longrightarrow> ptmap (mem s') pt j = ptmap (mem s) pt j"
    using remapped_ptmap [OF re] by simp
  moreover have "kframe s s'" using re by (simp add: remapped_def)
  ultimately show thesis using that r(1) remap_top [OF u re k(1)] remapped_outside [OF re] by blast
qed

lemma proc_pagetable_any:
  fixes s :: "'z pmachine_scheme"
  assumes k: "kmem_inv s xs" and lo: "lo \<le> length xs" and run: "proc_pagetable p s = Done pt s'"
  obtains ys where "kframe s s'" and "outside (set xs) s s'" and "aspace lo s' pt 0 ys" and "allpages s' pt 0 ys = set xs"
proof (cases "3 \<le> length xs")
  case True
  then have "proc_vm_made s xs pt s'" using proc_pagetable_run [OF k True, of p] run by simp
  then show thesis using that proc_vm_aspace unfolding proc_vm_made_def by blast
next
  case False
  have "xs \<noteq> []" using run kalloc_empty [of s] k by (auto simp: proc_pagetable_def uvmcreate_def)
  then obtain z zs where xs: "xs = z # zs" by (cases xs) auto
  obtain s1 where s1: "uvmcreate s = Done z s1" "kframe s s1" "outside {z} s s1" "vm_ok s1 z zs"
      "tables (mem s1) z = {z}" and m1: "\<forall>j. ptmap (mem s1) z j = 0"
    by (rule uvmcreate_run [OF k [unfolded xs]])
  have u1: "uvm s1 z 0 zs" by (rule uvm_empty [OF s1(4)]) (simp add: m1)
  have a1: "allpages s1 z 0 zs = set xs" by (simp add: allpages_def s1(5) xs)
  have v1: "ptmap (mem s1) z (VPAGES - 1) AND PTE_V = 0" using m1 by simp
  obtain r2 s2 ys where s2: "mappages z TRAMPOLINE PGSIZE (k_trampoline s1) (PTE_R OR PTE_X) s1 = Done r2 s2" "uvm s2 z 0 ys" "kframe s1 s2"
      "allpages s2 z 0 ys = set xs" "outside (set xs) s1 s2"
      "\<forall>j<VPAGES. j \<noteq> VPAGES - 1 \<longrightarrow> ptmap (mem s2) z j = ptmap (mem s1) z j"
      "is_leaf (ptmap (mem s2) z (VPAGES - 1)) \<or> ptmap (mem s2) z (VPAGES - 1) AND PTE_V = 0"
    using map_top [OF u1 top_two(1,2) v1 top_perms(1,2), of "k_trampoline s1"] unfolding a1 top_pages by blast
  have v2: "ptmap (mem s2) z (VPAGES - 2) AND PTE_V = 0" using s2(6) m1 top_two by simp
  obtain r3 s3 vs where s3: "mappages z TRAPFRAME PGSIZE (tf (procs s2 ! p)) (PTE_R OR PTE_W) s2 = Done r3 s3" "uvm s3 z 0 vs" "kframe s2 s3"
      "allpages s3 z 0 vs = set xs" "outside (set xs) s2 s3"
      "\<forall>j<VPAGES. j \<noteq> VPAGES - 2 \<longrightarrow> ptmap (mem s3) z j = ptmap (mem s2) z j"
      "is_leaf (ptmap (mem s3) z (VPAGES - 2)) \<or> ptmap (mem s3) z (VPAGES - 2) AND PTE_V = 0"
    using map_top [OF s2(2) top_two(3,4) v2 top_perms(3,4), of "tf (procs s2 ! p)"] unfolding s2(4) top_pages by blast
  have "ptmap (mem s3) z (VPAGES - 1) = ptmap (mem s2) z (VPAGES - 1)" using s3(6) top_two by simp
  then have "aspace lo s3 z 0 vs" using s2(7) s3(2,7) lo False by (simp add: aspace_def top_ok_def)
  moreover have "proc_pagetable p s = Done z s3" using s1(1) s2(1) s3(1) by (simp add: proc_pagetable_def)
  moreover have "outside (set xs) s s1" using s1(3) xs by (auto simp: outside_def)
  ultimately show thesis
    using that run s3(4) kframe_trans [OF kframe_trans [OF s1(2) s2(3)] s3(3)] outside_trans [OF _ outside_trans [OF s2(5) s3(5)]]
    by simp
qed

section \<open>The first process and the guard page\<close>

text \<open>\<open>uvminit\<close> gives an empty address space its first page, with \<open>src\<close> at its start and zeros after it.\<close>

lemma uvminit_run:
  assumes u: "uvm s pt 0 xs" and l: "3 \<le> length xs" and src: "length src < 4096"
  shows "returns (uvminit pt src s) (\<lambda>_ s'. uvm_like s pt 0 (allpages s pt 0 xs) 1 s' \<and>
    (\<forall>b<4096. ubyte (mem s') pt b = (if b < length src then src ! b else 0)))"
proof -
  obtain z zs where xs: "xs = z # zs" using l by (cases xs) auto
  have U: "0 < UPAGES" by (simp add: UPAGES_def VPAGES_def)
  have v0: "vaddr 0 = 0" by (simp add: vaddr_def)
  let ?mm = "\<lambda>s1. memset (mem s1) z 0 (ucast PGSIZE)"
  obtain s1 where s1: "kalloc s = Done z s1" "z \<noteq> 0"
    and add: "returns (mappages pt (vaddr 0) PGSIZE z uperm (s1\<lparr>mem := ?mm s1\<rparr>)) (add_post s pt 0 z zs (?mm s1) uperm)"
    by (rule alloc_round [OF u [unfolded xs] U])
  have pe: "PTE_W OR PTE_R OR PTE_X OR PTE_U = uperm" by (simp add: uperm_def page_consts)
  obtain r s2 where s2: "mappages pt 0 PGSIZE z uperm (s1\<lparr>mem := ?mm s1\<rparr>) = Done r s2" "add_post s pt 0 z zs (?mm s1) uperm r s2"
    using add unfolding v0 by (auto elim: returnsE)
  have "\<not> length zs < 2" using l xs by simp
  then obtain ys where y: "uvm s2 pt 1 ys" "ukeep s pt 0 s2" "allpages s2 pt 1 ys = allpages s pt 0 xs"
      "outside (allpages s pt 0 xs) s s2" "ptmap (mem s2) pt 0 = PA2PTE z OR uperm OR PTE_V"
      "upage (mem s2) pt 0 = load_bytes (?mm s1) z 4096"
    using s2(2) xs unfolding add_post_def by (auto split: if_splits)
  have "valid_page s z" using vm_ok_parts(1) [OF uvmD(1) [OF u]] xs by (simp add: kmem_inv_def)
  then have al: "page_aligned z" by (simp add: valid_page_def)
  have z: "phys (mem s2) pt 0 = z" using user_leaf(1) [OF al] y(5) by (simp add: phys_def)
  let ?m = "store_bytes (mem s2) z src"
  note st = store_user [OF y(1), of 0 src, unfolded z]
  have st': "uvm (s2\<lparr>mem := ?m\<rparr>) pt 1 ys" "ptmap ?m pt = ptmap (mem s2) pt"
      "\<And>b. b < 4096 \<Longrightarrow> ubyte ?m pt b = (if b < length src then src ! b else ubyte (mem s2) pt b)"
      "\<And>x. PGROUNDDOWN x \<notin> set (pgs (mem s2) pt 0 1) \<Longrightarrow> ?m x = mem s2 x"
    using st src by simp_all
  have tb: "tables ?m pt = tables (mem s2) pt"
    using uvmD(6) [OF y(1)] st'(4) by (intro tables_frame(2) [OF vm_ok_parts(2) [OF uvmD(1) [OF y(1)]]]) blast
  have "allpages (s2\<lparr>mem := ?m\<rparr>) pt 1 ys = allpages s pt 0 xs"
    using y(3) by (simp add: allpages_def tb pgs_def st'(2))
  moreover have "ukeep s pt 0 (s2\<lparr>mem := ?m\<rparr>)"
    using y(2) st'(2) kframe_trans [OF _ kframe_mem, of s s2] by (simp add: ukeep_def)
  moreover have "outside (allpages s pt 0 xs) s (s2\<lparr>mem := ?m\<rparr>)"
  proof -
    have "set (pgs (mem s2) pt 0 1) \<subseteq> allpages s pt 0 xs" unfolding y(3) [symmetric] by (auto simp: allpages_def)
    then have "?m x = mem s2 x" if "PGROUNDDOWN x \<notin> allpages s pt 0 xs" for x using st'(4) [of x] that by blast
    then show ?thesis using y(4) by (simp add: outside_def)
  qed
  ultimately have "uvm_like s pt 0 (allpages s pt 0 xs) 1 (s2\<lparr>mem := ?m\<rparr>)" using st'(1) unfolding uvm_like_def by blast
  moreover have "ubyte (mem s2) pt b = 0" if b: "b < 4096" for b
  proof -
    have "b div 4096 = 0" "b mod 4096 = b" using b by simp_all
    then have "ubyte (mem s2) pt b = upage (mem s2) pt 0 ! b" using b by (simp add: ubyte_def phys_def upage_def)
    moreover have "upage (mem s2) pt 0 ! b = 0" unfolding y(6) memset_page(2) [OF al] using b by (rule nth_replicate)
    ultimately show ?thesis by simp
  qed
  ultimately show ?thesis
    using s1 s2(1) src st'(3) by (simp add: uvminit_def pe not_le)
qed

lemma flag_bits: "bit PTE_U n \<longleftrightarrow> n = 4" "bit PTE_V n \<longleftrightarrow> n = 0"
  unfolding PTE_U_def PTE_V_def bit_push_bit_iff bit_1_iff by auto

lemma clear_U:
  shows "PTE2PA (w AND NOT PTE_U) = PTE2PA w" and "is_leaf w \<Longrightarrow> PTE_FLAGS w = 31 \<Longrightarrow> is_leaf (w AND NOT PTE_U)"
proof -
  show "PTE2PA (w AND NOT PTE_U) = PTE2PA w"
    unfolding PTE2PA_def
    by (rule bit_eqI) (auto simp: bit_push_bit_iff bit_drop_bit_eq bit_and_iff bit_not_iff flag_bits dest: bit_imp_le_length)
  assume l: "is_leaf w" "PTE_FLAGS w = 31"
  have "(w AND NOT PTE_U) AND PTE_V = w AND PTE_V"
    by (rule bit_eqI) (auto simp: bit_and_iff bit_not_iff flag_bits)
  moreover have "PTE_FLAGS (w AND NOT PTE_U) = PTE_FLAGS w AND NOT PTE_U"
    unfolding PTE_FLAGS_def by (simp only: and.assoc and.commute [of "NOT PTE_U"])
  ultimately show "is_leaf (w AND NOT PTE_U)" using l by (simp add: is_leaf_def page_consts)
qed

text \<open>\<open>uvmclear\<close> on a fresh page changes the permissions of that page only.\<close>

lemma uvmclear_run:
  assumes u: "uvm s pt n xs" and k: "k < n" and fl: "PTE_FLAGS (ptmap (mem s) pt k) = 31"
  shows "returns (uvmclear pt (vaddr k) s) (\<lambda>_ s'. uvm s' pt n xs \<and> ukeep s pt k s' \<and>
    allpages s' pt n xs = allpages s pt n xs \<and> outside (allpages s pt n xs) s s' \<and>
    ptmap (mem s') pt k = ptmap (mem s) pt k AND NOT PTE_U)"
proof -
  note d = uvmD [OF u]
  have kV: "k < VPAGES" "k < UPAGES" using k d(2) by (simp_all add: UPAGES_def)
  have leaf: "is_leaf (ptmap (mem s) pt k)" by (rule d(3) [OF k])
  obtain b where b: "tbl (mem s) pt (vpath 2 (vaddr k)) = Some b"
    using leaf mapped_table [of "mem s" pt k] by (auto simp: is_leaf_def)
  have "valid_page s b" by (rule vm_ok_parts(3) [OF d(1) tablesI [OF tpath_vpath(1) b]])
  note w = walk_leaf [OF vm_ok_parts(1) [OF d(1)] b this kV(1)]
  let ?e = "ptmap (mem s) pt k AND NOT PTE_U"
  obtain t where c: "uvmclear pt (vaddr k) s = Done () t" and un: "unmapped s pt xs ((ptmap (mem s) pt)(k := ?e)) [] t"
    using w store_unmapped [OF d(1) b kV(1), of ?e] by (simp add: uvmclear_def)
  note f = unmapped_frame [OF un]
  have m: "ptmap (mem t) pt j = (if j = k then ?e else ptmap (mem s) pt j)" if "j < VPAGES" for j
    using f(4) [OF that] by simp
  have n: "j < VPAGES" if "j < n \<or> j < UPAGES" for j using that d(2) by (auto simp: UPAGES_def)
  have pg: "pgs (mem t) pt 0 n = pgs (mem s) pt 0 n"
    using m n clear_U(1) by (auto simp: pgs_def)
  have "uvm t pt n xs"
    unfolding uvm_def
  proof (intro conjI allI impI)
    show "vm_ok t pt xs" using f(3) by simp
    show "is_leaf (ptmap (mem t) pt j)" if "j < n" for j using m n that d(3) clear_U(2) [OF leaf fl] by simp
    show "ptmap (mem t) pt j AND PTE_V = 0" if "n \<le> j" "j < UPAGES" for j using m n that d(4) k by simp
    show "freeable t pt xs (pgs (mem t) pt 0 n)" using u f(1,2) unfolding pg by (simp add: uvm_def freeable_def)
  qed (rule d(2))
  moreover have "allpages t pt n xs = allpages s pt n xs" unfolding allpages_def pg f(2) ..
  moreover have "outside (allpages s pt n xs) s t" using un by (auto simp: unmapped_def outside_def allpages_def)
  moreover have "ukeep s pt k t"
  proof -
    have "upage (mem t) pt j = upage (mem s) pt j" if "j < k" for j
    proof (rule upage_cong)
      show "ptmap (mem t) pt j = ptmap (mem s) pt j" using m n that k by simp
      fix x assume "PGROUNDDOWN x = PTE2PA (ptmap (mem s) pt j)"
      then have "PGROUNDDOWN x \<in> set (pgs (mem s) pt 0 n)" using that k by (auto intro!: in_pgs)
      then show "mem t x = mem s x" using un d(6) by (auto simp: unmapped_def)
    qed
    then show ?thesis using un m n k kV by (auto simp: ukeep_def unmapped_def)
  qed
  ultimately show ?thesis using c m [OF kV(1)] by simp
qed

text \<open>The two pages \<open>exec\<close> adds for the stack, the lower of which it makes inaccessible.\<close>

lemma stack_run:
  assumes u: "uvm s pt (npages z) xs"
    and run: "bindk (uvmalloc pt (PGROUNDUP z) (PGROUNDUP z + 2 * PGSIZE) s) (\<lambda>r s.
      if r = 0 then Done 0 s else bindk (uvmclear pt (r - 2 * PGSIZE) s) (\<lambda>_ s. Done r s)) = Done r s'"
  shows "uvm_like s pt (npages z) (allpages s pt (npages z) xs) (npages (if r = 0 then PGROUNDUP z else r)) s'"
proof -
  let ?n = "npages z" and ?W = "allpages s pt (npages z) xs"
  have n: "?n \<le> UPAGES" "?n + 2 \<le> VPAGES" using uvmD(2) [OF u] by (simp_all add: UPAGES_def VPAGES_def)
  have up: "PGROUNDUP z = vaddr ?n" "vaddr ?n + 2 * PGSIZE = vaddr (?n + 2)" "vaddr (?n + 2) - 2 * PGSIZE = vaddr ?n"
    using n by (simp_all add: PGROUNDUP_npages vaddr_def PGSIZE_def algebra_simps)
  have np: "npages (vaddr ?n) = ?n" "npages (vaddr (?n + 2)) = ?n + 2" using n by simp_all
  have le: "vaddr ?n \<le> vaddr (?n + 2)" using n by (simp add: word_le_nat_alt unat_vaddr)
  obtain r1 t where t: "uvmalloc pt (vaddr ?n) (vaddr (?n + 2)) s = Done r1 t" "grow_post s pt ?n ?W (length xs) (vaddr (?n + 2)) r1 t"
    using uvmalloc_run [of s pt "vaddr ?n" xs "vaddr (?n + 2)"] u le unfolding np by (auto elim: returnsE)
  show ?thesis
  proof (cases "r1 = 0")
    case True
    then have e: "r = 0" "s' = t" using run t(1) by (simp_all add: up)
    have "vaddr (?n + 2) \<noteq> 0" using n by (metis add_is_0 mult_is_0 unat_0 unat_vaddr zero_neq_numeral)
    then have "uvm_like s pt ?n ?W ?n t" using t(2) True np unfolding grow_post_def by simp
    then show ?thesis by (simp add: e up np)
  next
    case False
    then have g: "r1 = vaddr (?n + 2)" "uvm_like s pt ?n ?W (?n + 2) t" "fresh (mem t) pt ?n (?n + 2)"
      using t(2) np unfolding grow_post_def by auto
    then obtain ys where y: "uvm t pt (?n + 2) ys" "ukeep s pt ?n t" "allpages t pt (?n + 2) ys = ?W" "outside ?W s t"
      unfolding uvm_like_def by blast
    have "PTE_FLAGS (ptmap (mem t) pt ?n) = 31" using g(3) by (simp add: fresh_def)
    then obtain t' where t': "uvmclear pt (vaddr ?n) t = Done () t'" "uvm t' pt (?n + 2) ys" "ukeep t pt ?n t'"
        "allpages t' pt (?n + 2) ys = ?W" "outside ?W t t'"
      using uvmclear_run [OF y(1), of ?n] y(3) by (auto elim!: returnsE)
    have "uvmclear pt (vaddr (?n + 2) - 2 * PGSIZE) t = Done () t'" using t'(1) by (simp only: up(3))
    then have e: "r = vaddr (?n + 2)" "s' = t'" "r \<noteq> 0" using run t(1) False unfolding up(1,2) g(1) by auto
    have "uvm_like s pt ?n ?W (?n + 2) t'"
      unfolding uvm_like_def using t'(2,4) ukeep_trans [OF y(2) t'(3)] outside_trans [OF y(4) t'(5)] by blast
    then show ?thesis using e np by simp
  qed
qed

section \<open>Copying when memory is short\<close>

text \<open>
  When \<open>uvmcopy\<close> returns it has done its work or undone it, however little memory was
  free: where it cannot copy the first page it panics.
\<close>

lemma uvmcopy_any:
  assumes uo: "uvm s old (npages size') xs" and un: "uvm s new 0 xs" and dis: "space s old (npages size') \<inter> allpages s new 0 xs = {}"
    and run: "uvmcopy old new size' s = Done r s'"
  shows "copy_post s old (npages size') new (allpages s new 0 xs) (length xs) r s'"
proof (cases "npages size' = 0")
  case True
  then have "\<not> 0 < size'" by (auto simp: npages_def word_less_nat_alt)
  then have "r = 0 \<and> s' = s" using run by (simp add: uvmcopy_def)
  then show ?thesis using un True by (auto simp: copy_post_def uvm_like_def Uvmcopy.copied_def)
next
  case False
  have v0: "vaddr 0 = 0" by (simp add: vaddr_def)
  have lt: "vaddr 0 < size'" using False by (cases "size' = 0") (auto simp: v0 npages_def word_gt_0)
  let ?f = "unat size' div 4096 + 1" and ?W = "allpages s new 0 xs"
  have run': "uvmcopy_loop (Suc ?f) old new (vaddr 0) size' s = Done r s'" using run by (simp add: uvmcopy_def v0)
  have no: False if go: "uvmcopy_loop (Suc ?f) old new (vaddr 0) size' s = bindk (uvmunmap new 0 (vaddr 0) True t) (\<lambda>_ s. Done (-1) s)"
      and ut: "uvm t new 0 ys" for t ys
  proof -
    have "ptmap (mem t) new (pgno 0) AND PTE_V = 0" using uvmD(4) [OF ut, of 0] by (simp add: UPAGES_def VPAGES_def pgno_def)
    then obtain msg where "uvmunmap new 0 0 True t = Panic msg t"
      using unmap_invalid [OF ut, of 0 0 True] by (auto simp: MAXVA_def page_aligned_def)
    then show False using trans [OF run' [symmetric] go] by (simp add: v0)
  qed
  show ?thesis
  proof (cases xs)
    case Nil
    then have "kalloc s = Done 0 s" using vm_ok_parts(1) [OF uvmD(1) [OF uo]] by (simp add: kalloc_empty)
    then have False
      by (intro no [OF uvmcopy_out_of_memory [OF uo dis _ un _ _ _ lt] un]) (use False in simp_all)
    then show ?thesis ..
  next
    case (Cons z zs)
    have cp: "Uvmcopy.copied s old s new 0" by (simp add: Uvmcopy.copied_def)
    show ?thesis
    proof (rule uvmcopy_step [OF uo dis _ un [unfolded Cons] _ _ _ cp lt, of ?f])
      fix s3 vs
      assume s3: "uvmcopy_loop (Suc ?f) old new (vaddr 0) size' s = uvmcopy_loop ?f old new (vaddr (Suc 0)) size' s3"
        "uvm s3 new (Suc 0) vs" "ukeep s new 0 s3" "allpages s3 new (Suc 0) vs = ?W" "outside ?W s s3"
        "Uvmcopy.copied s old s3 new (Suc 0)" "length zs \<le> length vs + 2"
      have "npages size' - Suc 0 < ?f" unfolding npages_def by linarith
      then have "returns (uvmcopy_loop ?f old new (vaddr (Suc 0)) size' s3) (copy_post s old (npages size') new ?W (length xs))"
        using False s3(7) Cons by (intro uvmcopy_loop_run [OF uo dis refl s3(2-6)]) simp_all
      then show ?thesis using trans [OF run' [symmetric] s3(1)] by (metis returns.simps(1))
    qed (use no Cons False in auto)
  qed
qed

end
