(* ===== verification/Lifecycle.thy ===== *)
theory Lifecycle
  imports Vmsteps
begin

text \<open>
  All address spaces of the machine together. A step is one call of a function of
  \<open>kernel/vm.c\<close> or \<open>kernel/proc.c\<close> that creates, fills, grows, shrinks, copies or releases an
  address space, with the size its caller then gives it; the theorems say
  that from boot on, whatever the order of these calls, no page is ever in
  two address spaces or in use and free at once, that a call leaves the address spaces it is not
  about unchanged, and which calls lose pages.
\<close>

type_synonym vmstate = "pmachine \<times> (u64 \<rightharpoonup> u64)"

text \<open>
  The map gives each live page table the size up to which its pages are mapped: \<open>p->sz\<close> for
  the page table of a process, and what \<open>sz\<close> was before the last call that failed for the one
  \<open>exec\<close> is building. The calls and their callers:
  \<open>create\<close> is \<open>proc_pagetable\<close> in \<open>allocproc\<close> and \<open>exec\<close>; \<open>init\<close> is \<open>uvminit\<close> in \<open>userinit\<close>;
  \<open>grow\<close> and \<open>shrink\<close> are \<open>uvmalloc\<close> and \<open>uvmdealloc\<close> in \<open>growproc\<close> and in the loop of \<open>exec\<close> over
  the segments; \<open>stack\<close> is the end of \<open>exec\<close>, with \<open>uvmclear\<close> on the guard page;
  \<open>copy\<close> is \<open>uvmcopy\<close> in \<open>fork\<close>; \<open>release\<close> is \<open>proc_freepagetable\<close> with the size of the address
  space, in \<open>freeproc\<close> and \<open>exec\<close>, and \<open>abandon\<close> is the call with size 0 that \<open>exec\<close> makes after
  \<open>uvmalloc\<close> failed, since \<open>sz\<close> then holds the 0 that \<open>uvmalloc\<close> returned.

  \<open>lo\<close> is a number of pages that are free whenever \<open>proc_pagetable\<close> is called: 0 says nothing, and from
  3 on \<open>proc_pagetable\<close> cannot fail to map the trampoline and the trap frame.
  \<open>uvminit\<close>, which ignores the results of \<open>kalloc\<close> and \<open>mappages\<close>, is called once, at boot, when
  almost all memory is free; the step asks for the three pages it may need. The other
  calls have no condition on memory. Writes into the pages themselves, by \<open>copyout\<close> or \<open>loadseg\<close>,
  and the pages the kernel takes for trap frames and pipes are not steps.
\<close>

inductive vm_step :: "nat \<Rightarrow> vmstate \<Rightarrow> vmstate \<Rightarrow> bool" for lo where
  create: "proc_pagetable p s = Done pt s' \<Longrightarrow> kmem_inv s xs \<Longrightarrow> lo \<le> length xs \<Longrightarrow>
    vm_step lo (s, A) (s', A(pt \<mapsto> 0))"
| init: "A pt = Some 0 \<Longrightarrow> kmem_inv s xs \<Longrightarrow> 3 \<le> length xs \<Longrightarrow> uvminit pt src s = Done () s' \<Longrightarrow>
    vm_step lo (s, A) (s', A(pt \<mapsto> PGSIZE))"
| grow: "A pt = Some oldsz \<Longrightarrow> uvmalloc pt oldsz newsz s = Done r s' \<Longrightarrow>
    vm_step lo (s, A) (s', A(pt \<mapsto> (if r = 0 then oldsz else r)))"
| stack: "A pt = Some oldsz \<Longrightarrow>
    bindk (uvmalloc pt (PGROUNDUP oldsz) (PGROUNDUP oldsz + 2 * PGSIZE) s) (\<lambda>r s.
      if r = 0 then Done 0 s else bindk (uvmclear pt (r - 2 * PGSIZE) s) (\<lambda>_ s. Done r s)) = Done r s' \<Longrightarrow>
    vm_step lo (s, A) (s', A(pt \<mapsto> (if r = 0 then PGROUNDUP oldsz else r)))"
| shrink: "A pt = Some oldsz \<Longrightarrow> uvmdealloc pt oldsz newsz s = Done r s' \<Longrightarrow>
    vm_step lo (s, A) (s', A(pt \<mapsto> r))"
| copy: "A old = Some size' \<Longrightarrow> A new = Some 0 \<Longrightarrow> old \<noteq> new \<Longrightarrow>
    uvmcopy old new size' s = Done r s' \<Longrightarrow> vm_step lo (s, A) (s', A(new \<mapsto> (if r = 0 then size' else 0)))"
| release: "A pt = Some size' \<Longrightarrow> proc_freepagetable pt size' s = Done () s' \<Longrightarrow>
    vm_step lo (s, A) (s', A(pt := None))"
| abandon: "A pt = Some size' \<Longrightarrow> proc_freepagetable pt 0 s = Done () s' \<Longrightarrow>
    vm_step lo (s, A) (s', A(pt := None))"

definition spaces_ok :: "nat \<Rightarrow> pmachine \<Rightarrow> (u64 \<rightharpoonup> u64) \<Rightarrow> u64 list \<Rightarrow> bool" where
  "spaces_ok lo s A xs \<longleftrightarrow> kmem_inv s xs \<and>
    (\<forall>pt z. A pt = Some z \<longrightarrow> aspace lo s pt (npages z) xs) \<and>
    (\<forall>pt z pt' z'. A pt = Some z \<longrightarrow> A pt' = Some z' \<longrightarrow> pt \<noteq> pt' \<longrightarrow>
      space s pt (npages z) \<inter> space s pt' (npages z') = {})"

lemma spaces_okD:
  assumes "spaces_ok lo s A xs" and "A pt = Some z"
  shows "aspace lo s pt (npages z) xs" and "uvm s pt (npages z) xs" and "space s pt (npages z) \<inter> set xs = {}"
    and "A pt' = Some z' \<Longrightarrow> pt \<noteq> pt' \<Longrightarrow> space s pt (npages z) \<inter> space s pt' (npages z') = {}"
proof -
  show p: "aspace lo s pt (npages z) xs" using assms by (auto simp: spaces_ok_def)
  then show u: "uvm s pt (npages z) xs" by (simp add: aspace_def)
  show "space s pt (npages z) \<inter> set xs = {}"
    using uvmD(8) [OF u] vm_ok_parts(4) [OF uvmD(1) [OF u]] by (auto simp: space_def)
  show "A pt' = Some z' \<Longrightarrow> pt \<noteq> pt' \<Longrightarrow> space s pt (npages z) \<inter> space s pt' (npages z') = {}"
    using assms by (auto simp: spaces_ok_def)
qed

lemma uvm_kmem: "uvm s pt n xs \<Longrightarrow> kmem_inv s xs"
  by (rule vm_ok_parts(1) [OF uvmD(1)])

lemma allpages_space: "allpages s pt n xs = set xs \<union> space s pt n"
  by (auto simp: allpages_def space_def)

text \<open>One address space changes within the pages \<open>W\<close>; the others look on.\<close>

lemma spaces_update:
  assumes ok: "spaces_ok lo s A xs" and o': "outside W s t" and fr: "kframe s t"
    and dis: "\<forall>q z. q \<noteq> pt \<longrightarrow> A q = Some z \<longrightarrow> space s q (npages z) \<inter> W = {}"
    and k: "kmem_inv t ys" "set ys \<subseteq> W"
    and new: "\<forall>z. v = Some z \<longrightarrow> aspace lo t pt (npages z) ys \<and> space t pt (npages z) \<subseteq> W"
  shows "spaces_ok lo t (A(pt := v)) ys"
proof -
  have other: "aspace lo t q (npages z) ys \<and> space t q (npages z) = space s q (npages z) \<and> space s q (npages z) \<inter> W = {}"
    if q: "q \<noteq> pt" "A q = Some z" for q z
  proof -
    have d: "space s q (npages z) \<inter> W = {}" using dis q by blast
    note b = bystander [OF spaces_okD(2) [OF ok q(2)] o' d fr k]
    have "top_ok lo (mem t) q \<longleftrightarrow> top_ok lo (mem s) q"
      by (simp add: top_ok_def space_kept(1) [OF spaces_okD(2) [OF ok q(2)] o' d])
    then show ?thesis using b(1,2) spaces_okD(1) [OF ok q(2)] d by (simp add: aspace_def)
  qed
  have "space t q (npages z) \<inter> space t q' (npages z') = {}"
    if "(A(pt := v)) q = Some z" "(A(pt := v)) q' = Some z'" "q \<noteq> q'" for q z q' z'
  proof (cases "q = pt \<or> q' = pt")
    case True
    then show ?thesis using that new other [of q z] other [of q' z'] by (auto split: if_splits)
  next
    case False
    then show ?thesis using that other spaces_okD(4) [OF ok, of q z q' z'] by (auto split: if_splits)
  qed
  then show ?thesis using k(1) new other unfolding spaces_ok_def by (auto split: if_splits)
qed

lemma others_apart:
  assumes "spaces_ok lo s A xs" and "A pt = Some z"
  shows "\<forall>q z'. q \<noteq> pt \<longrightarrow> A q = Some z' \<longrightarrow> space s q (npages z') \<inter> allpages s pt (npages z) xs = {}"
  using spaces_okD(3,4) [OF assms(1)] assms(2) unfolding allpages_space by blast

text \<open>
  What one step does to the machine: \<open>pt\<close> is the page table it is about, \<open>v\<close> the
  size it has afterwards, if it is still there.
\<close>

fun pages_of :: "pmachine \<Rightarrow> u64 \<Rightarrow> u64 option \<Rightarrow> u64 set" where
  "pages_of s pt None = {}"
| "pages_of s pt (Some z) = space s pt (npages z)"

definition vm_change :: "nat \<Rightarrow> pmachine \<Rightarrow> (u64 \<rightharpoonup> u64) \<Rightarrow> u64 list \<Rightarrow> u64 \<Rightarrow> u64 option \<Rightarrow> pmachine \<Rightarrow> u64 list \<Rightarrow> bool" where
  "vm_change lo s A xs pt v s' ys \<longleftrightarrow> outside (set xs \<union> pages_of s pt (A pt)) s s' \<and> kframe s s' \<and> kmem_inv s' ys \<and>
    set ys \<union> pages_of s' pt v \<subseteq> set xs \<union> pages_of s pt (A pt) \<and>
    (set ys \<union> pages_of s' pt v = set xs \<union> pages_of s pt (A pt) \<or>
      v = None \<and> A pt \<noteq> None \<and> ys = xs \<and> proc_freepagetable pt 0 s = Done () s') \<and>
    (\<forall>z. v = Some z \<longrightarrow> aspace lo s' pt (npages z) ys \<and> (A pt = Some z \<longrightarrow> ukeep s pt (npages z) s'))"

lemma pages_apart:
  assumes ok: "spaces_ok lo s A xs" and q: "q \<noteq> pt" "A q = Some z"
  shows "space s q (npages z) \<inter> (set xs \<union> pages_of s pt (A pt)) = {}"
  using spaces_okD(3,4) [OF ok q(2)] q(1) by (cases "A pt") auto

lemma vm_change_ok:
  assumes ok: "spaces_ok lo s A xs" and c: "vm_change lo s A xs pt v s' ys"
  shows "spaces_ok lo s' (A(pt := v)) ys"
proof (rule spaces_update [OF ok])
  show "outside (set xs \<union> pages_of s pt (A pt)) s s'" "kframe s s'" "kmem_inv s' ys" "set ys \<subseteq> set xs \<union> pages_of s pt (A pt)"
    "\<forall>z. v = Some z \<longrightarrow> aspace lo s' pt (npages z) ys \<and> space s' pt (npages z) \<subseteq> set xs \<union> pages_of s pt (A pt)"
    using c by (auto simp: vm_change_def)
  show "\<forall>q z. q \<noteq> pt \<longrightarrow> A q = Some z \<longrightarrow> space s q (npages z) \<inter> (set xs \<union> pages_of s pt (A pt)) = {}"
    using pages_apart [OF ok] by blast
qed

text \<open>A step that keeps the address space \<open>pt\<close> among the live ones.\<close>

lemma vm_change_own:
  assumes ok: "spaces_ok lo s A xs" and a: "A pt = Some z" and like: "uvm_like s pt n (allpages s pt (npages z) xs) (npages z') s'"
    and n: "z = z' \<Longrightarrow> n = npages z"
  shows "\<exists>ys. vm_change lo s A xs pt (Some z') s' ys"
proof -
  obtain ys where t: "uvm s' pt (npages z') ys" "ukeep s pt n s'" "allpages s' pt (npages z') ys = allpages s pt (npages z) xs"
      "outside (allpages s pt (npages z) xs) s s'"
    using like unfolding uvm_like_def by blast
  have "aspace lo s' pt (npages z') ys"
    using t(1) ukeep_top [OF t(2)] spaces_okD(1) [OF ok a] by (simp add: aspace_def)
  moreover have "kmem_inv s' ys" by (rule uvm_kmem [OF t(1)])
  ultimately show ?thesis
    using t(2-4) a n unfolding vm_change_def allpages_space ukeep_def by auto
qed

lemma npages_0 [simp]: "npages 0 = 0"
  by (simp add: npages_def)

lemma step_create:
  assumes ok: "spaces_ok lo s A xs" and run: "proc_pagetable p s = Done pt s'" and l: "lo \<le> length xs"
  shows "\<exists>ys. vm_change lo s A xs pt (Some 0) s' ys"
proof -
  have "kmem_inv s xs" using ok by (simp add: spaces_ok_def)
  then obtain ys where t: "kframe s s'" "outside (set xs) s s'" "aspace lo s' pt 0 ys" "allpages s' pt 0 ys = set xs"
    using proc_pagetable_any [OF _ l run] by blast
  then have "kmem_inv s' ys" using uvm_kmem [of s' pt 0 ys] by (simp add: aspace_def)
  moreover have "pt \<in> set xs" using t(4) root_table by (auto simp: allpages_def)
  then have "A pt = None"
    using spaces_okD(3) [OF ok, of pt] root_table [of pt "mem s"] by (cases "A pt") (auto simp: space_def)
  ultimately show ?thesis using t by (intro exI [of _ ys]) (auto simp: vm_change_def allpages_space)
qed

lemma step_abandon:
  assumes ok: "spaces_ok lo s A xs" and a: "A pt = Some size'" and run: "proc_freepagetable pt 0 s = Done () s'"
  shows "\<exists>ys. vm_change lo s A xs pt None s' ys"
proof -
  obtain t where "proc_freepagetable pt 0 s = Done () t" "uvm t pt (npages size') xs" "kframe s t"
      "outside (allpages s pt (npages size') xs) s t"
    by (rule unmap_both [OF freed_proc_vm [OF spaces_okD(1) [OF ok a] run], of 0]) simp
  then show ?thesis
    using a run uvm_kmem by (intro exI [of _ xs]) (auto simp: vm_change_def allpages_space)
qed

lemma step_release:
  assumes ok: "spaces_ok lo s A xs" and a: "A pt = Some size'" and run: "proc_freepagetable pt size' s = Done () s'"
  shows "\<exists>ys. vm_change lo s A xs pt None s' ys"
proof (cases "0 < size'")
  case True
  then have "reclaimed s (allpages s pt (npages size') xs) s'"
    using proc_freepagetable_run [OF freed_proc_vm [OF spaces_okD(1) [OF ok a] run] True] run by simp
  then show ?thesis using a unfolding reclaimed_def vm_change_def allpages_space by auto
next
  case False
  then have "size' = 0" using word_gt_0 by blast
  then show ?thesis using step_abandon [OF ok a] run by simp
qed

lemma step_init:
  assumes ok: "spaces_ok lo s A xs" and a: "A pt = Some 0" and l: "3 \<le> length xs" and run: "uvminit pt src s = Done () s'"
  shows "\<exists>ys. vm_change lo s A xs pt (Some PGSIZE) s' ys"
proof -
  have u: "uvm s pt 0 xs" using spaces_okD(2) [OF ok a] by simp
  have "length src < 4096" using run by (auto simp: uvminit_def split: if_splits)
  then have "uvm_like s pt 0 (allpages s pt 0 xs) 1 s'" using uvminit_run [OF u l, of src] run by simp
  then have "uvm_like s pt 0 (allpages s pt (npages 0) xs) (npages PGSIZE) s'" by (simp add: npages_def PGSIZE_def)
  then show ?thesis by (rule vm_change_own [OF ok a]) simp
qed

lemma step_grow:
  assumes ok: "spaces_ok lo s A xs" and a: "A pt = Some oldsz" and run: "uvmalloc pt oldsz newsz s = Done r s'"
  shows "\<exists>ys. vm_change lo s A xs pt (Some (if r = 0 then oldsz else r)) s' ys"
proof -
  let ?like = "uvm_like s pt (npages oldsz) (allpages s pt (npages oldsz) xs)"
  have "?like (npages (if r = 0 then oldsz else r)) s'"
  proof (cases "oldsz \<le> newsz")
    case True
    have "grow_post s pt (npages oldsz) (allpages s pt (npages oldsz) xs) (length xs) newsz r s'"
      using uvmalloc_run [OF spaces_okD(2) [OF ok a] True] run by simp
    moreover have "max (npages oldsz) (npages newsz) = npages newsz" using npages_mono [OF True] by simp
    moreover have "newsz = 0 \<Longrightarrow> oldsz = 0" using True by (simp add: word_le_nat_alt unat_eq_zero)
    ultimately show ?thesis unfolding grow_post_def by auto
  next
    case False
    then have "r = oldsz" "s' = s" using run by (simp_all add: uvmalloc_def not_le)
    then show ?thesis using spaces_okD(2) [OF ok a] by (auto simp: uvm_like_def)
  qed
  then show ?thesis by (rule vm_change_own [OF ok a]) simp
qed

lemma step_stack:
  assumes ok: "spaces_ok lo s A xs" and a: "A pt = Some oldsz"
    and run: "bindk (uvmalloc pt (PGROUNDUP oldsz) (PGROUNDUP oldsz + 2 * PGSIZE) s) (\<lambda>r s.
      if r = 0 then Done 0 s else bindk (uvmclear pt (r - 2 * PGSIZE) s) (\<lambda>_ s. Done r s)) = Done r s'"
  shows "\<exists>ys. vm_change lo s A xs pt (Some (if r = 0 then PGROUNDUP oldsz else r)) s' ys"
  by (rule vm_change_own [OF ok a stack_run [OF spaces_okD(2) [OF ok a] run]]) simp

lemma step_shrink:
  assumes ok: "spaces_ok lo s A xs" and a: "A pt = Some oldsz" and run: "uvmdealloc pt oldsz newsz s = Done r s'"
  shows "\<exists>ys. vm_change lo s A xs pt (Some r) s' ys"
proof -
  note u = spaces_okD(2) [OF ok a]
  have "if oldsz \<le> newsz then r = oldsz \<and> s' = s else r = newsz \<and> shrunk s pt (npages oldsz) xs (npages newsz) s'"
    using uvmdealloc_run [OF u, of newsz] run by simp
  moreover have "uvm_like s pt (npages oldsz) (allpages s pt (npages oldsz) xs) (npages oldsz) s"
    using u by (auto simp: uvm_like_def)
  moreover have "shrunk s pt (npages oldsz) xs (npages newsz) s' \<Longrightarrow> newsz < oldsz \<Longrightarrow>
      uvm_like s pt (npages newsz) (allpages s pt (npages oldsz) xs) (npages newsz) s'"
    by (rule shrunk_uvm_like [OF u npages_mono]) simp
  ultimately have "uvm_like s pt (npages r) (allpages s pt (npages oldsz) xs) (npages r) s'"
    by (simp split: if_splits)
  then show ?thesis by (rule vm_change_own [OF ok a]) simp
qed

lemma step_copy:
  assumes ok: "spaces_ok lo s A xs" and a: "A old = Some size'" "A new = Some 0" and ne: "old \<noteq> new"
    and run: "uvmcopy old new size' s = Done r s'"
  shows "\<exists>ys. vm_change lo s A xs new (Some (if r = 0 then size' else 0)) s' ys"
proof -
  have u: "uvm s new 0 xs" using spaces_okD(2) [OF ok a(2)] by simp
  have "space s old (npages size') \<inter> allpages s new 0 xs = {}"
    using pages_apart [OF ok ne a(1)] a(2) by (simp add: allpages_space)
  then have "copy_post s old (npages size') new (allpages s new 0 xs) (length xs) r s'"
    using uvmcopy_any [OF spaces_okD(2) [OF ok a(1)] u _ run] by simp
  then have "uvm_like s new 0 (allpages s new (npages 0) xs) (npages (if r = 0 then size' else 0)) s'"
    unfolding copy_post_def by auto
  then show ?thesis by (rule vm_change_own [OF ok a(2)]) simp
qed

lemma vm_step_change:
  assumes "vm_step lo (s, A) (s', A')" and ok: "spaces_ok lo s A xs"
  shows "\<exists>pt v ys. A' = A(pt := v) \<and> vm_change lo s A xs pt v s' ys"
  using assms(1)
proof cases
  case (create p pt ys)
  then have "ys = xs" using ok kmem_inv_unique by (auto simp: spaces_ok_def)
  then show ?thesis using create step_create [OF ok] by blast
next
  case (init pt ys src)
  then have "ys = xs" using ok kmem_inv_unique by (auto simp: spaces_ok_def)
  then show ?thesis using init step_init [OF ok] by blast
next
  case (grow pt oldsz newsz r)
  then show ?thesis using step_grow [OF ok grow(2,3)] by blast
next
  case (stack pt oldsz r)
  then show ?thesis using step_stack [OF ok stack(2,3)] by blast
next
  case (shrink pt oldsz newsz r)
  then show ?thesis using step_shrink [OF ok shrink(2,3)] by blast
next
  case (copy old size' new r)
  then show ?thesis using step_copy [OF ok copy(2-5)] by blast
next
  case (release pt size')
  then show ?thesis using step_release [OF ok release(2,3)] by blast
next
  case (abandon pt size')
  then show ?thesis using step_abandon [OF ok abandon(2,3)] by blast
qed

text \<open>A machine with one address space of a page, where a second one is created.\<close>

lemma one_more_space:
  "\<exists>s pt xs new s'. spaces_ok 3 s [pt \<mapsto> 4096] xs \<and> vm_step 3 (s, [pt \<mapsto> 4096]) (s', [pt \<mapsto> 4096, new \<mapsto> 0]) \<and> new \<noteq> pt"
proof -
  obtain s :: pmachine and pt xs where s: "proc_vm s pt 1 xs" "10 \<le> length xs" using one_page_space by blast
  have k: "kmem_inv s xs" using s(1) uvm_kmem [of s pt 1 xs] by (simp add: proc_vm_def)
  then have ok: "spaces_ok 3 s [pt \<mapsto> 4096] xs" using proc_vm_aspace [OF s(1)] by (simp add: spaces_ok_def npages_def)
  have "returns (proc_pagetable 0 s) (proc_vm_made s xs)" using k s(2) by (intro proc_pagetable_run) simp_all
  then obtain new s' where c: "proc_pagetable 0 s = Done new s'" "proc_vm_made s xs new s'" by (auto elim!: returnsE)
  then have "new \<in> set xs" using root_table [of new "mem s'"] by (auto simp: proc_vm_made_def allpages_def)
  moreover have "pt \<notin> set xs" using spaces_okD(3) [OF ok, of pt 4096] root_table [of pt "mem s"] by (auto simp: space_def)
  ultimately show ?thesis using ok create [OF c(1) k, of 3] s(2) by (intro exI conjI) auto
qed

section \<open>The machine's memory from boot on\<close>

text \<open>
  C7: whatever sequence of these calls the kernel makes, starting from an allocator
  that holds all free pages and no address space, failed calls included, every live address
  space is well formed: its user pages are mapped, to pages of its own, up to its size and not beyond; no page
  belongs to two address spaces, and no page of theirs is free. Each of the two entries at the top is either a
  mapping or invalid. If moreover three pages were free at every call of \<open>proc_pagetable\<close>, the trampoline and
  the trap frame are mapped in every address space; with fewer, \<open>proc_pagetable\<close> may have left them out.
\<close>

theorem vm_reachable_safe:
  assumes "kmem_inv s0 xs0" and "(vm_step lo)\<^sup>*\<^sup>* (s0, Map.empty) (s, A)"
  shows "\<exists>xs. kmem_inv s xs \<and>
    (\<forall>pt z. A pt = Some z \<longrightarrow> uvm s pt (npages z) xs \<and> space s pt (npages z) \<inter> set xs = {} \<and>
      (\<forall>j\<in>{VPAGES - 1, VPAGES - 2}. is_leaf (ptmap (mem s) pt j) \<or> ptmap (mem s) pt j AND PTE_V = 0) \<and>
      (3 \<le> lo \<longrightarrow> proc_vm s pt (npages z) xs)) \<and>
    (\<forall>pt z pt' z'. A pt = Some z \<longrightarrow> A pt' = Some z' \<longrightarrow> pt \<noteq> pt' \<longrightarrow>
      space s pt (npages z) \<inter> space s pt' (npages z') = {})"
proof -
  have "\<exists>xs. spaces_ok lo s A xs"
    using assms(2)
  proof (induction rule: rtranclp_induct2)
    case refl
    then show ?case using assms(1) by (auto simp: spaces_ok_def)
  next
    case (step s A s' A')
    then obtain xs where ok: "spaces_ok lo s A xs" by blast
    then obtain pt v ys where "A' = A(pt := v)" "vm_change lo s A xs pt v s' ys" using vm_step_change [OF step(2) ok] by blast
    then show ?case using vm_change_ok [OF ok] by blast
  qed
  then obtain xs where ok: "spaces_ok lo s A xs" by blast
  have "kmem_inv s xs" using ok by (simp add: spaces_ok_def)
  moreover have "uvm s pt (npages z) xs \<and> space s pt (npages z) \<inter> set xs = {} \<and>
      (\<forall>j\<in>{VPAGES - 1, VPAGES - 2}. is_leaf (ptmap (mem s) pt j) \<or> ptmap (mem s) pt j AND PTE_V = 0) \<and>
      (3 \<le> lo \<longrightarrow> proc_vm s pt (npages z) xs)" if "A pt = Some z" for pt z
    using spaces_okD(1-3) [OF ok that] by (auto simp: aspace_def top_ok_def proc_vm_def)
  ultimately show ?thesis using spaces_okD(4) [OF ok] by (intro exI [of _ xs]) simp
qed

theorem vm_reachable_safe_witness:
  "\<exists>(s0 :: pmachine) xs0 s pt A xs. kmem_inv s0 xs0 \<and> (vm_step 3)\<^sup>*\<^sup>* (s0, Map.empty) (s, A) \<and> A pt = Some 4096 \<and>
    proc_vm s pt 1 xs \<and> space s pt 1 \<inter> set xs = {}"
proof -
  obtain s0 :: pmachine and xs0 where s0: "kmem_inv s0 xs0" "100 \<le> length xs0" using small_machine_pages by blast
  then have "returns (proc_pagetable 0 s0) (proc_vm_made s0 xs0)" by (intro proc_pagetable_run) simp_all
  then obtain pt s1 ys where c: "proc_pagetable 0 s0 = Done pt s1" "proc_vm s1 pt 0 ys" "length xs0 \<le> length ys + 3"
    unfolding proc_vm_made_def by (auto elim!: returnsE)
  have np: "npages 4096 = 1" by (simp add: npages_def)
  obtain s2 where g: "uvmalloc pt 0 4096 s1 = Done 4096 s2"
    using uvmalloc_run [of s1 pt 0 ys 4096] c s0(2) by (auto simp: np proc_vm_def grow_post_def elim!: returnsE)
  have "vm_step 3 (s0, Map.empty) (s1, [pt \<mapsto> 0])" using create [OF c(1) s0(1), of 3] s0(2) by simp
  moreover have "vm_step 3 (s1, [pt \<mapsto> 0]) (s2, [pt \<mapsto> 4096])"
    using grow [where A = "[pt \<mapsto> 0]" and pt = pt, OF _ g] by simp
  ultimately have r: "(vm_step 3)\<^sup>*\<^sup>* (s0, Map.empty) (s2, [pt \<mapsto> 4096])" by simp
  obtain xs where "\<forall>q z. [pt \<mapsto> 4096] q = Some z \<longrightarrow> (3 \<le> (3 :: nat) \<longrightarrow> proc_vm s2 q (npages z) xs) \<and> space s2 q (npages z) \<inter> set xs = {}"
    using vm_reachable_safe [OF s0(1) r] by blast
  from this [rule_format, of pt 4096] have "proc_vm s2 pt 1 xs \<and> space s2 pt 1 \<inter> set xs = {}" by (simp add: np)
  moreover have "[pt \<mapsto> 4096] pt = Some 4096" by simp
  ultimately show ?thesis using s0(1) r by blast
qed

text \<open>
  C8: isolation. A call on one address space leaves every address space whose size it does not
  change exactly as it was: the same translations for all its pages, the
  trampoline and the trapframe, and the same bytes in them.
\<close>

theorem vm_step_isolates:
  assumes ok: "spaces_ok lo s A xs" and st: "vm_step lo (s, A) (s', A')" and q: "A q = Some z" "A' q = Some z"
  shows "(\<forall>j. j < npages z \<or> j = VPAGES - 1 \<or> j = VPAGES - 2 \<longrightarrow> ptmap (mem s') q j = ptmap (mem s) q j) \<and>
    (\<forall>j<npages z. upage (mem s') q j = upage (mem s) q j)"
proof -
  obtain pt v ys where c: "A' = A(pt := v)" "vm_change lo s A xs pt v s' ys" using vm_step_change [OF st ok] by blast
  show ?thesis
  proof (cases "q = pt")
    case True
    then have "v = Some z" "A pt = Some z" using c(1) q by simp_all
    then have k: "ukeep s q (npages z) s'" using c(2) True unfolding vm_change_def by blast
    have V: "UPAGES \<le> VPAGES - 1" "UPAGES \<le> VPAGES - 2" "VPAGES - 1 < VPAGES" "VPAGES - 2 < VPAGES"
      by (simp_all add: UPAGES_def VPAGES_def)
    have "\<forall>j<npages z. ptmap (mem s') q j = ptmap (mem s) q j \<and> upage (mem s') q j = upage (mem s) q j"
      "ptmap (mem s') q (VPAGES - 1) = ptmap (mem s) q (VPAGES - 1)" "ptmap (mem s') q (VPAGES - 2) = ptmap (mem s) q (VPAGES - 2)"
      using k V unfolding ukeep_def by simp_all
    then show ?thesis by blast
  next
    case False
    have "outside (set xs \<union> pages_of s pt (A pt)) s s'" using c(2) by (simp add: vm_change_def)
    note k = space_kept(1,3) [OF spaces_okD(2) [OF ok q(1)] this pages_apart [OF ok False q(1)]]
    show ?thesis using k by blast
  qed
qed

theorem vm_step_isolates_witness:
  "\<exists>s A xs s' A' q. spaces_ok 3 s A xs \<and> vm_step 3 (s, A) (s', A') \<and> A \<noteq> A' \<and> A q = Some 4096 \<and>
    upage (mem s') q 0 = upage (mem s) q 0"
proof -
  obtain s pt xs new s' where s: "spaces_ok 3 s [pt \<mapsto> 4096] xs" "vm_step 3 (s, [pt \<mapsto> 4096]) (s', [pt \<mapsto> 4096, new \<mapsto> 0])" "new \<noteq> pt"
    using one_more_space by blast
  have "upage (mem s') pt 0 = upage (mem s) pt 0"
    using vm_step_isolates [OF s(1,2), of pt 4096] s(3) by (simp add: npages_def)
  moreover have "[pt \<mapsto> 4096] pt = Some 4096" "[pt \<mapsto> 4096] \<noteq> [pt \<mapsto> 4096, new \<mapsto> 0]"
    using s(3) by (auto dest: fun_cong [of _ _ new])
  ultimately show ?thesis using s(1,2) by blast
qed

text \<open>The pages of the allocator and of the address spaces.\<close>

definition owned_pages :: "pmachine \<Rightarrow> (u64 \<rightharpoonup> u64) \<Rightarrow> u64 list \<Rightarrow> u64 set" where
  "owned_pages s A xs = set xs \<union> (\<Union>pt. pages_of s pt (A pt))"

lemma owned_split: "owned_pages s A xs = set xs \<union> pages_of s pt (A pt) \<union> (\<Union>q\<in>{q. q \<noteq> pt}. pages_of s q (A q))"
  unfolding owned_pages_def by auto

lemma others_kept:
  assumes ok: "spaces_ok lo s A xs" and c: "vm_change lo s A xs pt v s' ys"
  shows "(\<Union>q\<in>{q. q \<noteq> pt}. pages_of s' q (A q)) = (\<Union>q\<in>{q. q \<noteq> pt}. pages_of s q (A q))"
proof -
  have "pages_of s' q (A q) = pages_of s q (A q)" if "q \<noteq> pt" for q
  proof (cases "A q")
    case (Some z)
    have "outside (set xs \<union> pages_of s pt (A pt)) s s'" "kframe s s'" "kmem_inv s' ys" "set ys \<subseteq> set xs \<union> pages_of s pt (A pt)"
      using c by (auto simp: vm_change_def)
    then have "space s' q (npages z) = space s q (npages z)"
      by (rule bystander(2) [OF spaces_okD(2) [OF ok Some] _ pages_apart [OF ok that Some]])
    then show ?thesis using Some by simp
  qed simp
  then show ?thesis by simp
qed

text \<open>
  The pages of an address space that a step takes out of the map by calling
  \<open>proc_freepagetable\<close> with size 0.
\<close>

definition lost_pages :: "pmachine \<Rightarrow> (u64 \<rightharpoonup> u64) \<Rightarrow> pmachine \<Rightarrow> (u64 \<rightharpoonup> u64) \<Rightarrow> u64 set" where
  "lost_pages s A s' A' =
    \<Union>{space s pt (npages z) |pt z. A pt = Some z \<and> A' pt = None \<and> proc_freepagetable pt 0 s = Done () s'}"

lemma abandon_free_list:
  assumes ok: "spaces_ok lo s A xs" and a: "A pt = Some z" and run: "proc_freepagetable pt 0 s = Done () s'"
  shows "kmem_inv s' xs"
proof -
  obtain t where "proc_freepagetable pt 0 s = Done () t" "uvm t pt (npages z) xs"
    by (rule unmap_both [OF freed_proc_vm [OF spaces_okD(1) [OF ok a] run], of 0]) simp
  then show ?thesis using run uvm_kmem by auto
qed

lemma lost_none:
  assumes ok: "spaces_ok lo s A xs" and c: "A' = A(pt := v)" "vm_change lo s A xs pt v s' ys"
    and eq: "set ys \<union> pages_of s' pt v = set xs \<union> pages_of s pt (A pt)"
  shows "lost_pages s A s' A' = {}"
proof -
  have False if l: "A q = Some z" "A' q = None" "proc_freepagetable q 0 s = Done () s'" for q z
  proof -
    have q: "q = pt" "v = None" using l(1,2) c(1) by (auto split: if_splits)
    have "ys = xs" using abandon_free_list [OF ok l(1,3)] c(2) kmem_inv_unique by (auto simp: vm_change_def)
    then have "space s pt (npages z) \<subseteq> set xs" using eq q l(1) by auto
    then show False using spaces_okD(3) [OF ok l(1)] q root_table [of pt "mem s"] by (auto simp: space_def)
  qed
  then show ?thesis unfolding lost_pages_def by blast
qed

text \<open>
  C9: which calls lose pages. A call may move pages between the allocator and the address
  spaces, and the pages they have together stay the same, with one exception, which \<open>freeproc\<close> meets when
  \<open>fork\<close> has failed and \<open>exec\<close> when \<open>uvmalloc\<close> has failed: \<open>proc_freepagetable\<close> with a size of 0 frees
  nothing, and every page of that address space, its page table and its user pages, is lost.
\<close>

theorem vm_step_conserves:
  assumes ok: "spaces_ok lo s A xs" and st: "vm_step lo (s, A) (s', A')"
  shows "\<exists>ys. spaces_ok lo s' A' ys \<and> owned_pages s' A' ys = owned_pages s A xs - lost_pages s A s' A'"
proof -
  obtain pt v ys where c: "A' = A(pt := v)" "vm_change lo s A xs pt v s' ys" using vm_step_change [OF st ok] by blast
  have "owned_pages s' A' ys = set ys \<union> pages_of s' pt v \<union> (\<Union>q\<in>{q. q \<noteq> pt}. pages_of s q (A q))"
    using owned_split [of s' A' ys pt] others_kept [OF ok c(2)] c(1) by simp
  note own = this owned_split [of s A xs pt]
  consider "set ys \<union> pages_of s' pt v = set xs \<union> pages_of s pt (A pt)"
    | z where "v = None" "A pt = Some z" "ys = xs" "proc_freepagetable pt 0 s = Done () s'"
    using c(2) unfolding vm_change_def by blast
  then have "owned_pages s' A' ys = owned_pages s A xs - lost_pages s A s' A'"
  proof cases
    case 1
    then show ?thesis using own lost_none [OF ok c 1] by simp
  next
    case 2
    have "space s pt (npages z) \<inter> pages_of s q (A q) = {}" if "q \<noteq> pt" for q
      using spaces_okD(4) [OF ok 2(2)] that by (cases "A q") auto
    then have "space s pt (npages z) \<inter> (\<Union>q\<in>{q. q \<noteq> pt}. pages_of s q (A q)) = {}" by blast
    moreover have "lost_pages s A s' A' = space s pt (npages z)"
      using c(1) 2 unfolding lost_pages_def by (auto split: if_splits)
    ultimately show ?thesis using own 2 spaces_okD(3) [OF ok 2(2)] by auto
  qed
  moreover have "spaces_ok lo s' A' ys" using vm_change_ok [OF ok c(2)] c(1) by simp
  ultimately show ?thesis by (intro exI [of _ ys] conjI)
qed

theorem vm_step_conserves_witness:
  "\<exists>s A xs s' A' ys pt. spaces_ok 3 s A xs \<and> vm_step 3 (s, A) (s', A') \<and> spaces_ok 3 s' A' ys \<and>
    owned_pages s' A' ys = owned_pages s A xs - lost_pages s A s' A' \<and> pt \<in> lost_pages s A s' A'"
proof -
  obtain s :: pmachine and pt xs where s: "proc_vm s pt 1 xs" using one_page_space by blast
  have "kmem_inv s xs" using s uvm_kmem [of s pt 1 xs] by (simp add: proc_vm_def)
  then have ok: "spaces_ok 3 s [pt \<mapsto> 4096] xs" using proc_vm_aspace [OF s] by (simp add: spaces_ok_def npages_def)
  obtain s' where f: "proc_freepagetable pt 0 s = Done () s'" by (rule unmap_both [OF s, of 0]) simp
  have st: "vm_step 3 (s, [pt \<mapsto> 4096]) (s', [pt \<mapsto> 4096](pt := None))" using abandon [OF _ f, of "[pt \<mapsto> 4096]"] by simp
  have "pt \<in> space s pt (npages 4096)" using root_table by (simp add: space_def)
  moreover have "[pt \<mapsto> 4096] pt = Some 4096" "([pt \<mapsto> 4096](pt := None)) pt = None" by simp_all
  ultimately have "pt \<in> lost_pages s [pt \<mapsto> 4096] s' ([pt \<mapsto> 4096](pt := None))" using f unfolding lost_pages_def by blast
  then show ?thesis using ok st vm_step_conserves [OF ok st] by blast
qed

end
