(* ===== verification/Pipequeue.thy ===== *)
theory Pipequeue
  imports Pipe Usercopy
begin

text \<open>
  The ring buffer of \<open>kernel/pipe.c\<close> as a bounded queue of bytes. The locale is the interface the
  loops of \<open>pipewrite\<close> and \<open>piperead\<close> rely on; it is interpreted on the counters and the data
  array of \<open>struct pipe\<close>, with the counters wrapping around at 32 bits. The two system calls are
  then shown to append to and to take from the queue what they copy from and to user memory.
\<close>

locale bounded_queue =
  fixes ok :: "'q \<Rightarrow> bool" and contents :: "'q \<Rightarrow> 'b list" and cap :: nat
    and put :: "'b \<Rightarrow> 'q \<Rightarrow> 'q" and front :: "'q \<Rightarrow> 'b" and advance :: "'q \<Rightarrow> 'q"
  assumes within: "ok q \<Longrightarrow> length (contents q) \<le> cap"
    and put_law: "ok q \<Longrightarrow> length (contents q) < cap \<Longrightarrow> ok (put b q) \<and> contents (put b q) = contents q @ [b]"
    and front_law: "ok q \<Longrightarrow> contents q \<noteq> [] \<Longrightarrow> front q = hd (contents q)"
    and advance_law: "ok q \<Longrightarrow> contents q \<noteq> [] \<Longrightarrow> ok (advance q) \<and> contents (advance q) = tl (contents q)"
begin

lemma puts:
  assumes "ok q" and "length (contents q) + length bs \<le> cap"
  shows "ok (fold put bs q) \<and> contents (fold put bs q) = contents q @ bs"
  using assms
proof (induction bs arbitrary: q)
  case (Cons b bs)
  then show ?case using put_law [of q b] by simp
qed simp

lemma advances:
  assumes "ok q" and "k \<le> length (contents q)"
  shows "ok ((advance ^^ k) q) \<and> contents ((advance ^^ k) q) = drop k (contents q)"
  using assms
proof (induction k)
  case (Suc k)
  then have "ok ((advance ^^ k) q)" "contents ((advance ^^ k) q) = drop k (contents q)" by simp_all
  then show ?case using advance_law [of "(advance ^^ k) q"] Suc.prems(2) by (simp add: drop_Suc tl_drop)
qed simp

lemma front_advances:
  assumes "ok q" and "k < length (contents q)"
  shows "front ((advance ^^ k) q) = contents q ! k"
  using front_law [of "(advance ^^ k) q"] advances [of q k] assms by (simp add: hd_drop_conv_nth)

end

section \<open>The ring\<close>

definition pipe_ok :: "pipe \<Rightarrow> bool" where
  "pipe_ok p \<longleftrightarrow> length (pdata p) = 512 \<and> unat (nwrite p - nread p) \<le> 512"

definition pipe_contents :: "pipe \<Rightarrow> u8 list" where
  "pipe_contents p = map (\<lambda>i. pdata p ! ((unat (nread p) + i) mod 512)) [0..<unat (nwrite p - nread p)]"

definition pipe_advance :: "pipe \<Rightarrow> pipe" where
  "pipe_advance p = p\<lparr>nread := nread p + 1\<rparr>"

lemma length_pipe_contents: "length (pipe_contents p) = unat (nwrite p - nread p)"
  by (simp add: pipe_contents_def)

lemma ring_index: "unat ((c :: u32) mod PIPESIZE) = unat c mod 512"
  by (simp add: PIPESIZE_def unat_mod)

lemma ring_add: "unat (c + of_nat i :: u32) mod 512 = (unat c + i) mod 512"
proof -
  have "unat (c + of_nat i :: u32) = (unat c + i) mod 2 ^ 32"
    by (simp add: unat_word_ariths unat_of_nat mod_add_right_eq)
  then show ?thesis by (simp add: mod_mod_cancel)
qed

lemma nwrite_index: "unat (nwrite p) mod 512 = (unat (nread p) + unat (nwrite p - nread p)) mod 512"
  using ring_add [of "nread p" "unat (nwrite p - nread p)"] by simp

lemma unat_Suc: "unat (c :: u32) < 512 \<Longrightarrow> unat (c + 1) = Suc (unat c)"
  by (simp add: unat_word_ariths)

lemma ring_distinct:
  assumes "i < l" and "l < 512"
  shows "(x + i) mod 512 \<noteq> (x + l) mod (512 :: nat)"
proof
  assume "(x + i) mod 512 = (x + l) mod 512"
  then have "512 dvd (x + l) - (x + i)" using assms by (metis add_le_cancel_left less_imp_le mod_eq_dvd_iff_nat)
  then show False using assms by (auto dest: dvd_imp_le)
qed

lemma pipe_put_law:
  assumes "pipe_ok p" and "length (pipe_contents p) < 512"
  shows "pipe_ok (pipe_put b p) \<and> pipe_contents (pipe_put b p) = pipe_contents p @ [b]"
proof -
  let ?l = "unat (nwrite p - nread p)"
  have l: "?l < 512" "length (pdata p) = 512" using assms by (simp_all add: length_pipe_contents pipe_ok_def)
  have w: "unat (nwrite p + 1 - nread p) = Suc ?l"
    using unat_Suc [OF l(1)] by (simp add: algebra_simps)
  have "pdata (pipe_put b p) = (pdata p)[(unat (nread p) + ?l) mod 512 := b]"
    by (simp add: pipe_put_def ring_index nwrite_index)
  then have "pipe_contents (pipe_put b p) = map (\<lambda>i. (pdata p)[(unat (nread p) + ?l) mod 512 := b] ! ((unat (nread p) + i) mod 512)) [0..<Suc ?l]"
    by (simp add: pipe_contents_def pipe_put_def w)
  also have "\<dots> = pipe_contents p @ [b]"
    using l by (auto simp: pipe_contents_def intro!: nth_list_update_neq ring_distinct [OF _ l(1), THEN not_sym])
  finally show ?thesis using l w by (simp add: pipe_ok_def pipe_put_def)
qed

lemma pipe_advance_law:
  assumes "pipe_ok p" and "pipe_contents p \<noteq> []"
  shows "pipe_head p = hd (pipe_contents p)" and "pipe_ok (pipe_advance p)"
    and "pipe_contents (pipe_advance p) = tl (pipe_contents p)"
proof -
  let ?l = "unat (nwrite p - nread p)"
  have l: "0 < ?l" using assms(2) by (simp add: pipe_contents_def)
  have w: "unat (nwrite p - (nread p + 1)) = ?l - 1"
    using l by (metis diff_diff_eq unat_gt_0 unat_minus_one)
  show "pipe_head p = hd (pipe_contents p)"
    using l by (simp add: pipe_head_def pipe_contents_def ring_index hd_map)
  show "pipe_ok (pipe_advance p)" using assms(1) w unfolding pipe_ok_def pipe_advance_def by simp linarith
  have "(unat (nread p + 1) + i) mod 512 = (unat (nread p) + Suc i) mod 512" for i
  proof -
    have "(unat (nread p + 1) + i) mod 512 = (unat (nread p + of_nat 1) mod 512 + i) mod 512" by (simp only: mod_add_left_eq of_nat_1)
    also have "\<dots> = (unat (nread p) + 1 + i) mod 512" unfolding ring_add by (simp only: mod_add_left_eq)
    finally show ?thesis by simp
  qed
  moreover have "[0..<?l] ! Suc i = Suc i" if "i < ?l - 1" for i using that by (subst nth_upt) simp_all
  ultimately show "pipe_contents (pipe_advance p) = tl (pipe_contents p)"
    using l by (intro nth_equalityI) (simp_all add: pipe_contents_def pipe_advance_def w nth_tl)
qed

interpretation pq: bounded_queue pipe_ok pipe_contents 512 pipe_put pipe_head pipe_advance
proof
  show "pipe_ok p \<Longrightarrow> length (pipe_contents p) \<le> 512" for p by (simp add: length_pipe_contents pipe_ok_def)
  show "pipe_ok p \<Longrightarrow> length (pipe_contents p) < 512 \<Longrightarrow> pipe_ok (pipe_put b p) \<and> pipe_contents (pipe_put b p) = pipe_contents p @ [b]" for b p
    by (rule pipe_put_law)
  show "pipe_ok p \<Longrightarrow> pipe_contents p \<noteq> [] \<Longrightarrow> pipe_head p = hd (pipe_contents p)" for p
    by (rule pipe_advance_law)
  show "pipe_ok p \<Longrightarrow> pipe_contents p \<noteq> [] \<Longrightarrow> pipe_ok (pipe_advance p) \<and> pipe_contents (pipe_advance p) = tl (pipe_contents p)" for p
    by (simp add: pipe_advance_law)
qed

text \<open>The tests of the loops: the pipe is full, and it is empty.\<close>

lemma pipe_full_iff:
  assumes "pipe_ok p"
  shows "nwrite p = nread p + PIPESIZE \<longleftrightarrow> length (pipe_contents p) = 512"
proof -
  have "nwrite p = nread p + PIPESIZE \<longleftrightarrow> nwrite p - nread p = 512" unfolding PIPESIZE_def by (metis add.commute diff_add_cancel add_diff_cancel_left')
  also have "\<dots> \<longleftrightarrow> unat (nwrite p - nread p) = unat (512 :: u32)" by (rule word_unat_eq_iff)
  finally show ?thesis by (simp add: length_pipe_contents)
qed

lemma pipe_empty_iff: "nread p = nwrite p \<longleftrightarrow> pipe_contents p = []"
proof -
  have "nread p = nwrite p \<longleftrightarrow> unat (nwrite p - nread p) = 0" by (metis eq_iff_diff_eq_0 unat_eq_zero)
  then show ?thesis by (simp add: pipe_contents_def)
qed

section \<open>One byte to and from user memory\<close>

text \<open>The number of bytes a process can access from an address on, up to a limit.\<close>

definition reach :: "memory \<Rightarrow> u64 \<Rightarrow> nat \<Rightarrow> nat \<Rightarrow> nat \<Rightarrow> nat" where
  "reach m pt np a k = length (takeWhile (\<lambda>i. upage_ok m pt np ((a + i) div 4096)) [0..<k])"

lemma reach_le: "reach m pt np a k \<le> k"
  using length_takeWhile_le [of "\<lambda>i. upage_ok m pt np ((a + i) div 4096)" "[0..<k]"] by (simp add: reach_def)

lemma reach_ok: "i < reach m pt np a k \<Longrightarrow> upage_ok m pt np ((a + i) div 4096)"
proof -
  let ?P = "\<lambda>i. upage_ok m pt np ((a + i) div 4096)"
  assume i: "i < reach m pt np a k"
  then have "i < k" using reach_le [of m pt np a k] by simp
  then have "takeWhile ?P [0..<k] ! i = i" using i takeWhile_nth [of i ?P "[0..<k]"] by (simp add: reach_def)
  then have "i \<in> set (takeWhile ?P [0..<k])" using i by (metis nth_mem reach_def)
  then show ?thesis using set_takeWhileD by fastforce
qed

lemma reach_stop:
  assumes "reach m pt np a k < k"
  shows "\<not> upage_ok m pt np ((a + reach m pt np a k) div 4096)"
  using nth_length_takeWhile [of "\<lambda>i. upage_ok m pt np ((a + i) div 4096)" "[0..<k]"] assms by (simp add: reach_def)

lemma uvm_cong:
  fixes s :: "'y kmachine_scheme" and t :: "'z kmachine_scheme"
  assumes "uvm s pt n xs" and "mem t = mem s" and "k_end t = k_end s" and "freelist t = freelist s" and "LKmem \<notin> set (held t)"
  shows "uvm t pt n xs"
proof -
  have "valid_page t = valid_page s" using assms(3) by (simp add: valid_page_def fun_eq_iff)
  then show ?thesis using assms by (simp add: uvm_def vm_ok_def kmem_inv_def freeable_def)
qed

lemma accessible_byte: "accessible m pt n a 1 \<longleftrightarrow> upage_ok m pt n (a div 4096)"
proof
  show "accessible m pt n a 1 \<Longrightarrow> upage_ok m pt n (a div 4096)" by (simp add: accessible_def)
  assume u: "upage_ok m pt n (a div 4096)"
  have "b = a" if "a \<le> b" "b < a + 1" for b using that by simp
  then show "accessible m pt n a 1" using u unfolding accessible_def by metis
qed

lemma user_addr:
  assumes "unat (addr :: u64) + i < 4096 * UPAGES"
  shows "unat (addr + of_int (int i)) = unat addr + i"
  using assms by (simp add: unat_word_ariths unat_of_nat_u64 UPAGES_def VPAGES_def)

lemma copyin_byte:
  assumes u: "uvm s pt n xs" and a: "unat addr + i < 4096 * UPAGES"
  shows "\<exists>bs. copyin pt (addr + of_int (int i)) 1 s = Done (if upage_ok (mem s) pt n ((unat addr + i) div 4096) then 0 else -1, bs) s \<and>
    (upage_ok (mem s) pt n ((unat addr + i) div 4096) \<longrightarrow> bs = [ubyte (mem s) pt (unat addr + i)])"
  using copyin_run [OF u, of "addr + of_int (int i)" 1] a unfolding user_addr [OF a] accessible_byte by simp

lemma copyout_byte:
  assumes u: "uvm s pt n xs" and a: "unat addr + i < 4096 * UPAGES"
  shows "if upage_ok (mem s) pt n ((unat addr + i) div 4096)
    then \<exists>m. copyout pt (addr + of_int (int i)) [b] s = Done 0 (s\<lparr>mem := m\<rparr>) \<and> copied s pt n xs (unat addr + i) [b] m
    else copyout pt (addr + of_int (int i)) [b] s = Done (-1) s"
proof -
  let ?va = "addr + of_int (int i)" and ?j = "(unat addr + i) div 4096"
  have acc: "accessible (mem s) pt n (unat ?va) (length [b]) \<longleftrightarrow> upage_ok (mem s) pt n ?j"
    using accessible_byte unfolding user_addr [OF a] by simp
  show ?thesis
  proof (cases "upage_ok (mem s) pt n ?j")
    case True
    then show ?thesis using copyout_run [OF u, of ?va "[b]"] a unfolding acc unfolding user_addr [OF a] by simp
  next
    case False
    have j: "?j < UPAGES" using a by (intro less_mult_imp_div_less) linarith
    have "PGROUNDDOWN ?va = vaddr ?j" unfolding PGROUNDDOWN_vaddr pgno_def user_addr [OF a] ..
    then show ?thesis using False walkaddr_user [OF u j] by (simp add: copyout.simps [of _ "addr + word_of_nat i"])
  qed
qed

lemma copied_append:
  assumes 1: "copied s pt n xs a src m" and 2: "copied t pt n xs (a + length src) src' m'" and t: "mem t = m"
    and f: "k_end t = k_end s" "freelist t = freelist s" "LKmem \<notin> set (held s)"
    and acc: "accessible (mem s) pt n a (length src)" "accessible (mem s) pt n (a + length src) (length src')"
  shows "copied s pt n xs a (src @ src') m'"
proof -
  have pm: "ptmap m pt = ptmap (mem s) pt" using 1 by (simp add: copied_def)
  then have ac: "accessible m pt n (a + length src) (length src')" and pg: "pgs m pt 0 n = pgs (mem s) pt 0 n"
    using acc by (simp_all add: accessible_def upage_ok_def pgs_def)
  have u: "uvm (t\<lparr>mem := m'\<rparr>) pt n xs" using 2 by (simp add: copied_def)
  have "uvm (s\<lparr>mem := m'\<rparr>) pt n xs" by (rule uvm_cong [OF u]) (use f in simp_all)
  moreover have "ubyte m' pt b = (if a \<le> b \<and> b < a + length (src @ src') then (src @ src') ! (b - a) else ubyte (mem s) pt b)"
    if "b < 4096 * n" for b
    using 1 2 that t acc(1) ac by (auto simp: copied_def nth_append)
  ultimately show ?thesis using 1 2 t pm pg by (simp add: copied_def)
qed

section \<open>The loops\<close>

lemma upd_pipe_simps [simp]:
  "pipes (upd_pipe pi f s) pi = f (pipes s pi)" "mem (upd_pipe pi f s) = mem s" "held (upd_pipe pi f s) = held s"
  "procs (upd_pipe pi f s) = procs s" "k_end (upd_pipe pi f s) = k_end s" "freelist (upd_pipe pi f s) = freelist s"
  "upd_pipe pi f (upd_pipe pi g s) = upd_pipe pi (f \<circ> g) s"
  by (simp_all add: upd_pipe_def)

lemma pipewrite_run:
  fixes s :: "'z pimachine_scheme"
  assumes u: "uvm s pt np xs" and pt: "pagetable (procs s ! pr) = pt" and l: "LKmem \<notin> set (held s)"
    and a: "unat addr + nat n \<le> 4096 * UPAGES" and p: "pipe_ok (pipes s pi)"
    and k: "k \<le> nat n" "length (pipe_contents (pipes s pi)) + k \<le> 512"
      "\<And>j. j < k \<Longrightarrow> upage_ok (mem s) pt np ((unat addr + j) div 4096)"
  defines "bs \<equiv> map (ubyte (mem s) pt) [unat addr..<unat addr + k]"
  shows "pipewrite_loop pi pr addr 0 n envs s = pipewrite_loop pi pr addr (int k) n envs (upd_pipe pi (fold pipe_put bs) s)"
  using k unfolding bs_def
proof (induction k)
  case 0
  then show ?case by (simp add: upd_pipe_def)
next
  case (Suc k)
  let ?bs = "map (ubyte (mem s) pt) [unat addr..<unat addr + k]"
  let ?s = "upd_pipe pi (fold pipe_put ?bs) s"
  have i: "int k < n" "unat addr + k < 4096 * UPAGES" using Suc.prems(1) a by linarith+
  have q: "pipe_ok (pipes ?s pi)" "length (pipe_contents (pipes ?s pi)) \<noteq> 512"
    using pq.puts [OF p, of ?bs] Suc.prems(2) by simp_all
  have us: "uvm ?s pt np xs" by (rule uvm_cong [OF u]) (use l in simp_all)
  have "copyin pt (addr + of_int (int k)) 1 ?s = Done (0, [ubyte (mem s) pt (unat addr + k)]) ?s"
    using copyin_byte [OF us i(2)] Suc.prems(3) [of k] by auto
  then have st: "pipewrite_loop pi pr addr (int k) n envs ?s =
      pipewrite_loop pi pr addr (int k + 1) n envs (upd_pipe pi (pipe_put (ubyte (mem s) pt (unat addr + k))) ?s)"
    using i(1) q(2) pipe_full_iff [OF q(1)] pt by (subst pipewrite_loop.simps) simp
  have eq: "upd_pipe pi (pipe_put (ubyte (mem s) pt (unat addr + k))) ?s = upd_pipe pi (fold pipe_put (map (ubyte (mem s) pt) [unat addr..<unat addr + Suc k])) s"
    by simp
  have IH: "pipewrite_loop pi pr addr 0 n envs s = pipewrite_loop pi pr addr (int k) n envs ?s" using Suc by simp
  have "int (Suc k) = int k + 1" by simp
  then show ?case unfolding eq [symmetric] by (simp only: trans [OF IH st])
qed

lemma piperead_run:
  fixes s :: "'z pimachine_scheme"
  assumes u: "uvm s pt np xs" and pt: "pagetable (procs s ! pr) = pt" and l: "LKmem \<notin> set (held s)"
    and a: "unat addr + nat n \<le> 4096 * UPAGES" and p: "pipe_ok (pipes s pi)"
    and k: "k \<le> nat n" "k \<le> length (pipe_contents (pipes s pi))"
      "\<And>j. j < k \<Longrightarrow> upage_ok (mem s) pt np ((unat addr + j) div 4096)"
  shows "\<exists>m. piperead_loop pi pr addr 0 n s = piperead_loop pi pr addr (int k) n (upd_pipe pi (pipe_advance ^^ k) (s\<lparr>mem := m\<rparr>)) \<and>
    copied s pt np xs (unat addr) (take k (pipe_contents (pipes s pi))) m"
  using k
proof (induction k)
  case 0
  then show ?case using u by (intro exI [of _ "mem s"]) (auto simp: upd_pipe_def copied_def)
next
  case (Suc k)
  let ?q = "pipe_contents (pipes s pi)"
  obtain m where m: "piperead_loop pi pr addr 0 n s = piperead_loop pi pr addr (int k) n (upd_pipe pi (pipe_advance ^^ k) (s\<lparr>mem := m\<rparr>))"
      "copied s pt np xs (unat addr) (take k ?q) m"
    using Suc by force
  let ?s = "upd_pipe pi (pipe_advance ^^ k) (s\<lparr>mem := m\<rparr>)" and ?t = "upd_pipe pi (pipe_advance ^^ Suc k) (s\<lparr>mem := m\<rparr>)"
  have i: "int k < n" "unat addr + k < 4096 * UPAGES" using Suc.prems(1) a by linarith+
  have k': "k < length ?q" using Suc.prems(2) by simp
  have q: "pipe_contents (pipes ?s pi) \<noteq> []" "pipe_head (pipes ?s pi) = ?q ! k"
    using pq.advances [OF p, of k] pq.front_advances [OF p k'] k' by simp_all
  have pm: "ptmap m pt = ptmap (mem s) pt" using m(2) by (simp add: copied_def)
  have "uvm (s\<lparr>mem := m\<rparr>) pt np xs" using m(2) by (simp add: copied_def)
  then have ut: "uvm ?t pt np xs" by (rule uvm_cong) (use l in simp_all)
  have uk: "upage_ok m pt np ((unat addr + k) div 4096)" using Suc.prems(3) [of k] pm by (simp add: upage_ok_def)
  then obtain m' where m': "copyout pt (addr + of_int (int k)) [?q ! k] ?t = Done 0 (?t\<lparr>mem := m'\<rparr>)"
      "copied ?t pt np xs (unat addr + k) [?q ! k] m'"
    using copyout_byte [OF ut i(2), of "?q ! k"] by auto
  have "upd_pipe pi (\<lambda>p. p\<lparr>nread := nread p + 1\<rparr>) ?s = ?t"
    by (simp add: upd_pipe_def pipe_advance_def)
  then have "piperead_loop pi pr addr (int k) n ?s = piperead_loop pi pr addr (int k + 1) n (?t\<lparr>mem := m'\<rparr>)"
    using i(1) q pipe_empty_iff m'(1) pt by (subst piperead_loop.simps) (simp add: Let_def)
  moreover have "?t\<lparr>mem := m'\<rparr> = upd_pipe pi (pipe_advance ^^ Suc k) (s\<lparr>mem := m'\<rparr>)" by (simp add: upd_pipe_def)
  moreover have "copied s pt np xs (unat addr) (take k ?q @ [?q ! k]) m'"
  proof (rule copied_append [OF m(2)])
    show "copied ?t pt np xs (unat addr + length (take k ?q)) [?q ! k] m'" using m'(2) k' by simp
    have "upage_ok (mem s) pt np (b div 4096)" if "unat addr \<le> b" "b < unat addr + Suc k" for b
      using Suc.prems(3) [of "b - unat addr"] that by simp
    then show "accessible (mem s) pt np (unat addr) (length (take k ?q))"
        "accessible (mem s) pt np (unat addr + length (take k ?q)) (length [?q ! k])"
      using k' by (simp_all add: accessible_def)
  qed (use l in simp_all)
  ultimately show ?case using m(1) k' by (intro exI [of _ m']) (simp add: take_Suc_conv_app_nth algebra_simps comp_def)
qed

lemma pipe_ends_put [simp]: "readopen (fold pipe_put bs p) = readopen p" "writeopen (fold pipe_put bs p) = writeopen p"
  by (induction bs arbitrary: p) (simp_all add: pipe_put_def)

lemma pipe_ends_advance [simp]:
  "readopen ((pipe_advance ^^ k) p) = readopen p" "writeopen ((pipe_advance ^^ k) p) = writeopen p"
  by (induction k) (simp_all add: pipe_advance_def)

text \<open>The last steps of both calls: wake the other side, give up the lock.\<close>

lemma wakeup_release:
  fixes s :: "'z pimachine_scheme"
  assumes "held s = [pipe_lock pi]" and "length (procs s) = NPROC"
  shows "bindk (wakeup ch s) (\<lambda>_ s. bindk (release (pipe_lock pi) s) (\<lambda>_ s. Done r s)) =
    Done r (s\<lparr>held := [], procs := map (wake ch) (procs s)\<rparr>)"
  using wakeup_eq [of s ch] assms by (simp add: no_proc_lock_def)

text \<open>
  C24: \<open>pipewrite\<close> appends to the queue. The bytes it takes are those from \<open>addr\<close> on, up to the
  first one the process cannot access and up to the room in the ring. When it can go on without
  waiting for room it returns \<open>n\<close>, also when the copy stopped early, and wakes the readers; when
  the ring is full and no reader is left or the writer was killed it returns -1 and wakes nobody.
  Nothing but the pipe and the scheduling states changes. The counters may wrap around.
\<close>

theorem pipewrite_appends:
  fixes s :: "'z pimachine_scheme"
  assumes cu: "cur s = Some pr" and np: "length (procs s) = NPROC" and h: "held s = []"
    and pt: "pagetable (procs s ! pr) = pt" and u: "uvm s pt np xs" and p: "pipe_ok (pipes s pi)"
    and a: "unat addr + nat n \<le> 4096 * UPAGES"
    and q: "q = pipe_contents (pipes s pi)" and k: "k = reach (mem s) pt np (unat addr) (nat n)"
    and fits: "fits \<longleftrightarrow> nat n + length q \<le> 512 \<or> k + length q < 512"
    and go: "fits \<or> \<not> readopen (pipes s pi) \<or> killed (procs s ! pr)"
  shows "returns (pipewrite pi addr n envs s) (\<lambda>r s'.
      pipe_ok (pipes s' pi) \<and>
      pipe_contents (pipes s' pi) = q @ take (512 - length q) (map (ubyte (mem s) pt) [unat addr..<unat addr + k]) \<and>
      (if fits then r = n \<and> procs s' = map (wake (chan_nread pi)) (procs s) else r = -1 \<and> procs s' = procs s) \<and>
      readopen (pipes s' pi) = readopen (pipes s pi) \<and> writeopen (pipes s' pi) = writeopen (pipes s pi) \<and>
      s' = s\<lparr>pipes := (pipes s)(pi := pipes s' pi), procs := procs s'\<rparr>)"
proof -
  let ?s = "s\<lparr>held := [pipe_lock pi]\<rparr>"
  define j where "j = min k (512 - length q)"
  define bs where "bs = map (ubyte (mem s) pt) [unat addr..<unat addr + j]"
  let ?t = "upd_pipe pi (fold pipe_put bs) ?s"
  have q5: "length q \<le> 512" using pq.within [OF p] q by simp
  have kn: "k \<le> nat n" using reach_le k by simp
  have us: "uvm ?s pt np xs" by (rule uvm_cong [OF u]) simp_all
  have "pipewrite_loop pi pr addr 0 n envs ?s = pipewrite_loop pi pr addr (int j) n envs
      (upd_pipe pi (fold pipe_put (map (ubyte (mem ?s) pt) [unat addr..<unat addr + j])) ?s)"
  proof (rule pipewrite_run [OF us _ _ a])
    show "upage_ok (mem ?s) pt np ((unat addr + i) div 4096)" if "i < j" for i
      using that reach_ok [of i "mem s" pt np "unat addr" "nat n"] by (simp add: j_def k)
    show "length (pipe_contents (pipes ?s pi)) + j \<le> 512" using q5 by (simp add: j_def q)
  qed (use pt p kn in \<open>simp_all add: j_def\<close>)
  then have run: "pipewrite pi addr n envs s = pipewrite_loop pi pr addr (int j) n envs ?t"
    using cu h by (simp add: pipewrite_def myproc_def bs_def)
  have t: "pipe_ok (pipes ?t pi)" "pipe_contents (pipes ?t pi) = q @ bs"
    using pq.puts [OF p, of bs] q5 by (simp_all add: q bs_def j_def)
  have full: "nwrite (pipes ?t pi) = nread (pipes ?t pi) + PIPESIZE \<longleftrightarrow> length q + j = 512"
    unfolding pipe_full_iff [OF t(1)] t(2) by (simp add: bs_def)
  have ut: "uvm ?t pt np xs" by (rule uvm_cong [OF us]) simp_all
  have done': "bindk (wakeup (chan_nread pi) ?t) (\<lambda>_ s. bindk (release (pipe_lock pi) s) (\<lambda>_ s. Done n s)) =
      Done n (?t\<lparr>held := [], procs := map (wake (chan_nread pi)) (procs s)\<rparr>)"
    using wakeup_release [of ?t pi "chan_nread pi" n] np by simp
  have take_bs: "take (512 - length q) (map (ubyte (mem s) pt) [unat addr..<unat addr + k]) = bs"
    by (simp add: bs_def j_def take_map take_upt min_def)
  have "pipewrite_loop pi pr addr (int j) n envs ?t =
      (if fits then Done n (?t\<lparr>held := [], procs := map (wake (chan_nread pi)) (procs s)\<rparr>) else Done (-1) (?t\<lparr>held := []\<rparr>))"
  proof (cases "int j < n")
    case False
    then have "j = nat n" using kn by (simp add: j_def)
    then have "fits" using q5 unfolding fits j_def by linarith
    then show ?thesis using False done' by (subst pipewrite_loop.simps) simp
  next
    case jn: True
    show ?thesis
    proof (cases "length q + j = 512")
      case True
      then have nf: "\<not> fits" using jn q5 unfolding fits j_def by linarith
      then show ?thesis using jn True full go by (subst pipewrite_loop.simps) auto
    next
      case False
      then have jk: "j = k" "fits" using q5 unfolding fits j_def by linarith+
      have ua: "unat addr + j < 4096 * UPAGES" using jn a by linarith
      have "\<not> upage_ok (mem s) pt np ((unat addr + j) div 4096)"
        using reach_stop [of "mem s" pt np "unat addr" "nat n"] jn unfolding jk(1) k by simp
      then have "\<exists>bs. copyin pt (addr + of_int (int j)) 1 ?t = Done (-1, bs) ?t" using copyin_byte [OF ut ua] by auto
      then show ?thesis using jn jk(2) full False done' pt by (subst pipewrite_loop.simps) auto
    qed
  qed
  then show ?thesis using run t h take_bs by (simp add: upd_pipe_def)
qed

text \<open>The end of the loop of \<open>piperead\<close>: enough bytes, an empty ring, or a byte that cannot be copied, which is lost.\<close>

lemma piperead_stop:
  fixes s :: "'z pimachine_scheme"
  assumes u: "uvm s pt np xs" and pt: "pagetable (procs s ! pr) = pt" and l: "LKmem \<notin> set (held s)"
    and a: "unat addr + nat n \<le> 4096 * UPAGES"
    and stop: "pipe_contents (pipes s pi) = [] \<or> nat n \<le> k \<or> \<not> upage_ok (mem s) pt np ((unat addr + k) div 4096)"
    and kn: "k \<le> nat n"
  shows "piperead_loop pi pr addr (int k) n s =
    Done (int k) (if pipe_contents (pipes s pi) = [] \<or> nat n \<le> k then s else upd_pipe pi pipe_advance s)"
proof (cases "pipe_contents (pipes s pi) = [] \<or> nat n \<le> k")
  case True
  then show ?thesis using pipe_empty_iff [of "pipes s pi"] by (subst piperead_loop.simps) auto
next
  case False
  let ?t = "upd_pipe pi pipe_advance s"
  have i: "int k < n" "unat addr + k < 4096 * UPAGES" using False a by linarith+
  have ut: "uvm ?t pt np xs" by (rule uvm_cong [OF u]) (use l in simp_all)
  have "copyout pt (addr + of_int (int k)) [b] ?t = Done (-1) ?t" for b
    using copyout_byte [OF ut i(2), of b] stop False by simp
  moreover have "upd_pipe pi (\<lambda>p. p\<lparr>nread := nread p + 1\<rparr>) s = ?t" by (simp add: upd_pipe_def pipe_advance_def)
  ultimately show ?thesis
    using i(1) False pipe_empty_iff [of "pipes s pi"] pt by (subst piperead_loop.simps) (simp add: Let_def)
qed

lemma piperead_loop_result:
  fixes s :: "'z pimachine_scheme"
  assumes u: "uvm s pt np xs" and pt: "pagetable (procs s ! pr) = pt" and h: "LKmem \<notin> set (held s)"
    and a: "unat addr + nat n \<le> 4096 * UPAGES" and p: "pipe_ok (pipes s pi)"
    and q: "q = pipe_contents (pipes s pi)" and l: "l = min (nat n) (length q)"
    and k: "k = reach (mem s) pt np (unat addr) l"
  shows "\<exists>m. piperead_loop pi pr addr 0 n s = Done (int k) (upd_pipe pi (pipe_advance ^^ (if k < l then Suc k else k)) (s\<lparr>mem := m\<rparr>)) \<and>
    copied s pt np xs (unat addr) (take k q) m"
proof -
  have kl: "k \<le> l" "l \<le> nat n" "l \<le> length q" using reach_le [of "mem s" pt np "unat addr" l] k by (simp, simp_all add: l)
  have ok: "upage_ok (mem s) pt np ((unat addr + i) div 4096)" if "i < k" for i using that reach_ok k by simp
  obtain m where m: "piperead_loop pi pr addr 0 n s = piperead_loop pi pr addr (int k) n (upd_pipe pi (pipe_advance ^^ k) (s\<lparr>mem := m\<rparr>))"
      "copied s pt np xs (unat addr) (take k q) m"
    using piperead_run [OF u pt h a p, of k] ok kl q by auto
  let ?t = "upd_pipe pi (pipe_advance ^^ k) (s\<lparr>mem := m\<rparr>)"
  have pm: "ptmap m pt = ptmap (mem s) pt" and um: "uvm (s\<lparr>mem := m\<rparr>) pt np xs" using m(2) by (simp_all add: copied_def)
  have ut: "uvm ?t pt np xs" by (rule uvm_cong [OF um]) (use h in simp_all)
  have stop: "pipe_contents (pipes ?t pi) = [] \<or> nat n \<le> k \<longleftrightarrow> \<not> k < l"
    using pq.advances [OF p, of k] kl l by (auto simp: q)
  have nok: "\<not> upage_ok (mem ?t) pt np ((unat addr + k) div 4096)" if "k < l"
    using reach_stop [of "mem s" pt np "unat addr" l] that by (simp add: k upage_ok_def pm)
  have "piperead_loop pi pr addr (int k) n ?t = Done (int k) (if \<not> k < l then ?t else upd_pipe pi pipe_advance ?t)"
    unfolding stop [symmetric] by (rule piperead_stop [OF ut _ _ a]) (use pt h kl stop nok in auto)
  moreover have "(if \<not> k < l then ?t else upd_pipe pi pipe_advance ?t) =
      upd_pipe pi (pipe_advance ^^ (if k < l then Suc k else k)) (s\<lparr>mem := m\<rparr>)" by (simp add: comp_def)
  ultimately show ?thesis using m by auto
qed

text \<open>
  C25: \<open>piperead\<close> takes from the front of the queue. On a pipe with bytes, or with the write end
  closed, it delivers the oldest bytes, as many as there are up to \<open>n\<close> and up to the first
  address the process cannot write; it returns their number, the process sees them at \<open>addr\<close>
  and every other byte of its memory unchanged, and the writers are woken. A byte that cannot be
  delivered is taken from the queue as well. On an empty pipe a killed reader gets -1 and nothing
  changes.
\<close>

theorem piperead_takes:
  fixes s :: "'z pimachine_scheme"
  assumes cu: "cur s = Some pr" and np: "length (procs s) = NPROC" and h: "held s = []"
    and pt: "pagetable (procs s ! pr) = pt" and u: "uvm s pt np xs" and p: "pipe_ok (pipes s pi)"
    and a: "unat addr + nat n \<le> 4096 * UPAGES"
    and q: "q = pipe_contents (pipes s pi)" and l: "l = min (nat n) (length q)"
    and k: "k = reach (mem s) pt np (unat addr) l"
    and go: "q \<noteq> [] \<or> \<not> writeopen (pipes s pi) \<or> killed (procs s ! pr)"
  shows "returns (piperead pi addr n envs s) (\<lambda>r s'.
      if q = [] \<and> writeopen (pipes s pi) then r = -1 \<and> s' = s
      else r = int k \<and> pipe_ok (pipes s' pi) \<and> pipe_contents (pipes s' pi) = drop (if k < l then Suc k else k) q \<and>
        (\<forall>b<4096 * np. ubyte (mem s') pt b = (if unat addr \<le> b \<and> b < unat addr + k then q ! (b - unat addr) else ubyte (mem s) pt b)) \<and>
        ptmap (mem s') pt = ptmap (mem s) pt \<and> outside (set (pgs (mem s) pt 0 np)) s s' \<and>
        procs s' = map (wake (chan_nwrite pi)) (procs s) \<and>
        s' = s\<lparr>mem := mem s', pipes := (pipes s)(pi := pipes s' pi), procs := procs s'\<rparr>)"
proof -
  let ?s = "s\<lparr>held := [pipe_lock pi]\<rparr>"
  have start: "piperead pi addr n envs s = bindk (piperead_wait pi pr envs ?s) (\<lambda>ready s.
      if \<not> ready then bindk (release (pipe_lock pi) s) (\<lambda>_ s. Done (-1) s)
      else bindk (piperead_loop pi pr addr 0 n s) (\<lambda>i s.
        bindk (wakeup (chan_nwrite pi) s) (\<lambda>_ s. bindk (release (pipe_lock pi) s) (\<lambda>_ s. Done i s))))"
    using cu h by (simp add: piperead_def myproc_def)
  have w: "piperead_wait pi pr envs ?s = Done (\<not> (q = [] \<and> writeopen (pipes s pi))) ?s"
    using go pipe_empty_iff [of "pipes s pi"] q by (subst piperead_wait.simps) auto
  show ?thesis
  proof (cases "q = [] \<and> writeopen (pipes s pi)")
    case True
    then show ?thesis using start w h by simp
  next
    case False
    have kl: "k \<le> l" "l \<le> length q" using reach_le [of "mem s" pt np "unat addr" l] k by (simp, simp add: l)
    have us: "uvm ?s pt np xs" by (rule uvm_cong [OF u]) simp_all
    obtain m where m: "piperead_loop pi pr addr 0 n ?s = Done (int k) (upd_pipe pi (pipe_advance ^^ (if k < l then Suc k else k)) (?s\<lparr>mem := m\<rparr>))"
        "copied ?s pt np xs (unat addr) (take k q) m"
      using piperead_loop_result [OF us _ _ a, of pr pi q l k] pt p q l k by auto
    have fin: "piperead pi addr n envs s = Done (int k) ((upd_pipe pi (pipe_advance ^^ (if k < l then Suc k else k)) (?s\<lparr>mem := m\<rparr>))
        \<lparr>held := [], procs := map (wake (chan_nwrite pi)) (procs s)\<rparr>)"
      using start w False m(1) np
        wakeup_release [of "upd_pipe pi (pipe_advance ^^ (if k < l then Suc k else k)) (?s\<lparr>mem := m\<rparr>)" pi "chan_nwrite pi" "int k"]
      by (simp only: bindk.simps) simp
    have acc: "accessible (mem s) pt np (unat addr) k"
      using reach_ok [of _ "mem s" pt np "unat addr" l] by (auto simp: accessible_def k dest!: le_Suc_ex)
    have bytes: "\<forall>b<4096 * np. ubyte m pt b = (if unat addr \<le> b \<and> b < unat addr + k then q ! (b - unat addr) else ubyte (mem s) pt b)"
      using m(2) acc kl by (auto simp: copied_def)
    have out: "\<forall>x. PGROUNDDOWN x \<notin> set (pgs (mem s) pt 0 np) \<longrightarrow> m x = mem s x" using m(2) by (simp add: copied_def)
    have pm: "ptmap m pt = ptmap (mem s) pt" using m(2) by (simp add: copied_def)
    show ?thesis unfolding if_not_P [OF False] fin
      using pq.advances [OF p, of "if k < l then Suc k else k"] kl h q bytes out pm by (simp add: upd_pipe_def outside_def)
  qed
qed

section \<open>An example\<close>

lemma pipe_example:
  "\<exists>(s :: pimachine) pt xs. cur s = Some 0 \<and> length (procs s) = NPROC \<and> held s = [] \<and> pagetable (procs s ! 0) = pt \<and>
    uvm s pt 1 xs \<and> upage_ok (mem s) pt 1 0 \<and> pipe_ok (pipes s 0) \<and> pipe_contents (pipes s 0) = [7, 7] \<and> nwrite (pipes s 0) = 0"
proof -
  obtain s :: pmachine and pt xs where s: "proc_vm s pt 1 xs" "fresh (mem s) pt 0 1" using one_page_space by blast
  let ?p = "\<lparr>pdata = replicate 512 7, nread = 0xFFFFFFFE, nwrite = 0, readopen = True, writeopen = True\<rparr>"
  define t :: pimachine where "t = undefined\<lparr>held := [], mem := mem s, k_end := k_end s, freelist := freelist s,
    procs := replicate NPROC (undefined\<lparr>pagetable := pt\<rparr>), cur := Some 0, pipes := \<lambda>_. ?p\<rparr>"
  have "uvm s pt 1 xs" using s(1) by (simp add: proc_vm_def)
  then have "uvm t pt 1 xs" by (rule uvm_cong) (simp_all add: t_def)
  moreover have "upt 0 2 = [0, 1]" by (simp add: upt_rec)
  then have "pipe_contents ?p = [7, 7]" by (simp add: pipe_contents_def)
  ultimately show ?thesis using fresh_user [OF s(2)]
    by (intro exI [of _ t] exI [of _ pt] exI [of _ xs]) (simp add: t_def NPROC_def pipe_ok_def)
qed

lemma reach_example: "upage_ok m pt 1 0 \<Longrightarrow> reach m pt 1 100 3 = 3" "upage_ok m pt 1 0 \<Longrightarrow> reach m pt 1 100 2 = 2"
proof -
  have "[0..<3] = [0, 1, 2 :: nat]" "[0..<2] = [0, 1 :: nat]" by (simp_all add: upt_rec)
  then show "upage_ok m pt 1 0 \<Longrightarrow> reach m pt 1 100 3 = 3" "upage_ok m pt 1 0 \<Longrightarrow> reach m pt 1 100 2 = 2"
    by (simp_all add: reach_def)
qed

theorem pipewrite_appends_witness:
  "\<exists>(s :: pimachine) pt s'. pipe_contents (pipes s 0) = [7, 7] \<and> pipewrite 0 100 3 [] s = Done 3 s' \<and>
    pipe_contents (pipes s' 0) = [7, 7] @ map (ubyte (mem s) pt) [100..<103]"
proof -
  obtain s :: pimachine and pt xs where s: "cur s = Some 0" "length (procs s) = NPROC" "held s = []" "pagetable (procs s ! 0) = pt"
      "uvm s pt 1 xs" "upage_ok (mem s) pt 1 0" "pipe_ok (pipes s 0)" "pipe_contents (pipes s 0) = [7, 7]"
    using pipe_example by blast
  have a: "unat (100 :: u64) + nat 3 \<le> 4096 * UPAGES" by (simp add: UPAGES_def VPAGES_def)
  have k: "3 = reach (mem s) pt 1 (unat (100 :: u64)) (nat 3)" using reach_example(1) [OF s(6)] by simp
  have f: "True \<longleftrightarrow> nat 3 + length [7, 7 :: u8] \<le> 512 \<or> 3 + length [7, 7 :: u8] < 512" by simp
  obtain s' where "pipewrite 0 100 3 [] s = Done 3 s'"
      "pipe_contents (pipes s' 0) = [7, 7] @ take (512 - length [7, 7 :: u8]) (map (ubyte (mem s) pt) [unat (100 :: u64)..<unat (100 :: u64) + 3])"
    using pipewrite_appends [OF s(1-5,7) a s(8) [symmetric] k f, where envs = "[]"] unfolding returns_iff by auto
  moreover have "take (512 - length [7, 7 :: u8]) (map (ubyte (mem s) pt) [unat (100 :: u64)..<unat (100 :: u64) + 3]) = map (ubyte (mem s) pt) [100..<103]"
    by (subst take_all) simp_all
  ultimately show ?thesis using s(8) by metis
qed

theorem piperead_takes_witness:
  "\<exists>(s :: pimachine) pt s'. pipe_contents (pipes s 0) = [7, 7] \<and> piperead 0 100 3 [] s = Done 2 s' \<and>
    pipe_contents (pipes s' 0) = [] \<and> ubyte (mem s') pt 101 = 7"
proof -
  obtain s :: pimachine and pt xs where s: "cur s = Some 0" "length (procs s) = NPROC" "held s = []" "pagetable (procs s ! 0) = pt"
      "uvm s pt 1 xs" "upage_ok (mem s) pt 1 0" "pipe_ok (pipes s 0)" "pipe_contents (pipes s 0) = [7, 7]"
    using pipe_example by blast
  have a: "unat (100 :: u64) + nat 3 \<le> 4096 * UPAGES" by (simp add: UPAGES_def VPAGES_def)
  have l: "2 = min (nat 3) (length [7, 7 :: u8])" by simp
  have k: "2 = reach (mem s) pt 1 (unat (100 :: u64)) 2" using reach_example(2) [OF s(6)] by simp
  have f: "[7, 7 :: u8] \<noteq> [] \<or> \<not> writeopen (pipes s 0) \<or> killed (procs s ! 0)" by simp
  obtain s' where s': "piperead 0 100 3 [] s = Done 2 s'" "pipe_contents (pipes s' 0) = drop 2 [7, 7]"
      "\<forall>b<4096 * 1. ubyte (mem s') pt b = (if unat (100 :: u64) \<le> b \<and> b < unat (100 :: u64) + 2 then [7, 7] ! (b - unat (100 :: u64)) else ubyte (mem s) pt b)"
    using piperead_takes [OF s(1-5,7) a s(8) [symmetric] l k f, where envs = "[]"] unfolding returns_iff by auto
  have "ubyte (mem s') pt 101 = 7" using s'(3) by simp
  moreover have "pipe_contents (pipes s' 0) = []" using s'(2) by simp
  ultimately show ?thesis using s(8) s'(1) by metis
qed

end
