(* ===== verification/Ulib.thy ===== *)
theory Ulib
  imports Printf
begin

text \<open>
  User space: the system calls as a user program sees them, the C library of
  \<open>user/ulib.c\<close>, and \<open>user/printf.c\<close>.

  A program's calls are recorded in a history. What a call returns is a function
  of the history up to and including it, the program's environment: every
  behaviour of the kernel and of the other processes towards one process is such
  a function, and the theorems hold for all of them. The process that \<open>fork\<close> creates
  is a run in which that call returns 0.
\<close>

section \<open>System calls\<close>

datatype ucall =
    CFork | CWait | CPipe | CRead int nat | CWrite int "u8 list" | CClose int | CKill int
  | CExec "u8 list" "u8 list list" | COpen "u8 list" int | CMknod "u8 list" int int | CUnlink "u8 list"
  | CFstat int | CLink "u8 list" "u8 list" | CMkdir "u8 list" | CChdir "u8 list" | CDup int | CGetpid
  | CSbrk int | CSleep int | CUptime

type_synonym history = "ucall list"
type_synonym uenv = "history \<Rightarrow> int \<times> u8 list"

text \<open>
  \<open>URet a h\<close>: the function returned \<open>a\<close>. \<open>UExit n h\<close>: the process called \<open>exit(n)\<close>.
  \<open>UExec path argv h\<close>: \<open>exec\<close> succeeded and the process runs another program.
  \<open>UFault h\<close>: an access outside the object a pointer points into. \<open>USpin h\<close>: a
  loop was cut off by the fuel of the model.
\<close>

datatype 'a ures = URet 'a history | UExit int history | UExec "u8 list" "u8 list list" history | UFault history | USpin history

fun ubind :: "'a ures \<Rightarrow> ('a \<Rightarrow> history \<Rightarrow> 'b ures) \<Rightarrow> 'b ures" where
  "ubind (URet a h) f = f a h"
| "ubind (UExit n h) f = UExit n h"
| "ubind (UExec path argv h) f = UExec path argv h"
| "ubind (UFault h) f = UFault h"
| "ubind (USpin h) f = USpin h"

lemma ubind_assoc [simp]: "ubind (ubind m f) g = ubind m (\<lambda>a h. ubind (f a h) g)"
  by (cases m) auto

lemma ubind_cong [fundef_cong]:
  assumes "m = m'" and "\<And>a h. m' = URet a h \<Longrightarrow> f a h = g a h"
  shows "ubind m f = ubind m' g"
  using assms by (cases m') auto

text \<open>A call, its return value, and the bytes it wrote to the caller's buffer.\<close>

definition ucall :: "uenv \<Rightarrow> ucall \<Rightarrow> history \<Rightarrow> (int \<times> u8 list) ures" where
  "ucall env c h = URet (env (h @ [c])) (h @ [c])"

definition usys :: "uenv \<Rightarrow> ucall \<Rightarrow> history \<Rightarrow> int ures" where
  "usys env c h = URet (fst (env (h @ [c]))) (h @ [c])"

definition uexec :: "uenv \<Rightarrow> u8 list \<Rightarrow> u8 list list \<Rightarrow> history \<Rightarrow> unit ures" where
  "uexec env path argv h =
    ubind (usys env (CExec path argv) h) (\<lambda>r h. if r < 0 then URet () h else UExec path argv h)"

definition unul :: "'a option \<Rightarrow> history \<Rightarrow> 'a ures" where
  "unul x h = (case x of None \<Rightarrow> UFault h | Some a \<Rightarrow> URet a h)"

section \<open>\<open>ulib.c\<close>\<close>

text \<open>
  A pointer to characters is the list of the bytes from there to the end of the
  object it points into; \<open>None\<close> when the function would read beyond that.
\<close>

fun ustrcpy :: "u8 list \<Rightarrow> u8 list option" where
  "ustrcpy [] = None"
| "ustrcpy (c # t) = (if c \<noteq> 0 then map_option ((#) c) (ustrcpy t) else Some [0])"

fun ustrcmp :: "u8 list \<Rightarrow> u8 list \<Rightarrow> int option" where
  "ustrcmp (a # p) (b # q) = (if a \<noteq> 0 \<and> a = b then ustrcmp p q else Some (uint a - uint b))"
| "ustrcmp _ _ = None"

fun ustrlen :: "u8 list \<Rightarrow> nat option" where
  "ustrlen [] = None"
| "ustrlen (c # s) = (if c \<noteq> 0 then map_option Suc (ustrlen s) else Some 0)"

definition umemset :: "memory \<Rightarrow> u64 \<Rightarrow> u8 \<Rightarrow> u32 \<Rightarrow> memory" where
  "umemset m dst c n = memset_loop m dst c (unat n)"

text \<open>The offset of the character found; the inner \<open>None\<close> is the null pointer.\<close>

fun strchr :: "u8 list \<Rightarrow> u8 \<Rightarrow> nat option option" where
  "strchr [] c = None"
| "strchr (x # s) c =
    (if x \<noteq> 0 then if x = c then Some (Some 0) else map_option (map_option Suc) (strchr s c)
     else Some None)"

text \<open>The bytes \<open>gets\<close> stores before the terminating zero.\<close>

fun gets_loop :: "uenv \<Rightarrow> nat \<Rightarrow> history \<Rightarrow> (u8 list) ures" where
  "gets_loop env 0 h = URet [] h"
| "gets_loop env (Suc k) h =
    ubind (ucall env (CRead 0 1) h) (\<lambda>(cc, bs) h.
      if cc < 1 then URet [] h
      else
        let c = hd (bs @ [0]) in
        if c = 10 \<or> c = 13 then URet [c] h
        else ubind (gets_loop env k h) (\<lambda>cs h. URet (c # cs) h))"

definition gets :: "uenv \<Rightarrow> int \<Rightarrow> history \<Rightarrow> (u8 list) ures" where
  "gets env max' h = ubind (gets_loop env (nat (max' - 1)) h) (\<lambda>cs h. URet (cs @ [0]) h)"

definition ustat :: "uenv \<Rightarrow> u8 list \<Rightarrow> history \<Rightarrow> (int \<times> u8 list) ures" where
  "ustat env n h =
    ubind (usys env (COpen n 0) h) (\<lambda>fd h.
      if fd < 0 then URet (-1, []) h
      else
        ubind (ucall env (CFstat fd) h) (\<lambda>(r, st) h.
        ubind (usys env (CClose fd) h) (\<lambda>_ h. URet (r, st) h)))"

text \<open>The number is accumulated in a 32-bit \<open>int\<close>.\<close>

fun atoi_loop :: "u32 \<Rightarrow> u8 list \<Rightarrow> u32 option" where
  "atoi_loop n [] = None"
| "atoi_loop n (c # s) =
    (if 48 \<le> c \<and> c \<le> 57 then atoi_loop (n * 10 + ucast c - 48) s else Some n)"

definition atoi :: "u8 list \<Rightarrow> int option" where
  "atoi s = map_option sint (atoi_loop 0 s)"

definition umemmove :: "memory \<Rightarrow> u64 \<Rightarrow> u64 \<Rightarrow> int \<Rightarrow> memory" where
  "umemmove m dst src n =
    (if dst < src then copy_up m dst src (nat n)
     else copy_down m (dst + of_int n) (src + of_int n) (nat n))"

definition umemcmp :: "memory \<Rightarrow> u64 \<Rightarrow> u64 \<Rightarrow> u32 \<Rightarrow> int" where
  "umemcmp m s1 s2 n = memcmp_loop m s1 s2 (unat n)"

definition umemcpy :: "memory \<Rightarrow> u64 \<Rightarrow> u64 \<Rightarrow> u32 \<Rightarrow> memory" where
  "umemcpy m dst src n = umemmove m dst src (sint n)"

section \<open>\<open>printf.c\<close>\<close>

definition udigits :: "u8 list" where
  "udigits = [48, 49, 50, 51, 52, 53, 54, 55, 56, 57, 65, 66, 67, 68, 69, 70]"

definition uputc :: "uenv \<Rightarrow> int \<Rightarrow> u8 \<Rightarrow> history \<Rightarrow> unit ures" where
  "uputc env fd c h = ubind (usys env (CWrite fd [c]) h) (\<lambda>_ h. URet () h)"

fun uputs :: "uenv \<Rightarrow> int \<Rightarrow> u8 list \<Rightarrow> history \<Rightarrow> unit ures" where
  "uputs env fd [] h = URet () h"
| "uputs env fd (c # cs) h = ubind (uputc env fd c h) (\<lambda>_ h. uputs env fd cs h)"

text \<open>The characters in the order they are written; \<open>buf\<close> holds the least significant digit first.\<close>

definition uprintint :: "u32 \<Rightarrow> nat \<Rightarrow> bool \<Rightarrow> u8 list" where
  "uprintint xx base sign' =
    (let neg = (sign' \<and> sint xx < 0);
         x = (if neg then - xx else xx);
         buf = printint_digits 32 udigits base (unat x);
         buf = (if neg then buf @ [45] else buf)
     in rev buf)"

definition uprintptr :: "u64 \<Rightarrow> u8 list" where
  "uprintptr x = [48, 120] @ map (\<lambda>i. udigits ! unat (drop_bit 60 (push_bit (4 * i) x))) [0..<16]"

text \<open>The text one conversion produces and the arguments left; \<open>None\<close> when the argument is missing or of another type.\<close>

fun uconvert :: "u8 \<Rightarrow> varg list \<Rightarrow> (u8 list \<times> varg list) option" where
  "uconvert c args =
    (if c = 100 then case args of ArgInt x # as \<Rightarrow> Some (uprintint x 10 True, as) | _ \<Rightarrow> None
     else if c = 108 then case args of ArgPtr x # as \<Rightarrow> Some (uprintint (ucast x) 10 False, as) | _ \<Rightarrow> None
     else if c = 120 then case args of ArgInt x # as \<Rightarrow> Some (uprintint x 16 False, as) | _ \<Rightarrow> None
     else if c = 112 then case args of ArgPtr x # as \<Rightarrow> Some (uprintptr x, as) | _ \<Rightarrow> None
     else if c = 115 then
       (case args of
          ArgStr None # as \<Rightarrow> Some ([40, 110, 117, 108, 108, 41], as)
        | ArgStr (Some str) # as \<Rightarrow> Some (takeWhile (\<lambda>b. b \<noteq> 0) str, as)
        | _ \<Rightarrow> None)
     else if c = 99 then case args of ArgInt x # as \<Rightarrow> Some ([ucast x], as) | _ \<Rightarrow> None
     else if c = 37 then Some ([37], args)
     else Some ([37, c], args))"

text \<open>\<open>st\<close> is true after a percent sign.\<close>

fun uformat :: "bool \<Rightarrow> u8 list \<Rightarrow> varg list \<Rightarrow> u8 list option" where
  "uformat st [] args = Some []"
| "uformat st (c # fmt) args =
    (if c = 0 then Some []
     else if \<not> st then
       (if c = 37 then uformat True fmt args else map_option ((#) c) (uformat False fmt args))
     else
       case uconvert c args of
         None \<Rightarrow> None
       | Some (out, args) \<Rightarrow> map_option ((@) out) (uformat False fmt args))"

definition vprintf :: "uenv \<Rightarrow> int \<Rightarrow> u8 list \<Rightarrow> varg list \<Rightarrow> history \<Rightarrow> unit ures" where
  "vprintf env fd fmt args h = ubind (unul (uformat False fmt args) h) (\<lambda>out h. uputs env fd out h)"

definition fprintf :: "uenv \<Rightarrow> int \<Rightarrow> u8 list \<Rightarrow> varg list \<Rightarrow> history \<Rightarrow> unit ures" where
  "fprintf env fd fmt args h = vprintf env fd fmt args h"

definition uprintf :: "uenv \<Rightarrow> u8 list \<Rightarrow> varg list \<Rightarrow> history \<Rightarrow> unit ures" where
  "uprintf env fmt args h = vprintf env 1 fmt args h"

section \<open>Printing a number and reading it back\<close>

lemma udigits_decimal: "d < 10 \<Longrightarrow> udigits ! d = 48 + of_nat d"
  by (auto simp: udigits_def less_Suc_eq numeral_eq_Suc)

lemma decimal_char:
  assumes "d < 10"
  shows "48 \<le> udigits ! d" and "udigits ! d \<le> 57" and "ucast (udigits ! d) = (48 + of_nat d :: u32)"
proof -
  have "unat (48 + of_nat d :: u8) = 48 + d" using assms by (simp add: unat_word_ariths unat_of_nat)
  moreover have "unat (48 + of_nat d :: u32) = 48 + d" using assms by (simp add: unat_word_ariths unat_of_nat)
  ultimately show "48 \<le> udigits ! d" "udigits ! d \<le> 57" "ucast (udigits ! d) = (48 + of_nat d :: u32)"
    using assms by (simp_all add: udigits_decimal word_le_nat_alt word_unat_eq_iff)
qed

lemma atoi_digits:
  "x < 10 ^ f \<Longrightarrow> 0 < f \<Longrightarrow> atoi_loop 0 (rev (printint_digits f udigits 10 x) @ s) = atoi_loop (of_nat x) s"
proof (induction f arbitrary: x s)
  case 0
  then show ?case by simp
next
  case (Suc f)
  let ?d = "udigits ! (x mod 10)"
  have d: "48 \<le> ?d" "?d \<le> 57" "ucast ?d = (48 + of_nat (x mod 10) :: u32)" by (simp_all add: decimal_char)
  have x: "of_nat (x div 10) * 10 + (48 + of_nat (x mod 10)) - 48 = (of_nat x :: u32)"
    by (metis (no_types, lifting) add.commute add_diff_cancel_left' add.assoc of_nat_add of_nat_mult of_nat_numeral div_mult_mod_eq)
  show ?case
  proof (cases "x div 10 = 0")
    case True
    then show ?thesis using d x by simp
  next
    case False
    then have "x div 10 < 10 ^ f" "0 < f" using Suc.prems(1) by (simp add: less_mult_imp_div_less mult.commute, cases f, auto)
    then show ?thesis using False Suc.IH [of "x div 10" "?d # s"] d x by simp
  qed
qed

text \<open>
  C35: what \<open>printf("%d", x)\<close> of the user library prints for an \<open>int\<close>, its \<open>atoi\<close> reads back:
  the number itself when it is not negative, 0 otherwise, since \<open>atoi\<close> takes no sign.
\<close>

theorem atoi_printint: "atoi (uprintint x 10 True @ [0]) = Some (if sint x < 0 then 0 else sint x)"
proof (cases "sint x < 0")
  case True
  then show ?thesis by (simp add: uprintint_def atoi_def Let_def)
next
  case False
  have "unat x < 10 ^ 32" by (rule less_le_trans [OF unsigned_less]) simp
  then show ?thesis using False atoi_digits [of "unat x" 32 "[0]"] by (simp add: uprintint_def atoi_def Let_def)
qed

end
