(* ===== verification/Uio.thy ===== *)
theory Uio
  imports Ulib
begin

text \<open>
  Files as a user program reads and writes them: what an environment has
  delivered to and taken from a program, and what it means that a file descriptor
  delivers the bytes of a file, in pieces of any size.
\<close>

text \<open>The bytes the reads of a file descriptor have delivered, and those written to one.\<close>

definition delivered :: "uenv \<Rightarrow> int \<Rightarrow> history \<Rightarrow> u8 list" where
  "delivered env fd h = concat (map (\<lambda>i. case h ! i of
      CRead f n \<Rightarrow> if f = fd then snd (env (take (Suc i) h)) else [] | _ \<Rightarrow> []) [0..<length h])"

fun written1 :: "int \<Rightarrow> ucall \<Rightarrow> u8 list" where
  "written1 fd (CWrite f bs) = (if f = fd then bs else [])"
| "written1 fd _ = []"

definition written :: "int \<Rightarrow> history \<Rightarrow> u8 list" where
  "written fd h = concat (map (written1 fd) h)"

lemma delivered_snoc:
  "delivered env fd (h @ [c]) = delivered env fd h @
    (case c of CRead f n \<Rightarrow> if f = fd then snd (env (h @ [c])) else [] | _ \<Rightarrow> [])"
proof -
  have "map (\<lambda>i. case (h @ [c]) ! i of CRead f n \<Rightarrow> if f = fd then snd (env (take (Suc i) (h @ [c]))) else [] | _ \<Rightarrow> []) [0..<length h] =
      map (\<lambda>i. case h ! i of CRead f n \<Rightarrow> if f = fd then snd (env (take (Suc i) h)) else [] | _ \<Rightarrow> []) [0..<length h]"
    by (rule map_cong) (auto simp: nth_append split: ucall.splits)
  then show ?thesis by (simp add: delivered_def del: map_eq_conv split: ucall.split)
qed

lemma written_snoc: "written fd (h @ [c]) = written fd h @ written1 fd c"
  by (simp add: written_def)

text \<open>
  The file descriptor \<open>fd\<close> gives the bytes \<open>inp\<close> in order: a read returns some of those
  that come next, at most as many as asked for, and at least one unless none is left.
\<close>

definition reads_file :: "uenv \<Rightarrow> int \<Rightarrow> u8 list \<Rightarrow> bool" where
  "reads_file env fd inp \<longleftrightarrow> (\<forall>h n. let next = drop (length (delivered env fd h)) inp; r = env (h @ [CRead fd n]) in
    fst r = int (length (snd r)) \<and> snd r = take (length (snd r)) next \<and> length (snd r) \<le> n \<and>
    (0 < n \<and> next \<noteq> [] \<longrightarrow> snd r \<noteq> []))"

lemma reads_file_read:
  assumes "reads_file env fd inp" and "delivered env fd h = take k inp" and "k \<le> length inp"
  obtains c where "ucall env (CRead fd n) h = URet (int (length c), c) (h @ [CRead fd n])"
    and "delivered env fd (h @ [CRead fd n]) = take (k + length c) inp" and "k + length c \<le> length inp"
    and "c = take (length c) (drop k inp)" and "length c \<le> n" and "0 < n \<Longrightarrow> k < length inp \<Longrightarrow> c \<noteq> []"
proof -
  let ?r = "env (h @ [CRead fd n])"
  have r: "fst ?r = int (length (snd ?r))" "snd ?r = take (length (snd ?r)) (drop k inp)" "length (snd ?r) \<le> n"
      "0 < n \<and> drop k inp \<noteq> [] \<longrightarrow> snd ?r \<noteq> []"
    using assms(1) unfolding reads_file_def Let_def by (simp_all add: assms(2,3)) (metis assms(2,3) length_take min.absorb2)+
  have "length (snd ?r) \<le> length inp - k" using arg_cong [OF r(2), of length] by simp
  then have "k + length (snd ?r) \<le> length inp" using assms(3) by simp
  moreover have "take k inp @ snd ?r = take (k + length (snd ?r)) inp" using r(2) by (metis take_add)
  ultimately show thesis
    using that [of "snd ?r"] r by (simp add: ucall_def delivered_snoc assms(2) prod_eq_iff)
qed

lemma usys_keeps:
  "delivered env fd (h @ [CWrite f bs]) = delivered env fd h"
  "written fd (h @ [CRead f n]) = written fd h"
  by (simp_all add: delivered_snoc written_snoc)

text \<open>An environment that delivers the bytes of a file one by one and takes every write.\<close>

definition reads_of :: "int \<Rightarrow> history \<Rightarrow> nat" where
  "reads_of fd h = length (filter (\<lambda>c. case c of CRead f n \<Rightarrow> f = fd \<and> 0 < n | _ \<Rightarrow> False) h)"

definition byte_env :: "int \<Rightarrow> u8 list \<Rightarrow> uenv" where
  "byte_env fd inp h =
    (case last h of
       CRead f n \<Rightarrow>
         let k = reads_of fd (butlast h) in
         if f = fd \<and> 0 < n \<and> k < length inp then (1, [inp ! k]) else (0, [])
     | CWrite f bs \<Rightarrow> (int (length bs), [])
     | _ \<Rightarrow> (0, []))"

lemma byte_env_delivered: "delivered (byte_env fd inp) fd h = take (reads_of fd h) inp"
proof (induction h rule: rev_induct)
  case Nil
  then show ?case by (simp add: delivered_def reads_of_def)
next
  case (snoc c h)
  then show ?case
    by (auto simp: delivered_snoc byte_env_def reads_of_def take_Suc_conv_app_nth Let_def split: ucall.split)
qed

lemma byte_env_reads: "reads_file (byte_env fd inp) fd inp"
  unfolding reads_file_def byte_env_delivered Let_def
  by (auto simp: byte_env_def Let_def min_def Cons_nth_drop_Suc [symmetric])

end
