(* ===== verification/Grep.thy ===== *)
theory Grep
  imports Uio
begin

text \<open>
  \<open>user/grep.c\<close>: the regular expression matcher, the loop that cuts the input into
  lines in a buffer of 1024 bytes, and \<open>main\<close>. The matcher is compared with
  the language a pattern denotes, and the loop with the list of lines of the input.
\<close>

section \<open>The matcher\<close>

text \<open>A string is given by its bytes without the terminating zero; \<open>ch\<close> is the byte a pointer points to.\<close>

definition ch :: "u8 list \<Rightarrow> u8" where
  "ch s = (case s of [] \<Rightarrow> 0 | c # _ \<Rightarrow> c)"

lemma ch_simps [simp]: "ch [] = 0" "ch (c # s) = c"
  by (simp_all add: ch_def)

function matchhere :: "u8 list \<Rightarrow> u8 list \<Rightarrow> bool"
  and matchstar :: "u8 \<Rightarrow> u8 list \<Rightarrow> u8 list \<Rightarrow> bool" where
  "matchhere re tx =
    (if ch re = 0 then True
     else if ch (tl re) = 42 then matchstar (ch re) (tl (tl re)) tx
     else if ch re = 36 \<and> ch (tl re) = 0 then ch tx = 0
     else if ch tx \<noteq> 0 \<and> (ch re = 46 \<or> ch re = ch tx) then matchhere (tl re) (tl tx)
     else False)"
| "matchstar c re tx =
    (if matchhere re tx then True
     else if ch tx \<noteq> 0 \<and> (ch tx = c \<or> c = 46) then matchstar c re (tl tx)
     else False)"
  by pat_completeness auto
termination
  by (relation "measures [\<lambda>x. case x of Inl (re, tx) \<Rightarrow> 2 * length re | Inr (c, re, tx) \<Rightarrow> 2 * length re + 1,
      \<lambda>x. case x of Inl (re, tx) \<Rightarrow> 0 | Inr (c, re, tx) \<Rightarrow> length tx]")
    (auto simp: ch_def split: list.splits)

declare matchhere.simps [simp del] matchstar.simps [simp del]

fun match_loop :: "u8 list \<Rightarrow> u8 list \<Rightarrow> bool" where
  "match_loop re tx =
    (if matchhere re tx then True
     else case tx of [] \<Rightarrow> False | c # t \<Rightarrow> if c \<noteq> 0 then match_loop re t else False)"

lemma match_loop_simps:
  "match_loop re [] = matchhere re []"
  "match_loop re (c # t) = (matchhere re (c # t) \<or> c \<noteq> 0 \<and> match_loop re t)"
  by simp_all

declare match_loop.simps [simp del]

definition match :: "u8 list \<Rightarrow> u8 list \<Rightarrow> bool" where
  "match re tx = (if ch re = 94 then matchhere (tl re) tx else match_loop re tx)"

section \<open>The language of a pattern\<close>

datatype item = One u8 | Star u8

fun fits :: "u8 \<Rightarrow> u8 \<Rightarrow> bool" where
  "fits c x = (c = 46 \<or> x = c)"

fun lang :: "item list \<Rightarrow> u8 list set" where
  "lang [] = {[]}"
| "lang (One c # is) = {x # w | x w. fits c x \<and> w \<in> lang is}"
| "lang (Star c # is) = {v @ w | v w. list_all (fits c) v \<and> w \<in> lang is}"

text \<open>The items of a pattern, and whether it ends in the anchor \<open>$\<close>.\<close>

fun items :: "u8 list \<Rightarrow> item list \<times> bool" where
  "items [] = ([], False)"
| "items [c] = (if c = 36 then ([], True) else ([One c], False))"
| "items (c # d # re) =
    (if d = 42 then let (is, e) = items re in (Star c # is, e)
     else let (is, e) = items (d # re) in (One c # is, e))"

text \<open>The pattern matches a prefix of the tx, all of it if it is anchored at the end.\<close>

definition rest :: "bool \<Rightarrow> u8 list set" where
  "rest e = {w. e \<longrightarrow> w = []}"

definition prefix_match :: "item list \<times> bool \<Rightarrow> u8 list \<Rightarrow> bool" where
  "prefix_match p tx \<longleftrightarrow> (\<exists>v w. tx = v @ w \<and> v \<in> lang (fst p) \<and> w \<in> rest (snd p))"

lemma prefix_match_nil: "prefix_match ([], e) tx \<longleftrightarrow> (e \<longrightarrow> tx = [])"
  by (auto simp: prefix_match_def rest_def)

lemma prefix_match_one:
  "prefix_match (One c # is, e) tx \<longleftrightarrow> (\<exists>x t. tx = x # t \<and> fits c x \<and> prefix_match (is, e) t)"
  (is "?L \<longleftrightarrow> ?R")
proof
  assume ?L
  then obtain x v w where "tx = x # v @ w" "fits c x" "v \<in> lang is" "w \<in> rest e"
    by (auto simp: prefix_match_def simp del: fits.simps)
  then show ?R unfolding prefix_match_def by (auto simp del: fits.simps)
next
  assume ?R
  then obtain x v w where x: "tx = x # v @ w" "fits c x" "v \<in> lang is" "w \<in> rest e"
    by (auto simp: prefix_match_def simp del: fits.simps)
  then show ?L unfolding prefix_match_def by (intro exI [of _ "x # v"] exI [of _ w]) (simp del: fits.simps)
qed

lemma prefix_match_split:
  "prefix_match (Star c # is, e) tx \<longleftrightarrow> (\<exists>v r. tx = v @ r \<and> list_all (fits c) v \<and> prefix_match (is, e) r)"
  (is "?L \<longleftrightarrow> ?R")
proof
  assume ?L
  then obtain v u w where "tx = v @ u @ w" "list_all (fits c) v" "u \<in> lang is" "w \<in> rest e"
    by (auto simp: prefix_match_def)
  then show ?R unfolding prefix_match_def by (intro exI [of _ v] exI [of _ "u @ w"]) auto
next
  assume ?R
  then obtain v u w where "tx = v @ u @ w" "list_all (fits c) v" "u \<in> lang is" "w \<in> rest e"
    unfolding prefix_match_def by auto
  then show ?L unfolding prefix_match_def by (intro exI [of _ "v @ u"] exI [of _ w]) auto
qed

lemma prefix_match_star:
  "prefix_match (Star c # is, e) tx \<longleftrightarrow>
    prefix_match (is, e) tx \<or> (\<exists>x t. tx = x # t \<and> fits c x \<and> prefix_match (Star c # is, e) t)"
  (is "?L tx \<longleftrightarrow> ?R")
proof
  assume "?L tx"
  then obtain v r where t: "tx = v @ r" "list_all (fits c) v" "prefix_match (is, e) r"
    unfolding prefix_match_split by blast
  then show ?R unfolding prefix_match_split by (cases v) auto
next
  assume ?R
  then show "?L tx"
  proof (elim disjE exE conjE)
    assume "prefix_match (is, e) tx"
    then show ?thesis unfolding prefix_match_split by (intro exI [of _ "[]"] exI [of _ tx]) simp
  next
    fix x t assume x: "tx = x # t" "fits c x" "?L t"
    then obtain v r where "t = v @ r" "list_all (fits c) v" "prefix_match (is, e) r"
      unfolding prefix_match_split by blast
    then show ?thesis using x unfolding prefix_match_split by (intro exI [of _ "x # v"] exI [of _ r]) simp
  qed
qed

lemma matchhere_nil: "matchhere [] tx"
  by (subst matchhere.simps) simp

lemma matchhere_last:
  "c \<noteq> 0 \<Longrightarrow> matchhere [c] tx = (if c = 36 then ch tx = 0 else ch tx \<noteq> 0 \<and> (c = 46 \<or> c = ch tx))"
  by (subst matchhere.simps) (simp add: matchhere_nil)

lemma matchhere_next:
  "c \<noteq> 0 \<Longrightarrow> d \<noteq> 0 \<Longrightarrow> matchhere (c # d # re) tx =
    (if d = 42 then matchstar c re tx else ch tx \<noteq> 0 \<and> (c = 46 \<or> c = ch tx) \<and> matchhere (d # re) (tl tx))"
  by (subst matchhere.simps) simp

lemma matchstar_next:
  "matchstar c re [] = matchhere re []"
  "matchstar c re (x # tx) = (matchhere re (x # tx) \<or> x \<noteq> 0 \<and> (x = c \<or> c = 46) \<and> matchstar c re tx)"
  by (subst matchstar.simps, simp)+

text \<open>Patterns and texts are C strings.\<close>

lemma matchstar_correct:
  assumes "\<And>tx. 0 \<notin> set tx \<Longrightarrow> matchhere re tx \<longleftrightarrow> prefix_match (is, e) tx" and "0 \<notin> set tx"
  shows "matchstar c re tx \<longleftrightarrow> prefix_match (Star c # is, e) tx"
  using assms(2)
proof (induction tx)
  case Nil
  then show ?case using assms(1) [of "[]"] by (simp add: matchstar_next prefix_match_star [of c "is" e "[]"])
next
  case (Cons x tx)
  then show ?case
    using assms(1) [of "x # tx"] by (auto simp: matchstar_next prefix_match_star [of c "is" e "x # tx"])
qed

lemma matchhere_correct:
  "0 \<notin> set re \<Longrightarrow> 0 \<notin> set tx \<Longrightarrow> matchhere re tx \<longleftrightarrow> prefix_match (items re) tx"
proof (induction re arbitrary: tx rule: items.induct)
  case 1
  then show ?case by (simp add: matchhere_nil prefix_match_nil)
next
  case (2 c)
  then show ?case by (cases tx) (auto simp: matchhere_last prefix_match_nil prefix_match_one)
next
  case (3 c d re)
  show ?case
  proof (cases "d = 42")
    case True
    then have "matchstar c re tx \<longleftrightarrow> prefix_match (Star c # fst (items re), snd (items re)) tx"
      using 3 by (intro matchstar_correct) simp_all
    then show ?thesis using True 3 by (simp add: matchhere_next case_prod_beta)
  next
    case False
    then have "matchhere (d # re) t \<longleftrightarrow> prefix_match (items (d # re)) t" if "0 \<notin> set t" for t
      using 3 that by simp
    then show ?thesis using False 3
      by (cases tx) (auto simp: matchhere_next prefix_match_one case_prod_beta)
  qed
qed

text \<open>
  C33: the matcher finds a pattern in a line exactly when the line has a part
  that the pattern's language contains: a part at the start if the pattern begins with \<open>^\<close>, a part
  at the end if it ends with \<open>$\<close>, anywhere otherwise; \<open>.\<close> stands for any byte and
  \<open>c*\<close> for any number of \<open>c\<close>. The search always ends.
\<close>

theorem match_language:
  assumes "0 \<notin> set re" and "0 \<notin> set tx"
  shows "match re tx \<longleftrightarrow> (\<exists>u v w. tx = u @ v @ w \<and>
    v \<in> lang (fst (items (if ch re = 94 then tl re else re))) \<and>
    (ch re = 94 \<longrightarrow> u = []) \<and> (snd (items (if ch re = 94 then tl re else re)) \<longrightarrow> w = []))"
proof (cases "ch re = 94")
  case True
  then have "0 \<notin> set (tl re)" using assms(1) by (cases re) auto
  then show ?thesis using True assms(2) by (simp add: match_def matchhere_correct prefix_match_def rest_def)
next
  case False
  have "match_loop re tx \<longleftrightarrow> (\<exists>u t. tx = u @ t \<and> prefix_match (items re) t)"
    using assms(2)
  proof (induction tx)
    case Nil
    then show ?case using assms(1) by (simp add: match_loop_simps matchhere_correct)
  next
    case (Cons x tx)
    then show ?case using assms(1) by (auto simp: match_loop_simps matchhere_correct Cons_eq_append_conv)
  qed
  then show ?thesis using False by (auto simp: match_def prefix_match_def rest_def)
qed

theorem match_language_witness:
  "match (ascii ''^a.*c$'') (ascii ''abbc'') \<and> (\<exists>u v w. ascii ''abbc'' = u @ v @ w \<and>
    v \<in> lang (fst (items (ascii ''a.*c$''))) \<and> u = [] \<and> w = [])"
  using match_language [of "ascii ''^a.*c$''" "ascii ''abbc''"]
  by (simp add: ascii_def match_def matchhere_next matchhere_last matchstar_next of_char_def)

section \<open>The input loop\<close>

lemma strchr_found:
  "strchr (b @ [0]) 10 = Some (Some i) \<Longrightarrow> i < length b"
  by (induction b arbitrary: i) (auto split: if_splits)

text \<open>
  The loop over the lines in the buffer: \<open>b\<close> are the bytes from \<open>p\<close> to the
  terminating zero; the bytes of the last, unfinished line are returned.
\<close>

function grep_lines :: "uenv \<Rightarrow> u8 list \<Rightarrow> u8 list \<Rightarrow> history \<Rightarrow> (u8 list) ures" where
  "grep_lines env pattern b h =
    (case strchr (b @ [0]) 10 of
       Some (Some i) \<Rightarrow>
         ubind (if match pattern (take i b) then usys env (CWrite 1 (take (Suc i) b)) h else URet 0 h) (\<lambda>_ h.
           grep_lines env pattern (drop (Suc i) b) h)
     | _ \<Rightarrow> URet b h)"
  by pat_completeness auto
termination
  by (relation "measure (\<lambda>(env, pattern, b, h). length b)") (auto dest: strchr_found)

declare grep_lines.simps [simp del]

text \<open>\<open>b\<close> are the \<open>m\<close> bytes kept in \<open>buf\<close>, which has 1024.\<close>

fun grep_loop :: "uenv \<Rightarrow> u8 list \<Rightarrow> int \<Rightarrow> nat \<Rightarrow> u8 list \<Rightarrow> history \<Rightarrow> unit ures" where
  "grep_loop env pattern fd 0 b h = USpin h"
| "grep_loop env pattern fd (Suc fuel) b h =
    ubind (ucall env (CRead fd (1024 - length b - 1)) h) (\<lambda>(n, bs) h.
      if n > 0 then
        ubind (grep_lines env pattern (b @ bs) h) (\<lambda>b h. grep_loop env pattern fd fuel b h)
      else URet () h)"

definition grep :: "uenv \<Rightarrow> nat \<Rightarrow> u8 list \<Rightarrow> int \<Rightarrow> history \<Rightarrow> unit ures" where
  "grep env fuel pattern fd h = grep_loop env pattern fd fuel [] h"

fun grep_files :: "uenv \<Rightarrow> nat \<Rightarrow> u8 list \<Rightarrow> u8 list list \<Rightarrow> history \<Rightarrow> unit ures" where
  "grep_files env fuel pattern [] h = UExit 0 h"
| "grep_files env fuel pattern (f # fs) h =
    ubind (usys env (COpen f 0) h) (\<lambda>fd h.
      if fd < 0 then ubind (uprintf env (ascii ''grep: cannot open %s'' @ [10]) [ArgStr (Some f)] h) (\<lambda>_ h. UExit 1 h)
      else
        ubind (grep env fuel pattern fd h) (\<lambda>_ h.
        ubind (usys env (CClose fd) h) (\<lambda>_ h. grep_files env fuel pattern fs h)))"

definition grep_main :: "uenv \<Rightarrow> nat \<Rightarrow> u8 list list \<Rightarrow> history \<Rightarrow> unit ures" where
  "grep_main env fuel argv h =
    (if length argv \<le> 1 then ubind (fprintf env 2 (ascii ''usage: grep pattern [file ...]'' @ [10]) [] h) (\<lambda>_ h. UExit 1 h)
     else
       let pattern = argv ! 1 in
       if length argv \<le> 2 then ubind (grep env fuel pattern 0 h) (\<lambda>_ h. UExit 0 h)
       else grep_files env fuel pattern (drop 2 argv) h)"

section \<open>The lines of the input\<close>

fun split_nl :: "u8 list \<Rightarrow> u8 list list \<times> u8 list" where
  "split_nl [] = ([], [])"
| "split_nl (c # bs) =
    (let (ls, r) = split_nl bs in
     if c = 10 then ([] # ls, r)
     else case ls of [] \<Rightarrow> ([], c # r) | l # ls \<Rightarrow> ((c # l) # ls, r))"

lemma split_nl_append:
  "split_nl (xs @ ys) = (fst (split_nl xs) @ fst (split_nl (snd (split_nl xs) @ ys)), snd (split_nl (snd (split_nl xs) @ ys)))"
proof (induction xs)
  case Nil
  then show ?case by simp
next
  case (Cons c xs)
  then show ?case by (auto simp: case_prod_beta split: list.splits)
qed

lemma split_nl_strchr:
  assumes "0 \<notin> set b"
  shows "case strchr (b @ [0]) 10 of Some (Some i) \<Rightarrow>
      split_nl b = (take i b # fst (split_nl (drop (Suc i) b)), snd (split_nl (drop (Suc i) b)))
    | Some None \<Rightarrow> split_nl b = ([], b) | None \<Rightarrow> False"
  using assms
proof (induction b)
  case Nil
  then show ?case by simp
next
  case (Cons c b)
  then show ?case by (auto simp: case_prod_beta split: option.splits)
qed

definition matching :: "u8 list \<Rightarrow> u8 list list \<Rightarrow> u8 list" where
  "matching pattern ls = concat (map (\<lambda>l. l @ [10]) (filter (match pattern) ls))"

lemma take_found:
  "strchr (b @ [0]) 10 = Some (Some i) \<Longrightarrow> take (Suc i) b = take i b @ [10]"
  by (induction b arbitrary: i) (auto split: if_splits)

text \<open>
  The search for a newline ends at the first zero byte: what follows it in the buffer, \<open>v\<close>, is
  never looked at.
\<close>

lemma strchr_nul: "v = [] \<or> hd v = 0 \<Longrightarrow> strchr (u @ v @ [0]) 10 = strchr (u @ [0]) 10"
  by (induction u) (cases v; auto)+

lemma grep_lines_run:
  assumes v: "v = [] \<or> hd v = 0"
  shows "0 \<notin> set u \<Longrightarrow> \<exists>h'. grep_lines env pattern (u @ v) h = URet (snd (split_nl u) @ v) h' \<and>
    written 1 h' = written 1 h @ matching pattern (fst (split_nl u)) \<and> delivered env fd h' = delivered env fd h"
proof (induction "length u" arbitrary: u h rule: less_induct)
  case less
  note s = split_nl_strchr [OF less.prems]
  have st: "strchr ((u @ v) @ [0]) 10 = strchr (u @ [0]) 10" using strchr_nul [OF v, of u] by simp
  show ?case
  proof (cases "strchr (u @ [0]) 10")
    case None
    then show ?thesis using s by simp
  next
    case (Some r)
    show ?thesis
    proof (cases r)
      case None
      then show ?thesis using Some s st by (simp add: grep_lines.simps matching_def)
    next
      case (Some i)
      then have f: "strchr (u @ [0]) 10 = Some (Some i)" using \<open>strchr (u @ [0]) 10 = Some r\<close> by simp
      have i: "i < length u" by (rule strchr_found [OF f])
      have z: "0 \<notin> set (drop (Suc i) u)" using less.prems by (meson in_set_dropD)
      have d: "split_nl u = (take i u # fst (split_nl (drop (Suc i) u)), snd (split_nl (drop (Suc i) u)))" using s f by simp
      let ?h = "if match pattern (take i u) then h @ [CWrite 1 (take (Suc i) u)] else h"
      have l: "length (drop (Suc i) u) < length u" using i by simp
      obtain h' where h': "grep_lines env pattern (drop (Suc i) u @ v) ?h = URet (snd (split_nl (drop (Suc i) u)) @ v) h'"
          "written 1 h' = written 1 ?h @ matching pattern (fst (split_nl (drop (Suc i) u)))" "delivered env fd h' = delivered env fd ?h"
        using less.hyps [OF l z] by blast
      have "grep_lines env pattern (u @ v) h = grep_lines env pattern (drop (Suc i) u @ v) ?h"
        using i by (subst grep_lines.simps) (simp add: st [simplified] f usys_def)
      then show ?thesis
        using h' d by (auto simp: matching_def written_snoc usys_keeps take_found [OF f])
    qed
  qed
qed

lemma split_nl_set: "set (snd (split_nl xs)) \<subseteq> set xs"
  by (induction xs) (auto simp: case_prod_beta split: list.splits)

lemma split_nl_rest: "10 \<notin> set (snd (split_nl xs))"
  by (induction xs) (auto simp: case_prod_beta split: list.splits)

lemma split_nl_prefix:
  "10 \<notin> set r \<Longrightarrow> split_nl (r @ ys) =
    (case fst (split_nl ys) of [] \<Rightarrow> ([], r @ snd (split_nl ys)) | l # ls \<Rightarrow> ((r @ l) # ls, snd (split_nl ys)))"
  by (induction r) (auto simp: prod_eq_iff case_prod_beta split: list.splits)

text \<open>The unfinished line of a prefix of the input is the start of a line of the input.\<close>

lemma unfinished_short:
  assumes short: "\<forall>l \<in> insert (snd (split_nl inp)) (set (fst (split_nl inp))). length l < n"
  shows "length (snd (split_nl (take k inp))) < n"
proof -
  let ?r = "snd (split_nl (take k inp))" and ?s = "split_nl (drop k inp)"
  have "split_nl inp = (fst (split_nl (take k inp)) @ fst (split_nl (?r @ drop k inp)), snd (split_nl (?r @ drop k inp)))"
    using split_nl_append [of "take k inp" "drop k inp"] by simp
  moreover have "split_nl (?r @ drop k inp) = (case fst ?s of [] \<Rightarrow> ([], ?r @ snd ?s) | l # ls \<Rightarrow> ((?r @ l) # ls, snd ?s))"
    by (rule split_nl_prefix [OF split_nl_rest])
  ultimately show ?thesis using short by (cases "fst ?s") auto
qed

lemma split_nl_none: "10 \<notin> set u \<Longrightarrow> split_nl u = ([], u)"
  by (induction u) auto

text \<open>Once a zero byte stands before every newline of the buffer, nothing more is written.\<close>

lemma grep_loop_nul:
  assumes rf: "reads_file env fd inp" and u: "0 \<notin> set u" "10 \<notin> set u"
  shows "delivered env fd h = take k inp \<Longrightarrow> k \<le> length inp \<Longrightarrow> length inp - k < fuel \<Longrightarrow>
    v \<noteq> [] \<Longrightarrow> hd v = 0 \<Longrightarrow>
    \<exists>h'. grep_loop env pattern fd fuel (u @ v) h = URet () h' \<and> written 1 h' = written 1 h"
proof (induction fuel arbitrary: h k v)
  case 0
  then show ?case by simp
next
  case (Suc fuel)
  let ?n = "1024 - length (u @ v) - 1"
  obtain c where c: "ucall env (CRead fd ?n) h = URet (int (length c), c) (h @ [CRead fd ?n])"
      "delivered env fd (h @ [CRead fd ?n]) = take (k + length c) inp" "k + length c \<le> length inp"
    using reads_file_read [OF rf Suc.prems(1,2)] by blast
  show ?case
  proof (cases "c = []")
    case True
    then show ?thesis using c(1) by (simp add: written_snoc)
  next
    case False
    let ?h = "h @ [CRead fd ?n]"
    have v: "v @ c \<noteq> []" "hd (v @ c) = 0" using Suc.prems(4,5) by simp_all
    obtain h1 where h1: "grep_lines env pattern (u @ v @ c) ?h = URet (u @ v @ c) h1" "written 1 h1 = written 1 ?h"
        "delivered env fd h1 = delivered env fd ?h"
      using grep_lines_run [of "v @ c" u env pattern ?h fd] u v(2) by (auto simp: split_nl_none matching_def)
    have "length inp - (k + length c) < fuel" using False Suc.prems(3) c(3) by (cases c) auto
    then obtain h' where "grep_loop env pattern fd fuel (u @ v @ c) h1 = URet () h'" "written 1 h' = written 1 h1"
      using Suc.IH [of h1 "k + length c" "v @ c"] h1(3) c(2,3) v by auto
    then show ?thesis using False c(1) h1(1,2) by (simp add: usys_keeps)
  qed
qed

text \<open>What the next piece of the input adds to the lines already seen.\<close>

lemma split_nl_piece:
  assumes "tx = take k tx @ c @ d"
  shows "drop (length (fst (split_nl (take k tx)))) (fst (split_nl tx)) =
    fst (split_nl (snd (split_nl (take k tx)) @ c)) @ drop (length (fst (split_nl (take k tx @ c)))) (fst (split_nl tx))"
proof -
  have "split_nl (take k tx @ c) = (fst (split_nl (take k tx)) @ fst (split_nl (snd (split_nl (take k tx)) @ c)),
      snd (split_nl (snd (split_nl (take k tx)) @ c)))" by (rule split_nl_append)
  moreover have "split_nl tx = (fst (split_nl (take k tx @ c)) @ fst (split_nl (snd (split_nl (take k tx @ c)) @ d)),
      snd (split_nl (snd (split_nl (take k tx @ c)) @ d)))"
    using split_nl_append [of "take k tx @ c" d] assms by simp
  ultimately show ?thesis by simp
qed

lemma grep_loop_run:
  assumes rf: "reads_file env fd (tx @ rs)" and z: "0 \<notin> set tx" and rs: "rs = [] \<or> hd rs = 0"
    and short: "\<forall>l \<in> insert (snd (split_nl tx)) (set (fst (split_nl tx))). length l < 1023"
  shows "delivered env fd h = take k tx \<Longrightarrow> k \<le> length tx \<Longrightarrow> length (tx @ rs) - k < fuel \<Longrightarrow>
    \<exists>h'. grep_loop env pattern fd fuel (snd (split_nl (take k tx))) h = URet () h' \<and>
      written 1 h' = written 1 h @ matching pattern (drop (length (fst (split_nl (take k tx)))) (fst (split_nl tx)))"
proof (induction fuel arbitrary: h k)
  case 0
  then show ?case by simp
next
  case (Suc fuel)
  let ?b = "snd (split_nl (take k tx))"
  let ?n = "1024 - length ?b - 1"
  let ?h = "h @ [CRead fd ?n]"
  have del: "delivered env fd h = take k (tx @ rs)" "k \<le> length (tx @ rs)" using Suc.prems(1,2) by simp_all
  obtain c where c: "ucall env (CRead fd ?n) h = URet (int (length c), c) ?h"
      "delivered env fd ?h = take (k + length c) (tx @ rs)" "k + length c \<le> length (tx @ rs)"
      "c = take (length c) (drop k (tx @ rs))" "0 < ?n \<Longrightarrow> k < length (tx @ rs) \<Longrightarrow> c \<noteq> []"
    using reads_file_read [OF rf del] by blast
  have room: "0 < ?n" using unfinished_short [OF short, of k] by simp
  have ztx: "set ?b \<subseteq> set tx" using split_nl_set [of "take k tx"] set_take_subset [of k tx] by blast
  show ?case
  proof (cases "c = []")
    case True
    then have "k = length tx" using c(5) [OF room] Suc.prems(2) by (cases "k < length (tx @ rs)") simp_all
    then show ?thesis using True c(1) by (simp add: matching_def written_snoc)
  next
    case False
    let ?t = "take (length c) (drop k tx)" and ?v = "take (length c - (length tx - k)) rs"
    have ct: "c = ?t @ ?v" using c(4) Suc.prems(2) by simp
    have tx: "tx = take k tx @ ?t @ drop (k + length c) tx"
      by (metis append_take_drop_id append.assoc take_add)
    have "set ?t \<subseteq> set tx" by (meson set_take_subset set_drop_subset order_trans)
    then have z': "0 \<notin> set (?b @ ?t)" using ztx z by auto
    have v: "?v = [] \<or> hd ?v = 0" using rs by (cases rs; cases "length c - (length tx - k)") auto
    obtain h1 where h1: "grep_lines env pattern (?b @ c) ?h = URet (snd (split_nl (?b @ ?t)) @ ?v) h1"
        "written 1 h1 = written 1 ?h @ matching pattern (fst (split_nl (?b @ ?t)))" "delivered env fd h1 = delivered env fd ?h"
      using grep_lines_run [OF v z', of env pattern ?h fd] ct by (metis append.assoc)
    have less: "length (tx @ rs) - (k + length c) < fuel" using False Suc.prems(3) c(3) by (cases c) auto
    have sp: "snd (split_nl (take k tx @ ?t)) = snd (split_nl (?b @ ?t))"
      using split_nl_append [of "take k tx" ?t] by simp
    have tk: "take k tx @ ?t = take (k + length c) tx" by (simp add: take_add)
    have "\<exists>h'. grep_loop env pattern fd fuel (snd (split_nl (?b @ ?t)) @ ?v) h1 = URet () h' \<and>
        written 1 h' = written 1 h1 @ matching pattern (drop (length (fst (split_nl (take k tx @ ?t)))) (fst (split_nl tx)))"
    proof (cases "?v = []")
      case True
      then have "k + length c \<le> length tx" using c(3) Suc.prems(2) by auto
      then show ?thesis
        using Suc.IH [of h1 "k + length c"] h1(3) c(2) less True sp tk by auto
    next
      case False
      then have "length tx \<le> k + length c" using Suc.prems(2) by (cases "length c - (length tx - k)") auto
      then have "take k tx @ ?t = tx" using tk by simp
      then show ?thesis
        using grep_loop_nul [OF rf, of "snd (split_nl (?b @ ?t))" h1 "k + length c" fuel ?v pattern]
          split_nl_set [of "?b @ ?t"] split_nl_rest [of "?b @ ?t"] z' h1(3) c(2,3) less False v
        by (auto simp: matching_def subset_iff)
    qed
    then show ?thesis
      using False c(1) h1(1,2) split_nl_piece [OF tx] by (auto simp: matching_def usys_keeps)
  qed
qed

text \<open>
  C34: \<open>grep\<close> writes exactly the matching lines of the part \<open>tx\<close> of its input before the first NUL
  byte, in order, however the reads cut the input into pieces, and it ends; provided every line of
  \<open>tx\<close> fits the buffer. A last line of \<open>tx\<close> without a newline is not looked at, and nothing from
  the first NUL byte on is: \<open>strchr\<close> stops there. A file of text has no NUL byte, and \<open>rs\<close> is empty.
\<close>

theorem grep_filters_lines:
  assumes "reads_file env fd (tx @ rs)" and "delivered env fd h = []"
    and "0 \<notin> set tx" and "rs = [] \<or> hd rs = 0"
    and "\<forall>l \<in> insert (snd (split_nl tx)) (set (fst (split_nl tx))). length l < 1023" and "length (tx @ rs) < fuel"
  shows "\<exists>h'. grep env fuel pattern fd h = URet () h' \<and>
    written 1 h' = written 1 h @ concat (map (\<lambda>l. l @ [10]) (filter (match pattern) (fst (split_nl tx))))"
  using grep_loop_run [OF assms(1,3,4,5), of h 0 fuel pattern] assms(2,6) by (simp add: grep_def matching_def)

theorem grep_filters_lines_witness:
  "\<exists>h'. grep (byte_env 0 (ascii ''xab'' @ [10] @ ascii ''c'' @ [10] @ [0] @ ascii ''ab'' @ [10])) 20 (ascii ''a.'') 0 [] = URet () h' \<and>
    written 1 h' = ascii ''xab'' @ [10]"
proof -
  let ?t = "ascii ''xab'' @ [10] @ ascii ''c'' @ [10] :: u8 list" and ?r = "[0] @ ascii ''ab'' @ [10] :: u8 list"
  have "0 \<notin> set ?t" "?r = [] \<or> hd ?r = 0" "\<forall>l \<in> insert (snd (split_nl ?t)) (set (fst (split_nl ?t))). length l < 1023"
      "length (?t @ ?r) < 20"
    by (simp_all add: ascii_def of_char_def)
  moreover have "delivered (byte_env 0 (?t @ ?r)) 0 [] = []" by (simp add: delivered_def)
  ultimately obtain h' where "grep (byte_env 0 (?t @ ?r)) 20 (ascii ''a.'') 0 [] = URet () h'"
      "written 1 h' = written 1 [] @ concat (map (\<lambda>l. l @ [10]) (filter (match (ascii ''a.'')) (fst (split_nl ?t))))"
    using grep_filters_lines [OF byte_env_reads] by blast
  then show ?thesis
    by (simp add: ascii_def of_char_def match_def match_loop_simps matchhere_next matchhere_last written_def)
qed

end
