(* ===== verification/Sh.thy ===== *)
theory Sh
  imports Ulib
begin

text \<open>
  \<open>user/sh.c\<close>: the shell. A command line is a buffer of bytes followed by a zero;
  the pointers into it that the parser keeps are offsets. Allocation of
  parse nodes is taken to succeed, and a parse tree is a value; in an \<open>execcmd\<close> the
  pairs of \<open>argv[i]\<close> and \<open>eargv[i]\<close> are a list.
\<close>

section \<open>Parse trees and tokens\<close>

definition MAXARGS :: nat where "MAXARGS = 10"

datatype cmd =
    Exec "(nat \<times> nat) list"
  | Redir cmd nat nat int int
  | Pipe cmd cmd
  | Lst cmd cmd
  | Back cmd

definition whitespace :: "u8 list" where
  "whitespace = [32, 9, 13, 10, 11, 0]"

definition symbols :: "u8 list" where
  "symbols = [60, 124, 62, 38, 59, 40, 41, 0]"

text \<open>The byte at an offset of the command line.\<close>

definition byte_at :: "u8 list \<Rightarrow> nat \<Rightarrow> u8" where
  "byte_at buf s = (if s < length buf then buf ! s else 0)"

definition is_in :: "u8 list \<Rightarrow> u8 \<Rightarrow> bool" where
  "is_in toks c = (case strchr toks c of Some (Some i) \<Rightarrow> True | _ \<Rightarrow> False)"

function skip_while :: "(u8 \<Rightarrow> bool) \<Rightarrow> u8 list \<Rightarrow> nat \<Rightarrow> nat" where
  "skip_while P buf s = (if s < length buf \<and> P (byte_at buf s) then skip_while P buf (Suc s) else s)"
  by pat_completeness auto
termination by (relation "measure (\<lambda>(P, buf, s). length buf - s)") auto

declare skip_while.simps [simp del]

definition skip_white :: "u8 list \<Rightarrow> nat \<Rightarrow> nat" where
  "skip_white buf s = skip_while (is_in whitespace) buf s"

definition word_char :: "u8 \<Rightarrow> bool" where
  "word_char c \<longleftrightarrow> \<not> is_in whitespace c \<and> \<not> is_in symbols c"

text \<open>The kind of the token, its first and last offset, and the offset of the next one.\<close>

definition gettoken :: "u8 list \<Rightarrow> nat \<Rightarrow> u8 \<times> nat \<times> nat \<times> nat" where
  "gettoken buf s =
    (let q = skip_white buf s;
         c = byte_at buf q;
         (ret, eq) =
           (if c = 0 then (c, q)
            else if c \<in> {124, 40, 41, 59, 38, 60} then (c, Suc q)
            else if c = 62 then if byte_at buf (Suc q) = 62 then (43, Suc (Suc q)) else (c, Suc q)
            else (97, skip_while word_char buf q))
     in (ret, q, eq, skip_white buf eq))"

definition peek :: "u8 list \<Rightarrow> nat \<Rightarrow> u8 list \<Rightarrow> bool \<times> nat" where
  "peek buf s toks =
    (let s = skip_white buf s in (byte_at buf s \<noteq> 0 \<and> is_in toks (byte_at buf s), s))"

section \<open>The parser\<close>

text \<open>
  \<open>PErr\<close> is a call of \<open>panic\<close> with that message, \<open>PLeft\<close> the one after leftovers have
  been reported, \<open>PFuel\<close> the end of the fuel.
\<close>

datatype 'a pres = POk 'a | PErr string | PLeft "u8 list" | PFuel

fun pbind :: "'a pres \<Rightarrow> ('a \<Rightarrow> 'b pres) \<Rightarrow> 'b pres" where
  "pbind (POk a) f = f a"
| "pbind (PErr m) f = PErr m"
| "pbind (PLeft s) f = PLeft s"
| "pbind PFuel f = PFuel"

lemma pbind_cong [fundef_cong]:
  assumes "m = m'" and "\<And>a. m' = POk a \<Longrightarrow> f a = g a"
  shows "pbind m f = pbind m' g"
  using assms by (cases m') auto

text \<open>
  A redirection: file name and its end, mode, file descriptor. \<open>parseredirs\<close> wraps the command it
  is given in the redirections it reads, the first one innermost.
\<close>

type_synonym redir = "nat \<times> nat \<times> int \<times> int"

definition redircmd :: "cmd \<Rightarrow> redir \<Rightarrow> cmd" where
  "redircmd c r = (case r of (f, ef, mode, fd) \<Rightarrow> Redir c f ef mode fd)"

fun parseredirs :: "nat \<Rightarrow> u8 list \<Rightarrow> nat \<Rightarrow> (redir list \<times> nat) pres" where
  "parseredirs 0 buf s = PFuel"
| "parseredirs (Suc fuel) buf s =
    (let (b, s) = peek buf s [60, 62, 0] in
     if b then
       let (tok, _, _, s) = gettoken buf s; (tok2, q, eq, s) = gettoken buf s in
       if tok2 \<noteq> 97 then PErr ''missing file for redirection''
       else
         let r = (if tok = 60 then (q, eq, 0, 0) else (q, eq, 0x201, 1)) in
         pbind (parseredirs fuel buf s) (\<lambda>(rs, s). POk (r # rs, s))
     else POk ([], s))"

text \<open>The loop of \<open>parseexec\<close>; the words and the redirections read so far are \<open>argv\<close> and \<open>rs\<close>.\<close>

fun parseargs :: "nat \<Rightarrow> u8 list \<Rightarrow> nat \<Rightarrow> (nat \<times> nat) list \<Rightarrow> redir list \<Rightarrow> (cmd \<times> nat) pres" where
  "parseargs 0 buf s argv rs = PFuel"
| "parseargs (Suc fuel) buf s argv rs =
    (let (b, s) = peek buf s [124, 41, 38, 59, 0] in
     if b then POk (foldl redircmd (Exec argv) rs, s)
     else
       let (tok, q, eq, s) = gettoken buf s in
       if tok = 0 then POk (foldl redircmd (Exec argv) rs, s)
       else if tok \<noteq> 97 then PErr ''syntax''
       else
         let argv = argv @ [(q, eq)] in
         if MAXARGS \<le> length argv then PErr ''too many args''
         else pbind (parseredirs fuel buf s) (\<lambda>(rs', s). parseargs fuel buf s argv (rs @ rs')))"

text \<open>The loop of \<open>parseline\<close> over the tokens \<open>&\<close>.\<close>

fun parsebacks :: "nat \<Rightarrow> u8 list \<Rightarrow> nat \<Rightarrow> cmd \<Rightarrow> (cmd \<times> nat) pres" where
  "parsebacks 0 buf s c = PFuel"
| "parsebacks (Suc fuel) buf s c =
    (let (b, s) = peek buf s [38, 0] in
     if b then let (_, _, _, s) = gettoken buf s in parsebacks fuel buf s (Back c)
     else POk (c, s))"

text \<open>A token that is only passed over: \<open>gettoken(ps, es, 0, 0)\<close>.\<close>

definition pass_token :: "u8 list \<Rightarrow> nat \<Rightarrow> nat" where
  "pass_token buf s = snd (snd (snd (gettoken buf s)))"

definition redirected :: "nat \<Rightarrow> u8 list \<Rightarrow> cmd \<Rightarrow> nat \<Rightarrow> (cmd \<times> nat) pres" where
  "redirected fuel buf c s = pbind (parseredirs fuel buf s) (\<lambda>(rs, s). POk (foldl redircmd c rs, s))"

function (sequential) parseline :: "nat \<Rightarrow> u8 list \<Rightarrow> nat \<Rightarrow> (cmd \<times> nat) pres"
  and parsepipe :: "nat \<Rightarrow> u8 list \<Rightarrow> nat \<Rightarrow> (cmd \<times> nat) pres"
  and parseexec :: "nat \<Rightarrow> u8 list \<Rightarrow> nat \<Rightarrow> (cmd \<times> nat) pres"
  and parseblock :: "nat \<Rightarrow> u8 list \<Rightarrow> nat \<Rightarrow> (cmd \<times> nat) pres" where
  "parseline 0 buf s = PFuel"
| "parseline (Suc fuel) buf s =
    pbind (pbind (parsepipe fuel buf s) (\<lambda>c. parsebacks (Suc fuel) buf (snd c) (fst c))) (\<lambda>c.
    if fst (peek buf (snd c) [59, 0]) then
      pbind (parseline fuel buf (pass_token buf (snd (peek buf (snd c) [59, 0])))) (\<lambda>d. POk (Lst (fst c) (fst d), snd d))
    else POk (fst c, snd (peek buf (snd c) [59, 0])))"
| "parsepipe 0 buf s = PFuel"
| "parsepipe (Suc fuel) buf s =
    pbind (parseexec fuel buf s) (\<lambda>c.
    if fst (peek buf (snd c) [124, 0]) then
      pbind (parsepipe fuel buf (pass_token buf (snd (peek buf (snd c) [124, 0])))) (\<lambda>d. POk (Pipe (fst c) (fst d), snd d))
    else POk (fst c, snd (peek buf (snd c) [124, 0])))"
| "parseexec 0 buf s = PFuel"
| "parseexec (Suc fuel) buf s =
    (if fst (peek buf s [40, 0]) then parseblock fuel buf (snd (peek buf s [40, 0]))
     else pbind (parseredirs (Suc fuel) buf (snd (peek buf s [40, 0]))) (\<lambda>r. parseargs (Suc fuel) buf (snd r) [] (fst r)))"
| "parseblock 0 buf s = PFuel"
| "parseblock (Suc fuel) buf s =
    (if \<not> fst (peek buf s [40, 0]) then PErr ''parseblock''
     else
       pbind (parseline fuel buf (pass_token buf (snd (peek buf s [40, 0])))) (\<lambda>c.
       if \<not> fst (peek buf (snd c) [41, 0]) then PErr ''syntax - missing )''
       else redirected (Suc fuel) buf (fst c) (pass_token buf (snd (peek buf (snd c) [41, 0])))))"
  by pat_completeness auto
termination
  by (relation "measure (\<lambda>x. case x of Inl (Inl (f, _, _)) \<Rightarrow> f | Inl (Inr (f, _, _)) \<Rightarrow> f
    | Inr (Inl (f, _, _)) \<Rightarrow> f | Inr (Inr (f, _, _)) \<Rightarrow> f)") simp_all

text \<open>\<open>nulterminate\<close> stores a zero at the end of every word and file name.\<close>

fun nulterminate :: "cmd \<Rightarrow> u8 list \<Rightarrow> u8 list" where
  "nulterminate (Exec argv) buf = foldl (\<lambda>b (q, eq). b[eq := 0]) buf argv"
| "nulterminate (Redir c f ef mode fd) buf = (nulterminate c buf)[ef := 0]"
| "nulterminate (Pipe c d) buf = nulterminate d (nulterminate c buf)"
| "nulterminate (Lst c d) buf = nulterminate d (nulterminate c buf)"
| "nulterminate (Back c) buf = nulterminate c buf"

text \<open>Four calls per byte are enough for every command line.\<close>

definition parse_fuel :: "u8 list \<Rightarrow> nat" where
  "parse_fuel buf = 4 * length buf + 8"

definition parsecmd :: "u8 list \<Rightarrow> (cmd \<times> u8 list) pres" where
  "parsecmd str =
    (let buf = takeWhile (\<lambda>c. c \<noteq> 0) str in
     pbind (parseline (parse_fuel buf) buf 0) (\<lambda>(c, s).
     let (_, s) = peek buf s [0] in
     if s \<noteq> length buf then PLeft (drop s buf)
     else POk (c, nulterminate c (buf @ [0]))))"

section \<open>Running commands\<close>

definition upanic :: "uenv \<Rightarrow> u8 list \<Rightarrow> history \<Rightarrow> 'a ures" where
  "upanic env msg h = ubind (fprintf env 2 (ascii ''%s'' @ [10]) [ArgStr (Some msg)] h) (\<lambda>_ h. UExit 1 h)"

definition fork1 :: "uenv \<Rightarrow> history \<Rightarrow> int ures" where
  "fork1 env h =
    ubind (usys env CFork h) (\<lambda>pid h. if pid = -1 then upanic env (ascii ''fork'') h else URet pid h)"

text \<open>The string at an offset of the command line, after \<open>nulterminate\<close>.\<close>

definition str_at :: "u8 list \<Rightarrow> nat \<Rightarrow> u8 list" where
  "str_at buf q = takeWhile (\<lambda>c. c \<noteq> 0) (drop q buf)"

text \<open>The two file descriptors \<open>pipe\<close> stores are 32-bit integers.\<close>

definition pipe_fd :: "u8 list \<Rightarrow> nat \<Rightarrow> int" where
  "pipe_fd bs i = sint (get32 bs (4 * i))"

fun runcmd :: "uenv \<Rightarrow> u8 list \<Rightarrow> cmd \<Rightarrow> history \<Rightarrow> unit ures" where
  "runcmd env buf (Exec argv) h =
    (if argv = [] then UExit 1 h
     else
       let args = map (\<lambda>(q, eq). str_at buf q) argv in
       ubind (uexec env (hd args) args h) (\<lambda>_ h.
       ubind (fprintf env 2 (ascii ''exec %s failed'' @ [10]) [ArgStr (Some (hd args))] h) (\<lambda>_ h. UExit 0 h)))"
| "runcmd env buf (Redir c f ef mode fd) h =
    ubind (usys env (CClose fd) h) (\<lambda>_ h.
    ubind (usys env (COpen (str_at buf f) mode) h) (\<lambda>r h.
      if r < 0 then
        ubind (fprintf env 2 (ascii ''open %s failed'' @ [10]) [ArgStr (Some (str_at buf f))] h) (\<lambda>_ h. UExit 1 h)
      else ubind (runcmd env buf c h) (\<lambda>_ h. UExit 0 h)))"
| "runcmd env buf (Lst c d) h =
    ubind (fork1 env h) (\<lambda>pid h.
    ubind (if pid = 0 then runcmd env buf c h else URet () h) (\<lambda>_ h.
    ubind (usys env CWait h) (\<lambda>_ h.
    ubind (runcmd env buf d h) (\<lambda>_ h. UExit 0 h))))"
| "runcmd env buf (Pipe c d) h =
    ubind (ucall env CPipe h) (\<lambda>(r, bs) h.
    if r < 0 then upanic env (ascii ''pipe'') h
    else
      let p0 = pipe_fd bs 0; p1 = pipe_fd bs 1 in
      ubind (fork1 env h) (\<lambda>pid h.
      ubind (if pid = 0 then
               ubind (usys env (CClose 1) h) (\<lambda>_ h. ubind (usys env (CDup p1) h) (\<lambda>_ h.
               ubind (usys env (CClose p0) h) (\<lambda>_ h. ubind (usys env (CClose p1) h) (\<lambda>_ h. runcmd env buf c h))))
             else URet () h) (\<lambda>_ h.
      ubind (fork1 env h) (\<lambda>pid h.
      ubind (if pid = 0 then
               ubind (usys env (CClose 0) h) (\<lambda>_ h. ubind (usys env (CDup p0) h) (\<lambda>_ h.
               ubind (usys env (CClose p0) h) (\<lambda>_ h. ubind (usys env (CClose p1) h) (\<lambda>_ h. runcmd env buf d h))))
             else URet () h) (\<lambda>_ h.
      ubind (usys env (CClose p0) h) (\<lambda>_ h. ubind (usys env (CClose p1) h) (\<lambda>_ h.
      ubind (usys env CWait h) (\<lambda>_ h. ubind (usys env CWait h) (\<lambda>_ h. UExit 0 h)))))))))"
| "runcmd env buf (Back c) h =
    ubind (fork1 env h) (\<lambda>pid h.
    ubind (if pid = 0 then runcmd env buf c h else URet () h) (\<lambda>_ h. UExit 0 h))"

text \<open>The buffer after \<open>getcmd\<close>, or \<open>None\<close> at the end of the input.\<close>

definition getcmd :: "uenv \<Rightarrow> nat \<Rightarrow> history \<Rightarrow> (u8 list option) ures" where
  "getcmd env nbuf h =
    ubind (fprintf env 2 (ascii ''$ '') [] h) (\<lambda>_ h.
    ubind (gets env (int nbuf) h) (\<lambda>cs h.
    let buf = cs @ replicate (nbuf - length cs) 0 in
    URet (if buf ! 0 = 0 then None else Some buf) h))"

text \<open>The child of the shell; a syntax error ends it.\<close>

definition run_line :: "uenv \<Rightarrow> u8 list \<Rightarrow> history \<Rightarrow> unit ures" where
  "run_line env buf h =
    (case parsecmd buf of
       POk (c, nb) \<Rightarrow> runcmd env nb c h
     | PErr msg \<Rightarrow> upanic env (ascii msg) h
     | PLeft s \<Rightarrow> ubind (fprintf env 2 (ascii ''leftovers: %s'' @ [10]) [ArgStr (Some s)] h) (\<lambda>_ h. upanic env (ascii ''syntax'') h)
     | PFuel \<Rightarrow> USpin h)"

definition chop :: "u8 list \<Rightarrow> u8 list" where
  "chop buf = buf[length (takeWhile (\<lambda>c. c \<noteq> 0) buf) - 1 := 0]"

fun sh_loop :: "uenv \<Rightarrow> nat \<Rightarrow> history \<Rightarrow> unit ures" where
  "sh_loop env 0 h = USpin h"
| "sh_loop env (Suc fuel) h =
    ubind (getcmd env 100 h) (\<lambda>r h.
    case r of
      None \<Rightarrow> UExit 0 h
    | Some buf \<Rightarrow>
        if buf ! 0 = 99 \<and> buf ! 1 = 100 \<and> buf ! 2 = 32 then
          let dir = str_at (chop buf) 3 in
          ubind (usys env (CChdir dir) h) (\<lambda>r h.
          ubind (if r < 0 then fprintf env 2 (ascii ''cannot cd %s'' @ [10]) [ArgStr (Some dir)] h else URet () h) (\<lambda>_ h.
          sh_loop env fuel h))
        else
          ubind (fork1 env h) (\<lambda>pid h.
          ubind (if pid = 0 then run_line env buf h else URet () h) (\<lambda>_ h.
          ubind (usys env CWait h) (\<lambda>_ h. sh_loop env fuel h))))"

fun sh_open :: "uenv \<Rightarrow> nat \<Rightarrow> history \<Rightarrow> unit ures" where
  "sh_open env 0 h = USpin h"
| "sh_open env (Suc fuel) h =
    ubind (usys env (COpen (ascii ''console'') 2) h) (\<lambda>fd h.
      if fd \<ge> 0 then
        if fd \<ge> 3 then ubind (usys env (CClose fd) h) (\<lambda>_ h. URet () h)
        else sh_open env fuel h
      else URet () h)"

definition sh_main :: "uenv \<Rightarrow> nat \<Rightarrow> history \<Rightarrow> unit ures" where
  "sh_main env fuel h = ubind (sh_open env fuel h) (\<lambda>_ h. sh_loop env fuel h)"

section \<open>Tokens\<close>

lemma skip_while_bounds: "s \<le> skip_while P buf s" "s \<le> length buf \<Longrightarrow> skip_while P buf s \<le> length buf"
proof (induction P buf s rule: skip_while.induct)
  case (1 P buf s)
  {
    case 1
    then show ?case using "1.IH"(1) by (subst skip_while.simps) auto
  next
    case 2
    then show ?case using "1.IH"(2) by (subst skip_while.simps) auto
  }
qed

lemma skip_while_all: "s \<le> i \<Longrightarrow> i < skip_while P buf s \<Longrightarrow> i < length buf \<and> P (buf ! i)"
proof (induction P buf s rule: skip_while.induct)
  case (1 P buf s)
  then show ?case
    by (cases "i = s") (auto simp: skip_while.simps [of P buf s] byte_at_def split: if_splits)
qed

lemma skip_while_stop: "skip_while P buf s < length buf \<Longrightarrow> \<not> P (buf ! skip_while P buf s)"
proof (induction P buf s rule: skip_while.induct)
  case (1 P buf s)
  then show ?case
    by (cases "s < length buf \<and> P (byte_at buf s)") (auto simp: skip_while.simps [of P buf s] byte_at_def)
qed

lemma peek_bounds:
  "s \<le> snd (peek buf s toks)" "s \<le> length buf \<Longrightarrow> snd (peek buf s toks) \<le> length buf"
  using skip_while_bounds by (simp_all add: peek_def skip_white_def Let_def)

lemma peek_nonzero: "fst (peek buf s toks) \<Longrightarrow> byte_at buf (skip_white buf (snd (peek buf s toks))) \<noteq> 0"
proof -
  let ?s = "skip_white buf s"
  assume "fst (peek buf s toks)"
  then have b: "byte_at buf ?s \<noteq> 0" by (simp add: peek_def Let_def)
  then have "\<not> (is_in whitespace (byte_at buf ?s) \<and> ?s < length buf)"
    using skip_while_stop [of "is_in whitespace" buf s] by (auto simp: skip_white_def byte_at_def)
  then have "skip_white buf ?s = ?s" unfolding skip_white_def by (subst skip_while.simps) auto
  then show ?thesis using b by (simp add: peek_def Let_def)
qed

text \<open>A word of the command line, from offset \<open>q\<close> up to \<open>e\<close>.\<close>

definition word_tok :: "u8 list \<Rightarrow> nat \<Rightarrow> nat \<Rightarrow> bool" where
  "word_tok buf q e \<longleftrightarrow> q < e \<and> e \<le> length buf \<and> (\<forall>i. q \<le> i \<longrightarrow> i < e \<longrightarrow> word_char (buf ! i)) \<and>
    (e < length buf \<longrightarrow> \<not> word_char (buf ! e))"

lemma word_char_other:
  "c \<noteq> 0 \<Longrightarrow> \<not> is_in whitespace c \<Longrightarrow> c \<notin> {124, 40, 41, 59, 38, 60, 62} \<Longrightarrow> word_char c"
  by (auto simp: word_char_def is_in_def symbols_def)

lemma gettoken_cases:
  assumes s: "s \<le> length buf" and g: "gettoken buf s = (tok, q, e, s')"
  shows "s \<le> s'" and "s' \<le> length buf" and "tok \<noteq> 0 \<Longrightarrow> s < s'" and "tok = 97 \<Longrightarrow> word_tok buf q e"
    and "byte_at buf (skip_white buf s) \<noteq> 0 \<Longrightarrow> tok \<noteq> 0"
proof -
  let ?q = "skip_white buf s" and ?e = "skip_while word_char buf (skip_white buf s)"
  let ?c = "byte_at buf ?q"
  have q: "s \<le> ?q" "?q \<le> length buf" using skip_while_bounds s by (simp_all add: skip_white_def)
  have in_buf: "?c \<noteq> 0 \<Longrightarrow> ?q < length buf" "byte_at buf (Suc ?q) = 62 \<Longrightarrow> Suc ?q < length buf"
    by (auto simp: byte_at_def split: if_splits)
  have nw: "?c \<noteq> 0 \<Longrightarrow> \<not> is_in whitespace ?c"
    using skip_while_stop [of "is_in whitespace" buf s] in_buf(1) by (auto simp: skip_white_def byte_at_def)
  have eb: "?q \<le> ?e" "?e \<le> length buf" using skip_while_bounds q(2) by simp_all
  have e: "?c \<noteq> 0 \<Longrightarrow> ?c \<notin> {124, 40, 41, 59, 38, 60, 62} \<Longrightarrow> ?q < ?e"
    using word_char_other [OF _ nw] in_buf(1) skip_while_bounds(1) [of "Suc ?q" word_char buf]
    by (subst skip_while.simps) auto
  have w: "?c \<noteq> 0 \<Longrightarrow> ?c \<notin> {124, 40, 41, 59, 38, 60, 62} \<Longrightarrow> word_tok buf ?q ?e"
    using e eb skip_while_all [of ?q _ word_char buf] skip_while_stop [of word_char buf ?q] by (auto simp: word_tok_def)
  have e': "?q \<le> e" "e \<le> length buf" "tok \<noteq> 0 \<Longrightarrow> ?q < e" "tok = 97 \<Longrightarrow> word_tok buf q e" "?c \<noteq> 0 \<Longrightarrow> tok \<noteq> 0"
      "s' = skip_white buf e"
    using g in_buf eb e w q by (auto simp: gettoken_def Let_def split: if_splits)
  have s': "e \<le> s'" "s' \<le> length buf" using skip_while_bounds e'(2,6) by (simp_all add: skip_white_def)
  show "s \<le> s'" "s' \<le> length buf" "tok \<noteq> 0 \<Longrightarrow> s < s'" "tok = 97 \<Longrightarrow> word_tok buf q e" "?c \<noteq> 0 \<Longrightarrow> tok \<noteq> 0"
    using s' q e'(1,3-5) by auto
qed

lemma pass_token_bounds:
  assumes "s \<le> length buf" and "byte_at buf (skip_white buf s) \<noteq> 0"
  shows "s < pass_token buf s" and "pass_token buf s \<le> length buf"
  using assms gettoken_cases [OF assms(1)] unfolding pass_token_def by (metis prod.collapse)+

section \<open>What the parser returns\<close>

fun words :: "cmd \<Rightarrow> (nat \<times> nat) set" where
  "words (Exec argv) = set argv"
| "words (Redir c f ef mode fd) = insert (f, ef) (words c)"
| "words (Pipe c d) = words c \<union> words d"
| "words (Lst c d) = words c \<union> words d"
| "words (Back c) = words c"

fun argv_fits :: "cmd \<Rightarrow> bool" where
  "argv_fits (Exec argv) = (length argv < MAXARGS)"
| "argv_fits (Redir c f ef mode fd) = argv_fits c"
| "argv_fits (Pipe c d) = (argv_fits c \<and> argv_fits d)"
| "argv_fits (Lst c d) = (argv_fits c \<and> argv_fits d)"
| "argv_fits (Back c) = argv_fits c"

definition good :: "u8 list \<Rightarrow> cmd \<Rightarrow> bool" where
  "good buf c \<longleftrightarrow> argv_fits c \<and> (\<forall>(q, e)\<in>words c. word_tok buf q e)"

lemma good_simps [simp]:
  "good buf (Pipe c d) \<longleftrightarrow> good buf c \<and> good buf d"
  "good buf (Lst c d) \<longleftrightarrow> good buf c \<and> good buf d"
  "good buf (Back c) \<longleftrightarrow> good buf c"
  "good buf (Redir c f ef mode fd) \<longleftrightarrow> good buf c \<and> word_tok buf f ef"
  by (auto simp: good_def)

definition good_redirs :: "u8 list \<Rightarrow> redir list \<Rightarrow> bool" where
  "good_redirs buf rs \<longleftrightarrow> (\<forall>(q, e, m, fd)\<in>set rs. word_tok buf q e)"

lemma good_foldl: "good buf c \<Longrightarrow> good_redirs buf rs \<Longrightarrow> good buf (foldl redircmd c rs)"
  by (induction rs arbitrary: c) (auto simp: good_redirs_def redircmd_def)

text \<open>The parser came back, from offset \<open>s\<close>, with a tree over the words of the line or with an error.\<close>

definition parsed :: "u8 list \<Rightarrow> nat \<Rightarrow> (cmd \<times> nat) pres \<Rightarrow> bool" where
  "parsed buf s r \<longleftrightarrow> r \<noteq> PFuel \<and> (\<forall>c s'. r = POk (c, s') \<longrightarrow> good buf c \<and> s \<le> s' \<and> s' \<le> length buf)"

lemma parsed_POk: "parsed buf s (POk (c, s')) \<longleftrightarrow> good buf c \<and> s \<le> s' \<and> s' \<le> length buf"
  and parsed_PErr [simp]: "parsed buf s (PErr m)"
  by (auto simp: parsed_def)

lemma parsed_bind:
  assumes "parsed buf s r" and "\<And>c s'. good buf c \<Longrightarrow> s \<le> s' \<Longrightarrow> s' \<le> length buf \<Longrightarrow> parsed buf s (f (c, s'))"
  shows "parsed buf s (pbind r f)"
proof (cases r)
  case (POk a)
  obtain c s' where a: "a = (c, s')" by (cases a)
  have "good buf c \<and> s \<le> s' \<and> s' \<le> length buf" using assms(1) POk a by (simp add: parsed_def)
  then have "parsed buf s (f (c, s'))" using assms(2) by blast
  then show ?thesis using POk a by simp
qed (use assms(1) in \<open>simp_all add: parsed_def\<close>)

lemma parsed_mono: "parsed buf s' r \<Longrightarrow> s \<le> s' \<Longrightarrow> parsed buf s r"
  by (auto simp: parsed_def)

lemma parseredirs_ok:
  "s \<le> length buf \<Longrightarrow> length buf - s < fuel \<Longrightarrow> parseredirs fuel buf s \<noteq> PFuel \<and>
    (\<forall>rs s'. parseredirs fuel buf s = POk (rs, s') \<longrightarrow> good_redirs buf rs \<and> s \<le> s' \<and> s' \<le> length buf)"
proof (induction fuel arbitrary: s)
  case 0
  then show ?case by simp
next
  case (Suc fuel)
  let ?s = "snd (peek buf s [60, 62, 0])"
  have s: "s \<le> ?s" "?s \<le> length buf" using peek_bounds Suc.prems(1) by simp_all
  show ?case
  proof (cases "fst (peek buf s [60, 62, 0])")
    case False
    then show ?thesis using s by (auto simp: case_prod_beta Let_def good_redirs_def)
  next
    case True
    obtain tok q e s1 where g1: "gettoken buf ?s = (tok, q, e, s1)" by (cases "gettoken buf ?s") auto
    obtain tok2 q2 e2 s2 where g2: "gettoken buf s1 = (tok2, q2, e2, s2)" by (cases "gettoken buf s1") auto
    note t1 = gettoken_cases [OF s(2) g1]
    note t2 = gettoken_cases [OF t1(2) g2]
    have lt: "?s < s1" using t1(3,5) peek_nonzero [OF True] by simp
    then have fuel: "length buf - s2 < fuel" using Suc.prems(2) s t1(2) t2(1,2) by linarith
    note IH = Suc.IH [OF t2(2) fuel]
    have run: "parseredirs (Suc fuel) buf s = (if tok2 \<noteq> 97 then PErr ''missing file for redirection''
        else pbind (parseredirs fuel buf s2) (\<lambda>(rs, s). POk ((if tok = 60 then (q2, e2, 0, 0) else (q2, e2, 0x201, 1)) # rs, s)))"
      using True g1 g2 by (simp add: case_prod_beta Let_def)
    show ?thesis
    proof (cases "parseredirs fuel buf s2")
      case (POk a)
      then show ?thesis using IH lt s t2 unfolding run by (cases a) (auto simp: good_redirs_def)
    qed (use IH run in auto)
  qed
qed

lemma redirected_ok:
  assumes "s \<le> length buf" and "length buf - s < fuel" and "good buf c"
  shows "parsed buf s (redirected fuel buf c s)"
  using parseredirs_ok [OF assms(1,2)] good_foldl [OF assms(3)]
  by (cases "parseredirs fuel buf s") (auto simp: redirected_def parsed_def)

lemma parsebacks_ok:
  "s \<le> length buf \<Longrightarrow> length buf - s < fuel \<Longrightarrow> good buf c \<Longrightarrow> parsed buf s (parsebacks fuel buf s c)"
proof (induction fuel arbitrary: s c)
  case 0
  then show ?case by simp
next
  case (Suc fuel)
  let ?s = "snd (peek buf s [38, 0])"
  have s: "s \<le> ?s" "?s \<le> length buf" using peek_bounds Suc.prems(1) by simp_all
  show ?case
  proof (cases "fst (peek buf s [38, 0])")
    case False
    then show ?thesis using s Suc.prems(3) by (auto simp: case_prod_beta Let_def parsed_POk)
  next
    case True
    let ?t = "pass_token buf ?s"
    have t: "?s < ?t" "?t \<le> length buf" using pass_token_bounds [OF s(2) peek_nonzero [OF True]] by simp_all
    then have "parsed buf ?t (parsebacks fuel buf ?t (Back c))" using Suc.prems s by (intro Suc.IH) simp_all
    then show ?thesis using True s t by (auto simp: case_prod_beta Let_def pass_token_def intro: parsed_mono)
  qed
qed

lemma parseargs_ok:
  "s \<le> length buf \<Longrightarrow> length buf - s < fuel \<Longrightarrow> length argv < MAXARGS \<Longrightarrow> \<forall>(q, e)\<in>set argv. word_tok buf q e \<Longrightarrow>
    good_redirs buf rs \<Longrightarrow> parsed buf s (parseargs fuel buf s argv rs)"
proof (induction fuel arbitrary: s argv rs)
  case 0
  then show ?case by simp
next
  case (Suc fuel)
  let ?p = "peek buf s [124, 41, 38, 59, 0]"
  let ?s = "snd ?p"
  have s: "s \<le> ?s" "?s \<le> length buf" using peek_bounds Suc.prems(1) by simp_all
  have fin: "good buf (foldl redircmd (Exec argv) rs)"
    using Suc.prems(3-5) by (intro good_foldl) (simp_all add: good_def)
  obtain tok q e s1 where g: "gettoken buf ?s = (tok, q, e, s1)" by (cases "gettoken buf ?s") auto
  note t = gettoken_cases [OF s(2) g]
  have run: "parseargs (Suc fuel) buf s argv rs =
      (if fst ?p then POk (foldl redircmd (Exec argv) rs, ?s)
       else if tok = 0 then POk (foldl redircmd (Exec argv) rs, s1)
       else if tok \<noteq> 97 then PErr ''syntax''
       else if MAXARGS \<le> length (argv @ [(q, e)]) then PErr ''too many args''
       else pbind (parseredirs fuel buf s1) (\<lambda>(rs', s). parseargs fuel buf s (argv @ [(q, e)]) (rs @ rs')))"
    using g by (simp add: case_prod_beta Let_def)
  show ?case
  proof (cases "\<not> fst ?p \<and> tok = 97 \<and> length (argv @ [(q, e)]) < MAXARGS")
    case False
    then show ?thesis using fin s t(1,2) unfolding run by (auto simp: parsed_POk)
  next
    case True
    then have lt: "?s < s1" using t(3) by simp
    then have fuel: "length buf - s1 < fuel" using Suc.prems(2) s t(2) by linarith
    note r = parseredirs_ok [OF t(2) fuel]
    have go: "parseargs (Suc fuel) buf s argv rs =
        pbind (parseredirs fuel buf s1) (\<lambda>(rs', s). parseargs fuel buf s (argv @ [(q, e)]) (rs @ rs'))"
      using True unfolding run by simp
    show ?thesis
    proof (cases "parseredirs fuel buf s1")
      case (POk a)
      obtain rs' s2 where a: "a = (rs', s2)" by (cases a)
      then have s2: "good_redirs buf rs'" "s1 \<le> s2" "s2 \<le> length buf" using r POk by simp_all
      have "parsed buf s2 (parseargs fuel buf s2 (argv @ [(q, e)]) (rs @ rs'))"
      proof (rule Suc.IH)
        show "length buf - s2 < fuel" using fuel s2(2,3) by linarith
        show "good_redirs buf (rs @ rs')" using Suc.prems(5) s2(1) by (auto simp: good_redirs_def)
        show "\<forall>(q, e)\<in>set (argv @ [(q, e)]). word_tok buf q e" using Suc.prems(4) t(4) True by simp
      qed (use s2(3) True in simp_all)
      then have "parsed buf s (parseargs fuel buf s2 (argv @ [(q, e)]) (rs @ rs'))"
        by (rule parsed_mono) (use s(1) lt s2(2) in linarith)
      then show ?thesis unfolding go POk a by simp
    qed (use r go in \<open>simp_all add: parsed_def\<close>)
  qed
qed

lemma parseexec_words:
  assumes "s \<le> length buf" and "length buf - s < fuel"
  shows "parsed buf s (pbind (parseredirs fuel buf s) (\<lambda>r. parseargs fuel buf (snd r) [] (fst r)))"
proof (cases "parseredirs fuel buf s")
  case (POk a)
  obtain rs s' where a: "a = (rs, s')" by (cases a)
  then have s': "good_redirs buf rs" "s \<le> s'" "s' \<le> length buf" using parseredirs_ok [OF assms] POk by simp_all
  then have "parsed buf s' (parseargs fuel buf s' [] rs)" using assms(2) by (intro parseargs_ok) (simp_all add: MAXARGS_def)
  then show ?thesis using POk a s'(2) by (auto intro: parsed_mono)
qed (use parseredirs_ok [OF assms] in \<open>simp_all add: parsed_def\<close>)

lemma peek_token:
  assumes "s \<le> length buf" and "fst (peek buf s toks)"
  shows "s < pass_token buf (snd (peek buf s toks))" and "pass_token buf (snd (peek buf s toks)) \<le> length buf"
  using pass_token_bounds [OF peek_bounds(2) [OF assms(1)] peek_nonzero [OF assms(2)]] peek_bounds(1) [of s buf toks] by simp_all

text \<open>A command, and another one if a separator follows.\<close>

lemma sequence_ok:
  assumes c: "good buf c" "s \<le> s'" "s' \<le> length buf"
    and next': "\<forall>t. s' < t \<longrightarrow> t \<le> length buf \<longrightarrow> parsed buf t (p t)" and mk: "\<forall>d. good buf d \<longrightarrow> good buf (mk d)"
  shows "parsed buf s (if fst (peek buf s' toks) then
      pbind (p (pass_token buf (snd (peek buf s' toks)))) (\<lambda>d. POk (mk (fst d), snd d))
    else POk (c, snd (peek buf s' toks)))"
proof (cases "fst (peek buf s' toks)")
  case False
  then show ?thesis using c peek_bounds [of s' buf toks] by (simp add: parsed_POk)
next
  case True
  let ?t = "pass_token buf (snd (peek buf s' toks))"
  note t = peek_token [OF c(3) True]
  have "parsed buf ?t (pbind (p ?t) (\<lambda>d. POk (mk (fst d), snd d)))"
    using next' mk t by (intro parsed_bind) (simp_all add: parsed_POk)
  then have "parsed buf s (pbind (p ?t) (\<lambda>d. POk (mk (fst d), snd d)))"
    by (rule parsed_mono) (use t c(2) in linarith)
  then show ?thesis using True by simp
qed

text \<open>The fuel each of the four functions needs, in the number of bytes left.\<close>

lemma parser_ok:
  "s \<le> length buf \<Longrightarrow> 4 * (length buf - s) + 4 \<le> fuel \<Longrightarrow> parsed buf s (parseline fuel buf s)"
  "s \<le> length buf \<Longrightarrow> 4 * (length buf - s) + 3 \<le> fuel \<Longrightarrow> parsed buf s (parsepipe fuel buf s)"
  "s \<le> length buf \<Longrightarrow> 4 * (length buf - s) + 2 \<le> fuel \<Longrightarrow> parsed buf s (parseexec fuel buf s)"
  "s \<le> length buf \<Longrightarrow> 4 * (length buf - s) + 1 \<le> fuel \<Longrightarrow> parsed buf s (parseblock fuel buf s)"
proof (induction fuel arbitrary: s)
  case (Suc fuel)
  {
    case 1
    have "parsed buf s (pbind (parsepipe fuel buf s) (\<lambda>c. parsebacks (Suc fuel) buf (snd c) (fst c)))"
    proof (rule parsed_bind)
      show "parsed buf s (parsepipe fuel buf s)" using 1 by (intro Suc.IH(2)) simp_all
      fix c s' assume c: "good buf c" "s \<le> s'" "s' \<le> length buf"
      then have "parsed buf s' (parsebacks (Suc fuel) buf s' c)" using 1 by (intro parsebacks_ok) simp_all
      then show "parsed buf s (parsebacks (Suc fuel) buf (snd (c, s')) (fst (c, s')))"
        using c(2) by (simp add: parsed_mono)
    qed
    then show ?case
      unfolding parseline.simps
    proof (rule parsed_bind)
      fix c s' assume c: "good buf c" "s \<le> s'" "s' \<le> length buf"
      have "\<forall>t. s' < t \<longrightarrow> t \<le> length buf \<longrightarrow> parsed buf t (parseline fuel buf t)"
        using 1 c(2) by (intro allI impI Suc.IH(1)) simp_all
      then show "parsed buf s (if fst (peek buf (snd (c, s')) [59, 0]) then
          pbind (parseline fuel buf (pass_token buf (snd (peek buf (snd (c, s')) [59, 0])))) (\<lambda>d. POk (Lst (fst (c, s')) (fst d), snd d))
        else POk (fst (c, s'), snd (peek buf (snd (c, s')) [59, 0])))"
        unfolding fst_conv snd_conv by (rule sequence_ok [OF c]) (use c(1) in simp)
    qed
  next
    case 2
    show ?case
      unfolding parsepipe.simps
    proof (rule parsed_bind)
      show "parsed buf s (parseexec fuel buf s)" using 2 by (intro Suc.IH(3)) simp_all
      fix c s' assume c: "good buf c" "s \<le> s'" "s' \<le> length buf"
      have "\<forall>t. s' < t \<longrightarrow> t \<le> length buf \<longrightarrow> parsed buf t (parsepipe fuel buf t)"
        using 2 c(2) by (intro allI impI Suc.IH(2)) simp_all
      then show "parsed buf s (if fst (peek buf (snd (c, s')) [124, 0]) then
          pbind (parsepipe fuel buf (pass_token buf (snd (peek buf (snd (c, s')) [124, 0])))) (\<lambda>d. POk (Pipe (fst (c, s')) (fst d), snd d))
        else POk (fst (c, s'), snd (peek buf (snd (c, s')) [124, 0])))"
        unfolding fst_conv snd_conv by (rule sequence_ok [OF c]) (use c(1) in simp)
    qed
  next
    case 3
    let ?s = "snd (peek buf s [40, 0])"
    have s: "s \<le> ?s" "?s \<le> length buf" using peek_bounds 3 by simp_all
    have "parsed buf ?s (parseblock fuel buf ?s)" using 3 s by (intro Suc.IH(4)) simp_all
    moreover have "parsed buf ?s (pbind (parseredirs (Suc fuel) buf ?s) (\<lambda>r. parseargs (Suc fuel) buf (snd r) [] (fst r)))"
      using 3 s by (intro parseexec_words) simp_all
    ultimately show ?case using parsed_mono s(1) by simp
  next
    case 4
    show ?case
    proof (cases "fst (peek buf s [40, 0])")
      case True
      let ?t = "pass_token buf (snd (peek buf s [40, 0]))"
      note t = peek_token [OF 4(1) True]
      have "parsed buf ?t (pbind (parseline fuel buf ?t) (\<lambda>c.
          if \<not> fst (peek buf (snd c) [41, 0]) then PErr ''syntax - missing )''
          else redirected (Suc fuel) buf (fst c) (pass_token buf (snd (peek buf (snd c) [41, 0])))))"
      proof (rule parsed_bind)
        show "parsed buf ?t (parseline fuel buf ?t)" using 4 t by (intro Suc.IH(1)) simp_all
        fix c s' assume c: "good buf c" "?t \<le> s'" "s' \<le> length buf"
        let ?u = "pass_token buf (snd (peek buf s' [41, 0]))"
        have "parsed buf ?t (redirected (Suc fuel) buf c ?u)" if "fst (peek buf s' [41, 0])"
        proof -
          note u = peek_token [OF c(3) that]
          have "parsed buf ?u (redirected (Suc fuel) buf c ?u)" using 4 u c t by (intro redirected_ok) simp_all
          then show ?thesis by (rule parsed_mono) (use u c(2) in linarith)
        qed
        then show "parsed buf ?t (if \<not> fst (peek buf (snd (c, s')) [41, 0]) then PErr ''syntax - missing )''
          else redirected (Suc fuel) buf (fst (c, s')) (pass_token buf (snd (peek buf (snd (c, s')) [41, 0]))))"
          by simp
      qed
      then show ?thesis using True t(1) parsed_mono by simp
    qed simp
  }
qed simp_all

section \<open>Strings in the command line\<close>

lemma nulterminate_length [simp]: "length (nulterminate c buf) = length buf"
proof (induction c arbitrary: buf)
  case (Exec argv)
  then show ?case by (induction argv arbitrary: buf) (auto simp: case_prod_beta)
qed auto

lemma nulterminate_nth:
  "i < length buf \<Longrightarrow> nulterminate c buf ! i = (if i \<in> snd ` words c then 0 else buf ! i)"
proof (induction c arbitrary: buf)
  case (Exec argv)
  then show ?case
  proof (induction argv arbitrary: buf)
    case (Cons w argv)
    then show ?case by (cases w) (auto simp: nth_list_update image_iff)
  qed simp
next
  case (Redir c f ef mode fd)
  then show ?case by (cases "i = ef") simp_all
qed (simp_all add: image_Un)

text \<open>A word is what the string at its start is after \<open>nulterminate\<close>.\<close>

lemma str_at_word:
  assumes g: "good buf c" and w: "(q, e) \<in> words c" and z: "0 \<notin> set buf"
  shows "str_at (nulterminate c (buf @ [0])) q = take (e - q) (drop q buf)"
proof -
  let ?nb = "nulterminate c (buf @ [0])"
  have t: "word_tok buf q e" using g w by (auto simp: good_def)
  then have qe: "q < e" "e \<le> length buf" by (simp_all add: word_tok_def)
  have keep: "?nb ! i = buf ! i" if "q \<le> i" "i < e" for i
  proof -
    have "i \<notin> snd ` words c"
    proof
      assume "i \<in> snd ` words c"
      then obtain q' where "word_tok buf q' i" using g by (auto simp: good_def)
      then show False using that t qe by (auto simp: word_tok_def)
    qed
    then show ?thesis using that qe by (simp add: nulterminate_nth nth_append)
  qed
  have "e \<in> snd ` words c" using w by force
  then have end': "?nb ! e = 0" using qe by (simp add: nulterminate_nth)
  have "drop q ?nb = take (e - q) (drop q buf) @ drop e ?nb"
  proof (rule nth_equalityI)
    fix i assume "i < length (drop q ?nb)"
    then show "drop q ?nb ! i = (take (e - q) (drop q buf) @ drop e ?nb) ! i"
      using qe keep [of "q + i"] by (auto simp: nth_append add.commute)
  qed (use qe in simp)
  moreover have "drop e ?nb = 0 # drop (Suc e) ?nb" using end' qe by (simp add: Cons_nth_drop_Suc [symmetric])
  moreover have "\<forall>x\<in>set (take (e - q) (drop q buf)). x \<noteq> 0" using z by (auto dest: in_set_takeD in_set_dropD)
  ultimately show ?thesis unfolding str_at_def by (simp add: takeWhile_append2)
qed

lemma parsecmd_cases:
  "parsecmd str \<noteq> PFuel" "parsecmd str = POk (c, nb) \<Longrightarrow> good (takeWhile (\<lambda>c. c \<noteq> 0) str) c \<and>
    nb = nulterminate c (takeWhile (\<lambda>c. c \<noteq> 0) str @ [0])"
proof -
  let ?buf = "takeWhile (\<lambda>c. c \<noteq> 0) str"
  have p: "parsed ?buf 0 (parseline (parse_fuel ?buf) ?buf 0)" by (rule parser_ok(1)) (simp_all add: parse_fuel_def)
  show "parsecmd str \<noteq> PFuel"
    using p by (cases "parseline (parse_fuel ?buf) ?buf 0") (auto simp: parsecmd_def parsed_def Let_def case_prod_beta)
  show "good ?buf c \<and> nb = nulterminate c (?buf @ [0])" if "parsecmd str = POk (c, nb)"
    using p that by (cases "parseline (parse_fuel ?buf) ?buf 0")
      (auto simp: parsecmd_def parsed_def Let_def case_prod_beta split: if_splits)
qed

text \<open>
  C31: the shell's parser always ends. For every line, well-formed or not, it returns a
  tree or reports a syntax error; the number of calls on the stack stays below
  four per byte of the line and a constant.
\<close>

theorem parsecmd_terminates:
  "(\<exists>c nb. parsecmd str = POk (c, nb)) \<or> (\<exists>msg. parsecmd str = PErr msg) \<or> (\<exists>s. parsecmd str = PLeft s)"
  using parsecmd_cases(1) [of str] by (cases "parsecmd str") auto

text \<open>
  C32: the strings of a parse tree. After a successful parse every argument and every file name is, as a C string
  in the buffer, exactly the word of the line it was read from, although \<open>nulterminate\<close> has
  overwritten bytes of that line: none of these zeros falls into a word, and none beyond the end of
  the string. No argument vector has more entries than \<open>argv\<close> has room for with its
  terminating null pointer.
\<close>

theorem parsecmd_strings:
  assumes "parsecmd str = POk (c, nb)"
  shows "argv_fits c \<and> length nb = Suc (length (takeWhile (\<lambda>c. c \<noteq> 0) str)) \<and>
    (\<forall>(q, e)\<in>words c. q < e \<and> e < length nb \<and> nb ! e = 0 \<and>
      str_at nb q = take (e - q) (drop q str) \<and> (\<forall>b\<in>set (str_at nb q). word_char b))"
proof -
  let ?buf = "takeWhile (\<lambda>c. c \<noteq> 0) str"
  have g: "good ?buf c" and nb: "nb = nulterminate c (?buf @ [0])" using parsecmd_cases(2) [OF assms] by simp_all
  have z: "0 \<notin> set ?buf" by (auto dest: set_takeWhileD)
  have "q < e \<and> e < length nb \<and> nb ! e = 0 \<and> str_at nb q = take (e - q) (drop q str) \<and> (\<forall>b\<in>set (str_at nb q). word_char b)"
    if w: "(q, e) \<in> words c" for q e
  proof -
    have t: "word_tok ?buf q e" using g w by (auto simp: good_def)
    then have qe: "q < e" "e \<le> length ?buf" by (simp_all add: word_tok_def)
    have "e \<in> snd ` words c" using w by force
    then have "nb ! e = 0" using qe nb by (simp add: nulterminate_nth)
    moreover have s: "str_at nb q = take (e - q) (drop q ?buf)" unfolding nb by (rule str_at_word [OF g w z])
    moreover have "take (e - q) (drop q ?buf) = take (e - q) (drop q str)"
    proof -
      have "take (e - q) (drop q (take n str)) = take (e - q) (drop q str)" if "e \<le> n" for n
        using that by (simp add: drop_take min_def)
      then show ?thesis using qe(2) takeWhile_eq_take [of "\<lambda>c. c \<noteq> 0" str] by metis
    qed
    moreover have "word_char b" if "b \<in> set (take (e - q) (drop q ?buf))" for b
      using that t by (auto simp: word_tok_def in_set_conv_nth)
    ultimately show ?thesis using qe nb by auto
  qed
  then show ?thesis using g nb by (auto simp: good_def)
qed

text \<open>The line \<open>a b>c\<close>.\<close>

lemma parse_example:
  "parsecmd [97, 32, 98, 62, 99, 10] = POk (Redir (Exec [(0, 1), (2, 3)]) 4 5 0x201 1, [97, 0, 98, 0, 99, 0, 0])"
  by code_simp

theorem parsecmd_strings_witness:
  "str_at [97, 0, 98, 0, 99, 0, 0] 2 = [98] \<and> word_char 98"
  using parsecmd_strings [OF parse_example] by simp

end
