(* ===== verification/Uprogs.thy ===== *)
theory Uprogs
  imports Uio Sh
begin

text \<open>
  The small user programs: \<open>cat\<close>, \<open>wc\<close>, \<open>ls\<close>, \<open>echo\<close>, \<open>init\<close>, \<open>kill\<close>, \<open>ln\<close>, \<open>mkdir\<close>, \<open>rm\<close>,
  \<open>sleep\<close>, \<open>zombie\<close>, \<open>call\<close>, \<open>pingpong\<close>, and the thread table of \<open>uthread\<close>. An argument vector is a list of strings without their zeros; the fuel bounds
  the number of rounds of a loop that reads until the end of a file.
\<close>

definition complain :: "uenv \<Rightarrow> int \<Rightarrow> string \<Rightarrow> varg list \<Rightarrow> int \<Rightarrow> history \<Rightarrow> 'a ures" where
  "complain env fd msg args code h = ubind (fprintf env fd (ascii msg @ [10]) args h) (\<lambda>_ h. UExit code h)"

section \<open>\<open>cat.c\<close> and \<open>wc.c\<close>\<close>

fun cat :: "uenv \<Rightarrow> nat \<Rightarrow> int \<Rightarrow> history \<Rightarrow> unit ures" where
  "cat env 0 fd h = USpin h"
| "cat env (Suc fuel) fd h =
    ubind (ucall env (CRead fd 512) h) (\<lambda>r h.
      if fst r > 0 then
        ubind (usys env (CWrite 1 (snd r)) h) (\<lambda>w h.
          if w \<noteq> fst r then complain env 1 ''cat: write error'' [] 1 h
          else cat env fuel fd h)
      else if fst r < 0 then complain env 1 ''cat: read error'' [] 1 h
      else URet () h)"

fun cat_files :: "uenv \<Rightarrow> nat \<Rightarrow> u8 list list \<Rightarrow> history \<Rightarrow> unit ures" where
  "cat_files env fuel [] h = UExit 0 h"
| "cat_files env fuel (f # fs) h =
    ubind (usys env (COpen f 0) h) (\<lambda>fd h.
      if fd < 0 then complain env 1 ''cat: cannot open %s'' [ArgStr (Some f)] 1 h
      else ubind (cat env fuel fd h) (\<lambda>_ h. ubind (usys env (CClose fd) h) (\<lambda>_ h. cat_files env fuel fs h)))"

definition cat_main :: "uenv \<Rightarrow> nat \<Rightarrow> u8 list list \<Rightarrow> history \<Rightarrow> unit ures" where
  "cat_main env fuel argv h =
    (if length argv \<le> 1 then ubind (cat env fuel 0 h) (\<lambda>_ h. UExit 1 h)
     else cat_files env fuel (tl argv) h)"

text \<open>Lines, words and characters so far, and whether the last character was part of a word.\<close>

record counts =
  cl :: int
  cw :: int
  cc :: int
  inword :: bool

definition wc_char :: "u8 \<Rightarrow> counts \<Rightarrow> counts" where
  "wc_char b k =
    (let k = k\<lparr>cc := cc k + 1\<rparr>;
         k = (if b = 10 then k\<lparr>cl := cl k + 1\<rparr> else k)
     in if is_in [32, 13, 9, 10, 11, 0] b then k\<lparr>inword := False\<rparr>
        else if \<not> inword k then k\<lparr>cw := cw k + 1, inword := True\<rparr>
        else k)"

fun wc_loop :: "uenv \<Rightarrow> nat \<Rightarrow> int \<Rightarrow> counts \<Rightarrow> history \<Rightarrow> counts ures" where
  "wc_loop env 0 fd k h = USpin h"
| "wc_loop env (Suc fuel) fd k h =
    ubind (ucall env (CRead fd 512) h) (\<lambda>r h.
      if fst r > 0 then wc_loop env fuel fd (fold wc_char (snd r) k) h
      else if fst r < 0 then complain env 1 ''wc: read error'' [] 1 h
      else URet k h)"

definition wc :: "uenv \<Rightarrow> nat \<Rightarrow> int \<Rightarrow> u8 list \<Rightarrow> history \<Rightarrow> unit ures" where
  "wc env fuel fd name' h =
    ubind (wc_loop env fuel fd \<lparr>cl = 0, cw = 0, cc = 0, inword = False\<rparr> h) (\<lambda>k h.
    uprintf env (ascii ''%d %d %d %s'' @ [10])
      [ArgInt (of_int (cl k)), ArgInt (of_int (cw k)), ArgInt (of_int (cc k)), ArgStr (Some name')] h)"

fun wc_files :: "uenv \<Rightarrow> nat \<Rightarrow> u8 list list \<Rightarrow> history \<Rightarrow> unit ures" where
  "wc_files env fuel [] h = UExit 0 h"
| "wc_files env fuel (f # fs) h =
    ubind (usys env (COpen f 0) h) (\<lambda>fd h.
      if fd < 0 then complain env 1 ''wc: cannot open %s'' [ArgStr (Some f)] 1 h
      else ubind (wc env fuel fd f h) (\<lambda>_ h. ubind (usys env (CClose fd) h) (\<lambda>_ h. wc_files env fuel fs h)))"

definition wc_main :: "uenv \<Rightarrow> nat \<Rightarrow> u8 list list \<Rightarrow> history \<Rightarrow> unit ures" where
  "wc_main env fuel argv h =
    (if length argv \<le> 1 then ubind (wc env fuel 0 [] h) (\<lambda>_ h. UExit 0 h)
     else wc_files env fuel (tl argv) h)"

section \<open>\<open>ls.c\<close>\<close>

text \<open>The part of a path after the last slash, padded with blanks to 14 characters.\<close>

definition fmtname :: "u8 list \<Rightarrow> u8 list" where
  "fmtname path =
    (let p = rev (takeWhile (\<lambda>c. c \<noteq> 47) (rev path))
     in if 14 \<le> length p then p else p @ replicate (14 - length p) 32)"

definition st_ino :: "u8 list \<Rightarrow> u32" where "st_ino st = get32 st 4"
definition st_type :: "u8 list \<Rightarrow> u32" where "st_type st = scast (get16 st 8)"
definition st_size :: "u8 list \<Rightarrow> u64" where "st_size st = get64 st 16"

fun ls_entries :: "uenv \<Rightarrow> nat \<Rightarrow> int \<Rightarrow> u8 list \<Rightarrow> history \<Rightarrow> unit ures" where
  "ls_entries env 0 fd path h = USpin h"
| "ls_entries env (Suc fuel) fd path h =
    ubind (ucall env (CRead fd 16) h) (\<lambda>r h.
      if fst r = 16 then
        if get16 (snd r) 0 = 0 then ls_entries env fuel fd path h
        else
          let buf = path @ [47] @ takeWhile (\<lambda>c. c \<noteq> 0) (take 14 (drop 2 (snd r))) in
          ubind (ustat env buf h) (\<lambda>st h.
          ubind (if fst st < 0 then uprintf env (ascii ''ls: cannot stat %s'' @ [10]) [ArgStr (Some buf)] h
                 else uprintf env (ascii ''%s %d %d %d'' @ [10])
                   [ArgStr (Some (fmtname buf)), ArgInt (st_type (snd st)), ArgInt (st_ino (snd st)), ArgInt (ucast (st_size (snd st)))] h) (\<lambda>_ h.
          ls_entries env fuel fd path h))
      else URet () h)"

definition ls :: "uenv \<Rightarrow> nat \<Rightarrow> u8 list \<Rightarrow> history \<Rightarrow> unit ures" where
  "ls env fuel path h =
    ubind (usys env (COpen path 0) h) (\<lambda>fd h.
      if fd < 0 then fprintf env 2 (ascii ''ls: cannot open %s'' @ [10]) [ArgStr (Some path)] h
      else
        ubind (ucall env (CFstat fd) h) (\<lambda>r h.
          if fst r < 0 then
            ubind (fprintf env 2 (ascii ''ls: cannot stat %s'' @ [10]) [ArgStr (Some path)] h) (\<lambda>_ h.
            ubind (usys env (CClose fd) h) (\<lambda>_ h. URet () h))
          else
            let st = snd r in
            ubind (if st_type st = 2 then
                     uprintf env (ascii ''%s %d %d %l'' @ [10])
                       [ArgStr (Some (fmtname path)), ArgInt (st_type st), ArgInt (st_ino st), ArgPtr (st_size st)] h
                   else if st_type st = 1 then
                     if 512 < length path + 1 + 14 + 1 then uprintf env (ascii ''ls: path too long'' @ [10]) [] h
                     else ls_entries env fuel fd path h
                   else URet () h) (\<lambda>_ h.
            ubind (usys env (CClose fd) h) (\<lambda>_ h. URet () h))))"

fun ls_files :: "uenv \<Rightarrow> nat \<Rightarrow> u8 list list \<Rightarrow> history \<Rightarrow> unit ures" where
  "ls_files env fuel [] h = UExit 0 h"
| "ls_files env fuel (f # fs) h = ubind (ls env fuel f h) (\<lambda>_ h. ls_files env fuel fs h)"

definition ls_main :: "uenv \<Rightarrow> nat \<Rightarrow> u8 list list \<Rightarrow> history \<Rightarrow> unit ures" where
  "ls_main env fuel argv h =
    (if length argv < 2 then ubind (ls env fuel [46] h) (\<lambda>_ h. UExit 0 h)
     else ls_files env fuel (tl argv) h)"

section \<open>\<open>echo.c\<close>, \<open>kill.c\<close>, \<open>ln.c\<close>, \<open>mkdir.c\<close>, \<open>rm.c\<close>, \<open>sleep.c\<close>, \<open>zombie.c\<close>, \<open>call.c\<close>\<close>

fun echo_args :: "uenv \<Rightarrow> u8 list list \<Rightarrow> history \<Rightarrow> unit ures" where
  "echo_args env [] h = UExit 0 h"
| "echo_args env (a # as) h =
    ubind (usys env (CWrite 1 a) h) (\<lambda>_ h.
    ubind (usys env (CWrite 1 (if as \<noteq> [] then [32] else [10])) h) (\<lambda>_ h. echo_args env as h))"

definition echo_main :: "uenv \<Rightarrow> u8 list list \<Rightarrow> history \<Rightarrow> unit ures" where
  "echo_main env argv h = echo_args env (tl argv) h"

fun kill_args :: "uenv \<Rightarrow> u8 list list \<Rightarrow> history \<Rightarrow> unit ures" where
  "kill_args env [] h = UExit 0 h"
| "kill_args env (a # as) h =
    ubind (unul (atoi (a @ [0])) h) (\<lambda>n h. ubind (usys env (CKill n) h) (\<lambda>_ h. kill_args env as h))"

definition kill_main :: "uenv \<Rightarrow> u8 list list \<Rightarrow> history \<Rightarrow> unit ures" where
  "kill_main env argv h =
    (if length argv < 2 then complain env 2 ''usage: kill pid...'' [] 1 h else kill_args env (tl argv) h)"

definition ln_main :: "uenv \<Rightarrow> u8 list list \<Rightarrow> history \<Rightarrow> unit ures" where
  "ln_main env argv h =
    (if length argv \<noteq> 3 then complain env 2 ''Usage: ln old new'' [] 1 h
     else
       ubind (usys env (CLink (argv ! 1) (argv ! 2)) h) (\<lambda>r h.
       ubind (if r < 0 then fprintf env 2 (ascii ''link %s %s: failed'' @ [10]) [ArgStr (Some (argv ! 1)), ArgStr (Some (argv ! 2))] h
              else URet () h) (\<lambda>_ h. UExit 0 h)))"

fun mkdir_args :: "uenv \<Rightarrow> u8 list list \<Rightarrow> history \<Rightarrow> unit ures" where
  "mkdir_args env [] h = UExit 0 h"
| "mkdir_args env (a # as) h =
    ubind (usys env (CMkdir a) h) (\<lambda>r h.
      if r < 0 then complain env 2 ''mkdir: %s failed to create'' [ArgStr (Some a)] 0 h else mkdir_args env as h)"

definition mkdir_main :: "uenv \<Rightarrow> u8 list list \<Rightarrow> history \<Rightarrow> unit ures" where
  "mkdir_main env argv h =
    (if length argv < 2 then complain env 2 ''Usage: mkdir files...'' [] 1 h else mkdir_args env (tl argv) h)"

fun rm_args :: "uenv \<Rightarrow> u8 list list \<Rightarrow> history \<Rightarrow> unit ures" where
  "rm_args env [] h = UExit 0 h"
| "rm_args env (a # as) h =
    ubind (usys env (CUnlink a) h) (\<lambda>r h.
      if r < 0 then complain env 2 ''rm: %s failed to delete'' [ArgStr (Some a)] 0 h else rm_args env as h)"

definition rm_main :: "uenv \<Rightarrow> u8 list list \<Rightarrow> history \<Rightarrow> unit ures" where
  "rm_main env argv h =
    (if length argv < 2 then complain env 2 ''Usage: rm files...'' [] 1 h else rm_args env (tl argv) h)"

definition sleep_main :: "uenv \<Rightarrow> u8 list list \<Rightarrow> history \<Rightarrow> unit ures" where
  "sleep_main env argv h =
    (if length argv < 2 then complain env 2 ''Usage: sleep <time> '' [] 1 h
     else
       ubind (unul (atoi (argv ! 1 @ [0])) h) (\<lambda>n h.
       ubind (fprintf env 1 (ascii ''User sleep for %d '' @ [10]) [ArgInt (of_int n)] h) (\<lambda>_ h.
       ubind (usys env (CSleep n) h) (\<lambda>_ h. UExit 0 h))))"

definition zombie_main :: "uenv \<Rightarrow> history \<Rightarrow> unit ures" where
  "zombie_main env h =
    ubind (usys env CFork h) (\<lambda>pid h.
    ubind (if pid > 0 then usys env (CSleep 5) h else URet 0 h) (\<lambda>_ h. UExit 0 h))"

definition call_g :: "u32 \<Rightarrow> u32" where "call_g x = x + 3"
definition call_f :: "u32 \<Rightarrow> u32" where "call_f x = call_g x"

definition call_main :: "uenv \<Rightarrow> history \<Rightarrow> unit ures" where
  "call_main env h =
    ubind (uprintf env (ascii ''%d %d'' @ [10]) [ArgInt (call_f 8 + 1), ArgInt 13] h) (\<lambda>_ h. UExit 0 h)"

section \<open>\<open>init.c\<close>\<close>

text \<open>\<open>wait\<close> until it gives \<open>pid\<close> or fails.\<close>

fun init_wait :: "uenv \<Rightarrow> nat \<Rightarrow> int \<Rightarrow> history \<Rightarrow> unit ures" where
  "init_wait env 0 pid' h = USpin h"
| "init_wait env (Suc fuel) pid' h =
    ubind (usys env CWait h) (\<lambda>w h. if w \<ge> 0 \<and> w \<noteq> pid' then init_wait env fuel pid' h else URet () h)"

fun init_loop :: "uenv \<Rightarrow> nat \<Rightarrow> history \<Rightarrow> unit ures" where
  "init_loop env 0 h = USpin h"
| "init_loop env (Suc fuel) h =
    ubind (uprintf env (ascii ''init: starting sh'' @ [10]) [] h) (\<lambda>_ h.
    ubind (usys env CFork h) (\<lambda>pid' h.
      if pid' < 0 then complain env 1 ''init: fork failed'' [] 1 h
      else if pid' = 0 then
        ubind (uexec env (ascii ''sh'') [ascii ''sh''] h) (\<lambda>_ h. complain env 1 ''init: exec sh failed'' [] 1 h)
      else ubind (init_wait env fuel pid' h) (\<lambda>_ h. init_loop env fuel h)))"

definition init_main :: "uenv \<Rightarrow> nat \<Rightarrow> history \<Rightarrow> unit ures" where
  "init_main env fuel h =
    ubind (usys env (COpen (ascii ''console'') 2) h) (\<lambda>fd h.
    ubind (if fd < 0 then
             ubind (usys env (CMknod (ascii ''console'') 1 1) h) (\<lambda>_ h. usys env (COpen (ascii ''console'') 2) h)
           else URet fd h) (\<lambda>_ h.
    ubind (usys env (CDup 0) h) (\<lambda>_ h. ubind (usys env (CDup 0) h) (\<lambda>_ h. init_loop env fuel h))))"

section \<open>\<open>pingpong.c\<close>\<close>

text \<open>\<open>rd\<close> and \<open>wr\<close> are the ends of the pipe to the child, \<open>crd\<close> and \<open>cwr\<close> those of the pipe back.\<close>

definition pingpong_child :: "uenv \<Rightarrow> int \<Rightarrow> int \<Rightarrow> int \<Rightarrow> int \<Rightarrow> history \<Rightarrow> unit ures" where
  "pingpong_child env rd wr crd cwr h =
    ubind (usys env CGetpid h) (\<lambda>me h.
    ubind (usys env (CClose wr) h) (\<lambda>_ h.
    ubind (usys env (CClose crd) h) (\<lambda>_ h.
    ubind (usys env (CRead rd 1) h) (\<lambda>n h.
    ubind (usys env (CClose rd) h) (\<lambda>_ h.
      if n < 0 then complain env 2 ''Read error in child.'' [] 1 h
      else if n = 0 then complain env 2 '' parent_fd[0] closed nothing read'' [] 1 h
      else
        ubind (fprintf env 1 (ascii ''%d: received ping'' @ [10]) [ArgInt (of_int me)] h) (\<lambda>_ h.
        ubind (usys env (CWrite cwr [112]) h) (\<lambda>w h.
          if w \<noteq> n then complain env 2 '' write error sending pong to parent.'' [] 1 h
          else ubind (usys env (CClose cwr) h) (\<lambda>_ h. UExit 0 h))))))))"

definition pingpong_parent :: "uenv \<Rightarrow> int \<Rightarrow> int \<Rightarrow> int \<Rightarrow> int \<Rightarrow> history \<Rightarrow> unit ures" where
  "pingpong_parent env rd wr crd cwr h =
    ubind (usys env CGetpid h) (\<lambda>me h.
    ubind (usys env (CClose rd) h) (\<lambda>_ h.
    ubind (usys env (CClose cwr) h) (\<lambda>_ h.
    ubind (usys env (CWrite wr [112]) h) (\<lambda>w h.
      if w \<noteq> 1 then complain env 2 '' write error sending ping to child.'' [] 1 h
      else
        ubind (usys env (CClose wr) h) (\<lambda>_ h.
        ubind (usys env CWait h) (\<lambda>_ h.
        ubind (usys env (CRead crd 1) h) (\<lambda>n h.
          if n < 0 then complain env 2 ''Read error in parent.'' [] 1 h
          else if n = 0 then complain env 2 '' child_fd[0] closed nothing read'' [] 1 h
          else
            ubind (fprintf env 1 (ascii ''%d: received pong'' @ [10]) [ArgInt (of_int me)] h) (\<lambda>_ h.
            ubind (usys env (CClose crd) h) (\<lambda>_ h. UExit 0 h)))))))))"

definition pingpong_main :: "uenv \<Rightarrow> u8 list list \<Rightarrow> history \<Rightarrow> unit ures" where
  "pingpong_main env argv h =
    (if 1 < length argv then complain env 2 ''Usage: pingpong (no args) '' [] 1 h
     else
       ubind (ucall env CPipe h) (\<lambda>p h.
       if fst p < 0 then complain env 2 ''error creating pipe for parent fds '' [] 1 h
       else
         ubind (ucall env CPipe h) (\<lambda>c h.
         if fst c < 0 then complain env 2 ''error creating pipe for child fds '' [] 1 h
         else
           ubind (usys env CFork h) (\<lambda>pid' h.
           if pid' < 0 then complain env 2 ''Error creating child process '' [] 1 h
           else
             let rd = pipe_fd (snd p) 0; wr = pipe_fd (snd p) 1; crd = pipe_fd (snd c) 0; cwr = pipe_fd (snd c) 1 in
             if pid' = 0 then pingpong_child env rd wr crd cwr h else pingpong_parent env rd wr crd cwr h))))"

section \<open>\<open>uthread.c\<close>\<close>

text \<open>
  The thread table; the switch of stacks is left open in this tree (\<open>thread_switch\<close> is an empty
  routine and is not called), so the scheduler only changes the states.
\<close>

datatype tstate = TFree | TRunning | TRunnable

record uthreads =
  tstates :: "tstate list"
  current_thread :: nat

definition MAX_THREAD :: nat where "MAX_THREAD = 4"

definition thread_init :: "uthreads \<Rightarrow> uthreads" where
  "thread_init u = (let u = u\<lparr>current_thread := 0\<rparr> in u\<lparr>tstates := (tstates u)[current_thread u := TRunning]\<rparr>)"

text \<open>The search for the next runnable thread, round the table from \<open>t\<close>, for \<open>n\<close> steps.\<close>

fun next_runnable :: "tstate list \<Rightarrow> nat \<Rightarrow> nat \<Rightarrow> nat option" where
  "next_runnable ts t 0 = None"
| "next_runnable ts t (Suc n) =
    (let t = (if MAX_THREAD \<le> t then 0 else t) in
     if ts ! t = TRunnable then Some t else next_runnable ts (t + 1) n)"

definition thread_schedule :: "uenv \<Rightarrow> uthreads \<Rightarrow> history \<Rightarrow> uthreads ures" where
  "thread_schedule env u h =
    (case next_runnable (tstates u) (current_thread u + 1) MAX_THREAD of
       None \<Rightarrow> complain env 1 ''thread_schedule: no runnable threads'' [] (-1) h
     | Some n \<Rightarrow>
         if current_thread u \<noteq> n then URet (u\<lparr>tstates := (tstates u)[n := TRunning], current_thread := n\<rparr>) h
         else URet u h)"

text \<open>The slot found; the loop runs off the table when none is free, and the store is then beyond it.\<close>

definition thread_create :: "uthreads \<Rightarrow> history \<Rightarrow> uthreads ures" where
  "thread_create u h =
    (let t = length (takeWhile (\<lambda>s. s \<noteq> TFree) (tstates u)) in
     if t < MAX_THREAD then URet (u\<lparr>tstates := (tstates u)[t := TRunnable]\<rparr>) h else UFault h)"

definition thread_yield :: "uenv \<Rightarrow> uthreads \<Rightarrow> history \<Rightarrow> uthreads ures" where
  "thread_yield env u h =
    thread_schedule env (u\<lparr>tstates := (tstates u)[current_thread u := TRunnable]\<rparr>) h"

definition uthread_main :: "uenv \<Rightarrow> history \<Rightarrow> unit ures" where
  "uthread_main env h =
    (let u = thread_init \<lparr>tstates = replicate MAX_THREAD TFree, current_thread = 0\<rparr> in
     ubind (thread_create u h) (\<lambda>u h. ubind (thread_create u h) (\<lambda>u h. ubind (thread_create u h) (\<lambda>u h.
     ubind (thread_schedule env u h) (\<lambda>_ h. UExit 0 h)))))"

end
