(* ===== verification/Umalloc.thy ===== *)
theory Umalloc
  imports Ulib
begin

text \<open>
  \<open>user/umalloc.c\<close>: the allocator of user programs, a circular list of free blocks
  ordered by address. The memory is seen through the headers: \<open>hptr\<close> and \<open>hsize\<close> are the two
  fields of the header at an address, \<open>base\<close> is the address of the static header. A
  header takes 16 bytes, and the size of a block is counted in headers.
\<close>

section \<open>The allocator\<close>

record umem =
  hptr :: "u64 \<Rightarrow> u64"
  hsize :: "u64 \<Rightarrow> u32"
  freep :: u64

definition set_hptr :: "u64 \<Rightarrow> u64 \<Rightarrow> umem \<Rightarrow> umem" where
  "set_hptr a v m = m\<lparr>hptr := (hptr m)(a := v)\<rparr>"

definition set_hsize :: "u64 \<Rightarrow> u32 \<Rightarrow> umem \<Rightarrow> umem" where
  "set_hsize a v m = m\<lparr>hsize := (hsize m)(a := v)\<rparr>"

text \<open>The end of the block with header \<open>a\<close>: \<open>a + a->s.size\<close>.\<close>

definition blk_end :: "umem \<Rightarrow> u64 \<Rightarrow> u64" where
  "blk_end m a = a + 16 * ucast (hsize m a)"

text \<open>The block of the list after which the block \<open>bp\<close> belongs.\<close>

fun free_search :: "nat \<Rightarrow> umem \<Rightarrow> u64 \<Rightarrow> u64 \<Rightarrow> u64 option" where
  "free_search 0 m bp p = None"
| "free_search (Suc fuel) m bp p =
    (if p < bp \<and> bp < hptr m p then Some p
     else if hptr m p \<le> p \<and> (p < bp \<or> bp < hptr m p) then Some p
     else free_search fuel m bp (hptr m p))"

definition free_join :: "u64 \<Rightarrow> u64 \<Rightarrow> umem \<Rightarrow> umem" where
  "free_join bp p m =
    (let nx = hptr m p;
         m = (if blk_end m bp = nx
              then set_hptr bp (hptr m nx) (set_hsize bp (hsize m bp + hsize m nx) m)
              else set_hptr bp nx m);
         m = (if blk_end m p = bp
              then set_hptr p (hptr m bp) (set_hsize p (hsize m p + hsize m bp) m)
              else set_hptr p bp m)
     in m\<lparr>freep := p\<rparr>)"

definition ufree :: "nat \<Rightarrow> u64 \<Rightarrow> umem \<Rightarrow> umem option" where
  "ufree fuel ap m =
    (let bp = ap - 16 in
     case free_search fuel m bp (freep m) of None \<Rightarrow> None | Some p \<Rightarrow> Some (free_join bp p m))"

text \<open>\<open>None\<close> is the null pointer.\<close>

definition morecore :: "uenv \<Rightarrow> nat \<Rightarrow> u32 \<Rightarrow> umem \<Rightarrow> history \<Rightarrow> (u64 option \<times> umem) ures" where
  "morecore env fuel nu m h =
    (let nu = (if nu < 4096 then 4096 else nu) in
     ubind (usys env (CSbrk (sint (nu * 16))) h) (\<lambda>p h.
       if p = -1 then URet (None, m) h
       else
         let hp = of_int p; m = set_hsize hp nu m in
         case ufree fuel (hp + 16) m of
           None \<Rightarrow> USpin h
         | Some m \<Rightarrow> URet (Some (freep m), m) h))"

text \<open>The block \<open>p\<close>, whose predecessor is \<open>prevp\<close>, is big enough.\<close>

definition malloc_take :: "u32 \<Rightarrow> u64 \<Rightarrow> u64 \<Rightarrow> umem \<Rightarrow> u64 \<times> umem" where
  "malloc_take nunits prevp p m =
    (if hsize m p = nunits then (p + 16, (set_hptr prevp (hptr m p) m)\<lparr>freep := prevp\<rparr>)
     else
       let m = set_hsize p (hsize m p - nunits) m;
           q = blk_end m p;
           m = set_hsize q nunits m
       in (q + 16, m\<lparr>freep := prevp\<rparr>))"

fun malloc_loop :: "uenv \<Rightarrow> nat \<Rightarrow> u32 \<Rightarrow> u64 \<Rightarrow> u64 \<Rightarrow> umem \<Rightarrow> history \<Rightarrow> (u64 \<times> umem) ures" where
  "malloc_loop env 0 nunits prevp p m h = USpin h"
| "malloc_loop env (Suc fuel) nunits prevp p m h =
    (if nunits \<le> hsize m p then URet (malloc_take nunits prevp p m) h
     else if p = freep m then
       ubind (morecore env fuel nunits m h) (\<lambda>r h.
         case fst r of
           None \<Rightarrow> URet (0, snd r) h
         | Some q \<Rightarrow> malloc_loop env fuel nunits q (hptr (snd r) q) (snd r) h)
     else malloc_loop env fuel nunits p (hptr m p) m h)"

definition nunits_of :: "u32 \<Rightarrow> u32" where
  "nunits_of nbytes = ucast ((ucast nbytes + 16 - 1 :: u64) div 16) + 1"

text \<open>The first call makes the circle of \<open>base\<close> alone.\<close>

definition malloc_init :: "u64 \<Rightarrow> umem \<Rightarrow> umem" where
  "malloc_init base m = (if freep m = 0 then set_hsize base 0 (set_hptr base base (m\<lparr>freep := base\<rparr>)) else m)"

definition malloc :: "uenv \<Rightarrow> nat \<Rightarrow> u64 \<Rightarrow> u32 \<Rightarrow> umem \<Rightarrow> history \<Rightarrow> (u64 \<times> umem) ures" where
  "malloc env fuel base nbytes m h =
    (let nunits = nunits_of nbytes;
         m = malloc_init base m;
         prevp = freep m
     in malloc_loop env fuel nunits prevp (hptr m prevp) m h)"

section \<open>The free list\<close>

text \<open>
  The free blocks in the order of their addresses, after the header \<open>base\<close> of size 0; each
  header points to the next one, the last one to \<open>e\<close>.
\<close>

definition first_of :: "(u64 \<times> u32) list \<Rightarrow> u64 \<Rightarrow> u64" where
  "first_of bs e = (case bs of [] \<Rightarrow> e | b # _ \<Rightarrow> fst b)"

lemma first_of_simps [simp]:
  "first_of [] e = e" "first_of (b # bs) e = fst b" "first_of (bs @ b # cs) e = first_of bs (fst b)"
  by (simp_all add: first_of_def split: list.split)

fun chain :: "umem \<Rightarrow> (u64 \<times> u32) list \<Rightarrow> u64 \<Rightarrow> bool" where
  "chain m [] e = True"
| "chain m (b # bs) e = (hsize m (fst b) = snd b \<and> hptr m (fst b) = first_of bs e \<and> chain m bs e)"

text \<open>The blocks lie one after the other, from \<open>lo\<close> on and below the limit of a process's memory.\<close>

fun apart :: "nat \<Rightarrow> (u64 \<times> u32) list \<Rightarrow> bool" where
  "apart lo [] = (lo < 2 ^ 36)"
| "apart lo (b # bs) = (lo \<le> unat (fst b) \<and> snd b \<noteq> 0 \<and> apart (unat (fst b) + 16 * unat (snd b)) bs)"

text \<open>The bytes of a block, and of all free blocks.\<close>

definition extent :: "u64 \<times> u32 \<Rightarrow> nat set" where
  "extent b = {unat (fst b) ..< unat (fst b) + 16 * unat (snd b)}"

definition free_bytes :: "(u64 \<times> u32) list \<Rightarrow> nat set" where
  "free_bytes bs = \<Union> (extent ` set bs)"

lemma free_bytes_simps [simp]:
  "free_bytes [] = {}" "free_bytes (b # bs) = extent b \<union> free_bytes bs" "free_bytes (xs @ ys) = free_bytes xs \<union> free_bytes ys"
  by (auto simp: free_bytes_def)

definition heap_inv :: "u64 \<Rightarrow> umem \<Rightarrow> (u64 \<times> u32) list \<Rightarrow> bool" where
  "heap_inv base m bs \<longleftrightarrow> chain m ((base, 0) # bs) base \<and> apart (unat base + 16) bs \<and>
    freep m \<in> insert base (fst ` set bs) \<and> 0 < base"

lemma chain_append: "chain m (xs @ ys) e \<longleftrightarrow> chain m xs (first_of ys e) \<and> chain m ys e"
  by (induction xs) (auto simp: first_of_def split: list.splits)

lemma chain_upd [simp]:
  "a \<notin> fst ` set bs \<Longrightarrow> chain (set_hptr a v m) bs e = chain m bs e"
  "a \<notin> fst ` set bs \<Longrightarrow> chain (set_hsize a w m) bs e = chain m bs e"
  "chain (m\<lparr>freep := f\<rparr>) bs e = chain m bs e"
  by (induction bs) (auto simp: set_hptr_def set_hsize_def)

lemma upd_simps [simp]:
  "hptr (set_hptr a v m) x = (if x = a then v else hptr m x)" "hsize (set_hptr a v m) = hsize m"
  "hptr (set_hsize a w m) = hptr m" "hsize (set_hsize a w m) x = (if x = a then w else hsize m x)"
  "freep (set_hptr a v m) = freep m" "freep (set_hsize a w m) = freep m"
  by (simp_all add: set_hptr_def set_hsize_def)

lemma apart_append:
  "apart lo (xs @ ys) \<Longrightarrow> apart lo xs"
  "apart lo (xs @ b # ys) \<Longrightarrow> lo \<le> unat (fst b) \<and> apart (unat (fst b)) (b # ys)"
  "apart lo bs \<Longrightarrow> lo < 2 ^ 36"
proof (induction xs arbitrary: lo)
  case Nil
  have le: "apart l zs \<Longrightarrow> l < 2 ^ 36" for l zs by (induction zs arbitrary: l) force+
  {
    case 1
    then show ?case using le by simp
  next
    case 2
    then show ?case by simp
  next
    case 3
    then show ?case by (rule le)
  }
next
  case (Cons x xs)
  {
    case 1
    then show ?case using Cons(1) by simp
  next
    case 2
    then show ?case using Cons(2) [of "unat (fst x) + 16 * unat (snd x)"] by simp
  next
    case 3
    then show ?case by (rule Cons(3))
  }
qed

lemma apart_mono: "apart lo bs \<Longrightarrow> lo' \<le> lo \<Longrightarrow> apart lo' bs"
  by (cases bs) auto

lemma apart_member:
  "apart lo bs \<Longrightarrow> b \<in> set bs \<Longrightarrow> lo \<le> unat (fst b) \<and> snd b \<noteq> 0 \<and> unat (fst b) + 16 * unat (snd b) < 2 ^ 36"
proof (induction bs arbitrary: lo)
  case (Cons x bs)
  then show ?case using apart_append(3) [of "unat (fst x) + 16 * unat (snd x)" bs]
    by (auto dest: Cons.IH)
qed simp

lemma unat_nonzero: "(n :: u32) \<noteq> 0 \<longleftrightarrow> 0 < unat n"
  by (simp add: unat_gt_0)

lemma apart_above:
  assumes "apart lo bs" and "b \<in> set bs"
  shows "lo \<le> unat (fst b)"
  using apart_member [OF assms] by simp

lemma apart_distinct: "apart lo bs \<Longrightarrow> distinct (map fst bs)"
proof (induction bs arbitrary: lo)
  case (Cons x bs)
  have "unat (fst x) < unat (fst y)" if "y \<in> set bs" for y
    using Cons.prems apart_above [of _ bs y] that by (fastforce simp: unat_nonzero)
  then show ?case using Cons by fastforce
qed simp

section \<open>Freeing a block\<close>

lemma extents_apart:
  assumes "extent (a, k) \<inter> extent (b, n) = {}" and "k \<noteq> 0" and "n \<noteq> 0"
  shows "unat a + 16 * unat k \<le> unat b \<or> unat b + 16 * unat n \<le> unat a"
proof (rule ccontr)
  assume "\<not> ?thesis"
  then have "max (unat a) (unat b) \<in> extent (a, k) \<inter> extent (b, n)"
    using assms(2,3) by (auto simp: extent_def unat_nonzero max_def)
  then show False using assms(1) by blast
qed

text \<open>Where a block belongs that overlaps no free one.\<close>

lemma apart_insert:
  assumes "apart lo bs" and "lo \<le> unat b" and "unat b + 16 * unat n < 2 ^ 36" and "n \<noteq> 0"
    and "\<forall>x\<in>set bs. extent x \<inter> extent (b, n) = {}"
  shows "\<exists>ls rs. bs = ls @ rs \<and> apart lo (ls @ (b, n) # rs)"
  using assms
proof (induction bs arbitrary: lo)
  case Nil
  then show ?case by (intro exI [of _ "[]"]) simp
next
  case (Cons x bs)
  have "unat (fst x) + 16 * unat (snd x) \<le> unat b \<or> unat b + 16 * unat n \<le> unat (fst x)"
    using Cons.prems by (intro extents_apart) simp_all
  then show ?case
  proof
    assume le: "unat (fst x) + 16 * unat (snd x) \<le> unat b"
    then obtain ls rs where "bs = ls @ rs" "apart (unat (fst x) + 16 * unat (snd x)) (ls @ (b, n) # rs)"
      using Cons.IH [of "unat (fst x) + 16 * unat (snd x)"] Cons.prems by auto
    then show ?thesis using Cons.prems(1) by (intro exI [of _ "x # ls"] exI [of _ rs]) simp
  next
    assume "unat b + 16 * unat n \<le> unat (fst x)"
    then show ?thesis using Cons.prems by (intro exI [of _ "[]"] exI [of _ "x # bs"]) simp
  qed
qed

text \<open>The search, from a block below \<open>b\<close> and from one above.\<close>

lemma search_below:
  assumes "chain m (vs @ rs) base" and "vs \<noteq> []" and "length vs \<le> fuel" and "sorted_wrt (<) (map fst vs)"
    and "\<forall>x\<in>set vs. fst x < b \<and> base \<le> fst x" and "\<forall>x\<in>set rs. b < fst x"
  shows "free_search fuel m b (fst (hd vs)) = Some (fst (last vs))"
  using assms
proof (induction vs arbitrary: fuel)
  case (Cons x vs)
  obtain f where f: "fuel = Suc f" using Cons.prems(3) by (cases fuel) auto
  show ?case
  proof (cases vs)
    case Nil
    then show ?thesis
      using Cons.prems f by (cases rs) auto
  next
    case (Cons y ys)
    then have "free_search f m b (fst (hd vs)) = Some (fst (last vs))"
      using Cons.prems f by (intro Cons.IH) auto
    moreover have "hptr m (fst x) = fst y" "\<not> fst y \<le> fst x" "\<not> b < fst y"
      using Cons.prems Cons by (simp_all add: not_le not_less less_imp_le)
    then have "free_search fuel m b (fst x) = free_search f m b (fst y)" unfolding f by simp
    ultimately show ?thesis using Cons by simp
  qed
qed simp

lemma search_above:
  assumes "chain m rs base" and "rs \<noteq> []" and "sorted_wrt (<) (map fst rs)"
    and "\<forall>x\<in>set rs. b < fst x" and "base < b"
  shows "free_search (length rs + fuel) m b (fst (hd rs)) = free_search fuel m b base"
  using assms
proof (induction rs)
  case (Cons x rs)
  have x: "\<not> fst x < b" "\<not> b < base" using Cons.prems by (simp_all add: not_less less_imp_le)
  show ?case
  proof (cases rs)
    case Nil
    then show ?thesis using Cons.prems x by auto
  next
    case (Cons y ys)
    then have "free_search (length rs + fuel) m b (fst (hd rs)) = free_search fuel m b base"
      using Cons.prems by (intro Cons.IH) auto
    moreover have "hptr m (fst x) = fst y" "\<not> fst y \<le> fst x" using Cons.prems Cons by (simp_all add: not_le)
    then have "free_search (Suc (length rs + fuel)) m b (fst x) = free_search (length rs + fuel) m b (fst y)" using x by simp
    ultimately show ?thesis using Cons by simp
  qed
qed simp

lemma apart_sorted: "apart lo bs \<Longrightarrow> sorted_wrt (<) (map fst bs)"
proof (induction bs arbitrary: lo)
  case (Cons x bs)
  have "fst x < fst y" if "y \<in> set bs" for y
    using Cons.prems apart_above [of _ bs y] that by (fastforce simp: unat_nonzero word_less_nat_alt)
  then show ?case using Cons by auto
qed simp

lemma apart_split:
  assumes "apart lo (ls @ (b, n) # rs)"
  shows "apart lo ls" and "apart (unat b + 16 * unat n) rs" and "x \<in> set ls \<Longrightarrow> unat (fst x) + 16 * unat (snd x) \<le> unat b"
    and "lo \<le> unat b" and "n \<noteq> 0"
proof -
  show "apart lo ls" by (rule apart_append(1) [OF assms])
  show "apart (unat b + 16 * unat n) rs" "lo \<le> unat b" "n \<noteq> 0" using apart_append(2) [OF assms] by simp_all
  show "unat (fst x) + 16 * unat (snd x) \<le> unat b" if x: "x \<in> set ls"
  proof -
    obtain us vs where "ls = us @ x # vs" using x by (meson split_list)
    then have "apart lo (us @ x # (vs @ (b, n) # rs))" using assms by simp
    then have "apart (unat (fst x) + 16 * unat (snd x)) (vs @ (b, n) # rs)" using apart_append(2) by fastforce
    then show ?thesis using apart_append(2) by fastforce
  qed
qed

text \<open>The search ends at the block before the place of \<open>b\<close>, wherever it starts.\<close>

lemma search_finds:
  assumes inv: "heap_inv base m (ls @ rs)" and ap: "apart (unat base + 16) (ls @ (b, n) # rs)"
  shows "free_search (Suc (length (ls @ rs))) m b (freep m) = Some (fst (last ((base, 0) # ls)))"
proof -
  let ?vs = "(base, 0) # ls"
  note sp = apart_split [OF ap]
  have c: "chain m (?vs @ rs) base" using inv by (simp add: heap_inv_def)
  have base: "base < b" using sp(4) by (simp add: word_less_nat_alt)
  have lo: "fst x < b \<and> base < fst x" if "x \<in> set ls" for x
    using apart_member [OF sp(1) that] sp(3) [OF that] by (auto simp: word_less_nat_alt unat_nonzero)
  have hi: "b < fst x" if "x \<in> set rs" for x
    using apart_member [OF sp(2) that] sp(5) by (auto simp: word_less_nat_alt unat_nonzero)
  have srt: "sorted_wrt (<) (map fst ?vs)" "sorted_wrt (<) (map fst rs)"
    using apart_sorted [OF sp(1)] apart_sorted [OF sp(2)] lo by auto
  have below: "free_search f m b (fst (hd vs)) = Some (fst (last ?vs))"
    if v: "?vs = us @ vs" "vs \<noteq> []" "length vs \<le> f" for us vs f
  proof -
    have "free_search f m b (fst (hd vs)) = Some (fst (last vs))"
    proof (rule search_below [OF _ v(2,3)])
      show "chain m (vs @ rs) base" using c v(1) by (simp add: chain_append)
      show "sorted_wrt (<) (map fst vs)" using srt(1) unfolding v(1) by (simp add: sorted_wrt_append)
      have "set vs \<subseteq> set ?vs" unfolding v(1) by simp
      then show "\<forall>x\<in>set vs. fst x < b \<and> base \<le> fst x" using lo base by fastforce
      show "\<forall>x\<in>set rs. b < fst x" using hi by blast
    qed
    then show ?thesis using v by simp
  qed
  have "freep m \<in> fst ` (set ?vs \<union> set rs)" using inv by (auto simp: heap_inv_def)
  then obtain x where x: "freep m = fst x" "x \<in> set ?vs \<or> x \<in> set rs" by blast
  from x(2) show ?thesis
  proof
    assume "x \<in> set ?vs"
    then obtain us vs where v: "?vs = us @ x # vs" by (meson split_list)
    then have "length (x # vs) \<le> length ?vs" by (metis length_append le_add2)
    then show ?thesis using below [OF v, of "Suc (length (ls @ rs))"] x(1) by (simp del: free_search.simps last.simps)
  next
    assume "x \<in> set rs"
    then obtain us vs where v: "rs = us @ x # vs" by (meson split_list)
    have "free_search (length (x # vs) + (length us + length ?vs)) m b (fst (hd (x # vs))) = free_search (length us + length ?vs) m b base"
    proof (rule search_above)
      show "chain m (x # vs) base" using c unfolding v by (simp add: chain_append)
      show "sorted_wrt (<) (map fst (x # vs))" using srt(2) unfolding v by (simp add: sorted_wrt_append)
    qed (use hi v base in auto)
    moreover have "free_search (length us + length ?vs) m b base = Some (fst (last ?vs))"
      using below [of "[]" ?vs "length us + length ?vs"] by simp
    ultimately show ?thesis using x(1) v by (simp add: add.commute add.left_commute del: free_search.simps)
  qed
qed

text \<open>The list after \<open>free_join\<close>: first with what follows, then with what precedes.\<close>

fun join_up :: "u64 \<Rightarrow> u32 \<Rightarrow> (u64 \<times> u32) list \<Rightarrow> (u64 \<times> u32) list" where
  "join_up b n [] = [(b, n)]"
| "join_up b n ((c, j) # rs) = (if b + 16 * ucast n = c then (b, n + j) # rs else (b, n) # (c, j) # rs)"

fun join_down :: "(u64 \<times> u32) list \<Rightarrow> (u64 \<times> u32) list \<Rightarrow> (u64 \<times> u32) list" where
  "join_down ls [] = ls"
| "join_down ls ((b, n) # rs) =
    (if fst (last ls) + 16 * ucast (snd (last ls)) = b then butlast ls @ (fst (last ls), snd (last ls) + n) # rs
     else ls @ (b, n) # rs)"

lemma unat_blk_end: "unat a + 16 * unat n < 2 ^ 36 \<Longrightarrow> unat (a + 16 * ucast (n :: u32) :: u64) = unat a + 16 * unat n"
  by (simp add: unat_word_ariths)

lemma apart_sum:
  assumes "unat a + 16 * unat n + 16 * unat k < 2 ^ 36"
  shows "unat (n + k) = unat n + unat (k :: u32)"
  using assms by (simp add: unat_word_ariths)

lemma extent_join:
  assumes "unat a + 16 * unat n = unat b" and "unat b + 16 * unat k < 2 ^ 36"
  shows "extent (a, n + k) = extent (a, n) \<union> extent (b, k)"
  using assms apart_sum [of a n k] by (auto simp: extent_def)

lemma join_up_ok:
  assumes "apart lo ((b, n) # rs)"
  shows "apart lo (join_up b n rs)" and "free_bytes (join_up b n rs) = extent (b, n) \<union> free_bytes rs"
    and "unat n \<le> unat (snd (hd (join_up b n rs)))"
proof (atomize (full), cases rs)
  case (Cons x rs')
  obtain c j where x: "x = (c, j)" by (cases x)
  have ap: "lo \<le> unat b" "n \<noteq> 0" "unat b + 16 * unat n \<le> unat c" "j \<noteq> 0" "apart (unat c + 16 * unat j) rs'"
    using assms Cons x by simp_all
  have lim: "unat c + 16 * unat j < 2 ^ 36" by (rule apart_append(3) [OF ap(5)])
  show "apart lo (join_up b n rs) \<and> free_bytes (join_up b n rs) = extent (b, n) \<union> free_bytes rs \<and>
      unat n \<le> unat (snd (hd (join_up b n rs)))"
  proof (cases "b + 16 * ucast n = c")
    case True
    then have e: "unat b + 16 * unat n = unat c" using unat_blk_end [of b n] ap(3) lim by simp
    have s: "unat (n + j) = unat n + unat j" using apart_sum [of b n j] e lim by simp
    have "n + j \<noteq> 0" using s ap(2) by (simp add: unat_nonzero)
    moreover have "unat b + 16 * unat (n + j) = unat c + 16 * unat j" using e s by simp
    moreover have "rs = (c, j) # rs'" "join_up b n rs = (b, n + j) # rs'" using Cons x True by simp_all
    moreover have "unat n \<le> unat (n + j)" using s by simp
    ultimately show ?thesis using ap(1,5) extent_join [OF e lim] by auto
  next
    case False
    then show ?thesis using Cons x assms by simp
  qed
qed (use assms in simp)

lemma apart_merge:
  assumes "apart lo (us @ (p, k) # (b, n) # rs)" and "p + 16 * ucast k = b"
  shows "apart lo (us @ (p, k + n) # rs)" and "extent (p, k + n) = extent (p, k) \<union> extent (b, n)"
    and "unat n \<le> unat (k + n)"
proof -
  note ap = apart_append(2) [OF assms(1), THEN conjunct2]
  have pk: "k \<noteq> 0" "unat p + 16 * unat k \<le> unat b" "n \<noteq> 0" "apart (unat b + 16 * unat n) rs" using ap by simp_all
  have lim: "unat b + 16 * unat n < 2 ^ 36" by (rule apart_append(3) [OF pk(4)])
  then have e: "unat p + 16 * unat k = unat b" using unat_blk_end [of p k] assms(2) pk(2) by simp
  have s: "unat (k + n) = unat k + unat n" using apart_sum [of p k n] e lim by simp
  then have nz: "k + n \<noteq> 0" and e': "unat p + 16 * unat (k + n) = unat b + 16 * unat n" using pk(1) e by (simp_all add: unat_nonzero)
  show "apart lo (us @ (p, k + n) # rs)"
    using assms(1)
  proof (induction us arbitrary: lo)
    case Nil
    then show ?case using nz e' pk(4) by simp
  next
    case (Cons x us)
    then show ?case by simp
  qed
  show "extent (p, k + n) = extent (p, k) \<union> extent (b, n)" by (rule extent_join [OF e lim])
  show "unat n \<le> unat (k + n)" using s by simp
qed

lemma join_down_ok:
  assumes "apart (unat base + 16) (ls @ (b, n) # rs)"
  shows "\<exists>bs'. join_down ((base, 0) # ls) ((b, n) # rs) = (base, 0) # bs' \<and> apart (unat base + 16) bs' \<and>
    free_bytes bs' = free_bytes ls \<union> extent (b, n) \<union> free_bytes rs \<and> fst (last ((base, 0) # ls)) \<in> insert base (fst ` set bs') \<and>
    (\<exists>x\<in>set bs'. unat n \<le> unat (snd x))"
proof (cases ls rule: rev_cases)
  case Nil
  have "base \<noteq> b" using apart_split(4) [OF assms] by auto
  then show ?thesis using Nil assms by (intro exI [of _ "(b, n) # rs"]) simp
next
  case (snoc us x)
  obtain p k where x: "x = (p, k)" by (cases x)
  have ap: "apart (unat base + 16) (us @ (p, k) # (b, n) # rs)" using assms snoc x by simp
  show ?thesis
  proof (cases "p + 16 * ucast k = b")
    case True
    then show ?thesis
      using snoc x apart_merge [OF ap True] by (intro exI [of _ "us @ (p, k + n) # rs"]) (auto simp: butlast_append)
  next
    case False
    then show ?thesis using snoc x ap by (intro exI [of _ "us @ (p, k) # (b, n) # rs"]) auto
  qed
qed

lemma free_join_chain:
  assumes c: "chain m (us @ (p, k) # rs) base" and d: "distinct (map fst (us @ (p, k) # rs))"
    and b: "b \<notin> fst ` set (us @ (p, k) # rs)" and n: "hsize m b = n" and wrap: "b + 16 * ucast n \<noteq> base"
  shows "chain (free_join b p m) (join_down (us @ [(p, k)]) (join_up b n rs)) base"
    and "a \<noteq> b \<Longrightarrow> a \<noteq> p \<Longrightarrow> hsize (free_join b p m) a = hsize m a" and "freep (free_join b p m) = p"
proof -
  let ?nx = "hptr m p"
  define m1 where "m1 = (if blk_end m b = ?nx then set_hptr b (hptr m ?nx) (set_hsize b (hsize m b + hsize m ?nx) m) else set_hptr b ?nx m)"
  define m2 where "m2 = (if blk_end m1 p = b then set_hptr p (hptr m1 b) (set_hsize p (hsize m1 p + hsize m1 b) m1) else set_hptr p b m1)"
  have fj: "free_join b p m = m2\<lparr>freep := p\<rparr>" by (simp add: free_join_def Let_def m1_def m2_def)
  have cs: "chain m us p" "hsize m p = k" "?nx = first_of rs base" "chain m rs base" using c by (simp_all add: chain_append)
  have bu: "b \<notin> fst ` set us" "b \<noteq> p" "b \<notin> fst ` set rs" using b by auto
  have pu: "p \<notin> fst ` set us" "p \<notin> fst ` set rs" using d by auto
  obtain n' rs' where up: "join_up b n rs = (b, n') # rs'" "fst ` set rs' \<subseteq> fst ` set rs" "chain m1 ((b, n') # rs') base"
  proof (cases rs)
    case Nil
    have "blk_end m b \<noteq> ?nx" using wrap n cs(3) Nil by (simp add: blk_end_def)
    then show thesis using that [of n "[]"] Nil cs(3) n by (simp add: m1_def)
  next
    case (Cons x xs)
    obtain e j where x: "x = (e, j)" by (cases x)
    have bx: "b \<notin> fst ` set xs" "b \<noteq> e" using bu(3) Cons x by auto
    show thesis
    proof (cases "b + 16 * ucast n = e")
      case True
      then show thesis
        using that [of "n + j" xs] Cons x cs(3,4) n bx by (auto simp: m1_def blk_end_def)
    next
      case False
      then show thesis
        using that [of n rs] Cons x cs(3,4) n bx by (auto simp: m1_def blk_end_def)
    qed
  qed
  have p': "p \<notin> fst ` set rs'" "p \<noteq> b" using pu(2) up(2) bu(2) by auto
  have m1: "hsize m1 p = k" "hsize m1 b = n'" "hptr m1 b = first_of rs' base" "chain m1 rs' base" "chain m1 us p"
    using up(3) cs(1,2) bu(1,2) by (auto simp: m1_def)
  show "chain (free_join b p m) (join_down (us @ [(p, k)]) (join_up b n rs)) base"
  proof (cases "p + 16 * ucast k = b")
    case True
    then show ?thesis
      using m1 p' pu(1) up(1) unfolding fj by (simp add: m2_def blk_end_def chain_append)
  next
    case False
    then show ?thesis
      using m1 p' pu(1) up(1) unfolding fj by (simp add: m2_def blk_end_def chain_append)
  qed
  show "a \<noteq> b \<Longrightarrow> a \<noteq> p \<Longrightarrow> hsize (free_join b p m) a = hsize m a" "freep (free_join b p m) = p"
    by (simp_all add: fj m2_def m1_def)
qed

lemma apart_replace: "apart lo (ls @ X) \<Longrightarrow> (\<And>l. apart l X \<Longrightarrow> apart l Y) \<Longrightarrow> apart lo (ls @ Y)"
  by (induction ls arbitrary: lo) auto

lemma search_mono: "free_search f m b p = Some q \<Longrightarrow> f \<le> f' \<Longrightarrow> free_search f' m b p = Some q"
proof (induction f arbitrary: f' p)
  case (Suc f)
  then show ?case by (cases f') (auto split: if_splits)
qed simp

lemma join_length: "length (join_up b n rs) \<le> Suc (length rs)" "ls \<noteq> [] \<Longrightarrow> length (join_down ls R) \<le> length ls + length R"
  by (cases rs; auto split: if_splits) (cases R; auto split: if_splits)

lemma join_up_cases: "\<exists>n' rs'. join_up b n rs = (b, n') # rs'"
  by (cases rs) (auto split: if_splits)

text \<open>
  Joining leaves no free block that ends where the block freed begins, or begins where it ends.
\<close>

definition no_touch :: "u64 \<Rightarrow> u32 \<Rightarrow> (u64 \<times> u32) list \<Rightarrow> bool" where
  "no_touch b n bs \<longleftrightarrow> (\<forall>x\<in>set bs. unat (fst x) + 16 * unat (snd x) \<noteq> unat b \<and> unat (fst x) \<noteq> unat b + 16 * unat n)"

lemma blk_end_eq_iff:
  fixes a c :: u64 and n :: u32
  assumes "unat a + 16 * unat n < 2 ^ 36"
  shows "a + 16 * ucast n = c \<longleftrightarrow> unat a + 16 * unat n = unat c"
  unfolding word_unat_eq_iff unat_blk_end [OF assms] ..

lemma join_up_above:
  assumes "apart lo ((b, n) # rs)" and "join_up b n rs = (b, n') # rs'" and "x \<in> set rs'"
  shows "unat b + 16 * unat n < unat (fst x)"
proof (cases rs)
  case (Cons y ys)
  obtain c j where y: "y = (c, j)" by (cases y)
  have ap: "unat b + 16 * unat n \<le> unat c" "j \<noteq> 0" "apart (unat c + 16 * unat j) ys" using assms(1) Cons y by simp_all
  have lim: "unat c + 16 * unat j < 2 ^ 36" by (rule apart_append(3) [OF ap(3)])
  have up: "unat c + 16 * unat j \<le> unat (fst x)" if "x \<in> set ys" for x using apart_above [OF ap(3) that] by simp
  show ?thesis
  proof (cases "b + 16 * ucast n = c")
    case True
    then have "x \<in> set ys" using assms(2,3) Cons y by auto
    from up [OF this] show ?thesis using ap(1,2) by (simp add: unat_nonzero)
  next
    case False
    then have "unat b + 16 * unat n < unat c" using ap(1) lim blk_end_eq_iff [of b n c] by simp
    moreover have "x = (c, j) \<or> x \<in> set ys" using False assms(2,3) Cons y by auto
    ultimately show ?thesis using up [of x] by auto
  qed
qed (use assms in simp)

lemma join_down_below:
  assumes "apart (unat base + 16) (ls @ (b, n') # rs')" and "join_down ((base, 0) # ls) ((b, n') # rs') = (base, 0) # bs'"
    and n: "n \<noteq> 0" "unat n \<le> unat n'" and rs: "\<forall>x\<in>set rs'. unat b + 16 * unat n < unat (fst x)"
  shows "no_touch b n bs'"
proof -
  have rs': "\<forall>x\<in>set rs'. unat (fst x) + 16 * unat (snd x) \<noteq> unat b \<and> unat (fst x) \<noteq> unat b + 16 * unat n" using rs by fastforce
  have pos: "0 < unat n" using n(1) by (simp add: unat_nonzero)
  show ?thesis
  proof (cases ls rule: rev_cases)
    case Nil
    have "base \<noteq> b" using apart_split(4) [OF assms(1)] by auto
    then have "bs' = (b, n') # rs'" using assms(2) Nil by simp
    then show ?thesis using rs' pos n(2) by (simp add: no_touch_def)
  next
    case (snoc us y)
    obtain p k where y: "y = (p, k)" by (cases y)
    have ap: "apart (unat base + 16) (us @ (p, k) # (b, n') # rs')" using assms(1) snoc y by simp
    have pk: "k \<noteq> 0" "unat p + 16 * unat k \<le> unat b" "unat b + 16 * unat n' < 2 ^ 36"
      using apart_append(2) [OF ap] apart_append(3) by auto
    have us: "unat (fst x) + 16 * unat (snd x) < unat b" if "x \<in> set us" for x
      using apart_split(3) [OF ap that] pk(1,2) by (simp add: unat_nonzero)
    have us': "\<forall>x\<in>set us. unat (fst x) + 16 * unat (snd x) \<noteq> unat b \<and> unat (fst x) \<noteq> unat b + 16 * unat n" using us by fastforce
    show ?thesis
    proof (cases "p + 16 * ucast k = b")
      case True
      then have "bs' = us @ (p, k + n') # rs'" using assms(2) snoc y by (simp add: butlast_append)
      moreover have "unat p + 16 * unat k = unat b" using unat_blk_end [of p k] True pk by simp
      moreover have "unat (k + n') = unat k + unat n'" using apart_sum [of p k n'] calculation(2) pk(3) by simp
      ultimately show ?thesis using us' rs' pos n(2) by (simp add: no_touch_def ball_Un)
    next
      case False
      then have "bs' = us @ (p, k) # (b, n') # rs'" using assms(2) snoc y by simp
      moreover have "unat p + 16 * unat k \<noteq> unat b" using False blk_end_eq_iff [of p k b] pk by simp
      ultimately show ?thesis using us' rs' pos n(2) pk(2) by (simp add: no_touch_def ball_Un)
    qed
  qed
qed

text \<open>A block that may be freed: above \<open>base\<close>, inside the memory, and overlapping no free block.\<close>

definition freeable_block :: "u64 \<Rightarrow> umem \<Rightarrow> (u64 \<times> u32) list \<Rightarrow> u64 \<Rightarrow> bool" where
  "freeable_block base m bs b \<longleftrightarrow> unat base + 16 \<le> unat b \<and> unat b + 16 * unat (hsize m b) < 2 ^ 36 \<and> hsize m b \<noteq> 0 \<and>
    extent (b, hsize m b) \<inter> free_bytes bs = {}"

lemma ufree_run:
  assumes inv: "heap_inv base m bs" and fb: "freeable_block base m bs b" and fuel: "Suc (length bs) \<le> fuel"
  shows "\<exists>m' bs'. ufree fuel (b + 16) m = Some m' \<and> heap_inv base m' bs' \<and>
    free_bytes bs' = free_bytes bs \<union> extent (b, hsize m b) \<and> length bs' \<le> Suc (length bs) \<and>
    (\<exists>x\<in>set bs'. unat (hsize m b) \<le> unat (snd x)) \<and> no_touch b (hsize m b) bs' \<and>
    (\<forall>a. a \<noteq> b \<longrightarrow> a \<notin> insert base (fst ` set bs) \<longrightarrow> hsize m' a = hsize m a)"
proof -
  let ?n = "hsize m b"
  have b: "unat base + 16 \<le> unat b" "unat b + 16 * unat ?n < 2 ^ 36" "?n \<noteq> 0" "\<forall>x\<in>set bs. extent x \<inter> extent (b, ?n) = {}"
    using fb by (auto simp: freeable_block_def free_bytes_def)
  have i: "chain m ((base, 0) # bs) base" "apart (unat base + 16) bs" "0 < base" using inv by (simp_all add: heap_inv_def)
  obtain ls rs where bs: "bs = ls @ rs" "apart (unat base + 16) (ls @ (b, ?n) # rs)"
    using apart_insert [OF i(2) b] by blast
  let ?p = "fst (last ((base, 0) # ls))" and ?k = "snd (last ((base, 0) # ls))" and ?us = "butlast ((base, 0) # ls)"
  let ?m = "free_join b ?p m"
  have L: "(base, 0) # ls = ?us @ [(?p, ?k)]" unfolding prod.collapse by (rule append_butlast_last_id [symmetric]) simp
  have run: "ufree fuel (b + 16) m = Some ?m"
    using search_mono [OF search_finds [OF inv [unfolded bs(1)] bs(2)]] fuel bs(1) by (simp add: ufree_def Let_def)
  have all: "?us @ (?p, ?k) # rs = (base, 0) # bs" using L bs(1) by (metis append_Cons append_Nil append_assoc)
  have addr: "base < fst x" "b \<noteq> fst x" if "x \<in> set bs" for x
    using apart_member [OF i(2) that] b(1) extents_apart [of "fst x" "snd x" b ?n] b(3,4) that
    by (auto simp: word_less_nat_alt unat_nonzero)
  have d: "distinct (map fst (?us @ (?p, ?k) # rs))" unfolding all using apart_distinct [OF i(2)] addr(1) by fastforce
  have nb: "b \<notin> fst ` set (?us @ (?p, ?k) # rs)" unfolding all using addr(2) b(1) by auto
  have wrap: "b + 16 * ucast ?n \<noteq> base" using unat_blk_end [OF b(2)] b(1) by auto
  note fj = free_join_chain [OF i(1) [folded all] d nb refl wrap]
  obtain n' rs' where up: "join_up b ?n rs = (b, n') # rs'" using join_up_cases by blast
  have ap: "apart (unat base + 16) (ls @ (b, n') # rs')"
    unfolding up [symmetric] by (rule apart_replace [OF bs(2)]) (rule join_up_ok(1))
  obtain bs' where bs': "join_down ((base, 0) # ls) ((b, n') # rs') = (base, 0) # bs'" "apart (unat base + 16) bs'"
      "free_bytes bs' = free_bytes ls \<union> extent (b, n') \<union> free_bytes rs'" "?p \<in> insert base (fst ` set bs')"
      "\<exists>x\<in>set bs'. unat n' \<le> unat (snd x)"
    using join_down_ok [OF ap] by blast
  have jd: "join_down (?us @ [(?p, ?k)]) (join_up b ?n rs) = (base, 0) # bs'" using bs'(1) by (simp only: L [symmetric] up)
  have "free_bytes (join_up b ?n rs) = extent (b, ?n) \<union> free_bytes rs" and big: "unat ?n \<le> unat n'"
    using join_up_ok(2,3) [of "unat b" b ?n rs] apart_append(2) [OF bs(2)] up by simp_all
  then have "free_bytes bs' = free_bytes bs \<union> extent (b, ?n)" using bs'(3) up bs(1) by auto
  moreover have "\<exists>x\<in>set bs'. unat ?n \<le> unat (snd x)" using bs'(5) big order_trans by blast
  moreover have "no_touch b ?n bs'"
    using join_up_above [of "unat b" b ?n rs, OF _ up] apart_append(2) [OF bs(2)] by (intro join_down_below [OF ap bs'(1) b(3) big]) simp
  moreover have "heap_inv base ?m bs'" using fj(1,3) jd bs'(2,4) i(3) by (simp add: heap_inv_def)
  moreover have "length bs' \<le> Suc (length bs)"
    using join_length(1) [of b ?n rs] join_length(2) [of "(base, 0) # ls" "(b, n') # rs'"] bs(1) up bs'(1) by simp
  moreover have "hsize ?m a = hsize m a" if "a \<noteq> b" "a \<notin> insert base (fst ` set bs)" for a
  proof (rule fj(2) [OF that(1)])
    have "?p \<in> insert base (fst ` set bs)" using bs(1) by (cases ls rule: rev_cases) auto
    then show "a \<noteq> ?p" using that(2) by blast
  qed
  ultimately show ?thesis using run by blast
qed

text \<open>
  C30: \<open>free\<close> takes a block back. If the block overlaps none of the free blocks, then \<open>free\<close> ends,
  whichever block \<open>freep\<close> points to; afterwards the list is again a circle of blocks ordered by
  address, its blocks cover exactly what was free before and the block freed, and the block has
  been joined with its free neighbours: no block of the list ends where it begins or begins where
  it ends. No header of a block still in use has changed.
\<close>

theorem free_returns_block:
  assumes "heap_inv base m bs" and "freeable_block base m bs b"
  shows "\<exists>m' bs'. ufree (Suc (length bs)) (b + 16) m = Some m' \<and> heap_inv base m' bs' \<and>
    free_bytes bs' = free_bytes bs \<union> extent (b, hsize m b) \<and>
    (\<forall>x\<in>set bs'. unat (fst x) + 16 * unat (snd x) \<noteq> unat b \<and> unat (fst x) \<noteq> unat b + 16 * unat (hsize m b)) \<and>
    (\<forall>a. a \<noteq> b \<longrightarrow> a \<notin> insert base (fst ` set bs) \<longrightarrow> hsize m' a = hsize m a)"
  using ufree_run [OF assms order_refl] unfolding no_touch_def by blast

text \<open>A block between two free ones, both of which it touches.\<close>

definition example_heap :: umem where
  "example_heap = \<lparr>hptr = (\<lambda>a. if a = 0x1000 then 0x2000 else if a = 0x2000 then 0x2040 else 0x1000),
    hsize = (\<lambda>a. if a = 0x2000 then 2 else if a = 0x2020 then 2 else if a = 0x2040 then 3 else 0), freep = 0x2040\<rparr>"

theorem free_returns_block_witness:
  "\<exists>m' bs'. ufree 3 0x2030 example_heap = Some m' \<and> heap_inv 0x1000 m' bs' \<and> free_bytes bs' = {0x2000 ..< 0x2070}"
proof -
  have inv: "heap_inv 0x1000 example_heap [(0x2000, 2), (0x2040, 3)]" by (simp add: heap_inv_def example_heap_def)
  have fb: "freeable_block 0x1000 example_heap [(0x2000, 2), (0x2040, 3)] 0x2020"
    by (auto simp: freeable_block_def example_heap_def extent_def)
  have "free_bytes [(0x2000, 2), (0x2040, 3)] \<union> extent (0x2020, hsize example_heap 0x2020) = {0x2000 ..< 0x2070}"
    by (auto simp: extent_def example_heap_def)
  then show ?thesis using free_returns_block [OF inv fb] by (simp add: numeral_3_eq_3) blast
qed

section \<open>Allocating a block\<close>

lemma nunits_of_fits: "nunits_of nbytes \<noteq> 0" "unat nbytes + 16 \<le> 16 * unat (nunits_of nbytes)"
proof -
  have n: "unat nbytes < 2 ^ 32" using unsigned_less [of nbytes] by simp
  have "unat ((ucast nbytes + 16 - 1 :: u64) div 16) = (unat nbytes + 15) div 16"
    using n by (simp add: unat_div unat_word_ariths)
  then have "unat (ucast ((ucast nbytes + 16 - 1 :: u64) div 16) :: u32) = (unat nbytes + 15) div 16"
    using n by (simp add: unsigned_ucast_eq take_bit_eq_mod)
  moreover have "(unat nbytes + 15) div 16 < 2 ^ 32 - 1" using n by simp
  ultimately have "unat (nunits_of nbytes) = (unat nbytes + 15) div 16 + 1"
    by (simp add: nunits_of_def unat_word_ariths)
  then show "nunits_of nbytes \<noteq> 0" "unat nbytes + 16 \<le> 16 * unat (nunits_of nbytes)"
    by (auto simp: unat_nonzero)
qed

lemma apart_disjoint:
  assumes "apart lo (xs @ (a, k) # ys)"
  shows "extent (a, k) \<inter> free_bytes (xs @ ys) = {}"
proof -
  note sp = apart_split [OF assms]
  have "extent (a, k) \<inter> extent x = {}" if "x \<in> set xs" for x using sp(3) [OF that] by (auto simp: extent_def)
  moreover have "extent (a, k) \<inter> extent x = {}" if "x \<in> set ys" for x using apart_above [OF sp(2) that] by (auto simp: extent_def)
  ultimately have "\<forall>x\<in>set (xs @ ys). extent (a, k) \<inter> extent x = {}" unfolding set_append by blast
  then show ?thesis unfolding free_bytes_def by blast
qed

lemma heap_split:
  assumes inv: "heap_inv base m (xs @ (a, k) # ys)"
  shows "base < a" and "unat a + 16 * unat k < 2 ^ 36" and "distinct (base # map fst (xs @ (a, k) # ys))"
    and "hsize m a = k" and "hptr m a = first_of ys base" and "0 < base" and "k \<noteq> 0"
proof -
  have ap: "apart (unat base + 16) (xs @ (a, k) # ys)" and c: "chain m (((base, 0) # xs) @ (a, k) # ys) base" and "0 < base"
    using inv by (simp_all add: heap_inv_def)
  then show "0 < base" by simp
  show "unat a + 16 * unat k < 2 ^ 36" "base < a" "k \<noteq> 0"
    using apart_member [OF ap, of "(a, k)"] by (simp_all add: word_less_nat_alt)
  have "base \<notin> fst ` set (xs @ (a, k) # ys)" using apart_above [OF ap] by fastforce
  then show "distinct (base # map fst (xs @ (a, k) # ys))" using apart_distinct [OF ap] by (simp add: image_Un)
  show "hsize m a = k" "hptr m a = first_of ys base" using c by (simp_all add: chain_append)
qed

text \<open>Taking a block off the list, or the upper part of it.\<close>

definition taken :: "u64 \<Rightarrow> umem \<Rightarrow> nat set \<Rightarrow> u64 set \<Rightarrow> u32 \<Rightarrow> u64 \<Rightarrow> umem \<Rightarrow> bool" where
  "taken base m F H n r m' \<longleftrightarrow> (\<exists>bs'. heap_inv base m' bs' \<and> r \<noteq> 0 \<and> hsize m' (r - 16) = n \<and>
    extent (r - 16, n) \<inter> free_bytes bs' = {} \<and> extent (r - 16, n) \<union> free_bytes bs' = F \<and>
    (\<forall>c. c \<noteq> r - 16 \<longrightarrow> c \<notin> H \<longrightarrow> hsize m' c = hsize m c))"

lemma take_whole:
  assumes inv: "heap_inv base m (xs @ (a, k) # ys)" and prev: "prevp = fst (last ((base, 0) # xs))"
  shows "taken base m (free_bytes (xs @ (a, k) # ys)) (insert base (fst ` set (xs @ (a, k) # ys))) k (a + 16)
    ((set_hptr prevp (hptr m a) m)\<lparr>freep := prevp\<rparr>)"
proof -
  let ?m = "(set_hptr prevp (hptr m a) m)\<lparr>freep := prevp\<rparr>"
  note h = heap_split [OF inv]
  have ap: "apart (unat base + 16) (xs @ (a, k) # ys)" and c: "chain m ((base, 0) # xs @ (a, k) # ys) base"
    using inv by (simp_all add: heap_inv_def)
  obtain us kp where L: "(base, 0) # xs = us @ [(prevp, kp)]"
    using prev by (metis append_butlast_last_id list.distinct(1) prod.collapse)
  then have L': "(base, 0) # xs @ zs = us @ (prevp, kp) # zs" for zs by (metis append_Cons append_Nil append_assoc)
  have "distinct (map fst (us @ (prevp, kp) # (a, k) # ys))" using h(3) unfolding L' [symmetric] by simp
  then have "chain ?m (us @ (prevp, kp) # ys) base" using c h(5) unfolding L' by (auto simp: chain_append)
  then have "chain ?m ((base, 0) # xs @ ys) base" unfolding L' .
  moreover have "apart (unat base + 16) (xs @ ys)"
    by (rule apart_replace [OF ap]) (auto intro: apart_mono)
  moreover have "prevp \<in> insert base (fst ` set (xs @ ys))" using prev by (cases xs rule: rev_cases) auto
  ultimately have "heap_inv base ?m (xs @ ys)" using h(6) by (simp add: heap_inv_def)
  moreover have "a + 16 \<noteq> 0"
  proof -
    have "unat (a + 16) = unat a + 16" using h(2) by (simp add: unat_word_ariths)
    then show ?thesis by auto
  qed
  ultimately show ?thesis
    using apart_disjoint [OF ap] h(4) unfolding taken_def by (intro exI [of _ "xs @ ys"]) auto
qed

lemma take_part:
  assumes inv: "heap_inv base m (xs @ (a, k) # ys)" and prev: "prevp \<in> insert base (fst ` set (xs @ (a, k) # ys))"
    and n: "n \<noteq> 0" "n < k"
  defines "q \<equiv> a + 16 * ucast (k - n)"
  shows "taken base m (free_bytes (xs @ (a, k) # ys)) (insert base (fst ` set (xs @ (a, k) # ys))) n (q + 16)
    ((set_hsize q n (set_hsize a (k - n) m))\<lparr>freep := prevp\<rparr>)"
proof -
  let ?m = "(set_hsize q n (set_hsize a (k - n) m))\<lparr>freep := prevp\<rparr>" and ?bs = "xs @ (a, k - n) # ys"
  note h = heap_split [OF inv]
  have ap: "apart (unat base + 16) (xs @ (a, k) # ys)" and c: "chain m (((base, 0) # xs) @ (a, k) # ys) base"
    using inv by (simp_all add: heap_inv_def)
  have kn: "unat (k - n) = unat k - unat n" "unat n < unat k" using n(2) unat_sub [OF less_imp_le [OF n(2)]] by (simp_all add: word_less_nat_alt)
  have q: "unat q = unat a + 16 * (unat k - unat n)" unfolding q_def using h(2) kn by (subst unat_blk_end) simp_all
  then have qa: "unat a < unat q" "unat q + 16 * unat n = unat a + 16 * unat k" using kn(2) by simp_all
  have q_free: "q \<notin> fst ` set xs" "q \<notin> fst ` set ys" "q \<noteq> base" "q \<noteq> a"
  proof -
    have "unat (fst x) < unat q" if "x \<in> set xs" for x using apart_split(3) [OF ap that] qa by simp
    then show "q \<notin> fst ` set xs" by fastforce
    have "unat q < unat (fst x)" if "x \<in> set ys" for x
      using apart_above [OF apart_split(2) [OF ap] that] qa n(1) by (simp add: unat_nonzero)
    then show "q \<notin> fst ` set ys" by fastforce
    show "q \<noteq> base" "q \<noteq> a" using h(1) qa(1) by (auto simp: word_less_nat_alt)
  qed
  have "chain ?m (((base, 0) # xs) @ (a, k - n) # ys) base"
    using c q_free h(3) by (auto simp: chain_append image_Un)
  moreover have "apart (unat base + 16) ?bs"
  proof (rule apart_replace [OF ap])
    fix l assume "apart l ((a, k) # ys)"
    moreover have "k - n \<noteq> 0" "unat a + 16 * unat (k - n) \<le> unat a + 16 * unat k" using kn by (auto simp: unat_nonzero)
    ultimately show "apart l ((a, k - n) # ys)" by (auto intro: apart_mono)
  qed
  ultimately have "heap_inv base ?m ?bs" using h(6) prev by (auto simp: heap_inv_def image_Un)
  moreover have e: "extent (a, k) = extent (a, k - n) \<union> extent (q, n)" "extent (a, k - n) \<inter> extent (q, n) = {}"
    using q kn by (auto simp: extent_def)
  moreover have "extent (q, n) \<inter> free_bytes (xs @ ys) = {}" using apart_disjoint [OF ap] e(1) by blast
  moreover have "q + 16 \<noteq> 0"
  proof -
    have "unat (q + 16) = unat q + 16" using h(2) qa(2) by (simp add: unat_word_ariths)
    then show ?thesis by auto
  qed
  ultimately show ?thesis
    unfolding taken_def by (intro exI [of _ ?bs]) auto
qed

lemma malloc_take_ok:
  assumes inv: "heap_inv base m (xs @ (a, k) # ys)" and prev: "prevp = fst (last ((base, 0) # xs))"
    and n: "n \<noteq> 0" "n \<le> k"
  shows "taken base m (free_bytes (xs @ (a, k) # ys)) (insert base (fst ` set (xs @ (a, k) # ys))) n
    (fst (malloc_take n prevp a m)) (snd (malloc_take n prevp a m))"
proof (cases "k = n")
  case True
  then show ?thesis using take_whole [OF inv prev] heap_split(4) [OF inv] by (simp add: malloc_take_def)
next
  case False
  then have "n < k" using n(2) by simp
  moreover have "prevp \<in> insert base (fst ` set (xs @ (a, k) # ys))" using prev by (cases xs rule: rev_cases) auto
  ultimately show ?thesis
    using take_part [OF inv _ n(1)] False heap_split(4) [OF inv] by (simp add: malloc_take_def Let_def blk_end_def)
qed

lemma first_of_append: "first_of (xs @ ys) e = first_of xs (first_of ys e)"
  by (cases xs) simp_all

text \<open>The circle as the loop of \<open>malloc\<close> goes round it: the block \<open>freep\<close> comes last.\<close>

lemma circle:
  assumes inv: "heap_inv base m bs"
  obtains us kf where "chain m (us @ [(freep m, kf)]) (first_of us (freep m))" and "hptr m (freep m) = first_of us (freep m)"
    and "set (us @ [(freep m, kf)]) = insert (base, 0) (set bs)" and "length us = length bs"
    and "freep m \<notin> fst ` set us"
proof -
  have "freep m \<in> fst ` set ((base, 0) # bs)" using inv by (auto simp: heap_inv_def)
  then obtain kf where "(freep m, kf) \<in> set ((base, 0) # bs)" by force
  then obtain A B where L: "(base, 0) # bs = A @ (freep m, kf) # B" by (rule split_list [THEN exE]) blast
  have c: "chain m (A @ (freep m, kf) # B) base" using inv unfolding L [symmetric] by (simp add: heap_inv_def)
  have b: "first_of A (freep m) = base" using L by (cases A) simp_all
  have "distinct (map fst ((base, 0) # bs))"
  proof -
    have ap: "apart (unat base + 16) bs" using inv by (simp add: heap_inv_def)
    then have "base \<notin> fst ` set bs" using apart_above by fastforce
    then show ?thesis using apart_distinct [OF ap] by simp
  qed
  then have "distinct (map fst (A @ (freep m, kf) # B))" by (simp only: L)
  then have "freep m \<notin> fst ` set (B @ A)" by auto
  moreover have "chain m ((B @ A) @ [(freep m, kf)]) (first_of (B @ A) (freep m))" "hptr m (freep m) = first_of (B @ A) (freep m)"
    using c b by (simp_all add: chain_append first_of_append)
  moreover have "set ((B @ A) @ [(freep m, kf)]) = insert (base, 0) (set bs)" using arg_cong [OF L, of set] by auto
  moreover have "length (B @ A) = length bs" using arg_cong [OF L, of length] by simp
  ultimately show thesis using that [of "B @ A" kf] by blast
qed

lemma walk_found:
  assumes "chain m (us @ (a, k) # vs) e" and "\<forall>x\<in>set us. snd x < n \<and> fst x \<noteq> freep m" and "n \<le> k" and "length us < fuel"
  shows "malloc_loop env fuel n prevp (first_of us a) m h = URet (malloc_take n (fst (last ((prevp, 0) # us))) a m) h"
  using assms
proof (induction us arbitrary: prevp fuel)
  case Nil
  then show ?case by (cases fuel) simp_all
next
  case (Cons x us)
  obtain f where f: "fuel = Suc f" using Cons.prems(4) by (cases fuel) auto
  have "hsize m (fst x) = snd x" "hptr m (fst x) = first_of us a" "\<not> n \<le> snd x" "fst x \<noteq> freep m"
    using Cons.prems(1,2) by (simp_all add: not_le)
  moreover have "malloc_loop env f n (fst x) (first_of us a) m h = URet (malloc_take n (fst (last ((fst x, 0) # us))) a m) h"
    using Cons.prems f by (intro Cons.IH) simp_all
  ultimately show ?case using f by (cases us) simp_all
qed

lemma walk_none:
  assumes "chain m (us @ [(f, k)]) e" and "\<forall>x\<in>set us. snd x < n \<and> fst x \<noteq> freep m" and "k < n" and "f = freep m"
  shows "malloc_loop env (length us + Suc fuel) n prevp (first_of us f) m h =
    ubind (morecore env fuel n m h) (\<lambda>r h. case fst r of None \<Rightarrow> URet (0, snd r) h
      | Some q \<Rightarrow> malloc_loop env fuel n q (hptr (snd r) q) (snd r) h)"
  using assms
proof (induction us arbitrary: prevp)
  case Nil
  then show ?case by (simp add: not_le [symmetric])
next
  case (Cons x us)
  have x: "hsize m (fst x) = snd x" "hptr m (fst x) = first_of us f" "\<not> n \<le> snd x" "fst x \<noteq> freep m"
    using Cons.prems(1,2) by (simp_all add: not_le)
  have "malloc_loop env (length (x # us) + Suc fuel) n prevp (first_of (x # us) f) m h =
      malloc_loop env (length us + Suc fuel) n (fst x) (first_of us f) m h"
    using x by simp
  then show ?case using Cons.IH [of "fst x"] Cons.prems by simp
qed

text \<open>The block that points to \<open>a\<close> is the one before it.\<close>

lemma chain_succs: "chain m (b # bs) e \<Longrightarrow> map (\<lambda>x. hptr m (fst x)) (b # bs) = map fst bs @ [e]"
  by (induction bs arbitrary: b) auto

lemma pred_unique:
  assumes inv: "heap_inv base m (xs @ (a, k) # ys)" and x: "x \<in> insert base (fst ` set (xs @ (a, k) # ys))" and "hptr m x = a"
  shows "x = fst (last ((base, 0) # xs))"
proof -
  let ?L = "(base, 0) # xs @ (a, k) # ys"
  have c: "chain m ?L base" using inv by (simp add: heap_inv_def)
  have "distinct (map (\<lambda>x. hptr m (fst x)) ?L)"
    unfolding chain_succs [OF c] using heap_split(3) [OF inv] by auto
  then have inj: "inj_on (\<lambda>x. hptr m (fst x)) (set ?L)" by (simp only: distinct_map)
  have p: "hptr m (fst (last ((base, 0) # xs))) = a" "last ((base, 0) # xs) \<in> set ?L"
    using c by (cases xs rule: rev_cases) (auto simp: chain_append)
  have "x \<in> fst ` set ?L" using x by auto
  then obtain y where y: "y \<in> set ?L" "x = fst y" by blast
  then have "y = last ((base, 0) # xs)" using inj p assms(3) by (intro inj_onD [OF inj]) simp_all
  then show ?thesis using y(2) by simp
qed

lemma malloc_found:
  assumes inv: "heap_inv base m bs" and big: "\<exists>x\<in>set bs. n \<le> snd x" and n: "n \<noteq> 0" and fuel: "length bs < fuel"
  shows "\<exists>r m'. malloc_loop env fuel n (freep m) (hptr m (freep m)) m h = URet (r, m') h \<and>
    taken base m (free_bytes bs) (insert base (fst ` set bs)) n r m'"
proof -
  obtain us kf where q: "chain m (us @ [(freep m, kf)]) (first_of us (freep m))" "hptr m (freep m) = first_of us (freep m)"
      "set (us @ [(freep m, kf)]) = insert (base, 0) (set bs)" "length us = length bs" "freep m \<notin> fst ` set us"
    by (rule circle [OF inv])
  have "\<exists>x\<in>set (us @ [(freep m, kf)]). n \<le> snd x" unfolding q(3) using big by blast
  then obtain vs x ws where v: "us @ [(freep m, kf)] = vs @ x # ws" "n \<le> snd x" "\<forall>y\<in>set vs. \<not> n \<le> snd y"
    by (rule split_list_first_propE) (blast intro: that)
  have "us = vs @ butlast (x # ws)" using arg_cong [OF v(1), of butlast] by (simp add: butlast_append)
  then have vs: "length vs \<le> length us" "set vs \<subseteq> set us" by simp_all
  have hd: "first_of us (freep m) = first_of vs (fst x)" using arg_cong [OF v(1), of "\<lambda>l. first_of l 0"] by simp
  have "x \<in> set (us @ [(freep m, kf)])" unfolding v(1) by simp
  then have "x \<in> set bs" unfolding q(3) using v(2) n by auto
  then obtain xs ys where bs: "bs = xs @ (fst x, snd x) # ys" by (metis prod.collapse split_list)
  have c: "chain m (vs @ (fst x, snd x) # ws) (first_of us (freep m))" using q(1) by (simp only: v(1) prod.collapse)
  let ?prev = "fst (last ((freep m, 0) # vs))"
  have run: "malloc_loop env fuel n (freep m) (first_of vs (fst x)) m h = URet (malloc_take n ?prev (fst x) m) h"
  proof (rule walk_found [OF c])
    show "\<forall>y\<in>set vs. snd y < n \<and> fst y \<noteq> freep m" using v(3) vs(2) q(5) by (force simp: not_le)
  qed (use v(2) vs(1) q(4) fuel in auto)
  have "hptr m ?prev = fst x"
  proof (cases vs rule: rev_cases)
    case Nil
    then show ?thesis using q(2) hd by simp
  next
    case (snoc zs z)
    then show ?thesis using c by (simp add: chain_append)
  qed
  moreover have "?prev \<in> insert base (fst ` set bs)"
  proof (cases vs rule: rev_cases)
    case Nil
    then show ?thesis using inv by (simp add: heap_inv_def)
  next
    case (snoc zs z)
    then have "z \<in> insert (base, 0) (set bs)" using vs(2) unfolding q(3) [symmetric] by auto
    then show ?thesis using snoc by auto
  qed
  ultimately have "?prev = fst (last ((base, 0) # xs))" unfolding bs by (intro pred_unique [OF inv [unfolded bs]])
  note tk = malloc_take_ok [OF inv [unfolded bs] this n v(2)]
  show ?thesis using run tk unfolding q(2) hd bs [symmetric]
    by (intro exI [of _ "fst (malloc_take n ?prev (fst x) m)"] exI [of _ "snd (malloc_take n ?prev (fst x) m)"]) simp
qed

text \<open>The answer of \<open>sbrk\<close>: an error, or as many fresh bytes as asked for, above the header \<open>base\<close>.\<close>

definition sbrk_fresh :: "uenv \<Rightarrow> history \<Rightarrow> u64 \<Rightarrow> nat set \<Rightarrow> int \<Rightarrow> bool" where
  "sbrk_fresh env h base F n \<longleftrightarrow>
    (let p = fst (env (h @ [CSbrk n])); a = unat (of_int p :: u64)
     in p = -1 \<or> unat base + 16 \<le> a \<and> a + nat n < 2 ^ 36 \<and> {a ..< a + nat n} \<inter> F = {})"

definition units_asked :: "u32 \<Rightarrow> u32" where
  "units_asked n = (if n < 4096 then 4096 else n)"

definition new_block :: "uenv \<Rightarrow> history \<Rightarrow> u32 \<Rightarrow> u64" where
  "new_block env h n = of_int (fst (env (h @ [CSbrk (sint (units_asked n * 16))])))"

lemma sint_small:
  assumes "unat w < 2 ^ 31"
  shows "sint (w :: u32) = int (unat w)"
proof -
  have "int (unat w) < int (2 ^ 31)" using assms by (simp only: of_nat_less_iff)
  then have u: "uint w < 2 ^ 31" by simp
  have "- (2 ^ 31) \<le> uint w" by (rule order_trans [OF _ uint_ge_0]) simp
  then have "signed_take_bit 31 (uint w) = uint w" using u by (rule signed_take_bit_int_eq_self)
  then show ?thesis by (simp add: sint_uint)
qed

lemma bytes_asked:
  assumes "unat n < 2 ^ 27"
  shows "nat (sint (units_asked n * 16)) = 16 * unat (units_asked n)" "n \<le> units_asked n" "units_asked n \<noteq> 0"
proof -
  have u: "unat (units_asked n) < 2 ^ 27"
  proof (cases "n < 4096")
    case True
    then show ?thesis by (simp add: units_asked_def)
  next
    case False
    then show ?thesis using assms by (simp add: units_asked_def)
  qed
  have m: "unat (units_asked n * 16) = 16 * unat (units_asked n)" using u by (simp add: unat_mult_lem [THEN iffD1])
  have "unat (units_asked n * 16) < 2 ^ 31" using u unfolding m by simp
  from sint_small [OF this] have "sint (units_asked n * 16) = int (16 * unat (units_asked n))" unfolding m .
  then show "nat (sint (units_asked n * 16)) = 16 * unat (units_asked n)" by (simp only: nat_int)
  show "n \<le> units_asked n" by (cases "n < 4096") (simp_all add: units_asked_def less_imp_le)
  show "units_asked n \<noteq> 0" by (cases "n < 4096") (auto simp: units_asked_def)
qed

lemma headers_free:
  assumes "apart lo bs" and "c \<in> fst ` set bs"
  shows "unat c \<in> free_bytes bs"
proof -
  obtain k where "(c, k) \<in> set bs" using assms(2) by force
  moreover from this have "0 < unat k" using apart_member [OF assms(1)] by (fastforce simp: unat_gt_0)
  ultimately show ?thesis by (force simp: free_bytes_def extent_def)
qed

lemma taken_frame:
  assumes "taken base m2 F H n r m'" and "H \<subseteq> H'" and "\<forall>c. c \<notin> H' \<longrightarrow> hsize m2 c = hsize m c"
  shows "taken base m F H' n r m'"
proof -
  obtain bs where b: "heap_inv base m' bs" "r \<noteq> 0" "hsize m' (r - 16) = n" "extent (r - 16, n) \<inter> free_bytes bs = {}"
      "extent (r - 16, n) \<union> free_bytes bs = F" and f: "\<forall>c. c \<noteq> r - 16 \<longrightarrow> c \<notin> H \<longrightarrow> hsize m' c = hsize m2 c"
    using assms(1) unfolding taken_def by blast
  have "\<forall>c. c \<noteq> r - 16 \<longrightarrow> c \<notin> H' \<longrightarrow> hsize m' c = hsize m c" using f assms(2,3) by (metis subsetD)
  then show ?thesis using b unfolding taken_def by blast
qed

text \<open>When every block is too small, the loop goes round once and calls \<open>morecore\<close>.\<close>

lemma loop_small:
  assumes inv: "heap_inv base m bs" and small: "\<forall>x\<in>set bs. snd x < n" and n: "n \<noteq> 0"
  shows "malloc_loop env (length bs + Suc f) n (freep m) (hptr m (freep m)) m h =
    ubind (morecore env f n m h) (\<lambda>r h. case fst r of None \<Rightarrow> URet (0, snd r) h
      | Some q \<Rightarrow> malloc_loop env f n q (hptr (snd r) q) (snd r) h)"
proof -
  obtain us kf where q: "chain m (us @ [(freep m, kf)]) (first_of us (freep m))" "hptr m (freep m) = first_of us (freep m)"
      "set (us @ [(freep m, kf)]) = insert (base, 0) (set bs)" "length us = length bs" "freep m \<notin> fst ` set us"
    by (rule circle [OF inv])
  have "\<forall>x\<in>set (us @ [(freep m, kf)]). snd x < n" unfolding q(3) using small n by (simp add: word_gt_0)
  then have "\<forall>x\<in>set us. snd x < n \<and> fst x \<noteq> freep m" "kf < n" using q(5) by force+
  from walk_none [OF q(1) this refl] show ?thesis unfolding q(2) q(4) .
qed

lemma morecore_fails:
  assumes "fst (env (h @ [CSbrk (sint (units_asked n * 16))])) = -1"
  shows "morecore env f n m h = URet (None, m) (h @ [CSbrk (sint (units_asked n * 16))])"
  using assms by (simp add: morecore_def usys_def Let_def units_asked_def)

lemma morecore_gets:
  assumes "fst (env (h @ [CSbrk (sint (units_asked n * 16))])) \<noteq> -1"
    and "ufree f (new_block env h n + 16) (set_hsize (new_block env h n) (units_asked n) m) = Some m2"
  shows "morecore env f n m h = URet (Some (freep m2), m2) (h @ [CSbrk (sint (units_asked n * 16))])"
proof -
  have "morecore env f n m h = ubind (usys env (CSbrk (sint (units_asked n * 16))) h) (\<lambda>p h.
       if p = -1 then URet (None, m) h
       else case ufree f (of_int p + 16) (set_hsize (of_int p) (units_asked n) m) of
           None \<Rightarrow> USpin h | Some m \<Rightarrow> URet (Some (freep m), m) h)"
    by (simp only: morecore_def units_asked_def Let_def)
  then show ?thesis using assms by (simp add: usys_def new_block_def)
qed

text \<open>\<open>morecore\<close> puts the fresh memory on the list, so that the second round of the loop finds a block.\<close>

lemma malloc_more:
  assumes inv: "heap_inv base m bs" and small: "\<forall>x\<in>set bs. snd x < n" and n: "n \<noteq> 0" "unat n < 2 ^ 27"
    and fuel: "2 * length bs + 3 \<le> fuel"
    and fresh: "sbrk_fresh env h base (free_bytes bs) (sint (units_asked n * 16))"
    and got: "fst (env (h @ [CSbrk (sint (units_asked n * 16))])) \<noteq> -1"
  defines "F \<equiv> free_bytes bs \<union> extent (new_block env h n, units_asked n)"
  shows "\<exists>r m'. malloc_loop env fuel n (freep m) (hptr m (freep m)) m h =
      URet (r, m') (h @ [CSbrk (sint (units_asked n * 16))]) \<and>
    taken base m F (insert base {c. unat c \<in> F}) n r m'"
proof -
  let ?h = "h @ [CSbrk (sint (units_asked n * 16))]" and ?p = "new_block env h n" and ?u = "units_asked n"
  let ?m = "set_hsize ?p ?u m" and ?H = "insert base {c. unat c \<in> F}"
  note ask = bytes_asked [OF n(2)]
  have ap: "apart (unat base + 16) bs" using inv by (simp add: heap_inv_def)
  have p: "unat base + 16 \<le> unat ?p" "unat ?p + 16 * unat ?u < 2 ^ 36" "extent (?p, ?u) \<inter> free_bytes bs = {}"
    using fresh got ask(1) by (simp_all add: sbrk_fresh_def Let_def new_block_def extent_def)
  have pin: "unat ?p \<in> extent (?p, ?u)" using ask(3) by (simp add: extent_def unat_gt_0)
  have pn: "?p \<notin> fst ` set bs" "?p \<noteq> base" using headers_free [OF ap] pin p by fastforce+
  have inv1: "heap_inv base ?m bs" using inv pn by (simp add: heap_inv_def)
  have fb: "freeable_block base ?m bs ?p" using p ask(3) by (simp add: freeable_block_def)
  obtain f where f: "fuel = length bs + Suc f" "length bs + 2 \<le> f"
    using fuel by (intro that [of "fuel - Suc (length bs)"]) simp_all
  obtain m2 bs2 where m2: "ufree f (?p + 16) ?m = Some m2" "heap_inv base m2 bs2" "free_bytes bs2 = free_bytes bs \<union> extent (?p, hsize ?m ?p)"
      "length bs2 \<le> Suc (length bs)" "\<exists>x\<in>set bs2. unat (hsize ?m ?p) \<le> unat (snd x)"
      "\<forall>a. a \<noteq> ?p \<longrightarrow> a \<notin> insert base (fst ` set bs) \<longrightarrow> hsize m2 a = hsize ?m a"
    using ufree_run [OF inv1 fb, of f] f(2) by auto
  have big: "\<exists>x\<in>set bs2. n \<le> snd x"
  proof -
    from m2(5) obtain x where "x \<in> set bs2" "unat ?u \<le> unat (snd x)" by auto
    then show ?thesis using ask(2) by (intro bexI [of _ x]) (simp_all add: word_le_nat_alt)
  qed
  obtain r m' where run: "malloc_loop env f n (freep m2) (hptr m2 (freep m2)) m2 ?h = URet (r, m') ?h"
      and tk: "taken base m2 (free_bytes bs2) (insert base (fst ` set bs2)) n r m'"
    using malloc_found [OF m2(2) big n(1), of f env ?h] m2(4) f(2) by auto
  have "malloc_loop env fuel n (freep m) (hptr m (freep m)) m h = URet (r, m') ?h"
    unfolding f(1) loop_small [OF inv small n(1)] morecore_gets [OF got m2(1)] using run by simp
  moreover have "taken base m F ?H n r m'"
  proof (rule taken_frame)
    show "taken base m2 F (insert base (fst ` set bs2)) n r m'" using tk m2(3) by (simp add: F_def)
    have "apart (unat base + 16) bs2" using m2(2) by (simp add: heap_inv_def)
    then show "insert base (fst ` set bs2) \<subseteq> ?H" using headers_free m2(3) by (auto simp: F_def)
    show "\<forall>c. c \<notin> ?H \<longrightarrow> hsize m2 c = hsize m c"
    proof (intro allI impI)
      fix c
      assume c: "c \<notin> ?H"
      then have "c \<noteq> ?p" "c \<notin> insert base (fst ` set bs)" using pin headers_free [OF ap] by (auto simp: F_def)
      then show "hsize m2 c = hsize m c" using m2(6) by simp
    qed
  qed
  ultimately show ?thesis by auto
qed

text \<open>The heap before a call: not set up yet, or a circle of the free blocks \<open>bs\<close>.\<close>

definition heap_ready :: "u64 \<Rightarrow> umem \<Rightarrow> (u64 \<times> u32) list \<Rightarrow> bool" where
  "heap_ready base m bs \<longleftrightarrow> (if freep m = 0 then bs = [] \<and> 0 < base \<and> unat base + 16 < 2 ^ 36 else heap_inv base m bs)"

lemma malloc_init_ok:
  assumes "heap_ready base m bs"
  shows "heap_inv base (malloc_init base m) bs" "c \<noteq> base \<Longrightarrow> hsize (malloc_init base m) c = hsize m c"
  using assms by (auto simp: heap_ready_def malloc_init_def heap_inv_def split: if_splits)

lemma nunits_of_small: "unat nbytes < 2 ^ 31 - 48 \<Longrightarrow> unat (nunits_of nbytes) < 2 ^ 27"
proof -
  assume n: "unat nbytes < 2 ^ 31 - 48"
  have "unat ((ucast nbytes + 16 - 1 :: u64) div 16) = (unat nbytes + 15) div 16"
    using n by (simp add: unat_div unat_word_ariths)
  then have "unat (ucast ((ucast nbytes + 16 - 1 :: u64) div 16) :: u32) = (unat nbytes + 15) div 16"
    using n by (simp add: unsigned_ucast_eq take_bit_eq_mod)
  then show ?thesis using n by (simp add: nunits_of_def unat_word_ariths)
qed

lemma malloc_outcome:
  assumes ready: "heap_ready base m bs" and n: "n = nunits_of nbytes" "n \<noteq> 0" "unat n < 2 ^ 27" and fuel: "2 * length bs + 3 \<le> fuel"
    and fresh: "sbrk_fresh env h base (free_bytes bs) (sint (units_asked n * 16))" and h': "h' = h @ [CSbrk (sint (units_asked n * 16))]"
    and F: "F = free_bytes bs \<union> extent (new_block env h n, units_asked n)"
  shows "\<exists>x\<in>set bs. n \<le> snd x \<Longrightarrow> \<exists>r m'. malloc env fuel base nbytes m h = URet (r, m') h \<and>
      taken base m (free_bytes bs) (insert base {c. unat c \<in> free_bytes bs}) n r m'"
    and "\<forall>x\<in>set bs. snd x < n \<Longrightarrow> fst (env h') = -1 \<Longrightarrow> malloc env fuel base nbytes m h = URet (0, malloc_init base m) h'"
    and "\<forall>x\<in>set bs. snd x < n \<Longrightarrow> fst (env h') \<noteq> -1 \<Longrightarrow> \<exists>r m'. malloc env fuel base nbytes m h = URet (r, m') h' \<and>
      taken base m F (insert base {c. unat c \<in> F}) n r m'"
proof -
  let ?m = "malloc_init base m"
  note inv = malloc_init_ok(1) [OF ready]
  have same: "\<forall>c. c \<notin> insert base H \<longrightarrow> hsize ?m c = hsize m c" for H using malloc_init_ok(2) [OF ready] by simp
  have run: "malloc env fuel base nbytes m h = malloc_loop env fuel n (freep ?m) (hptr ?m (freep ?m)) ?m h"
    by (simp add: malloc_def Let_def n(1))
  show "\<exists>r m'. malloc env fuel base nbytes m h = URet (r, m') h \<and>
      taken base m (free_bytes bs) (insert base {c. unat c \<in> free_bytes bs}) n r m'" if big: "\<exists>x\<in>set bs. n \<le> snd x"
  proof -
    have sub: "insert base (fst ` set bs) \<subseteq> insert base {c. unat c \<in> free_bytes bs}"
      using headers_free inv by (auto simp: heap_inv_def)
    have "length bs < fuel" using fuel by simp
    from malloc_found [OF inv big n(2) this] obtain r m' where "malloc env fuel base nbytes m h = URet (r, m') h"
        "taken base ?m (free_bytes bs) (insert base (fst ` set bs)) n r m'" unfolding run by blast
    with taken_frame [OF this(2) sub same] show ?thesis by blast
  qed
  assume small: "\<forall>x\<in>set bs. snd x < n"
  show "malloc env fuel base nbytes m h = URet (0, ?m) h'" if fail: "fst (env h') = -1"
  proof -
    obtain f where f: "fuel = length bs + Suc f" using fuel by (intro that [of "fuel - Suc (length bs)"]) simp
    show ?thesis unfolding run unfolding f loop_small [OF inv small n(2)] morecore_fails [of env h n, OF fail [unfolded h']] h' by simp
  qed
  show "\<exists>r m'. malloc env fuel base nbytes m h = URet (r, m') h' \<and> taken base m F (insert base {c. unat c \<in> F}) n r m'"
    if got: "fst (env h') \<noteq> -1"
  proof -
    from malloc_more [OF inv small n(2,3) fuel fresh got [unfolded h']] obtain r m' where
        "malloc env fuel base nbytes m h = URet (r, m') h'" "taken base ?m F (insert base {c. unat c \<in> F}) n r m'"
      unfolding run h' F by blast
    with taken_frame [OF this(2) subset_refl same] show ?thesis by blast
  qed
qed

text \<open>
  C29: \<open>malloc\<close> returns, on every well-formed heap and for every request below 2 GB. It returns a
  block with room for the bytes asked for, taken out of the free memory, so that no free block and
  no block of the caller overlaps it: out of the free blocks when one is large enough, otherwise
  out of these and the memory \<open>sbrk\<close> gave; the headers of the blocks in use are unchanged. It
  returns 0 only when no free block is large enough and \<open>sbrk\<close> fails, and then nothing is lost.
\<close>

theorem malloc_gives_block:
  assumes "heap_ready base m bs" and "unat nbytes < 2 ^ 31 - 48" and "2 * length bs + 3 \<le> fuel"
    and "sbrk_fresh env h base (free_bytes bs) (sint (units_asked (nunits_of nbytes) * 16))"
  shows "let n = nunits_of nbytes; h' = h @ [CSbrk (sint (units_asked n * 16))];
             F = free_bytes bs \<union> extent (new_block env h n, units_asked n)
         in unat nbytes + 16 \<le> 16 * unat n \<and>
           (if \<exists>x\<in>set bs. n \<le> snd x
            then \<exists>r m'. malloc env fuel base nbytes m h = URet (r, m') h \<and>
              taken base m (free_bytes bs) (insert base {c. unat c \<in> free_bytes bs}) n r m'
            else if fst (env h') = -1 then malloc env fuel base nbytes m h = URet (0, malloc_init base m) h'
            else \<exists>r m'. malloc env fuel base nbytes m h = URet (r, m') h' \<and>
              taken base m F (insert base {c. unat c \<in> F}) n r m')"
proof -
  have small: "\<not> (\<exists>x\<in>set bs. k \<le> snd x) \<Longrightarrow> \<forall>x\<in>set bs. snd x < k" for k by (auto simp: not_le)
  note out = malloc_outcome [OF assms(1) refl nunits_of_fits(1) nunits_of_small [OF assms(2)] assms(3,4) refl refl]
  show ?thesis unfolding Let_def using nunits_of_fits(2) [of nbytes] out small by presburger
qed

theorem malloc_gives_block_witness:
  "\<exists>r m'. malloc (\<lambda>_. (0x4000, [])) 7 0x1000 100 example_heap [] = URet (r, m') [CSbrk 65536] \<and>
    r \<noteq> 0 \<and> hsize m' (r - 16) = 8 \<and> extent (r - 16, 8) \<subseteq> {0x2000 ..< 0x14000}"
proof -
  have ready: "heap_ready 0x1000 example_heap [(0x2000, 2), (0x2040, 3)]"
    by (simp add: heap_ready_def heap_inv_def example_heap_def)
  have n: "nunits_of 100 = 8" by (simp add: nunits_of_def)
  have a: "sint (units_asked 8 * 16) = 65536" by (simp add: units_asked_def)
  have fresh: "sbrk_fresh (\<lambda>_. (0x4000, [])) [] 0x1000 (free_bytes [(0x2000, 2), (0x2040, 3)]) (sint (units_asked (nunits_of 100) * 16))"
    unfolding n a by (auto simp: sbrk_fresh_def extent_def)
  have F: "free_bytes [(0x2000, 2), (0x2040, 3)] \<union> extent (new_block (\<lambda>_. (0x4000, [])) [] 8, units_asked 8) \<subseteq> {0x2000 ..< 0x14000}"
    by (auto simp: extent_def new_block_def units_asked_def)
  from malloc_gives_block [OF ready _ _ fresh, of 7] obtain r m' where
      "malloc (\<lambda>_. (0x4000, [])) 7 0x1000 100 example_heap [] = URet (r, m') [CSbrk 65536]"
      and tk: "taken 0x1000 example_heap (free_bytes [(0x2000, 2), (0x2040, 3)] \<union> extent (new_block (\<lambda>_. (0x4000, [])) [] 8, units_asked 8))
        (insert 0x1000 {c. unat c \<in> free_bytes [(0x2000, 2), (0x2040, 3)] \<union> extent (new_block (\<lambda>_. (0x4000, [])) [] 8, units_asked 8)}) 8 r m'"
    unfolding Let_def n a by auto
  then show ?thesis using F unfolding taken_def by blast
qed

end
