(* ===== verification/Buddy.thy ===== *)
theory Buddy
  imports Printf Dll "HOL-Library.Signed_Division"
begin

text \<open>
  \<open>kernel/list.c\<close> and \<open>kernel/buddy.c\<close>: circular doubly linked lists, and the buddy allocator
  that keeps one of them for every block size. \<open>lnext\<close> and \<open>lprev\<close> are the two words of the
  \<open>struct list\<close> at an address, be it the head of a list in \<open>bd_sizes\<close> or the start of a free
  block; the bit arrays \<open>alloc\<close> and \<open>split\<close> of a size are objects of their own, and reading or
  writing beyond their end is \<open>out_of_bounds\<close>.
\<close>

section \<open>Lists\<close>

record links = umachine +
  lnext :: "u64 \<Rightarrow> u64"
  lprev :: "u64 \<Rightarrow> u64"

definition lst_init :: "u64 \<Rightarrow> 'z links_scheme \<Rightarrow> 'z links_scheme" where
  "lst_init lst s = s\<lparr>lnext := (lnext s)(lst := lst), lprev := (lprev s)(lst := lst)\<rparr>"

definition lst_empty :: "u64 \<Rightarrow> 'z links_scheme \<Rightarrow> bool" where
  "lst_empty lst s \<longleftrightarrow> lnext s lst = lst"

definition lst_remove :: "u64 \<Rightarrow> 'z links_scheme \<Rightarrow> 'z links_scheme" where
  "lst_remove e s =
    (let s = s\<lparr>lnext := (lnext s)(lprev s e := lnext s e)\<rparr>
     in s\<lparr>lprev := (lprev s)(lnext s e := lprev s e)\<rparr>)"

definition lst_pop :: "u64 \<Rightarrow> 'z links_scheme \<Rightarrow> (u64, 'z links_scheme) outcome" where
  "lst_pop lst s =
    (if lnext s lst = lst then Panic ''lst_pop'' s
     else let p = lnext s lst in Done p (lst_remove p s))"

definition lst_push :: "u64 \<Rightarrow> u64 \<Rightarrow> 'z links_scheme \<Rightarrow> 'z links_scheme" where
  "lst_push lst e s =
    (let s = s\<lparr>lnext := (lnext s)(e := lnext s lst)\<rparr>;
         s = s\<lparr>lprev := (lprev s)(e := lst)\<rparr>;
         s = s\<lparr>lprev := (lprev s)(lnext s lst := e)\<rparr>
     in s\<lparr>lnext := (lnext s)(lst := e)\<rparr>)"

fun lst_print_loop :: "nat \<Rightarrow> u64 \<Rightarrow> u64 \<Rightarrow> 'z links_scheme \<Rightarrow> (unit, 'z links_scheme) outcome" where
  "lst_print_loop 0 lst p s = Loop s"
| "lst_print_loop (Suc fuel) lst p s =
    (if p = lst then Done () s
     else bindk (printf (Some (ascii '' %p'')) [ArgPtr p] s) (\<lambda>_ s. lst_print_loop fuel lst (lnext s p) s))"

definition lst_print :: "nat \<Rightarrow> u64 \<Rightarrow> 'z links_scheme \<Rightarrow> (unit, 'z links_scheme) outcome" where
  "lst_print fuel lst s =
    bindk (lst_print_loop fuel lst (lnext s lst) s) (\<lambda>_ s. printf (Some [10]) [] s)"

section \<open>Bit arrays\<close>

text \<open>Assigning to an \<open>int\<close> variable.\<close>

definition cast32 :: "int \<Rightarrow> int" where
  "cast32 x = sint (of_int x :: u32)"

definition bit_byte :: "u8 list \<Rightarrow> int \<Rightarrow> nat option" where
  "bit_byte v index = (if 0 \<le> index \<and> nat index div 8 < length v then Some (nat index div 8) else None)"

definition bit_isset :: "u8 list \<Rightarrow> int \<Rightarrow> bool option" where
  "bit_isset v index =
    map_option (\<lambda>j. let b = v ! j; m = push_bit (nat index mod 8) 1 in b AND m = m) (bit_byte v index)"

definition bit_set :: "u8 list \<Rightarrow> int \<Rightarrow> u8 list option" where
  "bit_set v index =
    map_option (\<lambda>j. let b = v ! j; m = push_bit (nat index mod 8) 1 in v[j := b OR m]) (bit_byte v index)"

definition bit_clear :: "u8 list \<Rightarrow> int \<Rightarrow> u8 list option" where
  "bit_clear v index =
    map_option (\<lambda>j. let b = v ! j; m = push_bit (nat index mod 8) 1 in v[j := b AND NOT m]) (bit_byte v index)"

section \<open>The allocator\<close>

definition LEAF_SIZE :: nat where "LEAF_SIZE = 16"

definition BLK_SIZE :: "nat \<Rightarrow> nat" where
  "BLK_SIZE k = 2 ^ k * LEAF_SIZE"

text \<open>The heads of the free lists are the first 16 of the 32 bytes of a \<open>struct sz_info\<close>.\<close>

record sz_info =
  sz_alloc :: "u8 list"
  sz_split :: "u8 list"

record buddy = links +
  bd_sizes :: u64
  bd_base :: u64
  sizes :: "sz_info list"

abbreviation nsizes :: "'z buddy_scheme \<Rightarrow> nat" where
  "nsizes s \<equiv> length (sizes s)"

abbreviation MAXSIZE :: "'z buddy_scheme \<Rightarrow> nat" where
  "MAXSIZE s \<equiv> nsizes s - 1"

definition NBLK :: "nat \<Rightarrow> nat \<Rightarrow> nat" where
  "NBLK maxsize k = 2 ^ (maxsize - k)"

definition free_head :: "nat \<Rightarrow> 'z buddy_scheme \<Rightarrow> u64" where
  "free_head k s = bd_sizes s + of_nat (32 * k)"

text \<open>Reading and changing one bit of an array of size \<open>k\<close>.\<close>

definition get_bit :: "(sz_info \<Rightarrow> u8 list) \<Rightarrow> nat \<Rightarrow> int \<Rightarrow> 'z buddy_scheme \<Rightarrow> (bool, 'z buddy_scheme) outcome" where
  "get_bit v k i s =
    (if k < nsizes s
     then (case bit_isset (v (sizes s ! k)) i of None \<Rightarrow> out_of_bounds s | Some b \<Rightarrow> Done b s)
     else out_of_bounds s)"

definition upd_alloc :: "(u8 list \<Rightarrow> int \<Rightarrow> u8 list option) \<Rightarrow> nat \<Rightarrow> int \<Rightarrow> 'z buddy_scheme \<Rightarrow> (unit, 'z buddy_scheme) outcome" where
  "upd_alloc f k i s =
    (if k < nsizes s
     then (case f (sz_alloc (sizes s ! k)) i of None \<Rightarrow> out_of_bounds s
       | Some a \<Rightarrow> Done () (s\<lparr>sizes := (sizes s)[k := (sizes s ! k)\<lparr>sz_alloc := a\<rparr>]\<rparr>))
     else out_of_bounds s)"

definition upd_split :: "(u8 list \<Rightarrow> int \<Rightarrow> u8 list option) \<Rightarrow> nat \<Rightarrow> int \<Rightarrow> 'z buddy_scheme \<Rightarrow> (unit, 'z buddy_scheme) outcome" where
  "upd_split f k i s =
    (if k < nsizes s
     then (case f (sz_split (sizes s ! k)) i of None \<Rightarrow> out_of_bounds s
       | Some a \<Rightarrow> Done () (s\<lparr>sizes := (sizes s)[k := (sizes s ! k)\<lparr>sz_split := a\<rparr>]\<rparr>))
     else out_of_bounds s)"

text \<open>\<open>size *= 2\<close> wraps to 0 for requests above \<open>2 ^ 63\<close>; then the loop does not end.\<close>

partial_function (option) firstk_loop :: "nat \<Rightarrow> u64 \<Rightarrow> u64 \<Rightarrow> nat option" where
  "firstk_loop k w n = (if w < n then firstk_loop (k + 1) (w * 2) n else Some k)"

definition firstk :: "u64 \<Rightarrow> nat option" where
  "firstk n = firstk_loop 0 (of_nat LEAF_SIZE) n"

definition blk_index :: "nat \<Rightarrow> u64 \<Rightarrow> 'z buddy_scheme \<Rightarrow> int" where
  "blk_index k p s = cast32 (sint (p - bd_base s)) sdiv int (BLK_SIZE k)"

definition blk_addr :: "nat \<Rightarrow> int \<Rightarrow> 'z buddy_scheme \<Rightarrow> u64" where
  "blk_addr k bi s = bd_base s + of_int (cast32 (bi * int (BLK_SIZE k)))"

text \<open>The loop that splits the block \<open>p\<close> of size \<open>k\<close> down to size \<open>fk\<close>.\<close>

fun bd_split :: "nat \<Rightarrow> nat \<Rightarrow> u64 \<Rightarrow> 'z buddy_scheme \<Rightarrow> (unit, 'z buddy_scheme) outcome" where
  "bd_split fk 0 p s = Done () s"
| "bd_split fk (Suc k) p s =
    (if fk < Suc k then
       let q = p + of_nat (BLK_SIZE k) in
       bindk (upd_split bit_set (Suc k) (blk_index (Suc k) p s) s) (\<lambda>_ s.
       bindk (upd_alloc bit_set k (blk_index k p s) s) (\<lambda>_ s.
       bd_split fk k p (lst_push (free_head k s) q s)))
     else Done () s)"

definition bd_malloc :: "u64 \<Rightarrow> 'z buddy_scheme \<Rightarrow> (u64, 'z buddy_scheme) outcome" where
  "bd_malloc nbytes s =
    bindk (acquire LBuddy s) (\<lambda>_ s.
    case firstk nbytes of
      None \<Rightarrow> Loop s
    | Some fk \<Rightarrow>
       (case find (\<lambda>k. \<not> lst_empty (free_head k s) s) [fk..<nsizes s] of
          None \<Rightarrow> bindk (release LBuddy s) (\<lambda>_ s. Done 0 s)
        | Some k \<Rightarrow>
            bindk (lst_pop (free_head k s) s) (\<lambda>p s.
            bindk (upd_alloc bit_set k (blk_index k p s) s) (\<lambda>_ s.
            bindk (bd_split fk k p s) (\<lambda>_ s.
            bindk (release LBuddy s) (\<lambda>_ s. Done p s))))))"

text \<open>\<open>size(p)\<close>; the array \<open>split\<close> is read at \<open>k + 1\<close>, also for the largest \<open>k\<close>.\<close>

fun size_loop :: "nat list \<Rightarrow> u64 \<Rightarrow> 'z buddy_scheme \<Rightarrow> (nat, 'z buddy_scheme) outcome" where
  "size_loop [] p s = Done 0 s"
| "size_loop (k # ks) p s =
    bindk (get_bit sz_split (k + 1) (blk_index (k + 1) p s) s) (\<lambda>b s.
    if b then Done k s else size_loop ks p s)"

definition blk_size :: "u64 \<Rightarrow> 'z buddy_scheme \<Rightarrow> (nat, 'z buddy_scheme) outcome" where
  "blk_size p s = size_loop [0..<nsizes s] p s"

definition buddy_of :: "int \<Rightarrow> int" where
  "buddy_of bi = (if even bi then bi + 1 else bi - 1)"

text \<open>The loop of \<open>bd_free\<close>, with \<open>n\<close> sizes below \<open>MAXSIZE\<close> left; it returns the last \<open>k\<close> and \<open>p\<close>.\<close>

fun bd_free_loop :: "nat \<Rightarrow> nat \<Rightarrow> u64 \<Rightarrow> 'z buddy_scheme \<Rightarrow> (nat \<times> u64, 'z buddy_scheme) outcome" where
  "bd_free_loop 0 k p s = Done (k, p) s"
| "bd_free_loop (Suc n) k p s =
    (let bi = blk_index k p s; buddy = buddy_of bi in
     bindk (upd_alloc bit_clear k bi s) (\<lambda>_ s.
     bindk (get_bit sz_alloc k buddy s) (\<lambda>b s.
     if b then Done (k, p) s
     else
       let q = blk_addr k buddy s; s = lst_remove q s; p = (if even buddy then q else p) in
       bindk (upd_split bit_clear (k + 1) (blk_index (k + 1) p s) s) (\<lambda>_ s.
       bd_free_loop n (k + 1) p s))))"

definition bd_free :: "u64 \<Rightarrow> 'z buddy_scheme \<Rightarrow> (unit, 'z buddy_scheme) outcome" where
  "bd_free p s =
    bindk (acquire LBuddy s) (\<lambda>_ s.
    bindk (blk_size p s) (\<lambda>k s.
    bindk (bd_free_loop (MAXSIZE s - k) k p s) (\<lambda>r s.
    release LBuddy (lst_push (free_head (fst r) s) (snd r) s))))"

section \<open>Initialisation\<close>

definition blk_index_next :: "nat \<Rightarrow> u64 \<Rightarrow> 'z buddy_scheme \<Rightarrow> int" where
  "blk_index_next k p s =
    (let d = sint (p - bd_base s);
         n = cast32 (d sdiv int (BLK_SIZE k))
     in if d smod int (BLK_SIZE k) \<noteq> 0 then n + 1 else n)"

fun log2_loop :: "nat \<Rightarrow> nat \<Rightarrow> nat" where
  "log2_loop k n = (if 1 < n then log2_loop (k + 1) (n div 2) else k)"

declare log2_loop.simps [simp del]

definition log2 :: "u64 \<Rightarrow> nat" where
  "log2 n = log2_loop 0 (unat n)"

fun mark_blocks :: "nat \<Rightarrow> int list \<Rightarrow> 'z buddy_scheme \<Rightarrow> (unit, 'z buddy_scheme) outcome" where
  "mark_blocks k [] s = Done () s"
| "mark_blocks k (bi # bis) s =
    bindk (if 0 < k then upd_split bit_set k bi s else Done () s) (\<lambda>_ s.
    bindk (upd_alloc bit_set k bi s) (\<lambda>_ s. mark_blocks k bis s))"

fun mark_sizes :: "nat list \<Rightarrow> u64 \<Rightarrow> u64 \<Rightarrow> 'z buddy_scheme \<Rightarrow> (unit, 'z buddy_scheme) outcome" where
  "mark_sizes [] start stop s = Done () s"
| "mark_sizes (k # ks) start stop s =
    bindk (mark_blocks k [blk_index k start s .. blk_index_next k stop s - 1] s) (\<lambda>_ s.
    mark_sizes ks start stop s)"

definition bd_mark :: "u64 \<Rightarrow> u64 \<Rightarrow> 'z buddy_scheme \<Rightarrow> (unit, 'z buddy_scheme) outcome" where
  "bd_mark start stop s =
    (if start mod of_nat LEAF_SIZE \<noteq> 0 \<or> stop mod of_nat LEAF_SIZE \<noteq> 0 then Panic ''bd_mark'' s
     else mark_sizes [0..<nsizes s] start stop s)"

definition bd_initfree_pair :: "nat \<Rightarrow> int \<Rightarrow> 'z buddy_scheme \<Rightarrow> (int, 'z buddy_scheme) outcome" where
  "bd_initfree_pair k bi s =
    (let buddy = buddy_of bi in
     bindk (get_bit sz_alloc k bi s) (\<lambda>x s.
     bindk (get_bit sz_alloc k buddy s) (\<lambda>y s.
     if x \<noteq> y then
       Done (cast32 (int (BLK_SIZE k)))
         (lst_push (free_head k s) (if x then blk_addr k buddy s else blk_addr k bi s) s)
     else Done 0 s)))"

fun bd_initfree_loop :: "nat list \<Rightarrow> int \<Rightarrow> u64 \<Rightarrow> u64 \<Rightarrow> 'z buddy_scheme \<Rightarrow> (int, 'z buddy_scheme) outcome" where
  "bd_initfree_loop [] free' bd_left bd_right s = Done free' s"
| "bd_initfree_loop (k # ks) free' bd_left bd_right s =
    (let left = blk_index_next k bd_left s; right = blk_index k bd_right s in
     bindk (bd_initfree_pair k left s) (\<lambda>f s.
     let free' = cast32 (free' + f) in
     if right \<le> left then bd_initfree_loop ks free' bd_left bd_right s
     else
       bindk (bd_initfree_pair k right s) (\<lambda>f s.
       bd_initfree_loop ks (cast32 (free' + f)) bd_left bd_right s)))"

definition bd_initfree :: "u64 \<Rightarrow> u64 \<Rightarrow> 'z buddy_scheme \<Rightarrow> (int, 'z buddy_scheme) outcome" where
  "bd_initfree bd_left bd_right s = bd_initfree_loop [0..<MAXSIZE s] 0 bd_left bd_right s"

abbreviation heap_size :: "'z buddy_scheme \<Rightarrow> int" where
  "heap_size s \<equiv> int (BLK_SIZE (MAXSIZE s))"

definition bd_mark_data_structures :: "u64 \<Rightarrow> 'z buddy_scheme \<Rightarrow> (int, 'z buddy_scheme) outcome" where
  "bd_mark_data_structures p s =
    (let meta = cast32 (sint (p - bd_base s)) in
     bindk (printf (Some (ascii ''bd: %d meta bytes for managing %d bytes of memory'' @ [10]))
       [ArgInt (of_int meta), ArgInt (of_int (heap_size s))] s) (\<lambda>_ s.
     bindk (bd_mark (bd_base s) p s) (\<lambda>_ s. Done meta s)))"

definition round_up :: "int \<Rightarrow> int \<Rightarrow> int" where
  "round_up n sz' = ((n - 1) sdiv sz' + 1) * sz'"

definition bd_mark_unavailable :: "u64 \<Rightarrow> 'z buddy_scheme \<Rightarrow> (int, 'z buddy_scheme) outcome" where
  "bd_mark_unavailable end' s =
    (let unavailable = cast32 (heap_size s - sint (end' - bd_base s));
         unavailable = (if 0 < unavailable then cast32 (round_up unavailable (int LEAF_SIZE)) else unavailable)
     in bindk (printf (Some (ascii ''bd: 0x%x bytes unavailable'' @ [10])) [ArgInt (of_int unavailable)] s) (\<lambda>_ s.
     let bd_end = bd_base s + of_int (heap_size s - unavailable) in
     bindk (bd_mark bd_end (bd_base s + of_int (heap_size s)) s) (\<lambda>_ s. Done unavailable s)))"

fun lst_inits :: "nat list \<Rightarrow> 'z buddy_scheme \<Rightarrow> 'z buddy_scheme" where
  "lst_inits [] s = s"
| "lst_inits (k # ks) s = lst_inits ks (lst_init (free_head k s) s)"

text \<open>The bytes of a bit array for size \<open>k\<close>.\<close>

definition arr_bytes :: "nat \<Rightarrow> nat \<Rightarrow> nat" where
  "arr_bytes maxsize k = nat (round_up (int (NBLK maxsize k)) 8 sdiv 8)"

definition round16 :: "u64 \<Rightarrow> u64" where
  "round16 n = ((n - 1) div of_nat LEAF_SIZE + 1) * of_nat LEAF_SIZE"

definition bd_init :: "u64 \<Rightarrow> u64 \<Rightarrow> 'z buddy_scheme \<Rightarrow> (unit, 'z buddy_scheme) outcome" where
  "bd_init base end' s =
    (let p = round16 base;
         mem_sz = end' - p;
         n = log2 (of_int (sint mem_sz sdiv int LEAF_SIZE)) + 1;
         n = (if int (BLK_SIZE (n - 1)) < sint mem_sz then n + 1 else n);
         s = s\<lparr>bd_base := p\<rparr>
     in bindk (printf (Some (ascii ''bd: memory sz is %d bytes; allocate an size array of length %d'' @ [10]))
         [ArgInt (ucast mem_sz), ArgInt (of_nat n)] s) (\<lambda>_ s.
     let s = s\<lparr>bd_sizes := p, sizes := map (\<lambda>k. \<lparr>sz_alloc = replicate (arr_bytes (n - 1) k) 0,
           sz_split = (if k = 0 then [] else replicate (arr_bytes (n - 1) k) 0)\<rparr>) [0..<n]\<rparr>;
         s = lst_inits [0..<n] s;
         p = p + of_nat (32 * n);
         p = p + of_nat (sum_list (map (arr_bytes (n - 1)) [0..<n]));
         p = p + of_nat (sum_list (map (arr_bytes (n - 1)) [1..<n]));
         p = round16 p
     in bindk (bd_mark_data_structures p s) (\<lambda>meta s.
     bindk (bd_mark_unavailable end' s) (\<lambda>unavailable s.
     let bd_end = bd_base s + of_int (heap_size s - unavailable) in
     bindk (bd_initfree p bd_end s) (\<lambda>free' s.
     if free' \<noteq> heap_size s - meta - unavailable then
       bindk (printf (Some (ascii ''free %d %d'' @ [10]))
           [ArgInt (of_int free'), ArgInt (of_int (heap_size s - meta - unavailable))] s) (\<lambda>_ s.
       Panic ''bd_init: free mem'' s)
     else Done () s)))))"

section \<open>Printing\<close>

fun bd_print_vector_loop :: "u8 list \<Rightarrow> nat list \<Rightarrow> bool \<Rightarrow> nat \<Rightarrow> 'z buddy_scheme \<Rightarrow> (bool \<times> nat, 'z buddy_scheme) outcome" where
  "bd_print_vector_loop v [] last' lb s = Done (last', lb) s"
| "bd_print_vector_loop v (b # bs) last' lb s =
    (case bit_isset v (int b) of
       None \<Rightarrow> out_of_bounds s
     | Some x \<Rightarrow>
        if last' = x then bd_print_vector_loop v bs last' lb s
        else
          bindk (if last' then printf (Some (ascii '' [%d, %d)'')) [ArgInt (of_nat lb), ArgInt (of_nat b)] s else Done () s) (\<lambda>_ s.
          bd_print_vector_loop v bs x b s))"

definition bd_print_vector :: "u8 list \<Rightarrow> nat \<Rightarrow> 'z buddy_scheme \<Rightarrow> (unit, 'z buddy_scheme) outcome" where
  "bd_print_vector v len s =
    bindk (bd_print_vector_loop v [0..<len] True 0 s) (\<lambda>(last', lb) s.
    bindk (if lb = 0 \<or> last' then printf (Some (ascii '' [%d, %d)'')) [ArgInt (of_nat lb), ArgInt (of_nat len)] s else Done () s) (\<lambda>_ s.
    printf (Some [10]) [] s))"

fun bd_print_loop :: "nat \<Rightarrow> nat list \<Rightarrow> 'z buddy_scheme \<Rightarrow> (unit, 'z buddy_scheme) outcome" where
  "bd_print_loop fuel [] s = Done () s"
| "bd_print_loop fuel (k # ks) s =
    (let nblk = NBLK (MAXSIZE s) k in
     bindk (printf (Some (ascii ''size %d (blksz %d nblk %d): free list: ''))
       [ArgInt (of_nat k), ArgInt (of_nat (BLK_SIZE k)), ArgInt (of_nat nblk)] s) (\<lambda>_ s.
     bindk (lst_print fuel (free_head k s) s) (\<lambda>_ s.
     bindk (printf (Some (ascii ''  alloc:'')) [] s) (\<lambda>_ s.
     bindk (bd_print_vector (sz_alloc (sizes s ! k)) nblk s) (\<lambda>_ s.
     bindk (if 0 < k then
         bindk (printf (Some (ascii ''  split:'')) [] s) (\<lambda>_ s. bd_print_vector (sz_split (sizes s ! k)) nblk s)
       else Done () s) (\<lambda>_ s.
     bd_print_loop fuel ks s))))))"

definition bd_print :: "nat \<Rightarrow> 'z buddy_scheme \<Rightarrow> (unit, 'z buddy_scheme) outcome" where
  "bd_print fuel s = bd_print_loop fuel [0..<nsizes s] s"

end
