(* ===== verification/Buddytree.thy ===== *)
theory Buddytree
  imports Main
begin

text \<open>
  The binary tree of blocks that the bit arrays of the buddy allocator describe. Block \<open>i\<close> of
  size \<open>k\<close> covers the leaves from \<open>i * 2 ^ k\<close> on; its halves are the blocks \<open>2 * i\<close> and
  \<open>2 * i + 1\<close> of size \<open>k - 1\<close>. \<open>A\<close> and \<open>S\<close> stand for the arrays \<open>alloc\<close> and \<open>split\<close>: a block
  that is split is marked in both, a block in use only in \<open>A\<close>, a free block in none, and nothing is
  marked below a block that is not split.
\<close>

type_synonym bits = "nat \<Rightarrow> nat \<Rightarrow> bool"

definition upd2 :: "bits \<Rightarrow> nat \<Rightarrow> nat \<Rightarrow> bool \<Rightarrow> bits" where
  "upd2 f k i b = f(k := (f k)(i := b))"

lemma upd2_apply [simp]: "upd2 f k i b j l = (if j = k \<and> l = i then b else f j l)"
  by (simp add: upd2_def)

definition inode :: "nat \<Rightarrow> nat \<Rightarrow> nat \<Rightarrow> bool" where
  "inode M k i \<longleftrightarrow> k \<le> M \<and> i < 2 ^ (M - k)"

definition live :: "nat \<Rightarrow> bits \<Rightarrow> nat \<Rightarrow> nat \<Rightarrow> bool" where
  "live M S k i \<longleftrightarrow> k = M \<or> S (Suc k) (i div 2)"

definition shape :: "nat \<Rightarrow> bits \<Rightarrow> bits \<Rightarrow> bool" where
  "shape M A S \<longleftrightarrow> (\<forall>k i. inode M k i \<longrightarrow> (A k i \<longrightarrow> live M S k i) \<and>
    (0 < k \<longrightarrow> S k i \<longrightarrow> A k i \<and> (A (k - 1) (2 * i) \<or> A (k - 1) (2 * i + 1))))"

definition frees :: "nat \<Rightarrow> bits \<Rightarrow> bits \<Rightarrow> (nat \<times> nat) set" where
  "frees M A S = {(k, i). inode M k i \<and> live M S k i \<and> \<not> A k i}"

definition useds :: "nat \<Rightarrow> bits \<Rightarrow> bits \<Rightarrow> (nat \<times> nat) set" where
  "useds M A S = {(k, i). inode M k i \<and> A k i \<and> \<not> (0 < k \<and> S k i)}"

definition sibling :: "nat \<Rightarrow> nat" where
  "sibling i = (if even i then i + 1 else i - 1)"

lemma sibling_simps [simp]:
  "sibling (sibling i) = i" "sibling i \<noteq> i" "sibling i div 2 = i div 2" "even (sibling i) \<longleftrightarrow> odd i"
  by (auto simp: sibling_def elim!: evenE oddE)

lemma same_half: "l div 2 = i div 2 \<longleftrightarrow> l = i \<or> l = sibling i"
  by (auto simp: sibling_def elim!: evenE oddE)

lemma halves: "l div 2 = i \<longleftrightarrow> l = 2 * i \<or> l = 2 * i + 1" for i l :: nat
  by presburger

lemma inode_half: "inode M k i \<Longrightarrow> k < M \<Longrightarrow> inode M (Suc k) (i div 2)"
proof -
  assume "inode M k i" "k < M"
  then have "i < 2 * 2 ^ (M - Suc k)" by (simp add: inode_def Suc_diff_Suc flip: power_Suc)
  then show ?thesis using \<open>k < M\<close> by (simp add: inode_def)
qed

lemma inode_child: "inode M (Suc k) i \<Longrightarrow> inode M k (2 * i) \<and> inode M k (2 * i + 1)"
proof -
  assume i: "inode M (Suc k) i"
  then have "M - k = Suc (M - Suc k)" by (auto simp: inode_def)
  then show ?thesis using i by (simp add: inode_def)
qed

lemma inode_sibling: "inode M k i \<Longrightarrow> k < M \<Longrightarrow> inode M k (sibling i)"
  using inode_child [OF inode_half, of M k i] same_half [of "sibling i" "i"] halves [of "sibling i" "i div 2"] by auto

lemma shapeD:
  assumes "shape M A S" and "inode M k i"
  shows "A k i \<Longrightarrow> live M S k i" and "0 < k \<Longrightarrow> S k i \<Longrightarrow> A k i"
    and "0 < k \<Longrightarrow> S k i \<Longrightarrow> A (k - 1) (2 * i) \<or> A (k - 1) (2 * i + 1)"
  using assms by (auto simp: shape_def)

section \<open>Blocks that are not split are disjoint\<close>

lemma ancestor_split:
  assumes "shape M A S" and "inode M j l" and "live M S j l" and "j < k" and "k \<le> M"
  shows "S k (l div 2 ^ (k - j))"
  using assms(2-5)
proof (induction "k - j" arbitrary: j l)
  case (Suc n)
  then have jm: "j < M" by simp
  then have s: "S (Suc j) (l div 2)" using Suc.prems(2) by (simp add: live_def)
  have n: "inode M (Suc j) (l div 2)" by (rule inode_half [OF Suc.prems(1) jm])
  show ?case
  proof (cases "Suc j = k")
    case True
    then show ?thesis using s by auto
  next
    case False
    have "live M S (Suc j) (l div 2)" using shapeD [OF assms(1) n] s by simp
    then have "S k (l div 2 div 2 ^ (k - Suc j))" using Suc False n by (intro Suc.hyps) simp_all
    moreover have "k - j = Suc (k - Suc j)" using Suc.prems(3) by simp
    ultimately show ?thesis by (simp add: div_mult2_eq)
  qed
qed simp

definition brange :: "nat \<Rightarrow> nat \<Rightarrow> nat set" where
  "brange k i = {i * 2 ^ k ..< Suc i * 2 ^ k}"

lemma brange_start: "i * 2 ^ k \<in> brange k i"
  by (simp add: brange_def)

lemma brange_iff: "x \<in> brange k i \<longleftrightarrow> x div 2 ^ k = i"
proof
  assume "x \<in> brange k i"
  then show "x div 2 ^ k = i" by (intro div_nat_eqI) (simp_all add: brange_def mult.commute)
next
  assume "x div 2 ^ k = i"
  then show "x \<in> brange k i"
    using div_times_less_eq_dividend [of x "2 ^ k"] dividend_less_div_times [of "2 ^ k" x] by (simp add: brange_def)
qed

definition unsplit :: "nat \<Rightarrow> bits \<Rightarrow> bits \<Rightarrow> nat \<Rightarrow> nat \<Rightarrow> bool" where
  "unsplit M A S k i \<longleftrightarrow> inode M k i \<and> live M S k i \<and> \<not> (0 < k \<and> S k i)"

lemma unsplit_iff:
  assumes "shape M A S"
  shows "unsplit M A S k i \<longleftrightarrow> (k, i) \<in> frees M A S \<union> useds M A S"
  using shapeD [OF assms, of k i] by (auto simp: unsplit_def frees_def useds_def)

lemma unsplitI:
  assumes "shape M A S"
  shows "(k, i) \<in> useds M A S \<Longrightarrow> unsplit M A S k i" and "(k, i) \<in> frees M A S \<Longrightarrow> unsplit M A S k i"
  using unsplit_iff [OF assms, of k i] by auto

lemma unsplit_disjoint_le:
  assumes sh: "shape M A S" and u: "unsplit M A S k i" and v: "unsplit M A S j l" and "j \<le> k" and ne: "(k, i) \<noteq> (j, l)"
  shows "brange k i \<inter> brange j l = {}"
proof (cases "j = k")
  case True
  then show ?thesis using ne by (auto simp: brange_iff)
next
  case False
  then have jk: "j < k" using assms(4) by simp
  have "S k (l div 2 ^ (k - j))"
    using v u by (intro ancestor_split [OF sh _ _ jk]) (auto simp: unsplit_def inode_def)
  then have ne: "l div 2 ^ (k - j) \<noteq> i" using u jk by (auto simp: unsplit_def)
  have "x div 2 ^ k = x div 2 ^ j div 2 ^ (k - j)" for x :: nat
    using jk by (simp add: div_mult2_eq [symmetric] flip: power_add)
  then show ?thesis using ne by (auto simp: brange_iff)
qed

lemma unsplit_disjoint:
  assumes "shape M A S" and "unsplit M A S k i" and "unsplit M A S j l" and "(k, i) \<noteq> (j, l)"
  shows "brange k i \<inter> brange j l = {}"
proof (cases "j \<le> k")
  case True
  then show ?thesis using unsplit_disjoint_le [OF assms(1-3) _ assms(4)] by simp
next
  case False
  then show ?thesis using unsplit_disjoint_le [OF assms(1,3,2)] assms(4) by fastforce
qed

section \<open>Changes of the tree\<close>

lemma live_upd:
  "live M (upd2 S (Suc k) i b) j l \<longleftrightarrow> (if j = k \<and> l div 2 = i \<and> k \<noteq> M then b else live M S j l)"
  by (auto simp: live_def)

lemma take_block:
  assumes sh: "shape M A S" and f: "(k, i) \<in> frees M A S"
  shows "shape M (upd2 A k i True) S" and "frees M (upd2 A k i True) S = frees M A S - {(k, i)}"
    and "useds M (upd2 A k i True) S = insert (k, i) (useds M A S)"
proof -
  have i: "inode M k i" "live M S k i" "\<not> A k i" using f by (auto simp: frees_def)
  show "shape M (upd2 A k i True) S" using sh i(2) by (auto simp: shape_def)
  show "frees M (upd2 A k i True) S = frees M A S - {(k, i)}" by (auto simp: frees_def)
  show "useds M (upd2 A k i True) S = insert (k, i) (useds M A S)"
    using i shapeD(2) [OF sh i(1)] by (auto simp: useds_def)
qed

lemma split_block:
  assumes sh: "shape M A S" and u: "(Suc k, i) \<in> useds M A S"
  defines "A' \<equiv> upd2 A k (2 * i) True" and "S' \<equiv> upd2 S (Suc k) i True"
  shows "shape M A' S'" and "frees M A' S' = insert (k, 2 * i + 1) (frees M A S)"
    and "useds M A' S' = insert (k, 2 * i) (useds M A S - {(Suc k, i)})"
    and "(k, 2 * i + 1) \<notin> frees M A S"
proof -
  have i: "inode M (Suc k) i" "A (Suc k) i" "\<not> S (Suc k) i" using u by (auto simp: useds_def)
  have km: "k < M" "k \<noteq> M" using i(1) by (auto simp: inode_def)
  have c: "inode M k (2 * i)" "inode M k (2 * i + 1)" using inode_child [OF i(1)] by auto
  have nl: "\<not> live M S k (2 * i)" "\<not> live M S k (2 * i + 1)" using i(3) km by (auto simp: live_def)
  have na: "\<not> A k (2 * i)" "\<not> A k (2 * i + 1)" using shapeD(1) [OF sh c(1)] shapeD(1) [OF sh c(2)] nl by auto
  have ns: "0 < k \<Longrightarrow> \<not> S k (2 * i)" using shapeD(2) [OF sh c(1)] na by blast
  have live': "live M S' j l \<longleftrightarrow> (j, l) \<in> {(k, 2 * i), (k, 2 * i + 1)} \<or> live M S j l" for j l
    using km by (auto simp: S'_def live_upd halves)
  show "shape M A' S'"
    unfolding shape_def
  proof (intro allI impI)
    fix j l
    assume n: "inode M j l"
    show "(A' j l \<longrightarrow> live M S' j l) \<and> (0 < j \<longrightarrow> S' j l \<longrightarrow> A' j l \<and> (A' (j - 1) (2 * l) \<or> A' (j - 1) (2 * l + 1)))"
      using shapeD [OF sh n] i(2) ns unfolding live' by (auto simp: A'_def S'_def)
  qed
  show "frees M A' S' = insert (k, 2 * i + 1) (frees M A S)"
    using c na nl unfolding frees_def live' by (auto simp: A'_def)
  show "useds M A' S' = insert (k, 2 * i) (useds M A S - {(Suc k, i)})"
    using c ns i by (auto simp: useds_def A'_def S'_def)
  show "(k, 2 * i + 1) \<notin> frees M A S" using nl by (simp add: frees_def)
qed

lemma release_block:
  assumes sh: "shape M A S" and u: "(k, i) \<in> useds M A S" and k: "k < M" and b: "A k (sibling i)"
  shows "shape M (upd2 A k i False) S" and "frees M (upd2 A k i False) S = insert (k, i) (frees M A S)"
    and "useds M (upd2 A k i False) S = useds M A S - {(k, i)}" and "(k, i) \<notin> frees M A S"
proof -
  have i: "inode M k i" "A k i" "\<not> (0 < k \<and> S k i)" using u by (auto simp: useds_def)
  have l: "live M S k i" using shapeD(1) [OF sh i(1,2)] .
  show "shape M (upd2 A k i False) S"
    unfolding shape_def
  proof (intro allI impI)
    fix j l
    assume n: "inode M j l"
    have "2 * l = i \<Longrightarrow> sibling i = 2 * l + 1" "2 * l + 1 = i \<Longrightarrow> sibling i = 2 * l" by (auto simp: sibling_def)
    then show "(upd2 A k i False j l \<longrightarrow> live M S j l) \<and> (0 < j \<longrightarrow> S j l \<longrightarrow>
        upd2 A k i False j l \<and> (upd2 A k i False (j - 1) (2 * l) \<or> upd2 A k i False (j - 1) (2 * l + 1)))"
      using shapeD [OF sh n] i(3) b by auto
  qed
  show "frees M (upd2 A k i False) S = insert (k, i) (frees M A S)" using i l by (auto simp: frees_def)
  show "useds M (upd2 A k i False) S = useds M A S - {(k, i)}" by (auto simp: useds_def)
  show "(k, i) \<notin> frees M A S" using i by (simp add: frees_def)
qed

lemma merge_block:
  assumes sh: "shape M A S" and u: "(k, i) \<in> useds M A S" and k: "k < M" and b: "\<not> A k (sibling i)"
  defines "A' \<equiv> upd2 A k i False" and "S' \<equiv> upd2 S (Suc k) (i div 2) False"
  shows "shape M A' S'" and "frees M A' S' = frees M A S - {(k, sibling i)}" and "(k, sibling i) \<in> frees M A S"
    and "useds M A' S' = insert (Suc k, i div 2) (useds M A S - {(k, i)})"
proof -
  have i: "inode M k i" "A k i" "\<not> (0 < k \<and> S k i)" using u by (auto simp: useds_def)
  have s: "S (Suc k) (i div 2)" using shapeD(1) [OF sh i(1,2)] k by (simp add: live_def)
  have h: "inode M (Suc k) (i div 2)" "inode M k (sibling i)" using inode_half inode_sibling i(1) k by blast+
  have ah: "A (Suc k) (i div 2)" using shapeD(2) [OF sh h(1)] s by simp
  have sb: "0 < k \<Longrightarrow> \<not> S k (sibling i)" using shapeD(2) [OF sh h(2)] b by blast
  have live': "live M S' j l \<longleftrightarrow> (j, l) \<notin> {(k, i), (k, sibling i)} \<and> live M S j l" for j l
    using k by (auto simp: S'_def live_upd same_half)
  show "(k, sibling i) \<in> frees M A S" using h(2) s b k by (simp add: frees_def live_def)
  show "shape M A' S'"
    unfolding shape_def
  proof (intro allI impI)
    fix j l
    assume n: "inode M j l"
    have A': "A' j' l' \<longleftrightarrow> A j' l' \<and> (j', l') \<noteq> (k, i)" for j' l' by (auto simp: A'_def)
    have "A' j l \<longrightarrow> live M S' j l" using shapeD(1) [OF sh n] b unfolding live' A' by blast
    moreover have "A' j l \<and> (A' (j - 1) (2 * l) \<or> A' (j - 1) (2 * l + 1))" if j: "0 < j" and S': "S' j l"
    proof -
      have S: "S j l" "(j, l) \<noteq> (Suc k, i div 2)" using S' by (auto simp: S'_def split: if_splits)
      have "(j - 1, 2 * l) \<noteq> (k, i)" "(j - 1, 2 * l + 1) \<noteq> (k, i)" using S(2) j by auto
      moreover have "(j, l) \<noteq> (k, i)" using i(3) j S(1) by blast
      ultimately show ?thesis using shapeD(2,3) [OF sh n j S(1)] unfolding A' by blast
    qed
    ultimately show "(A' j l \<longrightarrow> live M S' j l) \<and> (0 < j \<longrightarrow> S' j l \<longrightarrow> A' j l \<and> (A' (j - 1) (2 * l) \<or> A' (j - 1) (2 * l + 1)))"
      by blast
  qed
  show "frees M A' S' = frees M A S - {(k, sibling i)}"
    using i(2) b unfolding frees_def live' by (auto simp: A'_def)
  show "useds M A' S' = insert (Suc k, i div 2) (useds M A S - {(k, i)})"
    using h ah i by (auto simp: useds_def A'_def S'_def)
qed

end
