(* ===== verification/Buddyheap.thy ===== *)
theory Buddyheap
  imports Buddy Buddytree
begin

text \<open>
  Correctness of the buddy allocator: the bit arrays and the free lists together represent a tree of
  blocks; \<open>bd_malloc\<close> turns a free block into a block in use, \<open>bd_free\<close> takes it back and merges
  it with its free buddies.
\<close>

section \<open>Bit arrays\<close>

text \<open>What the allocator needs of a bit array.\<close>

locale bit_array =
  fixes isset :: "'v \<Rightarrow> int \<Rightarrow> bool option"
    and setb clearb :: "'v \<Rightarrow> int \<Rightarrow> 'v option"
  assumes set_defined: "isset v i \<noteq> None \<Longrightarrow> setb v i \<noteq> None"
    and clear_defined: "isset v i \<noteq> None \<Longrightarrow> clearb v i \<noteq> None"
    and isset_set: "setb v i = Some w \<Longrightarrow> isset w j = (if j = i then Some True else isset v j)"
    and isset_clear: "clearb v i = Some w \<Longrightarrow> isset w j = (if j = i then Some False else isset v j)"
begin

definition defined_to :: "'v \<Rightarrow> nat \<Rightarrow> bool" where
  "defined_to v n \<longleftrightarrow> (\<forall>i<n. isset v (int i) \<noteq> None)"

lemma set_keeps: "setb v i = Some w \<Longrightarrow> defined_to v n \<Longrightarrow> defined_to w n"
  by (auto simp: defined_to_def isset_set)

lemma clear_keeps: "clearb v i = Some w \<Longrightarrow> defined_to v n \<Longrightarrow> defined_to w n"
  by (auto simp: defined_to_def isset_clear)

lemma set_total: "defined_to v n \<Longrightarrow> i < n \<Longrightarrow> \<exists>w. setb v (int i) = Some w"
  using set_defined by (auto simp: defined_to_def)

lemma clear_total: "defined_to v n \<Longrightarrow> i < n \<Longrightarrow> \<exists>w. clearb v (int i) = Some w"
  using clear_defined by (auto simp: defined_to_def)

end

lemma mask_test: "(b :: u8) AND push_bit n 1 = push_bit n 1 \<longleftrightarrow> n < 8 \<longrightarrow> bit b n"
proof
  assume h: "b AND push_bit n 1 = push_bit n 1"
  show "n < 8 \<longrightarrow> bit b n"
  proof
    assume "n < 8"
    then show "bit b n" using arg_cong [OF h, of "\<lambda>w. bit w n"] by (simp add: bit_simps)
  qed
next
  assume "n < 8 \<longrightarrow> bit b n"
  then show "b AND push_bit n 1 = push_bit n 1" by (intro bit_word_eqI) (auto simp: bit_simps)
qed

lemma bit_isset_eq:
  "bit_isset v i = (if 0 \<le> i \<and> nat i div 8 < length v then Some (bit (v ! (nat i div 8)) (nat i mod 8)) else None)"
  unfolding bit_isset_def bit_byte_def Let_def mask_test by simp

lemma same_bit: "0 \<le> i \<Longrightarrow> 0 \<le> j \<Longrightarrow> nat i div 8 = nat j div 8 \<Longrightarrow> nat i mod 8 = nat j mod 8 \<Longrightarrow> i = j"
  by (metis div_mult_mod_eq eq_nat_nat_iff)

interpretation ba: bit_array bit_isset bit_set bit_clear
proof
  fix v w :: "u8 list" and i j :: int
  show "bit_isset v i \<noteq> None \<Longrightarrow> bit_set v i \<noteq> None" "bit_isset v i \<noteq> None \<Longrightarrow> bit_clear v i \<noteq> None"
    by (simp_all add: bit_isset_def bit_set_def bit_clear_def)
  show "bit_isset w j = (if j = i then Some True else bit_isset v j)" if "bit_set v i = Some w"
    using that same_bit [of i j]
    by (auto simp: bit_isset_eq bit_set_def bit_byte_def Let_def bit_simps nth_list_update split: if_splits)
  show "bit_isset w j = (if j = i then Some False else bit_isset v j)" if "bit_clear v i = Some w"
    using that same_bit [of i j]
    by (auto simp: bit_isset_eq bit_clear_def bit_byte_def Let_def bit_simps nth_list_update split: if_splits)
qed

section \<open>Families of lists\<close>

definition dlls :: "('n \<Rightarrow> 'n) \<Rightarrow> ('n \<Rightarrow> 'n) \<Rightarrow> (nat \<Rightarrow> 'n) \<Rightarrow> (nat \<Rightarrow> 'n list) \<Rightarrow> nat \<Rightarrow> bool" where
  "dlls nxt prv h ls n \<longleftrightarrow> (\<forall>k<n. dll nxt prv (h k) (ls k)) \<and>
    (\<forall>k<n. \<forall>j<n. k \<noteq> j \<longrightarrow> set (h k # ls k) \<inter> set (h j # ls j) = {})"

lemma dlls_insert:
  assumes d: "dlls nxt prv h ls n" and k: "k < n" and b: "\<forall>j<n. b \<notin> set (h j # ls j)"
  shows "dlls (nxt(b := nxt (h k), h k := b)) (prv(b := h k, nxt (h k) := b)) h (ls(k := b # ls k)) n"
  unfolding dlls_def
proof (intro conjI allI impI)
  have dk: "dll nxt prv (h k) (ls k)" using d k by (simp add: dlls_def)
  then have nk: "nxt (h k) \<in> set (h k # ls k)" by (cases "ls k") (auto simp: dll_def)
  fix j
  assume j: "j < n"
  show "dll (nxt(b := nxt (h k), h k := b)) (prv(b := h k, nxt (h k) := b)) (h j) ((ls(k := b # ls k)) j)"
  proof (cases "j = k")
    case True
    then show ?thesis using dll_insert [OF dk] b k by auto
  next
    case False
    then have dis: "set (h k # ls k) \<inter> set (h j # ls j) = {}" using d j k by (auto simp: dlls_def)
    have "dll nxt prv (h j) (ls j)" using d j by (simp add: dlls_def)
    moreover have "x \<noteq> b" "x \<noteq> h k" "x \<noteq> nxt (h k)" if "x \<in> set (h j # ls j)" for x
      using that dis b j nk by auto
    ultimately show ?thesis using False by (subst dll_cong [symmetric, of _ _ nxt _ prv]) auto
  qed
  fix i
  assume "i < n" "j \<noteq> i"
  then show "set (h j # (ls(k := b # ls k)) j) \<inter> set (h i # (ls(k := b # ls k)) i) = {}"
    using d j b by (auto simp: dlls_def)
qed

lemma dlls_remove:
  assumes d: "dlls nxt prv h ls n" and k: "k < n" and l: "ls k = xs @ b # ys"
  shows "dlls (nxt(prv b := nxt b)) (prv(nxt b := prv b)) h (ls(k := xs @ ys)) n"
  unfolding dlls_def
proof (intro conjI allI impI)
  have dk: "dll nxt prv (h k) (xs @ b # ys)" using d k l by (metis dlls_def)
  note lk = dll_links [OF dk]
  have nk: "nxt b \<in> set (h k # ls k)" "prv b \<in> set (h k # ls k)"
    unfolding lk l by (cases ys; simp) (cases xs rule: rev_cases; simp)
  fix j
  assume j: "j < n"
  show "dll (nxt(prv b := nxt b)) (prv(nxt b := prv b)) (h j) ((ls(k := xs @ ys)) j)"
  proof (cases "j = k")
    case True
    then show ?thesis using dll_remove [OF dk] by simp
  next
    case False
    then have dis: "set (h k # ls k) \<inter> set (h j # ls j) = {}" using d j k by (auto simp: dlls_def)
    have "dll nxt prv (h j) (ls j)" using d j by (simp add: dlls_def)
    moreover have "x \<noteq> prv b" "x \<noteq> nxt b" if "x \<in> set (h j # ls j)" for x using that dis nk by auto
    ultimately show ?thesis using False by (subst dll_cong [symmetric, of _ _ nxt _ prv]) auto
  qed
  fix i
  assume "i < n" "j \<noteq> i"
  then have "set (h j # ls j) \<inter> set (h i # ls i) = {}" using d j by (auto simp: dlls_def)
  moreover have "set (xs @ ys) \<subseteq> set (ls k)" using l by auto
  ultimately show "set (h j # (ls(k := xs @ ys)) j) \<inter> set (h i # (ls(k := xs @ ys)) i) = {}" by auto
qed

lemma lst_push_links [simp]:
  "lnext (lst_push h b s) = (lnext s)(b := lnext s h, h := b)"
  "h \<noteq> b \<Longrightarrow> lprev (lst_push h b s) = (lprev s)(b := h, lnext s h := b)"
  by (auto simp: lst_push_def Let_def)

lemma lst_remove_links [simp]:
  "lnext (lst_remove b s) = (lnext s)(lprev s b := lnext s b)"
  "lprev (lst_remove b s) = (lprev s)(lnext s b := lprev s b)"
  by (auto simp: lst_remove_def Let_def)

section \<open>Addresses\<close>

text \<open>The address of leaf \<open>x\<close>.\<close>

definition leaf_addr :: "'z buddy_scheme \<Rightarrow> nat \<Rightarrow> u64" where
  "leaf_addr s x = bd_base s + of_nat (16 * x)"

lemma sint_small64: "n < 2 ^ 63 \<Longrightarrow> sint (of_nat n :: u64) = int n"
proof -
  assume n: "n < 2 ^ 63"
  then have "uint (of_nat n :: u64) = int n" by (simp add: unsigned_of_nat take_bit_nat_eq_self)
  moreover have "signed_take_bit 63 (int n) = int n"
    using n by (intro signed_take_bit_int_eq_self) (simp_all add: order_trans [of _ 0])
  ultimately show ?thesis by (simp add: sint_uint)
qed

lemma cast32_small: "n < 2 ^ 31 \<Longrightarrow> cast32 (int n) = int n"
proof -
  assume n: "n < 2 ^ 31"
  then have "uint (of_int (int n) :: u32) = int n" by (simp add: unsigned_of_nat take_bit_nat_eq_self)
  moreover have "signed_take_bit 31 (int n) = int n"
    using n by (intro signed_take_bit_int_eq_self) (simp_all add: order_trans [of _ 0])
  ultimately show ?thesis by (simp add: cast32_def sint_uint)
qed

lemma leaf_addr_inj: "x < 2 ^ 27 \<Longrightarrow> y < 2 ^ 27 \<Longrightarrow> leaf_addr s x = leaf_addr s y \<longleftrightarrow> x = y"
proof -
  assume x: "x < 2 ^ 27" and y: "y < 2 ^ 27"
  have "unat (of_nat (16 * z) :: u64) = 16 * z" if "z < 2 ^ 27" for z
    using that by (simp add: unat_of_nat take_bit_nat_eq_self del: of_nat_mult)
  then have "(of_nat (16 * x) :: u64) = of_nat (16 * y) \<longleftrightarrow> 16 * x = 16 * y" using x y by (metis word_unat_eq_iff)
  then show ?thesis by (simp only: leaf_addr_def) simp
qed

lemma sdiv_nat: "int a sdiv int b = int (a div b)"
  by (simp add: signed_divide_int_def zdiv_int sgn_if)

lemma blk_index_leaf:
  assumes "x < 2 ^ 27"
  shows "blk_index k (leaf_addr s x) s = int (x div 2 ^ k)"
proof -
  have "cast32 (sint (leaf_addr s x - bd_base s)) = int (16 * x)"
    using assms by (simp add: leaf_addr_def sint_small64 cast32_small del: of_nat_mult)
  moreover have "16 * x div (2 ^ k * 16) = x div 2 ^ k" by (simp add: mult.commute)
  ultimately show ?thesis by (simp only: blk_index_def BLK_SIZE_def LEAF_SIZE_def sdiv_nat)
qed

lemma blk_addr_leaf:
  assumes "i * 2 ^ k < 2 ^ 27"
  shows "blk_addr k (int i) s = leaf_addr s (i * 2 ^ k)"
proof -
  have e: "int i * int (BLK_SIZE k) = int (16 * (i * 2 ^ k))" by (simp add: BLK_SIZE_def LEAF_SIZE_def)
  have "cast32 (int (16 * (i * 2 ^ k))) = int (16 * (i * 2 ^ k))" using assms by (intro cast32_small) simp
  then show ?thesis unfolding blk_addr_def e leaf_addr_def by simp
qed

lemma leaf_addr_add: "leaf_addr s x + of_nat (BLK_SIZE k) = leaf_addr s (x + 2 ^ k)"
  by (simp add: leaf_addr_def BLK_SIZE_def LEAF_SIZE_def)

section \<open>The state of the allocator\<close>

definition abit :: "'z buddy_scheme \<Rightarrow> bits" where
  "abit s k i \<longleftrightarrow> bit_isset (sz_alloc (sizes s ! k)) (int i) = Some True"

definition sbit :: "'z buddy_scheme \<Rightarrow> bits" where
  "sbit s k i \<longleftrightarrow> bit_isset (sz_split (sizes s ! k)) (int i) = Some True"

definition bd_arrays :: "'z buddy_scheme \<Rightarrow> nat \<Rightarrow> bool" where
  "bd_arrays s M \<longleftrightarrow> nsizes s = Suc M \<and> M \<le> 26 \<and> bd_sizes s = bd_base s \<and>
    (\<forall>k\<le>M. ba.defined_to (sz_alloc (sizes s ! k)) (2 ^ (M - k)) \<and>
      (0 < k \<longrightarrow> ba.defined_to (sz_split (sizes s ! k)) (2 ^ (M - k))))"

text \<open>\<open>F\<close> are the blocks on the free lists: \<open>(k, i)\<close> is block \<open>i\<close> of size \<open>k\<close>.\<close>

definition bd_lists :: "'z buddy_scheme \<Rightarrow> nat \<Rightarrow> (nat \<times> nat) set \<Rightarrow> bool" where
  "bd_lists s M F \<longleftrightarrow> (\<exists>ls. dlls (lnext s) (lprev s) (\<lambda>k. leaf_addr s (2 * k)) ls (Suc M) \<and>
    (\<forall>k\<le>M. set (ls k) = (\<lambda>i. leaf_addr s (i * 2 ^ k)) ` {i. (k, i) \<in> F}))"

definition bd_state :: "'z buddy_scheme \<Rightarrow> nat \<Rightarrow> bits \<Rightarrow> bits \<Rightarrow> (nat \<times> nat) set \<Rightarrow> bool" where
  "bd_state s M A S F \<longleftrightarrow> bd_arrays s M \<and> abit s = A \<and> sbit s = S \<and>
    (\<forall>x\<in>F. inode M (fst x) (snd x)) \<and> bd_lists s M F"

text \<open>The rest of the state does not change.\<close>

definition bd_frame :: "'z buddy_scheme \<Rightarrow> 'z buddy_scheme \<Rightarrow> bool" where
  "bd_frame s s' \<longleftrightarrow> (\<exists>n p z. s' = s\<lparr>lnext := n, lprev := p, sizes := z\<rparr>)"

lemma bd_frame_refl: "bd_frame s s"
  unfolding bd_frame_def by (intro exI [of _ "lnext s"] exI [of _ "lprev s"] exI [of _ "sizes s"]) simp

lemma bd_frame_trans: "bd_frame s s' \<Longrightarrow> bd_frame s' s'' \<Longrightarrow> bd_frame s s''"
  unfolding bd_frame_def by (elim exE) (simp, blast)

lemma bd_frame_base: "bd_frame s s' \<Longrightarrow> leaf_addr s' = leaf_addr s \<and> bd_base s' = bd_base s \<and> bd_sizes s' = bd_sizes s \<and> held s' = held s"
  unfolding bd_frame_def by (elim exE) (auto simp: leaf_addr_def fun_eq_iff)

lemma inode_leaf:
  assumes "inode M k i"
  shows "Suc i * 2 ^ k \<le> 2 ^ M"
proof -
  have "Suc i * 2 ^ k \<le> 2 ^ (M - k) * 2 ^ k" using assms by (intro mult_right_mono) (simp_all add: inode_def)
  then show ?thesis using assms by (simp add: inode_def flip: power_add)
qed

lemma bd_state_size:
  assumes "bd_state s M A S F"
  shows "M \<le> 26" and "k \<le> M \<longleftrightarrow> k < nsizes s" and "free_head k s = leaf_addr s (2 * k)"
    and "(x :: nat) \<le> 2 ^ M \<Longrightarrow> x < 2 ^ 27" and "inode M k i \<Longrightarrow> i * 2 ^ k < 2 ^ 27"
proof -
  show M: "M \<le> 26" "k \<le> M \<longleftrightarrow> k < nsizes s" using assms by (auto simp: bd_state_def bd_arrays_def)
  show "free_head k s = leaf_addr s (2 * k)"
    using assms by (simp add: bd_state_def bd_arrays_def free_head_def leaf_addr_def)
  have "(2 :: nat) ^ M \<le> 2 ^ 26" using M(1) by (intro power_increasing) simp_all
  then show x: "x < 2 ^ 27" if "x \<le> 2 ^ M" for x :: nat using le_less_trans [OF that, of "2 ^ 27"] by simp
  show "i * 2 ^ k < 2 ^ 27" if "inode M k i" using x [of "i * 2 ^ k"] inode_leaf [OF that] by simp
qed

lemma get_alloc:
  assumes "bd_state s M A S F" and "inode M k i"
  shows "get_bit sz_alloc k (int i) s = Done (A k i) s"
proof -
  have "k < nsizes s" "\<exists>b. bit_isset (sz_alloc (sizes s ! k)) (int i) = Some b" "A k i \<longleftrightarrow> abit s k i"
    using assms by (auto simp: bd_state_def bd_arrays_def inode_def ba.defined_to_def)
  then show ?thesis by (auto simp: get_bit_def abit_def)
qed

lemma get_split:
  assumes "bd_state s M A S F" and "inode M k i" and "0 < k"
  shows "get_bit sz_split k (int i) s = Done (S k i) s"
proof -
  have "k < nsizes s" "\<exists>b. bit_isset (sz_split (sizes s ! k)) (int i) = Some b" "S k i \<longleftrightarrow> sbit s k i"
    using assms by (auto simp: bd_state_def bd_arrays_def inode_def ba.defined_to_def)
  then show ?thesis by (auto simp: get_bit_def sbit_def)
qed

lemma bd_lists_sizes [simp]: "bd_lists (s\<lparr>sizes := z\<rparr>) M F = bd_lists s M F"
  by (simp add: bd_lists_def leaf_addr_def)

lemma bd_frame_sizes: "bd_frame s (s\<lparr>sizes := z\<rparr>)"
  unfolding bd_frame_def by (intro exI [of _ "lnext s"] exI [of _ "lprev s"] exI [of _ z]) simp

text \<open>Writing one bit of an array; \<open>f\<close> is \<open>bit_set\<close> or \<open>bit_clear\<close>.\<close>

definition writes :: "(u8 list \<Rightarrow> int \<Rightarrow> u8 list option) \<Rightarrow> bool \<Rightarrow> bool" where
  "writes f b \<longleftrightarrow> (\<forall>v n i. ba.defined_to v n \<longrightarrow> i < n \<longrightarrow> (\<exists>w. f v (int i) = Some w)) \<and>
    (\<forall>v i w j. f v i = Some w \<longrightarrow> bit_isset w j = (if j = i then Some b else bit_isset v j)) \<and>
    (\<forall>v i w n. f v i = Some w \<longrightarrow> ba.defined_to v n \<longrightarrow> ba.defined_to w n)"

lemma writes_bits: "writes bit_set True" "writes bit_clear False"
  unfolding writes_def
  using ba.set_total ba.clear_total ba.isset_set ba.isset_clear ba.set_keeps ba.clear_keeps by blast+

lemma upd_alloc_state:
  assumes st: "bd_state s M A S F" and n: "inode M k i" and f: "writes f b"
  shows "\<exists>z. upd_alloc f k (int i) s = Done () (s\<lparr>sizes := z\<rparr>) \<and> bd_state (s\<lparr>sizes := z\<rparr>) M (upd2 A k i b) S F"
proof -
  have k: "k < nsizes s" "ba.defined_to (sz_alloc (sizes s ! k)) (2 ^ (M - k))" "i < 2 ^ (M - k)"
    using st n by (auto simp: bd_state_def bd_arrays_def inode_def)
  then obtain w where w: "f (sz_alloc (sizes s ! k)) (int i) = Some w" using f unfolding writes_def by blast
  let ?z = "(sizes s)[k := (sizes s ! k)\<lparr>sz_alloc := w\<rparr>]"
  have iw: "bit_isset w j = (if j = int i then Some b else bit_isset (sz_alloc (sizes s ! k)) j)" for j
    using f w by (auto simp: writes_def)
  have dw: "ba.defined_to w n" if "ba.defined_to (sz_alloc (sizes s ! k)) n" for n
    using f w that unfolding writes_def by blast
  have "abit (s\<lparr>sizes := ?z\<rparr>) = upd2 A k i b"
    using st k(1) by (auto simp: fun_eq_iff abit_def iw nth_list_update bd_state_def)
  moreover have "sbit (s\<lparr>sizes := ?z\<rparr>) = S"
    using st k(1) by (auto simp: fun_eq_iff sbit_def nth_list_update bd_state_def)
  moreover have "bd_arrays (s\<lparr>sizes := ?z\<rparr>) M"
    using st k(1) dw by (auto simp: bd_arrays_def nth_list_update bd_state_def)
  ultimately have "bd_state (s\<lparr>sizes := ?z\<rparr>) M (upd2 A k i b) S F" using st by (simp add: bd_state_def)
  moreover have "upd_alloc f k (int i) s = Done () (s\<lparr>sizes := ?z\<rparr>)" using k(1) w by (simp add: upd_alloc_def)
  ultimately show ?thesis by blast
qed

lemma upd_split_state:
  assumes st: "bd_state s M A S F" and n: "inode M k i" and f: "writes f b" and k0: "0 < k"
  shows "\<exists>z. upd_split f k (int i) s = Done () (s\<lparr>sizes := z\<rparr>) \<and> bd_state (s\<lparr>sizes := z\<rparr>) M A (upd2 S k i b) F"
proof -
  have k: "k < nsizes s" "ba.defined_to (sz_split (sizes s ! k)) (2 ^ (M - k))" "i < 2 ^ (M - k)"
    using st n k0 by (auto simp: bd_state_def bd_arrays_def inode_def)
  then obtain w where w: "f (sz_split (sizes s ! k)) (int i) = Some w" using f unfolding writes_def by blast
  let ?z = "(sizes s)[k := (sizes s ! k)\<lparr>sz_split := w\<rparr>]"
  have iw: "bit_isset w j = (if j = int i then Some b else bit_isset (sz_split (sizes s ! k)) j)" for j
    using f w by (auto simp: writes_def)
  have dw: "ba.defined_to w n" if "ba.defined_to (sz_split (sizes s ! k)) n" for n
    using f w that unfolding writes_def by blast
  have "sbit (s\<lparr>sizes := ?z\<rparr>) = upd2 S k i b"
    using st k(1) by (auto simp: fun_eq_iff sbit_def iw nth_list_update bd_state_def)
  moreover have "abit (s\<lparr>sizes := ?z\<rparr>) = A"
    using st k(1) by (auto simp: fun_eq_iff abit_def nth_list_update bd_state_def)
  moreover have "bd_arrays (s\<lparr>sizes := ?z\<rparr>) M"
    using st k(1) dw by (auto simp: bd_arrays_def nth_list_update bd_state_def)
  ultimately have "bd_state (s\<lparr>sizes := ?z\<rparr>) M A (upd2 S k i b) F" using st by (simp add: bd_state_def)
  moreover have "upd_split f k (int i) s = Done () (s\<lparr>sizes := ?z\<rparr>)" using k(1) w by (simp add: upd_split_def)
  ultimately show ?thesis by blast
qed

lemma push_state:
  assumes st: "bd_state s M A S F" and n: "inode M k i" and heads: "2 * Suc M \<le> i * 2 ^ k"
    and new: "\<forall>(j, l)\<in>F. l * 2 ^ j \<noteq> i * 2 ^ k"
  shows "bd_state (lst_push (free_head k s) (leaf_addr s (i * 2 ^ k)) s) M A S (insert (k, i) F)"
    and "bd_frame s (lst_push (free_head k s) (leaf_addr s (i * 2 ^ k)) s)"
proof -
  let ?h = "\<lambda>k. leaf_addr s (2 * k)" and ?b = "leaf_addr s (i * 2 ^ k)"
  let ?s = "lst_push (?h k) ?b s"
  note size = bd_state_size [OF st]
  obtain ls where d: "dlls (lnext s) (lprev s) ?h ls (Suc M)"
      and ls: "\<forall>k\<le>M. set (ls k) = (\<lambda>i. leaf_addr s (i * 2 ^ k)) ` {i. (k, i) \<in> F}"
    using st by (auto simp: bd_state_def bd_lists_def)
  have k: "k \<le> M" using n by (simp add: inode_def)
  have b27: "i * 2 ^ k < 2 ^ 27" by (rule size(5) [OF n])
  have nh: "?b \<noteq> ?h j" if "j < Suc M" for j
    using that heads b27 by (subst leaf_addr_inj) simp_all
  have nl: "?b \<notin> set (ls j)" if j: "j < Suc M" for j
  proof
    assume "?b \<in> set (ls j)"
    then obtain l where l: "(j, l) \<in> F" "leaf_addr s (l * 2 ^ j) = ?b" using ls j by auto
    then have "inode M j l" using st by (auto simp: bd_state_def)
    then have "l * 2 ^ j = i * 2 ^ k" using l(2) b27 size(5) leaf_addr_inj by blast
    then show False using new l(1) by auto
  qed
  have "dlls (lnext ?s) (lprev ?s) ?h (ls(k := ?b # ls k)) (Suc M)"
    using dlls_insert [OF d, of k ?b] k nh nl not_sym [OF nh [of k]] by simp
  moreover have "leaf_addr ?s = leaf_addr s" by (simp add: leaf_addr_def lst_push_def Let_def fun_eq_iff)
  ultimately have "bd_lists ?s M (insert (k, i) F)"
    unfolding bd_lists_def by (intro exI [of _ "ls(k := ?b # ls k)"]) (use ls in auto)
  moreover have "bd_arrays ?s M" "abit ?s = A" "sbit ?s = S"
    using st by (auto simp: bd_state_def bd_arrays_def abit_def sbit_def lst_push_def Let_def fun_eq_iff)
  ultimately show "bd_state (lst_push (free_head k s) ?b s) M A S (insert (k, i) F)"
    using st n unfolding size(3) by (simp add: bd_state_def)
  show "bd_frame s (lst_push (free_head k s) ?b s)"
    unfolding bd_frame_def lst_push_def Let_def
    by (intro exI [of _ "lnext (lst_push (free_head k s) ?b s)"] exI [of _ "lprev (lst_push (free_head k s) ?b s)"] exI [of _ "sizes s"])
      (simp add: lst_push_def Let_def)
qed

lemma remove_state:
  assumes st: "bd_state s M A S F" and n: "(k, i) \<in> F"
  shows "bd_state (lst_remove (leaf_addr s (i * 2 ^ k)) s) M A S (F - {(k, i)})"
    and "bd_frame s (lst_remove (leaf_addr s (i * 2 ^ k)) s)"
proof -
  let ?h = "\<lambda>k. leaf_addr s (2 * k)" and ?b = "leaf_addr s (i * 2 ^ k)"
  let ?s = "lst_remove ?b s"
  note size = bd_state_size [OF st]
  obtain ls where d: "dlls (lnext s) (lprev s) ?h ls (Suc M)"
      and ls: "\<forall>k\<le>M. set (ls k) = (\<lambda>i. leaf_addr s (i * 2 ^ k)) ` {i. (k, i) \<in> F}"
    using st by (auto simp: bd_state_def bd_lists_def)
  have nF: "\<forall>x\<in>F. inode M (fst x) (snd x)" using st by (simp add: bd_state_def)
  have i: "inode M k i" "k \<le> M" using n nF by (auto simp: inode_def)
  have "?b \<in> set (ls k)" using ls i(2) n by auto
  then obtain xs ys where l: "ls k = xs @ ?b # ys" using split_list by fastforce
  have "distinct (ls k)" using d i(2) by (auto simp: dlls_def dll_def)
  then have "set (xs @ ys) = set (ls k) - {?b}" using l by auto
  also have "\<dots> = (\<lambda>i. leaf_addr s (i * 2 ^ k)) ` {l. (k, l) \<in> F - {(k, i)}}"
  proof -
    have "leaf_addr s (l * 2 ^ k) = ?b \<longleftrightarrow> l = i" if "(k, l) \<in> F" for l
    proof -
      have "inode M k l" using nF that by auto
      from leaf_addr_inj [OF size(5) [OF this] size(5) [OF i(1)], of s] show ?thesis by simp
    qed
    then show ?thesis using ls i(2) by auto
  qed
  finally have sxy: "set (xs @ ys) = (\<lambda>i. leaf_addr s (i * 2 ^ k)) ` {l. (k, l) \<in> F - {(k, i)}}" .
  have "dlls (lnext ?s) (lprev ?s) ?h (ls(k := xs @ ys)) (Suc M)"
    using dlls_remove [OF d _ l] i(2) by simp
  moreover have "leaf_addr ?s = leaf_addr s" by (simp add: leaf_addr_def lst_remove_def Let_def fun_eq_iff)
  ultimately have "bd_lists ?s M (F - {(k, i)})"
    unfolding bd_lists_def by (intro exI [of _ "ls(k := xs @ ys)"]) (use ls sxy in auto)
  moreover have "bd_arrays ?s M" "abit ?s = A" "sbit ?s = S"
    using st by (auto simp: bd_state_def bd_arrays_def abit_def sbit_def lst_remove_def Let_def fun_eq_iff)
  ultimately show "bd_state ?s M A S (F - {(k, i)})" using st by (simp add: bd_state_def)
  show "bd_frame s ?s"
    unfolding bd_frame_def
    by (intro exI [of _ "lnext ?s"] exI [of _ "lprev ?s"] exI [of _ "sizes s"]) (simp add: lst_remove_def Let_def)
qed

lemma pop_state:
  assumes st: "bd_state s M A S F" and k: "k \<le> M"
  shows "lst_empty (free_head k s) s \<longleftrightarrow> (\<forall>i. (k, i) \<notin> F)"
    and "\<not> lst_empty (free_head k s) s \<Longrightarrow> \<exists>i. (k, i) \<in> F \<and>
      lst_pop (free_head k s) s = Done (leaf_addr s (i * 2 ^ k)) (lst_remove (leaf_addr s (i * 2 ^ k)) s)"
proof -
  let ?h = "leaf_addr s (2 * k)"
  obtain ls where d: "dlls (lnext s) (lprev s) (\<lambda>k. leaf_addr s (2 * k)) ls (Suc M)"
      and ls: "\<forall>k\<le>M. set (ls k) = (\<lambda>i. leaf_addr s (i * 2 ^ k)) ` {i. (k, i) \<in> F}"
    using st by (auto simp: bd_state_def bd_lists_def)
  have dk: "dll (lnext s) (lprev s) ?h (ls k)" using d k by (simp add: dlls_def)
  have sk: "set (ls k) = (\<lambda>i. leaf_addr s (i * 2 ^ k)) ` {i. (k, i) \<in> F}" using ls k by blast
  have e: "lnext s ?h = ?h \<longleftrightarrow> ls k = []" and hd: "ls k \<noteq> [] \<Longrightarrow> lnext s ?h \<in> set (ls k)"
    using dk by (cases "ls k"; auto simp: dll_def)+
  show "lst_empty (free_head k s) s \<longleftrightarrow> (\<forall>i. (k, i) \<notin> F)"
    using sk unfolding lst_empty_def bd_state_size(3) [OF st] e set_empty [symmetric] by auto
  show "\<exists>i. (k, i) \<in> F \<and> lst_pop (free_head k s) s = Done (leaf_addr s (i * 2 ^ k)) (lst_remove (leaf_addr s (i * 2 ^ k)) s)"
    if "\<not> lst_empty (free_head k s) s"
  proof -
    have ne: "lnext s ?h \<noteq> ?h" using that unfolding lst_empty_def bd_state_size(3) [OF st] .
    then have "lnext s ?h \<in> (\<lambda>i. leaf_addr s (i * 2 ^ k)) ` {i. (k, i) \<in> F}" using hd e sk by blast
    then obtain i where "(k, i) \<in> F" "lnext s ?h = leaf_addr s (i * 2 ^ k)" by blast
    then show ?thesis using ne unfolding lst_pop_def bd_state_size(3) [OF st] by (auto simp: Let_def)
  qed
qed

section \<open>The invariant\<close>

text \<open>
  The leaves below \<open>R\<close>, which hold the array \<open>bd_sizes\<close> with the heads of the lists, are in use
  for ever.
\<close>

definition bd_core :: "'z buddy_scheme \<Rightarrow> nat \<Rightarrow> nat \<Rightarrow> bits \<Rightarrow> bits \<Rightarrow> bool" where
  "bd_core s M R A S \<longleftrightarrow> bd_state s M A S (frees M A S) \<and> shape M A S \<and> 2 * Suc M \<le> R \<and> (\<forall>x<R. (0, x) \<in> useds M A S)"

lemma above_reserved:
  assumes sh: "shape M A S" and r: "\<forall>x<R. (0, x) \<in> useds M A S"
    and n: "(k, i) \<in> frees M A S \<union> useds M A S" and ne: "k = 0 \<longrightarrow> R \<le> i"
  shows "R \<le> i * 2 ^ k"
proof (rule ccontr)
  assume c: "\<not> R \<le> i * 2 ^ k"
  define x where "x = i * 2 ^ k"
  have "(0, x) \<in> useds M A S" using r c by (simp add: x_def)
  then have u: "unsplit M A S 0 x" by (intro unsplit_iff [OF sh, THEN iffD2] UnI2)
  have v: "unsplit M A S k i" by (rule unsplit_iff [OF sh, THEN iffD2, OF n])
  have "(k, i) \<noteq> (0, x)"
  proof
    assume "(k, i) = (0, x)"
    then show False using ne c by (simp add: x_def)
  qed
  then have d: "brange k i \<inter> brange 0 x = {}" by (rule unsplit_disjoint [OF sh v u])
  have "x \<in> brange k i" "x \<in> brange 0 x" using brange_start [of i k] brange_start [of x 0] by (simp_all add: x_def)
  then show False using d by blast
qed

lemma frees_above:
  assumes "bd_core s M R A S" and "(k, i) \<in> frees M A S"
  shows "R \<le> i * 2 ^ k"
proof -
  have "k = 0 \<longrightarrow> R \<le> i"
  proof (intro impI leI notI)
    assume "k = 0" "i < R"
    then have "(k, i) \<in> useds M A S" using assms(1) by (simp add: bd_core_def)
    then have "A k i" by (simp add: useds_def)
    then show False using assms(2) by (simp add: frees_def)
  qed
  moreover have "shape M A S" "\<forall>x<R. (0, x) \<in> useds M A S" using assms(1) by (simp_all add: bd_core_def)
  ultimately show ?thesis by (rule above_reserved [rotated 3]) (use assms(2) in blast)
qed

lemma starts_differ:
  assumes "shape M A S" and "(k, i) \<in> frees M A S \<union> useds M A S" and "(j, l) \<in> frees M A S \<union> useds M A S" and "(k, i) \<noteq> (j, l)"
  shows "l * 2 ^ j \<noteq> i * 2 ^ k"
proof -
  have "brange k i \<inter> brange j l = {}"
  proof (rule unsplit_disjoint [OF assms(1) _ _ assms(4)])
    show "unsplit M A S k i" "unsplit M A S j l" by (intro unsplit_iff [OF assms(1), THEN iffD2] assms(2,3))+
  qed
  then show ?thesis using brange_start [of i k] brange_start [of l j] by auto
qed

section \<open>Allocating\<close>

lemma firstk_enough:
  assumes "unat w = 2 ^ j * 16" and "n \<le> 2 ^ 63" and "\<forall>l<j. 2 ^ l * 16 < unat n" and "k = j"
  shows "\<exists>r. firstk_loop k w n = Some r \<and> unat n \<le> 2 ^ r * 16 \<and> (\<forall>l<r. 2 ^ l * 16 < unat n)"
  using assms
proof (induction "59 - j" arbitrary: j w k)
  case 0
  have "59 \<le> j" using 0 by simp
  then have "(2 :: nat) ^ 59 \<le> 2 ^ j" by (intro power_increasing) simp_all
  then have "(2 :: nat) ^ 59 * 16 \<le> 2 ^ j * 16" by (rule mult_right_mono) simp
  moreover have "unat n \<le> 2 ^ 63" using 0(3) by (simp add: word_le_nat_alt)
  ultimately have "\<not> w < n" using 0(2) by (simp add: word_less_nat_alt)
  then show ?case using 0 by (subst firstk_loop.simps) (auto simp: word_less_nat_alt)
next
  case (Suc d)
  show ?case
  proof (cases "w < n")
    case False
    then show ?thesis using Suc by (subst firstk_loop.simps) (auto simp: word_less_nat_alt)
  next
    case True
    have "(2 :: nat) ^ Suc j \<le> 2 ^ 59" using Suc(2) by (intro power_increasing) simp_all
    then have "unat (w * 2) = 2 ^ Suc j * 16" using Suc(3) by (simp add: unat_word_ariths)
    moreover have "\<forall>l<Suc j. 2 ^ l * 16 < unat n" using Suc.prems(1,3) True by (auto simp: less_Suc_eq word_less_nat_alt)
    ultimately have "\<exists>r. firstk_loop (Suc k) (w * 2) n = Some r \<and> unat n \<le> 2 ^ r * 16 \<and> (\<forall>l<r. 2 ^ l * 16 < unat n)"
      using Suc(2) Suc.prems(2,4) by (intro Suc.hyps(1)) simp_all
    then show ?thesis using True by (subst firstk_loop.simps) simp
  qed
qed

lemma firstk_some:
  assumes "n \<le> 2 ^ 63"
  shows "\<exists>k. firstk n = Some k \<and> unat n \<le> BLK_SIZE k \<and> (\<forall>j<k. BLK_SIZE j < unat n)"
  using firstk_enough [of 16 0 n 0] assms by (simp add: firstk_def BLK_SIZE_def LEAF_SIZE_def)

text \<open>For larger requests the size wraps to 0 and the loop goes on for ever.\<close>

lemma doubled_le: "(2 :: u64) ^ j * 16 \<le> 2 ^ 63"
proof (cases "j < 60")
  case True
  then have p: "(2 :: nat) ^ j * 16 \<le> 2 ^ 63" using power_increasing [of j 59 "2 :: nat"] by simp
  moreover have "(2 :: u64) ^ j * 16 = of_nat (2 ^ j * 16)" by simp
  ultimately show ?thesis by (simp add: word_le_nat_alt unat_of_nat take_bit_nat_eq_self del: of_nat_mult of_nat_power)
next
  case False
  then have "(2 :: u64) ^ (j + 4) = 0" by (subst exp_eq_zero_iff) simp
  then show ?thesis by (simp add: power_add)
qed

lemma firstk_loop_never:
  assumes "firstk_loop k w n = Some r"
  shows "\<forall>j. 2 ^ 63 < n \<longrightarrow> w \<noteq> 2 ^ j * 16"
proof (rule firstk_loop.raw_induct [where P = "\<lambda>k w n r. \<forall>j. 2 ^ 63 < n \<longrightarrow> w \<noteq> 2 ^ j * 16", OF _ assms], intro allI impI notI)
  fix f :: "nat \<Rightarrow> u64 \<Rightarrow> u64 \<Rightarrow> nat option" and k w n r j
  assume IH: "\<And>k w n r. f k w n = Some r \<Longrightarrow> \<forall>j. 2 ^ 63 < n \<longrightarrow> w \<noteq> 2 ^ j * 16"
    and r: "(if w < n then f (k + 1) (w * 2) n else Some k) = Some r" and n: "2 ^ 63 < n" and w: "w = 2 ^ j * 16"
  have "w < n" unfolding w by (rule le_less_trans [OF doubled_le n])
  then have "f (k + 1) (w * 2) n = Some r" using r by simp
  from IH [OF this] have "w * 2 \<noteq> 2 ^ Suc j * 16" using n by blast
  then show False using w by simp
qed

lemma firstk_none: "2 ^ 63 < n \<Longrightarrow> firstk n = None"
proof (rule ccontr)
  assume n: "2 ^ 63 < n" and "firstk n \<noteq> None"
  then obtain r where "firstk_loop 0 16 n = Some r" by (auto simp: firstk_def LEAF_SIZE_def)
  from firstk_loop_never [OF this] have "16 \<noteq> (2 :: u64) ^ 0 * 16" using n by blast
  then show False by simp
qed

text \<open>One round of the loop: block \<open>i\<close> of size \<open>k + 1\<close> becomes a block in use and a free one.\<close>

lemma split_step:
  assumes core: "bd_core s M R A S" and u: "(Suc k, i) \<in> useds M A S" and x: "x = i * 2 ^ Suc k" "R \<le> x" and fk: "fk < Suc k"
  defines "A' \<equiv> upd2 A k (2 * i) True" and "S' \<equiv> upd2 S (Suc k) i True"
  shows "\<exists>t. bd_split fk (Suc k) (leaf_addr s x) s = bd_split fk k (leaf_addr s x) t \<and> bd_core t M R A' S' \<and> bd_frame s t"
proof -
  have c: "bd_state s M A S (frees M A S)" "shape M A S" "2 * Suc M \<le> R" "\<forall>x<R. (0, x) \<in> useds M A S"
    using core by (simp_all add: bd_core_def)
  have n: "inode M (Suc k) i" using u by (simp add: useds_def)
  have n2: "inode M k (2 * i)" "inode M k (2 * i + 1)" using inode_child [OF n] by auto
  note size = bd_state_size [OF c(1)] and sp = split_block [OF c(2) u, folded A'_def S'_def]
  have x27: "x < 2 ^ 27" unfolding x(1) by (rule size(5) [OF n])
  have "x div 2 ^ Suc k = i" "x div 2 ^ k = 2 * i" unfolding x(1) by simp_all
  then have ix: "blk_index (Suc k) (leaf_addr s x) s = int i" "blk_index k (leaf_addr s x) s = int (2 * i)"
    using blk_index_leaf [OF x27, of "Suc k" s] blk_index_leaf [OF x27, of k s] by (simp_all only:)
  obtain z where z: "upd_split bit_set (Suc k) (int i) s = Done () (s\<lparr>sizes := z\<rparr>)" "bd_state (s\<lparr>sizes := z\<rparr>) M A S' (frees M A S)"
    using upd_split_state [OF c(1) n writes_bits(1)] by (auto simp: S'_def)
  obtain y where y: "upd_alloc bit_set k (int (2 * i)) (s\<lparr>sizes := z\<rparr>) = Done () (s\<lparr>sizes := y\<rparr>)"
      "bd_state (s\<lparr>sizes := y\<rparr>) M A' S' (frees M A S)"
    using upd_alloc_state [OF z(2) n2(1) writes_bits(1)] by (auto simp: A'_def)
  let ?s = "s\<lparr>sizes := y\<rparr>"
  have start: "(2 * i + 1) * 2 ^ k = x + 2 ^ k" unfolding x(1) by simp
  have new: "\<forall>(j, l)\<in>frees M A S. l * 2 ^ j \<noteq> x + 2 ^ k"
  proof (intro ballI, clarify)
    fix j l
    assume jl: "(j, l) \<in> frees M A S" "l * 2 ^ j = x + 2 ^ k"
    have "brange (Suc k) i \<inter> brange j l = {}"
    proof (rule unsplit_disjoint [OF c(2)])
      show "unsplit M A S (Suc k) i" "unsplit M A S j l" by (rule unsplitI(1) [OF c(2) u], rule unsplitI(2) [OF c(2) jl(1)])
      show "(Suc k, i) \<noteq> (j, l)" using u jl(1) by (auto simp: frees_def useds_def)
    qed
    moreover have "x + 2 ^ k \<in> brange (Suc k) i" unfolding x(1) by (simp add: brange_def)
    ultimately show False using brange_start [of l j] jl(2) by auto
  qed
  let ?t = "lst_push (free_head k ?s) (leaf_addr ?s (x + 2 ^ k)) ?s"
  have "2 * Suc M \<le> x + 2 ^ k" using x(2) c(3) by simp
  note push = push_state [OF y(2) n2(2), unfolded start, OF this new]
  have "bd_state ?t M A' S' (frees M A' S')" using push(1) unfolding sp(2) .
  moreover have "\<forall>x<R. (0, x) \<in> useds M A' S'" using c(4) unfolding sp(3) by auto
  ultimately have "bd_core ?t M R A' S'" using sp(1) c(3) by (simp add: bd_core_def)
  moreover have "bd_frame s ?t" using bd_frame_trans [OF bd_frame_sizes push(2)] .
  moreover have "leaf_addr ?s = leaf_addr s" "blk_index k (leaf_addr s x) (s\<lparr>sizes := z\<rparr>) = int (2 * i)"
    using ix(2) by (simp_all add: leaf_addr_def fun_eq_iff blk_index_def)
  then have "bd_split fk (Suc k) (leaf_addr s x) s = bd_split fk k (leaf_addr s x) ?t"
    using fk z(1) y(1) ix(1) by (simp add: Let_def leaf_addr_add)
  ultimately show ?thesis by blast
qed

lemma split_run:
  assumes "bd_core s M R A S" and "(k, i) \<in> useds M A S" and "x = i * 2 ^ k" "R \<le> x" and "fk \<le> k"
  shows "\<exists>s' A' S'. bd_split fk k (leaf_addr s x) s = Done () s' \<and> bd_core s' M R A' S' \<and> bd_frame s s' \<and>
    useds M A' S' = insert (fk, x div 2 ^ fk) (useds M A S - {(k, i)})"
  using assms
proof (induction k arbitrary: s A S i)
  case 0
  then have "useds M A S = insert (fk, x div 2 ^ fk) (useds M A S - {(0, i)})" by auto
  then show ?case using 0 bd_frame_refl by (intro exI [of _ s] exI [of _ A] exI [of _ S]) simp
next
  case (Suc k)
  show ?case
  proof (cases "fk < Suc k")
    case False
    then have "fk = Suc k" using Suc.prems(5) by simp
    then have "useds M A S = insert (fk, x div 2 ^ fk) (useds M A S - {(Suc k, i)})" using Suc.prems(2,3) by auto
    then show ?thesis using Suc False bd_frame_refl by (intro exI [of _ s] exI [of _ A] exI [of _ S]) simp
  next
    case True
    have sh: "shape M A S" using Suc.prems(1) by (simp add: bd_core_def)
    let ?A = "upd2 A k (2 * i) True" and ?S = "upd2 S (Suc k) i True"
    obtain t where t: "bd_split fk (Suc k) (leaf_addr s x) s = bd_split fk k (leaf_addr s x) t" "bd_core t M R ?A ?S" "bd_frame s t"
      using split_step [OF Suc.prems(1-4) True] by blast
    note sp = split_block [OF sh Suc.prems(2)]
    have "(k, 2 * i) \<in> useds M ?A ?S" "x = 2 * i * 2 ^ k" "fk \<le> k" using Suc.prems(3) True unfolding sp(3) by simp_all
    note ih = Suc.IH [OF t(2) this(1,2) Suc.prems(4) this(3)]
    have la: "leaf_addr t = leaf_addr s" using bd_frame_base [OF t(3)] by blast
    from ih obtain s' A' S' where
        r: "bd_split fk k (leaf_addr s x) t = Done () s'" "bd_core s' M R A' S'" "bd_frame t s'"
          "useds M A' S' = insert (fk, x div 2 ^ fk) (useds M ?A ?S - {(k, 2 * i)})"
      unfolding la by blast
    have "(k, 2 * i) \<notin> useds M A S"
    proof
      assume k: "(k, 2 * i) \<in> useds M A S"
      then have "live M S k (2 * i)" by (intro shapeD(1) [OF sh]) (auto simp: useds_def)
      then show False using k Suc.prems(2) by (auto simp: useds_def live_def inode_def)
    qed
    then have "useds M A' S' = insert (fk, x div 2 ^ fk) (useds M A S - {(Suc k, i)})" unfolding r(4) sp(3) by auto
    then show ?thesis unfolding t(1) using r(1,2) bd_frame_trans [OF t(3) r(3)] by blast
  qed
qed

definition bd_inv :: "nat \<Rightarrow> 'z buddy_scheme \<Rightarrow> bool" where
  "bd_inv R s \<longleftrightarrow> bd_core s (MAXSIZE s) R (abit s) (sbit s) \<and> LBuddy \<notin> set (held s)"

text \<open>The blocks in use, and the free blocks.\<close>

definition used_blocks :: "'z buddy_scheme \<Rightarrow> (nat \<times> nat) set" where
  "used_blocks s = useds (MAXSIZE s) (abit s) (sbit s)"

definition free_blocks :: "'z buddy_scheme \<Rightarrow> (nat \<times> nat) set" where
  "free_blocks s = frees (MAXSIZE s) (abit s) (sbit s)"

lemma bd_core_maxsize:
  assumes "bd_core s M R A S"
  shows "MAXSIZE s = M" and "abit s = A" and "sbit s = S"
  using assms by (auto simp: bd_core_def bd_state_def bd_arrays_def)

lemma bd_core_inv:
  assumes "bd_core s M R A S" and "LBuddy \<notin> set (held s)"
  shows "bd_inv R s" and "used_blocks s = useds M A S" and "free_blocks s = frees M A S"
  using assms bd_core_maxsize [OF assms(1)] by (simp_all add: bd_inv_def used_blocks_def free_blocks_def)

lemma bd_core_held: "bd_core (s\<lparr>held := h\<rparr>) M R A S = bd_core s M R A S"
  by (simp add: bd_core_def bd_state_def bd_arrays_def bd_lists_def abit_def sbit_def leaf_addr_def fun_eq_iff)

lemma acquire_release:
  assumes "LBuddy \<notin> set (held s)"
  shows "acquire LBuddy s = Done () (s\<lparr>held := LBuddy # held s\<rparr>)"
    and "bd_frame (s\<lparr>held := LBuddy # held s\<rparr>) t \<Longrightarrow> release LBuddy t = Done () (t\<lparr>held := held s\<rparr>)"
    and "bd_frame (s\<lparr>held := LBuddy # held s\<rparr>) t \<Longrightarrow> bd_frame s (t\<lparr>held := held s\<rparr>)"
proof -
  show "acquire LBuddy s = Done () (s\<lparr>held := LBuddy # held s\<rparr>)" using assms by (simp add: acquire_def)
  assume t: "bd_frame (s\<lparr>held := LBuddy # held s\<rparr>) t"
  then have "held t = LBuddy # held s" using bd_frame_base [OF t] by simp
  then show "release LBuddy t = Done () (t\<lparr>held := held s\<rparr>)" by (simp add: release_def)
  show "bd_frame s (t\<lparr>held := held s\<rparr>)" using t unfolding bd_frame_def by (elim exE) (auto intro!: exI)
qed

lemma malloc_core:
  assumes core: "bd_core s M R A S" and k: "find (\<lambda>k. \<not> lst_empty (free_head k s) s) [fk..<nsizes s] = Some k"
  shows "\<exists>i s' A' S'. bindk (lst_pop (free_head k s) s) (\<lambda>p s.
      bindk (upd_alloc bit_set k (blk_index k p s) s) (\<lambda>_ s. bindk (bd_split fk k p s) (\<lambda>_ s. Done p s))) =
        Done (leaf_addr s (i * 2 ^ fk)) s' \<and> bd_core s' M R A' S' \<and> bd_frame s s' \<and> inode M fk i \<and> R \<le> i * 2 ^ fk \<and>
      useds M A' S' = insert (fk, i) (useds M A S) \<and> (\<forall>(j, l)\<in>useds M A S. brange fk i \<inter> brange j l = {})"
proof -
  have c: "bd_state s M A S (frees M A S)" "shape M A S" "2 * Suc M \<le> R" "\<forall>x<R. (0, x) \<in> useds M A S"
    using core by (simp_all add: bd_core_def)
  have k: "\<not> lst_empty (free_head k s) s" "k \<in> set [fk..<nsizes s]" using k by (auto simp: find_Some_iff)
  then have kM: "k \<le> M" "fk \<le> k" using bd_state_size(2) [OF c(1)] by auto
  obtain i where i: "(k, i) \<in> frees M A S" and pop: "lst_pop (free_head k s) s = Done (leaf_addr s (i * 2 ^ k)) (lst_remove (leaf_addr s (i * 2 ^ k)) s)"
    using pop_state(2) [OF c(1) kM(1) k(1)] by blast
  define x where "x = i * 2 ^ k"
  let ?A = "upd2 A k i True" and ?s = "lst_remove (leaf_addr s x) s"
  note tk = take_block [OF c(2) i] and rm = remove_state [OF c(1) i, folded x_def]
  have n: "inode M k i" using i by (simp add: frees_def)
  have R: "R \<le> x" unfolding x_def by (rule frees_above [OF core i])
  have la: "leaf_addr ?s = leaf_addr s" using bd_frame_base [OF rm(2)] by blast
  have x27: "x < 2 ^ 27" unfolding x_def by (rule bd_state_size(5) [OF c(1) n])
  have ix: "blk_index k (leaf_addr s x) ?s = int i"
    using blk_index_leaf [OF x27, of k ?s] unfolding la by (simp add: x_def)
  obtain z where z: "upd_alloc bit_set k (int i) ?s = Done () (?s\<lparr>sizes := z\<rparr>)" "bd_state (?s\<lparr>sizes := z\<rparr>) M ?A S (frees M ?A S)"
    using upd_alloc_state [OF rm(1) n writes_bits(1)] unfolding tk(2) by blast
  let ?t = "?s\<lparr>sizes := z\<rparr>"
  have ct: "bd_core ?t M R ?A S" using z(2) tk(1) c(3,4) unfolding bd_core_def tk(3) by blast
  have ft: "bd_frame s ?t" by (rule bd_frame_trans [OF rm(2) bd_frame_sizes])
  have "(k, i) \<in> useds M ?A S" unfolding tk(3) by simp
  from split_run [OF ct this x_def R kM(2)] obtain s' A' S' where
      r: "bd_split fk k (leaf_addr ?t x) ?t = Done () s'" "bd_core s' M R A' S'" "bd_frame ?t s'"
        "useds M A' S' = insert (fk, x div 2 ^ fk) (useds M ?A S - {(k, i)})" by blast
  have lt: "leaf_addr ?t x = leaf_addr s x" using bd_frame_base [OF ft] by simp
  have sub: "x div 2 ^ fk * 2 ^ fk = x" unfolding x_def using kM(2) by (simp add: dvd_mult le_imp_power_dvd)
  have "(k, i) \<notin> useds M A S" using i by (simp add: frees_def useds_def)
  then have us: "useds M A' S' = insert (fk, x div 2 ^ fk) (useds M A S)" unfolding r(4) tk(3) by auto
  have sh': "shape M A' S'" using r(2) by (simp add: bd_core_def)
  have b: "brange fk (x div 2 ^ fk) \<subseteq> brange k i"
  proof
    fix y
    assume "y \<in> brange fk (x div 2 ^ fk)"
    then have "y div 2 ^ fk = x div 2 ^ fk" by (simp add: brange_iff)
    moreover have "w div 2 ^ k = w div 2 ^ fk div 2 ^ (k - fk)" for w :: nat
      using kM(2) by (simp add: div_mult2_eq [symmetric] flip: power_add)
    ultimately have "y div 2 ^ k = x div 2 ^ k" by (simp only:)
    then show "y \<in> brange k i" by (simp add: brange_iff x_def)
  qed
  have dis: "brange fk (x div 2 ^ fk) \<inter> brange j l = {}" if jl: "(j, l) \<in> useds M A S" for j l
  proof -
    have "(k, i) \<noteq> (j, l)" using jl i by (auto simp: frees_def useds_def)
    then have "brange k i \<inter> brange j l = {}" by (rule unsplit_disjoint [OF c(2) unsplitI(2) [OF c(2) i] unsplitI(1) [OF c(2) jl]])
    then show ?thesis using b by blast
  qed
  have "inode M fk (x div 2 ^ fk)" using us by (auto simp: useds_def)
  moreover have "R \<le> x div 2 ^ fk * 2 ^ fk" "\<forall>(j, l)\<in>useds M A S. brange fk (x div 2 ^ fk) \<inter> brange j l = {}"
    using R dis sub by auto
  moreover have "bindk (lst_pop (free_head k s) s) (\<lambda>p s. bindk (upd_alloc bit_set k (blk_index k p s) s) (\<lambda>_ s.
      bindk (bd_split fk k p s) (\<lambda>_ s. Done p s))) = Done (leaf_addr s (x div 2 ^ fk * 2 ^ fk)) s'"
    using pop ix z(1) r(1) unfolding x_def [symmetric] lt by (simp add: sub)
  ultimately show ?thesis using r(2) bd_frame_trans [OF ft r(3)] us by blast
qed

text \<open>
  C26: \<open>bd_malloc\<close> hands out a free block. For a request of up to \<open>2 ^ 63\<close> bytes it returns: either
  a block of the smallest size that has room for the request, outside the allocator's own data and
  overlapping no block in use, which from then on is in use; or 0, and nothing has changed, when no free block is
  large enough. The bit arrays and the free lists stay consistent.
\<close>

theorem bd_malloc_gives_block:
  assumes inv: "bd_inv R s" and n: "n \<le> 2 ^ 63"
  shows "returns (bd_malloc n s) (\<lambda>r s'. bd_inv R s' \<and> bd_frame s s' \<and>
    (\<exists>k. unat n \<le> BLK_SIZE k \<and> (\<forall>j<k. BLK_SIZE j < unat n) \<and>
      (if \<exists>j i. k \<le> j \<and> (j, i) \<in> free_blocks s
       then \<exists>i. r = leaf_addr s (i * 2 ^ k) \<and> R \<le> i * 2 ^ k \<and> Suc i * 2 ^ k \<le> 2 ^ MAXSIZE s \<and>
         used_blocks s' = insert (k, i) (used_blocks s) \<and> (\<forall>(j, l)\<in>used_blocks s. brange k i \<inter> brange j l = {})
       else r = 0 \<and> s' = s)))"
proof -
  let ?M = "MAXSIZE s" and ?A = "abit s" and ?S = "sbit s"
  have core: "bd_core s ?M R ?A ?S" and h: "LBuddy \<notin> set (held s)" using inv by (simp_all add: bd_inv_def)
  note lock = acquire_release [OF h]
  let ?t = "s\<lparr>held := LBuddy # held s\<rparr>"
  have ct: "bd_core ?t ?M R ?A ?S" using core by (simp only: bd_core_held)
  then have st: "bd_state ?t ?M ?A ?S (frees ?M ?A ?S)" by (simp add: bd_core_def)
  have la: "leaf_addr ?t = leaf_addr s" by (simp add: leaf_addr_def fun_eq_iff)
  obtain k where k: "firstk n = Some k" "unat n \<le> BLK_SIZE k" "\<forall>j<k. BLK_SIZE j < unat n" using firstk_some [OF n] by blast
  let ?find = "find (\<lambda>j. \<not> lst_empty (free_head j ?t) ?t) [k..<nsizes ?t]"
  have some: "?find = None \<longleftrightarrow> \<not> (\<exists>j i. k \<le> j \<and> (j, i) \<in> free_blocks s)"
  proof -
    have e: "lst_empty (free_head j ?t) ?t \<longleftrightarrow> (\<forall>i. (j, i) \<notin> free_blocks s)" if "j < nsizes ?t" for j
      using that pop_state(1) [OF st, of j] bd_state_size(2) [OF st, of j] by (simp add: free_blocks_def)
    have f: "j < nsizes ?t" if "(j, i) \<in> free_blocks s" for i j
      using that bd_state_size(2) [OF st, of j] by (auto simp: free_blocks_def frees_def inode_def)
    have "?find = None \<longleftrightarrow> (\<forall>j. k \<le> j \<longrightarrow> j < nsizes ?t \<longrightarrow> (\<forall>i. (j, i) \<notin> free_blocks s))"
      unfolding find_None_iff using e by auto
    then show ?thesis using f by blast
  qed
  show ?thesis
  proof (cases ?find)
    case None
    then have "bd_malloc n s = Done 0 s" using k(1) lock(1) lock(2) [OF bd_frame_refl] by (simp add: bd_malloc_def)
    then show ?thesis using inv k some None bd_frame_refl [of s] by auto
  next
    case (Some j)
    from malloc_core [OF ct Some] obtain i s' A' S' where
        run: "bindk (lst_pop (free_head j ?t) ?t) (\<lambda>p s. bindk (upd_alloc bit_set j (blk_index j p s) s) (\<lambda>_ s.
          bindk (bd_split k j p s) (\<lambda>_ s. Done p s))) = Done (leaf_addr s (i * 2 ^ k)) s'"
        and r: "bd_core s' ?M R A' S'" "bd_frame ?t s'" "inode ?M k i" "R \<le> i * 2 ^ k"
          "useds ?M A' S' = insert (k, i) (useds ?M ?A ?S)" "\<forall>(j, l)\<in>useds ?M ?A ?S. brange k i \<inter> brange j l = {}"
      unfolding la by blast
    have "bd_malloc n s = bindk (bindk (lst_pop (free_head j ?t) ?t) (\<lambda>p s. bindk (upd_alloc bit_set j (blk_index j p s) s) (\<lambda>_ s.
          bindk (bd_split k j p s) (\<lambda>_ s. Done p s)))) (\<lambda>p s. bindk (release LBuddy s) (\<lambda>_ s. Done p s))"
      using k(1) lock(1) Some by (simp add: bd_malloc_def)
    also have "\<dots> = Done (leaf_addr s (i * 2 ^ k)) (s'\<lparr>held := held s\<rparr>)" unfolding run using lock(2) [OF r(2)] by simp
    finally have res: "bd_malloc n s = Done (leaf_addr s (i * 2 ^ k)) (s'\<lparr>held := held s\<rparr>)" .
    have c': "bd_core (s'\<lparr>held := held s\<rparr>) ?M R A' S'" using r(1) by (simp only: bd_core_held)
    note i' = bd_core_inv [OF c'] and us = bd_core_inv(2) [OF core h]
    have "\<exists>j i. k \<le> j \<and> (j, i) \<in> free_blocks s" using some Some by auto
    moreover have "Suc i * 2 ^ k \<le> 2 ^ ?M" by (rule inode_leaf [OF r(3)])
    ultimately show ?thesis
      using res i' h lock(3) [OF r(2)] k(2,3) r(4-6) us by auto
  qed
qed

text \<open>
  C28: A request of more than \<open>2 ^ 63\<close> bytes hangs: the size that \<open>firstk\<close> doubles wraps to 0, so that the
  loop never ends, with the lock of the allocator held.
\<close>

theorem bd_malloc_hangs:
  assumes "LBuddy \<notin> set (held s)" and "2 ^ 63 < n"
  shows "bd_malloc n s = Loop (s\<lparr>held := LBuddy # held s\<rparr>)"
  using acquire_release(1) [OF assms(1)] firstk_none [OF assms(2)] by (simp add: bd_malloc_def)

section \<open>Freeing\<close>

lemma buddy_of_sibling: "buddy_of (int i) = int (sibling i)"
  by (auto simp: buddy_of_def sibling_def even_of_nat_iff elim!: oddE)

lemma size_loop_skip:
  assumes "\<forall>j\<in>set ks. get_bit sz_split (j + 1) (blk_index (j + 1) p s) s = Done False s"
  shows "size_loop (ks @ ls) p s = size_loop ls p s"
  using assms by (induction ks) simp_all

lemma inode_over:
  assumes "inode M k i" and "j \<le> M"
  shows "inode M j (i * 2 ^ k div 2 ^ j)"
proof -
  have "i * 2 ^ k < Suc i * 2 ^ k" by simp
  also have "\<dots> \<le> 2 ^ M" by (rule inode_leaf [OF assms(1)])
  also have "\<dots> = 2 ^ (M - j) * 2 ^ j" using assms(2) by (simp flip: power_add)
  finally show ?thesis using assms(2) by (simp only: inode_def less_mult_imp_div_less)
qed

text \<open>Nothing below a block in use is split, and its parent is.\<close>

lemma blk_size_run:
  assumes core: "bd_core s M R A S" and u: "(k, i) \<in> useds M A S" and x: "x = i * 2 ^ k" "R \<le> x"
  shows "k < M" and "blk_size (leaf_addr s x) s = Done k s"
proof -
  have c: "bd_state s M A S (frees M A S)" "shape M A S" "2 * Suc M \<le> R" using core by (simp_all add: bd_core_def)
  have n: "inode M k i" "A k i" "\<not> (0 < k \<and> S k i)" using u by (auto simp: useds_def)
  show kM: "k < M"
  proof (rule ccontr)
    assume "\<not> k < M"
    then have "i = 0" using n(1) by (simp add: inode_def)
    then show False using x c(3) by simp
  qed
  have x27: "x < 2 ^ 27" unfolding x(1) by (rule bd_state_size(5) [OF c(1) n(1)])
  have get: "get_bit sz_split (j + 1) (blk_index (j + 1) (leaf_addr s x) s) s = Done (S (j + 1) (x div 2 ^ (j + 1))) s" if j: "j < M" for j
  proof -
    have "inode M (j + 1) (x div 2 ^ (j + 1))" unfolding x(1) using j by (intro inode_over [OF n(1)]) simp
    then show ?thesis using get_split [OF c(1), of "j + 1"] blk_index_leaf [OF x27, of "j + 1" s] by simp
  qed
  have low: "\<not> S (j + 1) (x div 2 ^ (j + 1))" if j: "j < k" for j
  proof
    assume s: "S (j + 1) (x div 2 ^ (j + 1))"
    have "(2 :: nat) ^ k = 2 ^ (k - (j + 1)) * 2 ^ (j + 1)" unfolding power_add [symmetric] using j by simp
    then have xj: "x div 2 ^ (j + 1) = i * 2 ^ (k - (j + 1))" unfolding x(1) by simp
    show False
    proof (cases "j + 1 = k")
      case True
      then show False using s xj n(3) by auto
    next
      case False
      have nj: "inode M (j + 1) (x div 2 ^ (j + 1))" unfolding x(1) using j kM by (intro inode_over [OF n(1)]) simp
      have "A (j + 1) (x div 2 ^ (j + 1))" using shapeD(2) [OF c(2) nj] s by simp
      then have "live M S (j + 1) (x div 2 ^ (j + 1))" by (rule shapeD(1) [OF c(2) nj])
      then have "S k (x div 2 ^ (j + 1) div 2 ^ (k - (j + 1)))" using False j kM by (intro ancestor_split [OF c(2) nj]) simp_all
      then show False using n(3) j unfolding xj by simp
    qed
  qed
  have "S (k + 1) (x div 2 ^ (k + 1))"
  proof -
    have "live M S k i" by (rule shapeD(1) [OF c(2) n(1,2)])
    moreover have "x div 2 ^ (k + 1) = i div 2" unfolding x(1) by (simp add: div_mult2_eq [of _ "2 ^ k" 2] mult.commute [of 2])
    ultimately show ?thesis using kM by (simp add: live_def)
  qed
  then have at: "size_loop (k # ls) (leaf_addr s x) s = Done k s" for ls using get [OF kM] by simp
  have "[0..<nsizes s] = [0..<k] @ k # [Suc k..<nsizes s]"
    using kM bd_state_size(2) [OF c(1), of k] upt_add_eq_append [of 0 k "nsizes s - k"] by (simp add: upt_conv_Cons)
  moreover have "\<forall>j\<in>set [0..<k]. get_bit sz_split (j + 1) (blk_index (j + 1) (leaf_addr s x) s) s = Done False s"
    using get low kM by simp
  ultimately show "blk_size (leaf_addr s x) s = Done k s" by (simp only: blk_size_def size_loop_skip at)
qed

text \<open>
  The state in which the loop of \<open>bd_free\<close> ends: the block is marked free and has a buddy in use,
  and all that is missing is its place on the free list.
\<close>

definition freed :: "'z buddy_scheme \<Rightarrow> nat \<Rightarrow> nat \<Rightarrow> (nat \<times> nat) set \<Rightarrow> nat \<times> u64 \<Rightarrow> 'z buddy_scheme \<Rightarrow> bool" where
  "freed s M R U r s' \<longleftrightarrow> (\<exists>i A S. snd r = leaf_addr s (i * 2 ^ fst r) \<and> R \<le> i * 2 ^ fst r \<and> shape M A S \<and>
    (fst r, i) \<in> frees M A S \<and> bd_state s' M A S (frees M A S - {(fst r, i)}) \<and> useds M A S = U \<and> bd_frame s s')"

lemma sibling_start: "(if even (sibling i) then sibling i else i) * 2 ^ k = i div 2 * 2 ^ Suc k"
  by (auto simp: sibling_def elim!: evenE oddE)

text \<open>One round of the loop that finds the buddy free.\<close>

lemma free_loop_merge:
  assumes "blk_index k p s = int i" and "upd_alloc bit_clear k (int i) s = Done () s1"
    and "get_bit sz_alloc k (int (sibling i)) s1 = Done False s1" and "blk_addr k (int (sibling i)) s1 = q"
    and "(if even (sibling i) then q else p) = r" and "blk_index (Suc k) r (lst_remove q s1) = b"
    and "upd_split bit_clear (Suc k) b (lst_remove q s1) = Done () t"
  shows "bd_free_loop (Suc n) k p s = bd_free_loop n (Suc k) r t"
  using assms by (auto simp: Let_def buddy_of_sibling split: if_splits)

lemma merge_step:
  assumes core: "bd_core s M R A S" and u: "(k, i) \<in> useds M A S" and x: "R \<le> i * 2 ^ k" and k: "k < M" and b: "\<not> A k (sibling i)"
  defines "A' \<equiv> upd2 A k i False" and "S' \<equiv> upd2 S (Suc k) (i div 2) False"
  shows "\<exists>t. bd_free_loop (Suc n) k (leaf_addr s (i * 2 ^ k)) s = bd_free_loop n (Suc k) (leaf_addr s (i div 2 * 2 ^ Suc k)) t \<and>
    bd_core t M R A' S' \<and> bd_frame s t \<and> useds M A' S' = insert (Suc k, i div 2) (useds M A S - {(k, i)}) \<and> R \<le> i div 2 * 2 ^ Suc k"
proof -
  have c: "bd_state s M A S (frees M A S)" "shape M A S" "2 * Suc M \<le> R" "\<forall>x<R. (0, x) \<in> useds M A S"
    using core by (simp_all add: bd_core_def)
  note mg = merge_block [OF c(2) u k b, folded A'_def S'_def]
  have n1: "inode M k i" using u by (simp add: useds_def)
  have n2: "inode M k (sibling i)" "inode M (Suc k) (i div 2)" using inode_sibling [OF n1 k] inode_half [OF n1 k] .
  have b27: "i * 2 ^ k < 2 ^ 27" "sibling i * 2 ^ k < 2 ^ 27" "i div 2 * 2 ^ Suc k < 2 ^ 27"
    using bd_state_size(5) [OF c(1)] n1 n2 by blast+
  let ?p = "leaf_addr s (i * 2 ^ k)" and ?q = "leaf_addr s (sibling i * 2 ^ k)" and ?r = "leaf_addr s (i div 2 * 2 ^ Suc k)"
  obtain z where z: "upd_alloc bit_clear k (int i) s = Done () (s\<lparr>sizes := z\<rparr>)" "bd_state (s\<lparr>sizes := z\<rparr>) M A' S (frees M A S)"
    using upd_alloc_state [OF c(1) n1 writes_bits(2)] by (auto simp: A'_def)
  let ?s1 = "s\<lparr>sizes := z\<rparr>" let ?s2 = "lst_remove ?q ?s1"
  have la1: "leaf_addr ?s1 = leaf_addr s" using bd_frame_base [OF bd_frame_sizes] by blast
  note rm = remove_state [OF z(2) mg(3), unfolded la1]
  have la2: "leaf_addr ?s2 = leaf_addr s" using bd_frame_base [OF rm(2)] la1 by simp
  obtain y where y: "upd_split bit_clear (Suc k) (int (i div 2)) ?s2 = Done () (?s2\<lparr>sizes := y\<rparr>)"
      "bd_state (?s2\<lparr>sizes := y\<rparr>) M A' S' (frees M A S - {(k, sibling i)})"
    using upd_split_state [OF rm(1) n2(2) writes_bits(2)] by (auto simp: S'_def)
  let ?t = "?s2\<lparr>sizes := y\<rparr>"
  have ix: "blk_index k ?p s = int i" "blk_index (Suc k) ?r ?s2 = int (i div 2)"
    using blk_index_leaf [OF b27(1), of k s] blk_index_leaf [OF b27(3), of "Suc k" ?s2] unfolding la2 by simp_all
  have get: "get_bit sz_alloc k (int (sibling i)) ?s1 = Done False ?s1" using get_alloc [OF z(2) n2(1)] b by (simp add: A'_def)
  have q: "blk_addr k (int (sibling i)) ?s1 = ?q" using blk_addr_leaf [OF b27(2), of ?s1] by (simp only: la1)
  have "(if even (sibling i) then ?q else ?p) = ?r" unfolding sibling_start [symmetric] by simp
  note run = free_loop_merge [OF ix(1) z(1) get q this ix(2) y(1), of n]
  have "(k, i) \<noteq> (0, x)" if "x < R" for x using x that by auto
  then have res: "\<forall>x<R. (0, x) \<in> useds M A' S'" using c(4) unfolding mg(4) by blast
  then have "bd_core ?t M R A' S'" using y(2) mg(1) c(3) unfolding bd_core_def mg(2) by blast
  moreover have "R \<le> i div 2 * 2 ^ Suc k" by (rule above_reserved [OF mg(1) res]) (simp_all add: mg(4))
  moreover have "bd_frame s ?t" by (rule bd_frame_trans [OF bd_frame_sizes bd_frame_trans [OF rm(2) bd_frame_sizes]])
  ultimately show ?thesis using run mg(4) by blast
qed

lemma free_run:
  assumes "bd_core s M R A S" and "(k, i) \<in> useds M A S" and "R \<le> i * 2 ^ k" and "n = M - k"
  shows "\<exists>r s'. bd_free_loop n k (leaf_addr s (i * 2 ^ k)) s = Done r s' \<and> freed s M R (useds M A S - {(k, i)}) r s'"
  using assms
proof (induction n arbitrary: s A S k i)
  case 0
  then have "k < M" using blk_size_run(1) [OF 0(1,2) refl 0(3)] by blast
  then show ?case using 0(4) by simp
next
  case (Suc n)
  have c: "bd_state s M A S (frees M A S)" "shape M A S" using Suc.prems(1) by (simp_all add: bd_core_def)
  have k: "k < M" by (rule blk_size_run(1) [OF Suc.prems(1,2) refl Suc.prems(3)])
  have n1: "inode M k i" using Suc.prems(2) by (simp add: useds_def)
  show ?case
  proof (cases "A k (sibling i)")
    case True
    note rel = release_block [OF c(2) Suc.prems(2) k True]
    obtain z where z: "upd_alloc bit_clear k (int i) s = Done () (s\<lparr>sizes := z\<rparr>)" "bd_state (s\<lparr>sizes := z\<rparr>) M (upd2 A k i False) S (frees M A S)"
      using upd_alloc_state [OF c(1) n1 writes_bits(2)] by blast
    have "get_bit sz_alloc k (int (sibling i)) (s\<lparr>sizes := z\<rparr>) = Done True (s\<lparr>sizes := z\<rparr>)"
      using get_alloc [OF z(2) inode_sibling [OF n1 k]] True by simp
    moreover have "blk_index k (leaf_addr s (i * 2 ^ k)) s = int i"
      using blk_index_leaf [OF bd_state_size(5) [OF c(1) n1], of k s] by simp
    ultimately have run: "bd_free_loop (Suc n) k (leaf_addr s (i * 2 ^ k)) s = Done (k, leaf_addr s (i * 2 ^ k)) (s\<lparr>sizes := z\<rparr>)"
      using z(1) by (simp add: Let_def buddy_of_sibling)
    have "frees M (upd2 A k i False) S - {(k, i)} = frees M A S" using rel(2,4) by auto
    then have "bd_state (s\<lparr>sizes := z\<rparr>) M (upd2 A k i False) S (frees M (upd2 A k i False) S - {(k, i)})" using z(2) by simp
    moreover have "(k, i) \<in> frees M (upd2 A k i False) S" unfolding rel(2) by simp
    ultimately have "freed s M R (useds M A S - {(k, i)}) (k, leaf_addr s (i * 2 ^ k)) (s\<lparr>sizes := z\<rparr>)"
      unfolding freed_def fst_conv snd_conv using rel(1,3) Suc.prems(3) bd_frame_sizes [of s z] by blast
    then show ?thesis using run by blast
  next
    case False
    from merge_step [OF Suc.prems(1-3) k False, of n] obtain t where
        t: "bd_free_loop (Suc n) k (leaf_addr s (i * 2 ^ k)) s = bd_free_loop n (Suc k) (leaf_addr s (i div 2 * 2 ^ Suc k)) t"
          "bd_core t M R (upd2 A k i False) (upd2 S (Suc k) (i div 2) False)" "bd_frame s t" "R \<le> i div 2 * 2 ^ Suc k"
          "useds M (upd2 A k i False) (upd2 S (Suc k) (i div 2) False) = insert (Suc k, i div 2) (useds M A S - {(k, i)})"
      by blast
    have la: "leaf_addr t = leaf_addr s" using bd_frame_base [OF t(3)] by blast
    have "(Suc k, i div 2) \<notin> useds M A S"
      using shapeD(1) [OF c(2) n1] Suc.prems(2) k by (auto simp: useds_def live_def)
    then have us: "useds M (upd2 A k i False) (upd2 S (Suc k) (i div 2) False) - {(Suc k, i div 2)} = useds M A S - {(k, i)}" unfolding t(5) by auto
    have "(Suc k, i div 2) \<in> useds M (upd2 A k i False) (upd2 S (Suc k) (i div 2) False)" "n = M - Suc k"
      using Suc.prems(4) unfolding t(5) by simp_all
    note ih = Suc.IH [OF t(2) this(1) t(4) this(2), unfolded us la]
    then obtain r s' where "bd_free_loop n (Suc k) (leaf_addr s (i div 2 * 2 ^ Suc k)) t = Done r s'"
        "freed t M R (useds M A S - {(k, i)}) r s'" by blast
    then show ?thesis unfolding t(1) freed_def la using bd_frame_trans [OF t(3)] by blast
  qed
qed

text \<open>
  C27: \<open>bd_free\<close> takes back a block in use. Given only its address it finds the size the block was handed out
  with, merges the block with its buddies as long as they are free, and returns; afterwards exactly
  this block is no longer in use, and the bit arrays and the free lists are consistent again.
  (The block is any block in use but those that hold the allocator's own data.)
\<close>

theorem bd_free_returns_block:
  assumes inv: "bd_inv R s" and u: "(k, i) \<in> used_blocks s" and R: "R \<le> i * 2 ^ k"
  shows "returns (bd_free (leaf_addr s (i * 2 ^ k)) s) (\<lambda>_ s'. bd_inv R s' \<and> bd_frame s s' \<and>
    used_blocks s' = used_blocks s - {(k, i)})"
proof -
  let ?M = "MAXSIZE s" and ?A = "abit s" and ?S = "sbit s" and ?p = "leaf_addr s (i * 2 ^ k)"
  have core: "bd_core s ?M R ?A ?S" and h: "LBuddy \<notin> set (held s)" using inv by (simp_all add: bd_inv_def)
  note lock = acquire_release [OF h] and us = bd_core_inv(2) [OF core h]
  let ?t = "s\<lparr>held := LBuddy # held s\<rparr>"
  have ct: "bd_core ?t ?M R ?A ?S" using core by (simp only: bd_core_held)
  have la: "leaf_addr ?t = leaf_addr s" by (simp add: leaf_addr_def fun_eq_iff)
  have ut: "(k, i) \<in> useds ?M ?A ?S" using u unfolding us .
  obtain r s' where loop: "bd_free_loop (?M - k) k ?p ?t = Done r s'" and f: "freed ?t ?M R (useds ?M ?A ?S - {(k, i)}) r s'"
    using free_run [OF ct ut R refl] unfolding la by blast
  obtain j A S where r: "snd r = leaf_addr s (j * 2 ^ fst r)" "R \<le> j * 2 ^ fst r" "shape ?M A S" "(fst r, j) \<in> frees ?M A S"
      "bd_state s' ?M A S (frees ?M A S - {(fst r, j)})" "useds ?M A S = useds ?M ?A ?S - {(k, i)}" "bd_frame ?t s'"
    using f unfolding freed_def la by blast
  have la': "leaf_addr s' = leaf_addr s" using bd_frame_base [OF r(7)] la by simp
  have R2: "2 * Suc ?M \<le> R" "\<forall>x<R. (0, x) \<in> useds ?M ?A ?S" using core by (simp_all add: bd_core_def)
  have "\<forall>(j', l)\<in>frees ?M A S - {(fst r, j)}. l * 2 ^ j' \<noteq> j * 2 ^ fst r" using starts_differ [OF r(3)] r(4) by blast
  moreover have "inode ?M (fst r) j" using r(4) by (simp add: frees_def)
  moreover have "2 * Suc ?M \<le> j * 2 ^ fst r" using R2(1) r(2) by (rule order_trans)
  ultimately have push: "bd_state (lst_push (free_head (fst r) s') (snd r) s') ?M A S (insert (fst r, j) (frees ?M A S - {(fst r, j)}))"
      "bd_frame s' (lst_push (free_head (fst r) s') (snd r) s')"
    using push_state [OF r(5), of "fst r" j] unfolding r(1) la' by blast+
  let ?u = "lst_push (free_head (fst r) s') (snd r) s'"
  have fu: "bd_frame ?t ?u" by (rule bd_frame_trans [OF r(7) push(2)])
  have "(k, i) \<noteq> (0, x)" if "x < R" for x using R that by auto
  then have "\<forall>x<R. (0, x) \<in> useds ?M A S" using R2(2) unfolding r(6) by blast
  moreover have "insert (fst r, j) (frees ?M A S - {(fst r, j)}) = frees ?M A S" using r(4) by blast
  ultimately have "bd_core ?u ?M R A S" using push(1) r(3) R2(1) by (simp add: bd_core_def)
  then have cu: "bd_core (?u\<lparr>held := held s\<rparr>) ?M R A S" by (simp only: bd_core_held)
  have "blk_size ?p ?t = Done k ?t" using blk_size_run(2) [OF ct ut refl R] unfolding la .
  then have "bd_free ?p s = Done () (?u\<lparr>held := held s\<rparr>)"
    using lock(1) lock(2) [OF fu] loop by (simp add: bd_free_def)
  then show ?thesis using bd_core_inv [OF cu] h lock(3) [OF fu] r(6) us by simp
qed

text \<open>A heap of 16 leaves, ten of them taken by the allocator and one handed out: block 11 of size 0 and block 3 of size 2 are free.\<close>

definition example_buddy :: buddy where
  "example_buddy = (undefined :: buddy)\<lparr>held := [], bd_sizes := 0x1000, bd_base := 0x1000,
    sizes := [\<lparr>sz_alloc = [255, 7], sz_split = []\<rparr>, \<lparr>sz_alloc = [63], sz_split = [63]\<rparr>, \<lparr>sz_alloc = [7], sz_split = [7]\<rparr>,
      \<lparr>sz_alloc = [3], sz_split = [3]\<rparr>, \<lparr>sz_alloc = [1], sz_split = [1]\<rparr>],
    lnext := (\<lambda>a. a)(0x1000 := 0x10B0, 0x10B0 := 0x1000, 0x1040 := 0x10C0, 0x10C0 := 0x1040),
    lprev := (\<lambda>a. a)(0x1000 := 0x10B0, 0x10B0 := 0x1000, 0x1040 := 0x10C0, 0x10C0 := 0x1040)\<rparr>"

lemma le_4: "k \<le> 4 \<longleftrightarrow> k \<in> {0, 1, 2, 3, 4 :: nat}"
  by auto

lemma small_bits: "i < 16 \<Longrightarrow> i \<in> {0, 1, 2, 3, 4, 5, 6, 7, 8, 9, 10, 11, 12, 13, 14, 15 :: nat}"
  by (simp only: insert_iff empty_iff) presburger

lemma example_fields [simp]:
  "nsizes example_buddy = 5" "held example_buddy = []" "bd_sizes example_buddy = 0x1000" "bd_base example_buddy = 0x1000"
  by (simp_all add: example_buddy_def)

lemma example_isset:
  "bit_isset [255, 7] (int i) = (if i < 16 then Some (i < 11) else None)"
  "bit_isset [63] (int i) = (if i < 8 then Some (i < 6) else None)"
  "bit_isset [7] (int i) = (if i < 8 then Some (i < 3) else None)"
  "bit_isset [3] (int i) = (if i < 8 then Some (i < 2) else None)"
  "bit_isset [1] (int i) = (if i < 8 then Some (i < 1) else None)"
  by (cases "i < 16"; auto simp: bit_isset_eq dest!: small_bits)+

lemma example_bits:
  assumes "k \<le> 4"
  shows "abit example_buddy k i \<longleftrightarrow> i < [11, 6, 3, 2, 1] ! k"
    and "0 < k \<Longrightarrow> sbit example_buddy k i \<longleftrightarrow> i < [11, 6, 3, 2, 1] ! k"
  using assms example_isset(5) [of 0] by (auto simp: le_4 abit_def sbit_def example_buddy_def example_isset split: if_splits)

lemma example_live:
  assumes "k \<le> 4"
  shows "live 4 (sbit example_buddy) k i \<longleftrightarrow> k = 4 \<or> i div 2 < [11, 6, 3, 2, 1] ! Suc k"
proof (cases "k = 4")
  case False
  then have "Suc k \<le> 4" using assms by simp
  from example_bits(2) [OF this zero_less_Suc] show ?thesis using False by (simp only: live_def)
qed (simp add: live_def)

lemma example_frees: "frees 4 (abit example_buddy) (sbit example_buddy) = {(0, 11), (2, 3)}"
proof -
  have "(k, i) \<in> frees 4 (abit example_buddy) (sbit example_buddy) \<longleftrightarrow> (k, i) \<in> {(0, 11), (2, 3)}" for k i
  proof (cases "k \<le> 4")
    case True
    then have "(k, i) \<in> frees 4 (abit example_buddy) (sbit example_buddy) \<longleftrightarrow>
        i < 2 ^ (4 - k) \<and> (k = 4 \<or> i div 2 < [11, 6, 3, 2, 1] ! Suc k) \<and> \<not> i < [11, 6, 3, 2, 1] ! k"
      by (simp only: frees_def inode_def example_live example_bits(1) mem_Collect_eq case_prod_conv simp_thms)
    then show ?thesis using True by (auto simp: le_4)
  qed (auto simp: frees_def inode_def)
  then show ?thesis by auto
qed

lemma example_shape: "shape 4 (abit example_buddy) (sbit example_buddy)"
  unfolding shape_def
proof (intro allI impI conjI)
  fix k i
  assume "inode 4 k i"
  then have k: "k \<le> 4" by (simp add: inode_def)
  let ?c = "[11, 6, 3, 2, 1] :: nat list"
  have c: "i < ?c ! k \<longrightarrow> k = 4 \<or> i div 2 < ?c ! Suc k" "0 < k \<longrightarrow> i < ?c ! k \<longrightarrow> 2 * i < ?c ! (k - 1)"
    using k unfolding le_4 by (elim insertE; simp; presburger)+
  note bits = example_bits [OF k]
  show "live 4 (sbit example_buddy) k i" if "abit example_buddy k i" using that c(1) unfolding bits(1) example_live [OF k] by blast
  assume 0: "0 < k" and s: "sbit example_buddy k i"
  then have i: "i < ?c ! k" using bits(2) by simp
  then show "abit example_buddy k i" by (simp only: bits(1))
  have "abit example_buddy (k - 1) (2 * i)" using example_bits(1) [of "k - 1" "2 * i"] k c(2) 0 i by simp
  then show "abit example_buddy (k - 1) (2 * i) \<or> abit example_buddy (k - 1) (2 * i + 1)" by blast
qed

lemma example_lists: "bd_lists example_buddy 4 {(0, 11), (2, 3)}"
proof -
  let ?ls = "(\<lambda>_. [])(0 := [0x10B0], 2 := [0x10C0 :: u64])"
  have la: "leaf_addr example_buddy x = 0x1000 + of_nat (16 * x)" for x by (simp add: leaf_addr_def)
  have l5: "k < Suc 4 \<longleftrightarrow> k \<in> {0, 1, 2, 3, 4 :: nat}" for k by auto
  have "dlls (lnext example_buddy) (lprev example_buddy) (\<lambda>k. leaf_addr example_buddy (2 * k)) ?ls (Suc 4)"
    unfolding dlls_def l5 la
  proof (intro conjI ballI allI impI)
    fix k :: nat
    assume k: "k \<in> {0, 1, 2, 3, 4}"
    then show "dll (lnext example_buddy) (lprev example_buddy) (0x1000 + of_nat (16 * (2 * k))) (?ls k)"
      by (elim insertE; simp add: dll_def example_buddy_def)
    fix j :: nat
    assume "j \<in> {0, 1, 2, 3, 4}" "k \<noteq> j"
    then show "set ((0x1000 + of_nat (16 * (2 * k))) # ?ls k) \<inter> set ((0x1000 + of_nat (16 * (2 * j))) # ?ls j) = {}"
      using k by (elim insertE; simp)
  qed
  moreover have "\<forall>k\<le>4. set (?ls k) = (\<lambda>i. leaf_addr example_buddy (i * 2 ^ k)) ` {i. (k, i) \<in> {(0, 11), (2, 3)}}"
    unfolding le_4 la by auto
  ultimately show ?thesis unfolding bd_lists_def by blast
qed

lemma example_inv: "bd_inv 10 example_buddy"
proof -
  have "ba.defined_to (sz_alloc (sizes example_buddy ! k)) (2 ^ (4 - k)) \<and>
      (0 < k \<longrightarrow> ba.defined_to (sz_split (sizes example_buddy ! k)) (2 ^ (4 - k)))" if "k \<le> 4" for k
    using that example_isset(5) [of 0] by (auto simp: le_4 example_buddy_def ba.defined_to_def example_isset)
  then have "bd_arrays example_buddy 4" by (simp add: bd_arrays_def)
  moreover have "\<forall>x<10. (0, x) \<in> useds 4 (abit example_buddy) (sbit example_buddy)"
    using example_bits(1) [of 0] by (auto simp: useds_def inode_def)
  ultimately show ?thesis
    using example_shape example_lists by (auto simp: bd_inv_def bd_core_def bd_state_def example_frees inode_def)
qed

lemma example_used: "(0, 10) \<in> used_blocks example_buddy"
  using example_bits(1) [of 0] by (simp add: used_blocks_def useds_def inode_def)

theorem bd_malloc_gives_block_witness:
  "\<exists>i s'. bd_malloc 20 example_buddy = Done (leaf_addr example_buddy (i * 2)) s' \<and> bd_inv 10 s' \<and> 10 \<le> i * 2 \<and> Suc i * 2 \<le> 16 \<and>
    (1, i) \<in> used_blocks s'"
proof -
  have "returns (bd_malloc 20 example_buddy) (\<lambda>r s'. bd_inv 10 s' \<and> bd_frame example_buddy s' \<and>
    (\<exists>k. unat (20 :: u64) \<le> BLK_SIZE k \<and> (\<forall>j<k. BLK_SIZE j < unat (20 :: u64)) \<and>
      (if \<exists>j i. k \<le> j \<and> (j, i) \<in> free_blocks example_buddy
       then \<exists>i. r = leaf_addr example_buddy (i * 2 ^ k) \<and> 10 \<le> i * 2 ^ k \<and> Suc i * 2 ^ k \<le> 2 ^ MAXSIZE example_buddy \<and>
         used_blocks s' = insert (k, i) (used_blocks example_buddy) \<and> (\<forall>(j, l)\<in>used_blocks example_buddy. brange k i \<inter> brange j l = {})
       else r = 0 \<and> s' = example_buddy)))"
    by (rule bd_malloc_gives_block [OF example_inv]) (simp add: word_le_nat_alt)
  then obtain r s' k where res: "bd_malloc 20 example_buddy = Done r s'" "bd_inv 10 s'"
      and k: "20 \<le> BLK_SIZE k" "\<forall>j<k. BLK_SIZE j < 20"
      and d: "if \<exists>j i. k \<le> j \<and> (j, i) \<in> free_blocks example_buddy
       then \<exists>i. r = leaf_addr example_buddy (i * 2 ^ k) \<and> 10 \<le> i * 2 ^ k \<and> Suc i * 2 ^ k \<le> 2 ^ MAXSIZE example_buddy \<and>
         used_blocks s' = insert (k, i) (used_blocks example_buddy) \<and> (\<forall>(j, l)\<in>used_blocks example_buddy. brange k i \<inter> brange j l = {})
       else r = 0 \<and> s' = example_buddy"
    unfolding returns_iff by auto
  have "k \<noteq> 0" using k(1) by (intro notI) (simp add: BLK_SIZE_def LEAF_SIZE_def)
  moreover have "\<not> 1 < k" using k(2) by (auto simp: BLK_SIZE_def LEAF_SIZE_def)
  ultimately have k1: "k = 1" by simp
  have "(2, 3) \<in> free_blocks example_buddy" by (simp add: free_blocks_def example_frees)
  then have "\<exists>j i. k \<le> j \<and> (j, i) \<in> free_blocks example_buddy" unfolding k1 by (intro exI [of _ 2] exI [of _ 3]) simp
  then show ?thesis using d res unfolding k1 by auto
qed

theorem bd_free_returns_block_witness:
  "\<exists>s'. bd_free (leaf_addr example_buddy 10) example_buddy = Done () s' \<and> bd_inv 10 s' \<and> (0, 10) \<notin> used_blocks s'"
  using bd_free_returns_block [OF example_inv example_used] by (auto simp: returns_iff)

theorem bd_malloc_hangs_witness:
  "bd_malloc (2 ^ 63 + 1) example_buddy = Loop (example_buddy\<lparr>held := [LBuddy]\<rparr>)"
  using bd_malloc_hangs [of example_buddy "2 ^ 63 + 1"] by simp

end
