(* ===== verification/Spec2Isabelle.thy ===== *)
theory Spec2Isabelle
  imports Trap Transaction Lifecycle Pipequeue Grep Uprogs Umalloc Buddyheap
begin

text \<open>
  A verification development of xv6 for RISC-V (the tree of fall 2019): the kernel in
  \<open>src/kernel\<close> and the user library and programs in \<open>src/user\<close>.

  \<^bold>\<open>How the code is modelled.\<close> A C function of the kernel is a function from a machine state
  to an \<open>outcome\<close>: \<open>Done\<close> with a result and a state, \<open>Panic\<close> with the message, \<open>Sleep\<close> when the caller sleeps
  for good, and \<open>Loop\<close> when a loop of the model has used up its fuel (theory \<open>Prelude\<close>). The states are
  records that extend one another in the order of the layers: \<open>hart\<close> (the spin locks held), \<open>kmachine\<close>
  (byte memory and free list), \<open>vmachine\<close> (kernel page table), \<open>pmachine\<close> (process table), \<open>bmachine\<close> (buffer cache and
  disk), \<open>lmachine\<close> (log), \<open>fmachine\<close> (super block and inodes), \<open>umachine\<close> (console output), and the pipes, files and
  the remaining devices above them. Integers are words of their C width. Pages, page tables and the free list
  live in byte memory and are reached through addresses; the tables of the kernel (processes, buffers,
  inodes, files, pipes) are lists or functions of records. What other processes and devices do while
  a process sleeps is an explicit list of environment steps, one for each time it wakes up. A user program is a function of
  its arguments and of an environment that answers every system call from the history of calls.

  \<^bold>\<open>The kernel, theory by theory.\<close>
  \<^item> \<open>Kstring\<close>: \<open>string.c\<close>. \<open>Memlayout\<close>: the page and entry arithmetic of \<open>riscv.h\<close> and \<open>memlayout.h\<close>.
  \<^item> \<open>Spinlock\<close>: \<open>spinlock.c\<close> twice, as steps of interleaved harts and as the list of held locks that
    the other theories use; the second is proved to be what each hart observes of the first.
  \<^item> \<open>Kalloc\<close>: \<open>kalloc.c\<close>, with the interface of a page allocator as a locale.
  \<^item> \<open>Vm\<close>: \<open>vm.c\<close>. \<open>Pagetable\<close> shows that a page table is a finite map and what \<open>walk\<close> and \<open>mappages\<close> do to
    it; \<open>Addrspace\<close>, \<open>Uvmfree\<close>, \<open>Uvmcopy\<close>, \<open>Procvm\<close>, \<open>Isolation\<close> and \<open>Usercopy\<close> hold the address space
    invariant and the behaviour of each function; \<open>Vmsteps\<close> covers the calls when memory is short, and
    \<open>Lifecycle\<close> is the step relation on all address spaces of the machine.
  \<^item> \<open>Proc\<close> and \<open>Process\<close>: \<open>proc.c\<close>. \<open>Sleeplock\<close>: \<open>sleeplock.c\<close>.
  \<^item> \<open>Bio\<close>: \<open>bio.c\<close>; \<open>Dll\<close> and \<open>Bcache\<close> hold the invariant of the LRU list and of the cache.
  \<^item> \<open>Log\<close>: \<open>log.c\<close>; \<open>Journal\<close> is the crash argument of a redo log on an abstract disk as a locale, \<open>Commit\<close>
    interprets it on the log of the kernel, and \<open>Transaction\<close> states the results.
  \<^item> \<open>Fs\<close> and \<open>Dir\<close>: \<open>fs.c\<close>. \<open>File\<close>: \<open>file.c\<close>. \<open>Pipe\<close>: \<open>pipe.c\<close>, seen as a bounded queue in \<open>Pipequeue\<close>.
  \<^item> \<open>Printf\<close>: \<open>printf.c\<close>. \<open>Console\<close>: \<open>console.c\<close> and the interrupt handler of \<open>uart.c\<close>.
  \<^item> \<open>Exec\<close>: \<open>exec.c\<close>. \<open>Sysarg\<close> and \<open>Sysfile\<close>: \<open>syscall.c\<close>, \<open>sysproc.c\<close> and \<open>sysfile.c\<close>. \<open>Trap\<close>: \<open>trap.c\<close>,
    \<open>plic.c\<close>, the system call table and \<open>main.c\<close>.
  \<^item> \<open>Buddy\<close>: \<open>buddy.c\<close> and \<open>list.c\<close>; \<open>Buddytree\<close> and \<open>Buddyheap\<close> relate the bit arrays and the free
    lists to a tree of blocks.

  \<^bold>\<open>User space.\<close> \<open>Ulib\<close>: \<open>ulib.c\<close> and \<open>printf.c\<close>. \<open>Umalloc\<close>: \<open>umalloc.c\<close>. \<open>Uio\<close>: what it means that a file
  descriptor delivers a file. \<open>Grep\<close>: \<open>grep.c\<close>. \<open>Sh\<close>: \<open>sh.c\<close>. \<open>Uprogs\<close>: the other programs.

  \<^bold>\<open>What is proved.\<close>
  \<^item> The log: after a crash at any write of a commit the next recovery leaves every block outside
    the log as before or as after the transaction; recovery can itself be interrupted; the last
    \<open>end_op\<close> leaves the transaction on the disk; \<open>log_write\<close> absorbs repeated blocks; what \<open>begin_op\<close> reserves and what
    \<open>log_write\<close> then accepts. The log area is the \<open>LOGSIZE\<close> = 30 blocks of the superblock, a header and 29 slots, and
    the blocks outside it begin with the first inode block.
  \<^item> Virtual memory: from boot on, through every sequence of calls and with any amount of free memory, address spaces stay well formed and
    disjoint from each other and from the free list; a call on one leaves the others unchanged; which calls lose pages. Each
    function of \<open>vm.c\<close> is described on its success and failure paths, and \<open>copyout\<close> followed by \<open>copyin\<close> gives the bytes back.
  \<^item> The buffer cache delivers the content of the block and keeps its invariant; the page allocator, the spin locks and the pipes
    implement the page set, mutual exclusion and the bounded queue.
  \<^item> The two heap allocators hand out blocks that overlap nothing in use and take them back, joined with
    their free neighbours.
  \<^item> The parser of the shell terminates and its words are the words of the line; the matcher of \<open>grep\<close> decides
    the language of the pattern, and \<open>grep\<close> writes the matching lines; \<open>atoi\<close> reads what \<open>printf\<close> prints.
  \<^item> Where the code does not do what it means to, a theorem says what it does: the reference counts after recovery,
    the panic of \<open>uvmcopy\<close>, the pages \<open>proc_freepagetable\<close> loses, the loop of \<open>bd_malloc\<close> that does not end.
  The file system above the log, files, system calls, traps, \<open>exec\<close> and the small user programs are modelled and have no
  theorem of their own.

  \<^bold>\<open>Fuel.\<close> Loops are structural recursion or have a termination proof where the code allows it.
  Loops over pages carry one unit of fuel per page of the range, and two more, which the lemmas show to be enough;
  \<open>freewalk\<close> descends three levels; the searches in the LRU list have one unit per buffer and the
  head; the loops over directory entries and segments one per entry of the range they walk;
  the size search of \<open>bd_malloc\<close>, which may run forever, is a partial function whose value is then
  \<open>None\<close>; the parser of the shell has four units per byte of the line and a constant, and never
  runs out. Loops over input whose length the program does not know, in user programs, take the fuel as
  an argument, and the theorems say how much is enough.

  \<^bold>\<open>What is not modelled.\<close> \<open>virtio_disk.c\<close>: the descriptor rings are shared with the device, and the cache uses the
  driver only through \<open>disk_rw\<close>, the synchronous transfer of a block; \<open>ramdisk.c\<close>, which is not part of
  the build. \<open>start.c\<close> and the assembly files, which run before the first C function or save registers; they
  appear as the point where the trap functions start. \<open>uartinit\<close> and the register accesses of the UART. Instruction caches, memory
  ordering and timing. \<open>mkfs.c\<close>, a tool of the host; the test programs of \<open>src/user\<close> and the grading scripts.
\<close>

end
